(* ===== verification/Prelude.thy ===== *)
theory Prelude
  imports Main "HOL-Library.Word"
begin

unbundle bit_operations_syntax

text \<open>
  Shared vocabulary of the development: the machine integer types of \<open>kernel/types.h\<close>, byte
  arrays, the state-and-outcome monad in which the C functions are written, the loop combinators
  for \<open>for\<close> loops over tables, and the generic facts on words, lists and runs of the monad that
  the component theories share.
\<close>

section \<open>Machine integers and byte arrays\<close>

type_synonym u8 = "8 word"
type_synonym u16 = "16 word"
type_synonym u32 = "32 word"
type_synonym u64 = "64 word"

text \<open>
  A C array of bytes (and the physical memory) is a function from offsets to bytes; a pointer into
  it is an offset.
\<close>

type_synonym bytes = "nat \<Rightarrow> u8"

section \<open>Runs of kernel code\<close>

text \<open>
  Running C code in a state either returns a value in a new state, panics with a message, gives
  the CPU away (\<open>Switch\<close>: the thread is suspended inside \<open>sched()\<close> and the code after it runs when
  the scheduler resumes the thread), or loops forever on the spot (\<open>Hang\<close>: a spin loop whose
  condition nothing in this thread can change).
\<close>

datatype ('a, 's) outcome =
    Ret 'a 's
  | Panic string 's
  | Switch 's
  | Hang 's

type_synonym ('s, 'a) kmon = "'s \<Rightarrow> ('a, 's) outcome"

definition kret :: "'a \<Rightarrow> ('s, 'a) kmon" where
  "kret x = (\<lambda>s. Ret x s)"

definition kbind :: "('s, 'a) kmon \<Rightarrow> ('a \<Rightarrow> ('s, 'b) kmon) \<Rightarrow> ('s, 'b) kmon" where
  "kbind m f = (\<lambda>s. case m s of
      Ret x s' \<Rightarrow> f x s'
    | Panic e s' \<Rightarrow> Panic e s'
    | Switch s' \<Rightarrow> Switch s'
    | Hang s' \<Rightarrow> Hang s')"

definition kget :: "('s \<Rightarrow> 'a) \<Rightarrow> ('s, 'a) kmon" where
  "kget f = (\<lambda>s. Ret (f s) s)"

definition kmod :: "('s \<Rightarrow> 's) \<Rightarrow> ('s, unit) kmon" where
  "kmod f = (\<lambda>s. Ret () (f s))"

definition kpanic :: "string \<Rightarrow> ('s, 'a) kmon" where
  "kpanic e = (\<lambda>s. Panic e s)"

definition kswitch :: "('s, 'a) kmon" where
  "kswitch = (\<lambda>s. Switch s)"

definition khang :: "('s, 'a) kmon" where
  "khang = (\<lambda>s. Hang s)"

definition kwhen :: "bool \<Rightarrow> ('s, unit) kmon \<Rightarrow> ('s, unit) kmon" where
  "kwhen b m = (if b then m else kret ())"

text \<open>Straight-line code: a sequence of statements.\<close>

fun kseq :: "('s, unit) kmon list \<Rightarrow> ('s, unit) kmon" where
  "kseq [] = kret ()"
| "kseq (m # ms) = kbind m (\<lambda>_. kseq ms)"

text \<open>A \<open>for\<close> loop without early exit, and one whose body may leave the loop with a value.\<close>

fun kfor :: "'i list \<Rightarrow> ('i \<Rightarrow> ('s, unit) kmon) \<Rightarrow> ('s, unit) kmon" where
  "kfor [] body = kret ()"
| "kfor (i # is) body = kbind (body i) (\<lambda>_. kfor is body)"

fun kfind :: "'i list \<Rightarrow> ('i \<Rightarrow> ('s, 'r option) kmon) \<Rightarrow> ('s, 'r option) kmon" where
  "kfind [] body = kret None"
| "kfind (i # is) body =
     kbind (body i) (\<lambda>r. case r of Some v \<Rightarrow> kret (Some v) | None \<Rightarrow> kfind is body)"

text \<open>The results of running a piece of code \<open>n\<close> times.\<close>

fun kmany :: "nat \<Rightarrow> ('s, 'a) kmon \<Rightarrow> ('s, 'a list) kmon" where
  "kmany 0 m = kret []"
| "kmany (Suc n) m = kbind m (\<lambda>x. kbind (kmany n m) (\<lambda>xs. kret (x # xs)))"

text \<open>
  A loop with local variables \<open>i\<close>: the body either goes on with new values (\<open>Inl\<close>) or leaves the loop
  (\<open>Inr\<close>). It runs at most \<open>n\<close> times; a loop that is still running then is taken to spin. Where the
  combinator is used, \<open>n\<close> is a bound the loop does not exceed.
\<close>

fun kiter :: "nat \<Rightarrow> ('i \<Rightarrow> ('s, 'i + 'r) kmon) \<Rightarrow> 'i \<Rightarrow> ('s, 'r) kmon" where
  "kiter 0 body i = khang"
| "kiter (Suc n) body i =
     kbind (body i) (\<lambda>r. case r of Inl j \<Rightarrow> kiter n body j | Inr v \<Rightarrow> kret v)"

text \<open>Code written for a part of the state runs in the whole state.\<close>

definition klift :: "('s \<Rightarrow> 't) \<Rightarrow> ('t \<Rightarrow> 's \<Rightarrow> 's) \<Rightarrow> ('t, 'a) kmon \<Rightarrow> ('s, 'a) kmon" where
  "klift get put m = (\<lambda>s. case m (get s) of
      Ret x t \<Rightarrow> Ret x (put t s)
    | Panic e t \<Rightarrow> Panic e (put t s)
    | Switch t \<Rightarrow> Switch (put t s)
    | Hang t \<Rightarrow> Hang (put t s))"

named_theorems run_simps \<open>one-step execution of the monad\<close>

lemma kret_run [run_simps]: "kret x s = Ret x s"
  by (simp add: kret_def)

lemma kbind_run [run_simps]: "kbind m f s = (case m s of
      Ret x s' \<Rightarrow> f x s' | Panic e s' \<Rightarrow> Panic e s' | Switch s' \<Rightarrow> Switch s' | Hang s' \<Rightarrow> Hang s')"
  by (simp add: kbind_def)

lemma kget_run [run_simps]: "kget f s = Ret (f s) s"
  by (simp add: kget_def)

lemma kmod_run [run_simps]: "kmod f s = Ret () (f s)"
  by (simp add: kmod_def)

lemma kpanic_run [run_simps]: "kpanic e s = Panic e s"
  by (simp add: kpanic_def)

lemma kswitch_run [run_simps]: "kswitch s = Switch s"
  by (simp add: kswitch_def)

lemma khang_run [run_simps]: "khang s = Hang s"
  by (simp add: khang_def)

lemma kwhen_run [run_simps]: "kwhen b m s = (if b then m s else Ret () s)"
  by (simp add: kwhen_def kret_def)

lemma kseq_Nil_run [run_simps]: "kseq [] s = Ret () s"
  by (simp add: kret_def)

lemma kseq_Cons_run [run_simps]: "kseq (m # ms) s = kbind m (\<lambda>_. kseq ms) s"
  by simp

declare kseq.simps [simp del]

lemma klift_run [run_simps]: "klift get put m s = (case m (get s) of
      Ret x t \<Rightarrow> Ret x (put t s) | Panic e t \<Rightarrow> Panic e (put t s)
    | Switch t \<Rightarrow> Switch (put t s) | Hang t \<Rightarrow> Hang (put t s))"
  by (simp add: klift_def)

text \<open>The laws of the monad.\<close>

lemma kbind_assoc: "kbind (kbind m f) g = kbind m (\<lambda>x. kbind (f x) g)"
  by (rule ext) (simp add: kbind_run split: outcome.split)

lemma kbind_kret: "kbind (kret x) f = f x"
  by (rule ext) (simp add: kbind_run kret_run)

lemma kbind_eqI: "(\<And>x. f x = g x) \<Longrightarrow> kbind m f = kbind m g"
  by (rule ext) (simp add: kbind_run split: outcome.split)

text \<open>
  Total correctness of a run: started in a state satisfying \<open>P\<close>, the code returns, and result and
  final state satisfy \<open>Q\<close>.
\<close>

definition returns :: "'s \<Rightarrow> ('s, 'a) kmon \<Rightarrow> ('a \<Rightarrow> 's \<Rightarrow> bool) \<Rightarrow> bool" where
  "returns s m Q \<longleftrightarrow> (\<exists>x s'. m s = Ret x s' \<and> Q x s')"

lemma returnsI: "m s = Ret x s' \<Longrightarrow> Q x s' \<Longrightarrow> returns s m Q"
  by (auto simp: returns_def)

lemma returnsE:
  assumes "returns s m Q"
  obtains x s' where "m s = Ret x s'" and "Q x s'"
  using assms by (auto simp: returns_def)

lemma returns_mono: "returns s m Q \<Longrightarrow> (\<And>x s'. Q x s' \<Longrightarrow> R x s') \<Longrightarrow> returns s m R"
  by (auto simp: returns_def)

lemma returns_kret [simp]: "returns s (kret x) Q \<longleftrightarrow> Q x s"
  by (simp add: returns_def kret_def)

lemma returns_bind:
  assumes "returns s m Q" and "\<And>x s'. Q x s' \<Longrightarrow> returns s' (f x) R"
  shows "returns s (kbind m f) R"
  using assms by (fastforce simp: returns_def kbind_def)

lemma returns_kfor:
  assumes "I 0 s"
    and "\<And>k t. k < length xs \<Longrightarrow> I k t \<Longrightarrow> returns t (body (xs ! k)) (\<lambda>_. I (Suc k))"
  shows "returns s (kfor xs body) (\<lambda>_. I (length xs))"
  using assms
proof (induction xs arbitrary: s I)
  case Nil
  then show ?case by (simp add: returns_def kret_def)
next
  case (Cons x xs)
  have first: "returns s (body x) (\<lambda>_. I (Suc 0))"
    using Cons.prems(1) Cons.prems(2) [of 0 s] by simp
  have rest: "returns t (kfor xs body) (\<lambda>_. I (length (x # xs)))" if "I (Suc 0) t" for t
  proof -
    have "returns t (kfor xs body) (\<lambda>_. (\<lambda>k. I (Suc k)) (length xs))"
    proof (rule Cons.IH)
      show "I (Suc 0) t" by (rule that)
      show "returns u (body (xs ! k)) (\<lambda>_. I (Suc (Suc k)))" if "k < length xs" "I (Suc k) u" for k u
        using Cons.prems(2) [of "Suc k" u] that by simp
    qed
    then show ?thesis by simp
  qed
  show ?case
    by (simp only: kfor.simps, rule returns_bind [OF first rest])
qed

text \<open>A loop with an invariant and a measure that each further round decreases.\<close>

lemma returns_kiter:
  assumes "I i s" and "\<mu> i < (n::nat)"
    and "\<And>i s. I i s \<Longrightarrow> returns s (body i) (\<lambda>r t. case r of
      Inl j \<Rightarrow> I j t \<and> \<mu> j < \<mu> i | Inr v \<Rightarrow> Q v t)"
  shows "returns s (kiter n body i) Q"
  using assms(1,2)
proof (induction n arbitrary: i s)
  case (Suc n)
  show ?case
    unfolding kiter.simps
  proof (rule returns_bind [OF assms(3) [OF Suc.prems(1)]])
    fix r t assume r: "case r of Inl j \<Rightarrow> I j t \<and> \<mu> j < \<mu> i | Inr v \<Rightarrow> Q v t"
    show "returns t (case r of Inl j \<Rightarrow> kiter n body j | Inr v \<Rightarrow> kret v) Q"
      using r Suc.IH Suc.prems(2) by (cases r) (auto simp: returns_def kret_def)
  qed
qed simp

text \<open>Code that keeps a part \<open>f\<close> of the state when it returns; the rules follow the structure of the code.\<close>

definition keeps :: "('s \<Rightarrow> 'b) \<Rightarrow> ('s, 'a) kmon \<Rightarrow> bool" where
  "keeps f m \<longleftrightarrow> (\<forall>s x s'. m s = Ret x s' \<longrightarrow> f s' = f s)"

named_theorems keeps_rules \<open>code that keeps a part of the state\<close>

lemma keepsD: "keeps f m \<Longrightarrow> m s = Ret x s' \<Longrightarrow> f s' = f s"
  by (simp add: keeps_def)

lemma keeps_basic [keeps_rules]:
  "keeps f (kret x)" "keeps f (kget g)" "keeps f (kpanic e)" "keeps f khang" "keeps f kswitch"
  by (simp_all add: keeps_def run_simps)

lemma keeps_kmod [keeps_rules]: "(\<And>s. f (g s) = f s) \<Longrightarrow> keeps f (kmod g)"
  by (simp add: keeps_def run_simps)

lemma keeps_kbind [keeps_rules]:
  assumes "keeps f m" and "\<And>x. keeps f (g x)"
  shows "keeps f (kbind m g)"
  unfolding keeps_def
proof (intro allI impI)
  fix s x s' assume "kbind m g s = Ret x s'"
  then obtain y t where "m s = Ret y t" "g y t = Ret x s'" by (auto simp: kbind_run split: outcome.splits)
  then show "f s' = f s" using keepsD [OF assms(1)] keepsD [OF assms(2)] by metis
qed

lemma keeps_kwhen [keeps_rules]: "keeps f m \<Longrightarrow> keeps f (kwhen b m)"
  by (simp add: kwhen_def keeps_basic)

lemma keeps_kseq [keeps_rules]: "keeps f (kseq [])" "keeps f m \<Longrightarrow> keeps f (kseq ms) \<Longrightarrow> keeps f (kseq (m # ms))"
  by (simp_all add: kseq.simps keeps_rules)

lemma keeps_kfor [keeps_rules]: "(\<And>i. keeps f (body i)) \<Longrightarrow> keeps f (kfor is body)"
  by (induction "is") (auto intro!: keeps_rules)

lemma keeps_kfind [keeps_rules]: "(\<And>i. keeps f (body i)) \<Longrightarrow> keeps f (kfind is body)"
  by (induction "is") (auto intro!: keeps_rules split: option.split)

lemma keeps_kiter [keeps_rules]: "(\<And>i. keeps f (body i)) \<Longrightarrow> keeps f (kiter n body i)"
  by (induction n arbitrary: i) (auto intro!: keeps_rules split: sum.split)

lemma keeps_klift [keeps_rules]: "(\<And>t s. f (put t s) = f s) \<Longrightarrow> keeps f (klift get put m)"
  by (auto simp: keeps_def klift_run split: outcome.splits)

lemma keeps_if [keeps_rules]: "keeps f m \<Longrightarrow> keeps f m' \<Longrightarrow> keeps f (if b then m else m')"
  by simp

lemma keeps_case [keeps_rules]:
  "keeps f n \<Longrightarrow> (\<And>x. keeps f (g x)) \<Longrightarrow> keeps f (case o1 of None \<Rightarrow> n | Some x \<Rightarrow> g x)"
  "(\<And>x y. keeps f (h x y)) \<Longrightarrow> keeps f (case p of (x, y) \<Rightarrow> h x y)"
  by (simp_all split: option.split prod.split)

section \<open>Words\<close>

lemma word_and_not_mask: "(x::'a::len word) AND NOT (mask n) = push_bit n (drop_bit n x)"
  by (rule bit_word_eqI) (auto simp: bit_simps)

lemma unat_less_length: "unat (x::'a::len word) < 2 ^ LENGTH('a)"
  by (rule unsigned_less)

lemma unat_and_not_mask: "unat ((x::'a::len word) AND NOT (mask n)) = unat x div 2 ^ n * 2 ^ n"
proof -
  have "drop_bit n (unat x) * 2 ^ n \<le> unat x"
    by (simp add: drop_bit_eq_div)
  then have "drop_bit n (unat x) * 2 ^ n < 2 ^ LENGTH('a)"
    using unat_less_length [of x] by (rule le_less_trans)
  then have "take_bit LENGTH('a) (push_bit n (drop_bit n (unat x))) = push_bit n (drop_bit n (unat x))"
    by (simp add: push_bit_eq_mult take_bit_nat_eq_self)
  moreover have "unat (x AND NOT (mask n)) = take_bit LENGTH('a) (push_bit n (drop_bit n (unat x)))"
    by (simp only: word_and_not_mask unsigned_push_bit_eq unat_drop_bit_eq)
  ultimately show ?thesis
    by (simp add: push_bit_eq_mult drop_bit_eq_div)
qed

lemma bit_push_bit_one: "bit (push_bit k 1 :: 'a::len word) n \<longleftrightarrow> k < LENGTH('a) \<and> n = k"
  by (auto simp: bit_exp_iff)

lemma unat_of_nat_less: "n < 2 ^ LENGTH('a) \<Longrightarrow> unat (of_nat n :: 'a::len word) = n"
  by (simp add: unat_of_nat take_bit_nat_eq_self)

lemma unat_of_int_less:
  assumes "0 \<le> i" and "i < 2 ^ LENGTH('a)"
  shows "unat (of_int i :: 'a::len word) = nat i"
proof -
  obtain n where n: "i = int n" using assms(1) by (rule nonneg_int_cases)
  then have "int n < int (2 ^ LENGTH('a))" using assms(2) by simp
  then have "n < 2 ^ LENGTH('a)" by (simp only: of_nat_less_iff)
  then show ?thesis by (simp add: n unat_of_nat_less)
qed

end
