(* ===== verification/Machine.thy ===== *)
theory Machine
  imports Prelude
begin

text \<open>
  The machine the kernel runs on: the parameters of \<open>kernel/param.h\<close>, the memory layout of
  \<open>kernel/memlayout.h\<close>, the page-table and status-register macros of \<open>kernel/riscv.h\<close>, the
  control registers of a hart with their accessors, and little-endian loads and stores on byte
  arrays (physical memory, disk blocks).
\<close>

section \<open>Parameters (kernel/param.h)\<close>

abbreviation (input) NPROC :: nat where "NPROC \<equiv> 64"
abbreviation (input) NCPU :: nat where "NCPU \<equiv> 8"
abbreviation (input) NOFILE :: nat where "NOFILE \<equiv> 16"
abbreviation (input) NFILE :: nat where "NFILE \<equiv> 100"
abbreviation (input) NINODE :: nat where "NINODE \<equiv> 50"
abbreviation (input) NDEV :: nat where "NDEV \<equiv> 10"
abbreviation (input) ROOTDEV :: u32 where "ROOTDEV \<equiv> 1"
abbreviation (input) MAXARG :: nat where "MAXARG \<equiv> 32"
abbreviation (input) MAXOPBLOCKS :: nat where "MAXOPBLOCKS \<equiv> 10"
abbreviation (input) LOGSIZE :: nat where "LOGSIZE \<equiv> MAXOPBLOCKS * 3"
abbreviation (input) NBUF :: nat where "NBUF \<equiv> MAXOPBLOCKS * 3"
abbreviation (input) FSSIZE :: nat where "FSSIZE \<equiv> 1000"
abbreviation (input) MAXPATH :: nat where "MAXPATH \<equiv> 128"

section \<open>Pages and page-table entries (kernel/riscv.h)\<close>

abbreviation (input) PGSIZE :: "'a::numeral" where "PGSIZE \<equiv> 4096"
abbreviation (input) PGSHIFT :: nat where "PGSHIFT \<equiv> 12"

definition PGROUNDUP :: "u64 \<Rightarrow> u64" where
  "PGROUNDUP sz = (sz + PGSIZE - 1) AND NOT (PGSIZE - 1)"

definition PGROUNDDOWN :: "u64 \<Rightarrow> u64" where
  "PGROUNDDOWN a = a AND NOT (PGSIZE - 1)"

abbreviation (input) PTE_V :: u64 where "PTE_V \<equiv> 1"
abbreviation (input) PTE_R :: u64 where "PTE_R \<equiv> 2"
abbreviation (input) PTE_W :: u64 where "PTE_W \<equiv> 4"
abbreviation (input) PTE_X :: u64 where "PTE_X \<equiv> 8"
abbreviation (input) PTE_U :: u64 where "PTE_U \<equiv> 16"

definition PA2PTE :: "u64 \<Rightarrow> u64" where
  "PA2PTE pa = push_bit 10 (drop_bit 12 pa)"

definition PTE2PA :: "u64 \<Rightarrow> u64" where
  "PTE2PA pte = push_bit 12 (drop_bit 10 pte)"

definition PTE_FLAGS :: "u64 \<Rightarrow> u64" where
  "PTE_FLAGS pte = pte AND 0x3FF"

abbreviation (input) PXMASK :: u64 where "PXMASK \<equiv> 0x1FF"

definition PXSHIFT :: "nat \<Rightarrow> nat" where
  "PXSHIFT level = PGSHIFT + 9 * level"

definition PX :: "nat \<Rightarrow> u64 \<Rightarrow> u64" where
  "PX level va = drop_bit (PXSHIFT level) va AND PXMASK"

abbreviation (input) MAXVA :: u64 where "MAXVA \<equiv> 0x4000000000"

definition MAKE_SATP :: "u64 \<Rightarrow> u64" where
  "MAKE_SATP pagetable = push_bit 60 8 OR drop_bit 12 pagetable"

section \<open>Physical and virtual memory layout (kernel/memlayout.h)\<close>

abbreviation (input) UART0 :: u64 where "UART0 \<equiv> 0x10000000"
abbreviation (input) UART0_IRQ :: nat where "UART0_IRQ \<equiv> 10"
abbreviation (input) VIRTIO0 :: u64 where "VIRTIO0 \<equiv> 0x10001000"
abbreviation (input) VIRTIO0_IRQ :: nat where "VIRTIO0_IRQ \<equiv> 1"
abbreviation (input) CLINT :: u64 where "CLINT \<equiv> 0x2000000"
definition CLINT_MTIMECMP :: "u64 \<Rightarrow> u64" where "CLINT_MTIMECMP hartid = CLINT + 0x4000 + 8 * hartid"
abbreviation (input) CLINT_MTIME :: u64 where "CLINT_MTIME \<equiv> CLINT + 0xBFF8"
abbreviation (input) PLIC :: u64 where "PLIC \<equiv> 0x0c000000"
definition PLIC_SENABLE :: "u64 \<Rightarrow> u64" where "PLIC_SENABLE hart = PLIC + 0x2080 + hart * 0x100"
definition PLIC_SPRIORITY :: "u64 \<Rightarrow> u64" where "PLIC_SPRIORITY hart = PLIC + 0x201000 + hart * 0x2000"
definition PLIC_SCLAIM :: "u64 \<Rightarrow> u64" where "PLIC_SCLAIM hart = PLIC + 0x201004 + hart * 0x2000"
abbreviation (input) KERNBASE :: u64 where "KERNBASE \<equiv> 0x80000000"
abbreviation (input) PHYSTOP :: u64 where "PHYSTOP \<equiv> KERNBASE + 128 * 1024 * 1024"
abbreviation (input) TRAMPOLINE :: u64 where "TRAMPOLINE \<equiv> MAXVA - PGSIZE"
definition KSTACK :: "nat \<Rightarrow> u64" where "KSTACK p = TRAMPOLINE - (of_nat p + 1) * 2 * PGSIZE"
abbreviation (input) TRAPFRAME :: u64 where "TRAPFRAME \<equiv> TRAMPOLINE - PGSIZE"

section \<open>Little-endian loads and stores\<close>

fun le_nat :: "bytes \<Rightarrow> nat \<Rightarrow> nat \<Rightarrow> nat" where
  "le_nat m a 0 = 0"
| "le_nat m a (Suc n) = unat (m a) + 256 * le_nat m (Suc a) n"

definition le_store :: "bytes \<Rightarrow> nat \<Rightarrow> nat \<Rightarrow> nat \<Rightarrow> bytes" where
  "le_store m a n v = (\<lambda>j. if a \<le> j \<and> j < a + n then of_nat (v div 256 ^ (j - a)) else m j)"

definition ld16 :: "bytes \<Rightarrow> nat \<Rightarrow> u16" where "ld16 m a = of_nat (le_nat m a 2)"
definition ld32 :: "bytes \<Rightarrow> nat \<Rightarrow> u32" where "ld32 m a = of_nat (le_nat m a 4)"
definition ld64 :: "bytes \<Rightarrow> nat \<Rightarrow> u64" where "ld64 m a = of_nat (le_nat m a 8)"
definition st16 :: "bytes \<Rightarrow> nat \<Rightarrow> u16 \<Rightarrow> bytes" where "st16 m a v = le_store m a 2 (unat v)"
definition st32 :: "bytes \<Rightarrow> nat \<Rightarrow> u32 \<Rightarrow> bytes" where "st32 m a v = le_store m a 4 (unat v)"
definition st64 :: "bytes \<Rightarrow> nat \<Rightarrow> u64 \<Rightarrow> bytes" where "st64 m a v = le_store m a 8 (unat v)"

lemma le_nat_bound: "le_nat m a n < 256 ^ n"
proof (induction n arbitrary: a)
  case (Suc n)
  have "unat (m a) < 256"
    using unat_less_length [of "m a"] by simp
  with Suc.IH [of "Suc a"] show ?case by simp
qed simp

lemma le_nat_cong: "(\<And>i. i < n \<Longrightarrow> m (a + i) = m' (b + i)) \<Longrightarrow> le_nat m a n = le_nat m' b n"
proof (induction n arbitrary: a b)
  case (Suc n)
  have "m a = m' b" using Suc.prems [of 0] by simp
  moreover have "le_nat m (Suc a) n = le_nat m' (Suc b) n"
    using Suc.prems [of "Suc i" for i] by (intro Suc.IH) simp
  ultimately show ?case by simp
qed simp

lemma le_nat_digits:
  "(\<And>i. i < n \<Longrightarrow> m (a + i) = of_nat (v div 256 ^ i)) \<Longrightarrow> le_nat m a n = v mod 256 ^ n"
proof (induction n arbitrary: a v)
  case (Suc n)
  have hd: "m a = of_nat v" using Suc.prems [of 0] by simp
  have "le_nat m (Suc a) n = (v div 256) mod 256 ^ n"
  proof (rule Suc.IH)
    fix i assume "i < n"
    then show "m (Suc a + i) = of_nat (v div 256 div 256 ^ i)"
      using Suc.prems [of "Suc i"] by (simp add: div_mult2_eq)
  qed
  then have "le_nat m a (Suc n) = v mod 256 + 256 * ((v div 256) mod 256 ^ n)"
    by (simp add: hd unat_of_nat take_bit_eq_mod)
  also have "\<dots> = v mod 256 ^ Suc n"
    by (simp add: mod_mult2_eq)
  finally show ?case .
qed simp

lemma le_nat_store_same: "le_nat (le_store m a n v) a n = v mod 256 ^ n"
  by (rule le_nat_digits) (simp add: le_store_def)

lemma le_nat_store_other: "a + k \<le> b \<or> b + n \<le> a \<Longrightarrow> le_nat (le_store m b n v) a k = le_nat m a k"
  by (rule le_nat_cong) (auto simp: le_store_def)

lemma le_store_other: "j < a \<or> a + n \<le> j \<Longrightarrow> le_store m a n v j = m j"
  by (auto simp: le_store_def)

named_theorems mem_simps \<open>loads after stores\<close>

lemma ld64_st64 [mem_simps]: "ld64 (st64 m a v) a = v"
  using unat_less_length [of v]
  by (simp add: ld64_def st64_def le_nat_store_same)

lemma ld32_st32 [mem_simps]: "ld32 (st32 m a v) a = v"
  using unat_less_length [of v]
  by (simp add: ld32_def st32_def le_nat_store_same)

lemma ld16_st16 [mem_simps]: "ld16 (st16 m a v) a = v"
  using unat_less_length [of v]
  by (simp add: ld16_def st16_def le_nat_store_same)

lemma ld64_st64_other [mem_simps]: "a + 8 \<le> b \<or> b + 8 \<le> a \<Longrightarrow> ld64 (st64 m b v) a = ld64 m a"
  by (simp add: ld64_def st64_def le_nat_store_other)

lemma ld32_st32_other [mem_simps]: "a + 4 \<le> b \<or> b + 4 \<le> a \<Longrightarrow> ld32 (st32 m b v) a = ld32 m a"
  by (simp add: ld32_def st32_def le_nat_store_other)

lemma ld64_cong: "(\<And>i. i < 8 \<Longrightarrow> m (a + i) = m' (a + i)) \<Longrightarrow> ld64 m a = ld64 m' a"
  unfolding ld64_def by (subst le_nat_cong [of 8 m a m' a]) auto

lemma ld32_cong: "(\<And>i. i < 4 \<Longrightarrow> m (a + i) = m' (b + i)) \<Longrightarrow> ld32 m a = ld32 m' b"
  unfolding ld32_def by (subst le_nat_cong [of 4 m a m' b]) auto

lemma st64_other: "j < a \<or> a + 8 \<le> j \<Longrightarrow> st64 m a v j = m j"
  by (simp add: st64_def le_store_other)

lemma le_nat_zero: "(\<And>i. i < n \<Longrightarrow> m (a + i) = 0) \<Longrightarrow> le_nat m a n = 0"
proof (induction n arbitrary: a)
  case (Suc n)
  have "le_nat m (Suc a) n = 0"
    using Suc.prems [of "Suc i" for i] by (intro Suc.IH) simp
  with Suc.prems [of 0] show ?case by simp
qed simp

lemma ld64_zero: "(\<And>i. i < 8 \<Longrightarrow> m (a + i) = 0) \<Longrightarrow> ld64 m a = 0"
  by (simp add: ld64_def le_nat_zero)

section \<open>Page arithmetic\<close>

lemma aligned_apart: "a mod n = 0 \<Longrightarrow> b mod n = 0 \<Longrightarrow> a \<noteq> b \<Longrightarrow> a + n \<le> b \<or> b + n \<le> a" for a b n :: nat
proof -
  assume "a mod n = 0" "b mod n = 0" "a \<noteq> b"
  then obtain i j where ij: "a = n * i" "b = n * j" "i \<noteq> j" by (metis mod_0_imp_dvd dvdE)
  then consider "i + 1 \<le> j" | "j + 1 \<le> i" by linarith
  then show ?thesis
  proof cases
    case 1
    then have "n * (i + 1) \<le> n * j" by (rule mult_le_mono2)
    then show ?thesis by (simp add: ij)
  next
    case 2
    then have "n * (j + 1) \<le> n * i" by (rule mult_le_mono2)
    then show ?thesis by (simp add: ij)
  qed
qed

lemma aligned_below: "a mod n = 0 \<Longrightarrow> b mod n = 0 \<Longrightarrow> a < b \<Longrightarrow> a + n \<le> b" for a b n :: nat
  using aligned_apart [of a n b] by auto

lemma unat_aligned: "p mod 4096 = 0 \<longleftrightarrow> unat p mod 4096 = 0" for p :: u64
proof -
  have "p mod 4096 = 0 \<longleftrightarrow> unat (p mod 4096) = 0"
    by (simp only: unat_eq_0)
  then show ?thesis
    by (simp only: unat_mod_distrib unat_numeral) simp
qed

lemma PGROUNDDOWN_mask: "PGROUNDDOWN a = a AND NOT (mask 12)"
  by (simp add: PGROUNDDOWN_def mask_eq_exp_minus_1)

lemma PGROUNDUP_mask: "PGROUNDUP a = (a + 4095) AND NOT (mask 12)"
  by (simp add: PGROUNDUP_def mask_eq_exp_minus_1 add.commute)

lemma unat_PGROUNDDOWN: "unat (PGROUNDDOWN a) = unat a div 4096 * 4096"
  by (simp add: PGROUNDDOWN_mask unat_and_not_mask)

lemma unat_PGROUNDUP:
  assumes "unat a + 4095 < 2 ^ 64"
  shows "unat (PGROUNDUP a) = (unat a + 4095) div 4096 * 4096"
proof -
  have "unat (a + 4095) = unat a + 4095"
    using assms by (simp add: unat_word_ariths)
  then show ?thesis
    by (simp add: PGROUNDUP_mask unat_and_not_mask)
qed

end
