(* ===== verification/Hart.thy ===== *)
theory Hart
  imports Machine
begin

text \<open>
  The state of the harts (cores): the control registers that \<open>kernel/riscv.h\<close> reads and writes with
  inline assembly, the per-CPU structure of \<open>kernel/proc.h\<close> and the spin locks of
  \<open>kernel/spinlock.h\<close>. Code runs on one hart at a time, \<open>curhart\<close>; every accessor reads and writes
  the registers of that hart.
\<close>

section \<open>Control registers\<close>

record hart =
  reg_mhartid :: u64
  reg_mstatus :: u64
  reg_mepc :: u64
  reg_sstatus :: u64
  reg_sip :: u64
  reg_sie :: u64
  reg_mie :: u64
  reg_sepc :: u64
  reg_medeleg :: u64
  reg_mideleg :: u64
  reg_stvec :: u64
  reg_mtvec :: u64
  reg_pmpcfg0 :: u64
  reg_pmpaddr0 :: u64
  reg_satp :: u64
  reg_sscratch :: u64
  reg_mscratch :: u64
  reg_scause :: u64
  reg_stval :: u64
  reg_mcounteren :: u64
  reg_time :: u64
  reg_sp :: u64
  reg_tp :: u64
  reg_ra :: u64

text \<open>Saved registers for kernel context switches (\<open>struct context\<close>).\<close>

record kcontext =
  ctx_ra :: u64
  ctx_sp :: u64
  ctx_s0 :: u64
  ctx_s1 :: u64
  ctx_s2 :: u64
  ctx_s3 :: u64
  ctx_s4 :: u64
  ctx_s5 :: u64
  ctx_s6 :: u64
  ctx_s7 :: u64
  ctx_s8 :: u64
  ctx_s9 :: u64
  ctx_s10 :: u64
  ctx_s11 :: u64

definition zero_context :: kcontext where
  "zero_context = \<lparr>ctx_ra = 0, ctx_sp = 0, ctx_s0 = 0, ctx_s1 = 0, ctx_s2 = 0, ctx_s3 = 0, ctx_s4 = 0,
     ctx_s5 = 0, ctx_s6 = 0, ctx_s7 = 0, ctx_s8 = 0, ctx_s9 = 0, ctx_s10 = 0, ctx_s11 = 0\<rparr>"

text \<open>
  Per-CPU state (\<open>struct cpu\<close>). A \<open>struct proc *\<close> is an index into the process table, \<open>None\<close> the
  null pointer. The nesting depth \<open>noff\<close> is a C \<open>int\<close> that starts at 0 and that \<open>pop_off\<close> never
  takes below 0, so it is a natural number here.
\<close>

record cpu =
  cpu_proc :: "nat option"
  cpu_context :: kcontext
  noff :: nat
  intena :: bool

text \<open>
  Spin locks (\<open>struct spinlock\<close>). The holder is the index of its \<open>struct cpu\<close>. Every spin lock of the
  kernel has a name here; the locks inside sleep locks are those of the buffers and of the inodes,
  and each pipe has the lock in its structure, named by the structure's address.
\<close>

record spinlock =
  locked :: u32
  lk_name :: string
  lk_cpu :: "nat option"

datatype lockid =
    KMEM_LOCK | PID_LOCK | WAIT_LOCK | PROC_LOCK nat | BCACHE_LOCK | LOG_LOCK | ITABLE_LOCK
  | FTABLE_LOCK | PIPE_LOCK u64 | CONS_LOCK | UART_TX_LOCK | VDISK_LOCK | TICKS_LOCK | PR_LOCK
  | BUF_SLEEP_LOCK nat | INODE_SLEEP_LOCK nat

record mach =
  curhart :: nat
  harts :: "nat \<Rightarrow> hart"
  cpus :: "nat \<Rightarrow> cpu"
  locks :: "lockid \<Rightarrow> spinlock"

definition the_hart :: "mach \<Rightarrow> hart" where
  "the_hart m = harts m (curhart m)"

definition upd_hart :: "(hart \<Rightarrow> hart) \<Rightarrow> mach \<Rightarrow> mach" where
  "upd_hart f m = m\<lparr>harts := (harts m)(curhart m := f (harts m (curhart m)))\<rparr>"

section \<open>The machine at boot\<close>

text \<open>
  Zero-initialised data, no lock held, and in each hart's \<open>tp\<close> register the hart's number, which
  \<open>start()\<close> puts there before it enters \<open>main()\<close>.
\<close>

definition boot_hart :: "nat \<Rightarrow> hart" where
  "boot_hart h = \<lparr>reg_mhartid = of_nat h, reg_mstatus = 0, reg_mepc = 0, reg_sstatus = 0, reg_sip = 0, reg_sie =
     0, reg_mie = 0, reg_sepc = 0, reg_medeleg = 0, reg_mideleg = 0, reg_stvec = 0, reg_mtvec = 0,
     reg_pmpcfg0 = 0, reg_pmpaddr0 = 0, reg_satp = 0, reg_sscratch = 0, reg_mscratch = 0, reg_scause
     = 0, reg_stval = 0, reg_mcounteren = 0, reg_time = 0, reg_sp = 0, reg_tp = of_nat h, reg_ra = 0\<rparr>"

definition boot_mach :: mach where
  "boot_mach = \<lparr>curhart = 0, harts = boot_hart,
     cpus = (\<lambda>_. \<lparr>cpu_proc = None, cpu_context = zero_context, noff = 0, intena = False\<rparr>),
     locks = (\<lambda>_. \<lparr>locked = 0, lk_name = [], lk_cpu = None\<rparr>)\<rparr>"

section \<open>Register accessors\<close>

definition r_mhartid :: "(mach, u64) kmon" where
  "r_mhartid = kget (\<lambda>m. reg_mhartid (the_hart m))"

definition r_mstatus :: "(mach, u64) kmon" where
  "r_mstatus = kget (\<lambda>m. reg_mstatus (the_hart m))"

definition w_mstatus :: "u64 \<Rightarrow> (mach, unit) kmon" where
  "w_mstatus x = kmod (upd_hart (\<lambda>h. h\<lparr>reg_mstatus := x\<rparr>))"

definition w_mepc :: "u64 \<Rightarrow> (mach, unit) kmon" where
  "w_mepc x = kmod (upd_hart (\<lambda>h. h\<lparr>reg_mepc := x\<rparr>))"

definition r_sstatus :: "(mach, u64) kmon" where
  "r_sstatus = kget (\<lambda>m. reg_sstatus (the_hart m))"

definition w_sstatus :: "u64 \<Rightarrow> (mach, unit) kmon" where
  "w_sstatus x = kmod (upd_hart (\<lambda>h. h\<lparr>reg_sstatus := x\<rparr>))"

definition r_sip :: "(mach, u64) kmon" where
  "r_sip = kget (\<lambda>m. reg_sip (the_hart m))"

definition w_sip :: "u64 \<Rightarrow> (mach, unit) kmon" where
  "w_sip x = kmod (upd_hart (\<lambda>h. h\<lparr>reg_sip := x\<rparr>))"

definition r_sie :: "(mach, u64) kmon" where
  "r_sie = kget (\<lambda>m. reg_sie (the_hart m))"

definition w_sie :: "u64 \<Rightarrow> (mach, unit) kmon" where
  "w_sie x = kmod (upd_hart (\<lambda>h. h\<lparr>reg_sie := x\<rparr>))"

definition r_mie :: "(mach, u64) kmon" where
  "r_mie = kget (\<lambda>m. reg_mie (the_hart m))"

definition w_mie :: "u64 \<Rightarrow> (mach, unit) kmon" where
  "w_mie x = kmod (upd_hart (\<lambda>h. h\<lparr>reg_mie := x\<rparr>))"

definition r_sepc :: "(mach, u64) kmon" where
  "r_sepc = kget (\<lambda>m. reg_sepc (the_hart m))"

definition w_sepc :: "u64 \<Rightarrow> (mach, unit) kmon" where
  "w_sepc x = kmod (upd_hart (\<lambda>h. h\<lparr>reg_sepc := x\<rparr>))"

definition r_medeleg :: "(mach, u64) kmon" where
  "r_medeleg = kget (\<lambda>m. reg_medeleg (the_hart m))"

definition w_medeleg :: "u64 \<Rightarrow> (mach, unit) kmon" where
  "w_medeleg x = kmod (upd_hart (\<lambda>h. h\<lparr>reg_medeleg := x\<rparr>))"

definition r_mideleg :: "(mach, u64) kmon" where
  "r_mideleg = kget (\<lambda>m. reg_mideleg (the_hart m))"

definition w_mideleg :: "u64 \<Rightarrow> (mach, unit) kmon" where
  "w_mideleg x = kmod (upd_hart (\<lambda>h. h\<lparr>reg_mideleg := x\<rparr>))"

definition r_stvec :: "(mach, u64) kmon" where
  "r_stvec = kget (\<lambda>m. reg_stvec (the_hart m))"

definition w_stvec :: "u64 \<Rightarrow> (mach, unit) kmon" where
  "w_stvec x = kmod (upd_hart (\<lambda>h. h\<lparr>reg_stvec := x\<rparr>))"

definition w_mtvec :: "u64 \<Rightarrow> (mach, unit) kmon" where
  "w_mtvec x = kmod (upd_hart (\<lambda>h. h\<lparr>reg_mtvec := x\<rparr>))"

definition w_pmpcfg0 :: "u64 \<Rightarrow> (mach, unit) kmon" where
  "w_pmpcfg0 x = kmod (upd_hart (\<lambda>h. h\<lparr>reg_pmpcfg0 := x\<rparr>))"

definition w_pmpaddr0 :: "u64 \<Rightarrow> (mach, unit) kmon" where
  "w_pmpaddr0 x = kmod (upd_hart (\<lambda>h. h\<lparr>reg_pmpaddr0 := x\<rparr>))"

definition r_satp :: "(mach, u64) kmon" where
  "r_satp = kget (\<lambda>m. reg_satp (the_hart m))"

definition w_satp :: "u64 \<Rightarrow> (mach, unit) kmon" where
  "w_satp x = kmod (upd_hart (\<lambda>h. h\<lparr>reg_satp := x\<rparr>))"

definition w_sscratch :: "u64 \<Rightarrow> (mach, unit) kmon" where
  "w_sscratch x = kmod (upd_hart (\<lambda>h. h\<lparr>reg_sscratch := x\<rparr>))"

definition w_mscratch :: "u64 \<Rightarrow> (mach, unit) kmon" where
  "w_mscratch x = kmod (upd_hart (\<lambda>h. h\<lparr>reg_mscratch := x\<rparr>))"

definition r_scause :: "(mach, u64) kmon" where
  "r_scause = kget (\<lambda>m. reg_scause (the_hart m))"

definition r_stval :: "(mach, u64) kmon" where
  "r_stval = kget (\<lambda>m. reg_stval (the_hart m))"

definition r_mcounteren :: "(mach, u64) kmon" where
  "r_mcounteren = kget (\<lambda>m. reg_mcounteren (the_hart m))"

definition w_mcounteren :: "u64 \<Rightarrow> (mach, unit) kmon" where
  "w_mcounteren x = kmod (upd_hart (\<lambda>h. h\<lparr>reg_mcounteren := x\<rparr>))"

definition r_time :: "(mach, u64) kmon" where
  "r_time = kget (\<lambda>m. reg_time (the_hart m))"

definition r_sp :: "(mach, u64) kmon" where
  "r_sp = kget (\<lambda>m. reg_sp (the_hart m))"

definition r_tp :: "(mach, u64) kmon" where
  "r_tp = kget (\<lambda>m. reg_tp (the_hart m))"

definition w_tp :: "u64 \<Rightarrow> (mach, unit) kmon" where
  "w_tp x = kmod (upd_hart (\<lambda>h. h\<lparr>reg_tp := x\<rparr>))"

definition r_ra :: "(mach, u64) kmon" where
  "r_ra = kget (\<lambda>m. reg_ra (the_hart m))"

text \<open>Status bits.\<close>

definition MSTATUS_MPP_MASK :: u64 where "MSTATUS_MPP_MASK = push_bit 11 3"
definition MSTATUS_MPP_S :: u64 where "MSTATUS_MPP_S = push_bit 11 1"
definition MSTATUS_MIE :: u64 where "MSTATUS_MIE = push_bit 3 1"
definition SSTATUS_SPP :: u64 where "SSTATUS_SPP = push_bit 8 1"
definition SSTATUS_SPIE :: u64 where "SSTATUS_SPIE = push_bit 5 1"
definition SSTATUS_SIE :: u64 where "SSTATUS_SIE = push_bit 1 1"
definition SIE_SEIE :: u64 where "SIE_SEIE = push_bit 9 1"
definition SIE_STIE :: u64 where "SIE_STIE = push_bit 5 1"
definition SIE_SSIE :: u64 where "SIE_SSIE = push_bit 1 1"
definition MIE_MTIE :: u64 where "MIE_MTIE = push_bit 7 1"

definition intr_on :: "(mach, unit) kmon" where
  "intr_on = kbind r_sstatus (\<lambda>x. w_sstatus (x OR SSTATUS_SIE))"

definition intr_off :: "(mach, unit) kmon" where
  "intr_off = kbind r_sstatus (\<lambda>x. w_sstatus (x AND NOT SSTATUS_SIE))"

definition intr_get :: "(mach, bool) kmon" where
  "intr_get = kbind r_sstatus (\<lambda>x. kret (x AND SSTATUS_SIE \<noteq> 0))"

text \<open>Whether the current hart takes device interrupts.\<close>

definition sie_on :: "mach \<Rightarrow> bool" where
  "sie_on m \<longleftrightarrow> reg_sstatus (the_hart m) AND SSTATUS_SIE \<noteq> 0"

lemma sie_on_bit: "sie_on m \<longleftrightarrow> bit (reg_sstatus (the_hart m)) 1"
  unfolding sie_on_def SSTATUS_SIE_def by (rule bit_iff_and_push_bit_not_eq_0 [symmetric])

lemma bit_SSTATUS_SIE [simp]: "bit SSTATUS_SIE n \<longleftrightarrow> n = 1"
  unfolding SSTATUS_SIE_def by (subst bit_push_bit_one) simp

lemma sie_bit_on [simp]: "bit (x OR SSTATUS_SIE) (Suc 0)" for x :: u64
  by (simp add: bit_or_iff)

lemma sie_bit_off [simp]: "\<not> bit (x AND NOT SSTATUS_SIE) (Suc 0)" for x :: u64
  by (simp add: bit_and_iff bit_not_iff)

lemma sie_off_on: "bit x (Suc 0) \<Longrightarrow> (x AND NOT SSTATUS_SIE) OR SSTATUS_SIE = x" for x :: u64
  by (rule bit_word_eqI) (auto simp: bit_or_iff bit_and_iff bit_not_iff)

lemma sie_off_idem: "\<not> bit x (Suc 0) \<Longrightarrow> x AND NOT SSTATUS_SIE = x" for x :: u64
  by (rule bit_word_eqI) (auto simp: bit_and_iff bit_not_iff)

end
