(* ===== verification/Spinlock.thy ===== *)
theory Spinlock
  imports Hart
begin

text \<open>
  Mutual exclusion spin locks (\<open>kernel/spinlock.c\<close>): \<open>initlock\<close>, \<open>acquire\<close>, \<open>release\<close>, \<open>holding\<close>, and
  the counted interrupt disabling \<open>push_off\<close>/\<open>pop_off\<close>; with them \<open>cpuid\<close>, \<open>mycpu\<close> and \<open>myproc\<close> of
  \<open>kernel/proc.c\<close>. Shown: what a matched pair of operations does to the interrupt state, and that
  harts interleaving their operations on a lock never hold it together.
\<close>

section \<open>The running CPU\<close>

definition cpuid :: "(mach, nat) kmon" where
  "cpuid = kbind r_tp (\<lambda>id. kret (unat id))"

definition mycpu :: "(mach, nat) kmon" where
  "mycpu = cpuid"

definition get_cpu :: "nat \<Rightarrow> (mach, cpu) kmon" where
  "get_cpu c = kget (\<lambda>m. cpus m c)"

definition upd_cpu :: "nat \<Rightarrow> (cpu \<Rightarrow> cpu) \<Rightarrow> (mach, unit) kmon" where
  "upd_cpu c f = kmod (\<lambda>m. m\<lparr>cpus := (cpus m)(c := f (cpus m c))\<rparr>)"

section \<open>Counted interrupt disabling\<close>

definition push_off :: "(mach, unit) kmon" where
  "push_off =
     kbind intr_get (\<lambda>old.
     kbind intr_off (\<lambda>_.
     kbind mycpu (\<lambda>c.
     kbind (get_cpu c) (\<lambda>cp.
     kseq [
       kwhen (noff cp = 0) (upd_cpu c (\<lambda>x. x\<lparr>intena := old\<rparr>)),
       upd_cpu c (\<lambda>x. x\<lparr>noff := noff x + 1\<rparr>)]))))"

definition pop_off :: "(mach, unit) kmon" where
  "pop_off =
     kbind mycpu (\<lambda>c.
     kbind intr_get (\<lambda>on.
     if on then kpanic ''pop_off - interruptible''
     else
     kbind (get_cpu c) (\<lambda>cp.
     if noff cp < 1 then kpanic ''pop_off''
     else
     kbind (upd_cpu c (\<lambda>x. x\<lparr>noff := noff x - 1\<rparr>)) (\<lambda>_.
     kbind (get_cpu c) (\<lambda>cp.
     kwhen (noff cp = 0 \<and> intena cp) intr_on)))))"

definition myproc :: "(mach, nat option) kmon" where
  "myproc =
     kbind push_off (\<lambda>_.
     kbind mycpu (\<lambda>c.
     kbind (get_cpu c) (\<lambda>cp.
     kbind pop_off (\<lambda>_.
     kret (cpu_proc cp)))))"

section \<open>Locks\<close>

definition get_lock :: "lockid \<Rightarrow> (mach, spinlock) kmon" where
  "get_lock lk = kget (\<lambda>m. locks m lk)"

definition upd_lock :: "lockid \<Rightarrow> (spinlock \<Rightarrow> spinlock) \<Rightarrow> (mach, unit) kmon" where
  "upd_lock lk f = kmod (\<lambda>m. m\<lparr>locks := (locks m)(lk := f (locks m lk))\<rparr>)"

definition initlock :: "lockid \<Rightarrow> string \<Rightarrow> (mach, unit) kmon" where
  "initlock lk name = kseq [
     upd_lock lk (\<lambda>l. l\<lparr>lk_name := name\<rparr>),
     upd_lock lk (\<lambda>l. l\<lparr>locked := 0\<rparr>),
     upd_lock lk (\<lambda>l. l\<lparr>lk_cpu := None\<rparr>)]"

definition holding :: "lockid \<Rightarrow> (mach, bool) kmon" where
  "holding lk =
     kbind (get_lock lk) (\<lambda>l.
     kbind mycpu (\<lambda>c.
     kret (locked l \<noteq> 0 \<and> lk_cpu l = Some c)))"

text \<open>
  The atomic swap \<open>__sync_lock_test_and_set(&lk->locked, 1)\<close> stores 1 and returns the old value.
  While it returns non-zero the loop stores 1 over a non-zero value again: if another hart holds
  the lock the loop makes no progress until that hart releases it.
\<close>

definition lock_test_and_set :: "lockid \<Rightarrow> (mach, u32) kmon" where
  "lock_test_and_set lk =
     kbind (get_lock lk) (\<lambda>l.
     kbind (upd_lock lk (\<lambda>l. l\<lparr>locked := 1\<rparr>)) (\<lambda>_.
     kret (locked l)))"

definition acquire :: "lockid \<Rightarrow> (mach, unit) kmon" where
  "acquire lk =
     kbind push_off (\<lambda>_.
     kbind (holding lk) (\<lambda>h.
     if h then kpanic ''acquire''
     else
     kbind (lock_test_and_set lk) (\<lambda>old.
     if old \<noteq> 0 then khang
     else
     kbind mycpu (\<lambda>c.
     upd_lock lk (\<lambda>l. l\<lparr>lk_cpu := Some c\<rparr>)))))"

definition release :: "lockid \<Rightarrow> (mach, unit) kmon" where
  "release lk =
     kbind (holding lk) (\<lambda>h.
     if \<not> h then kpanic ''release''
     else kseq [
       upd_lock lk (\<lambda>l. l\<lparr>lk_cpu := None\<rparr>),
       upd_lock lk (\<lambda>l. l\<lparr>locked := 0\<rparr>),
       pop_off])"

section \<open>Closed forms\<close>

text \<open>
  Each operation as a function of the machine state, for the states in which it returns. The
  lemmas named \<open>mach_simps\<close> execute the critical sections of the other components.
\<close>

definition curcpu :: "mach \<Rightarrow> nat" where
  "curcpu m = unat (reg_tp (the_hart m))"

definition curproc :: "mach \<Rightarrow> nat option" where
  "curproc m = cpu_proc (cpus m (curcpu m))"

definition depth :: "mach \<Rightarrow> nat" where
  "depth m = noff (cpus m (curcpu m))"

definition set_sie :: "bool \<Rightarrow> mach \<Rightarrow> mach" where
  "set_sie b = upd_hart (\<lambda>h. h\<lparr>reg_sstatus :=
     (if b then reg_sstatus h OR SSTATUS_SIE else reg_sstatus h AND NOT SSTATUS_SIE)\<rparr>)"

definition pushm :: "mach \<Rightarrow> mach" where
  "pushm m = (set_sie False m)\<lparr>cpus := (cpus m)(curcpu m := (cpus m (curcpu m))
     \<lparr>intena := (if depth m = 0 then sie_on m else intena (cpus m (curcpu m))),
      noff := depth m + 1\<rparr>)\<rparr>"

definition popm :: "mach \<Rightarrow> mach" where
  "popm m = (let m' = m\<lparr>cpus := (cpus m)(curcpu m := (cpus m (curcpu m))\<lparr>noff := depth m - 1\<rparr>)\<rparr>
     in if depth m = 1 \<and> intena (cpus m (curcpu m)) then set_sie True m' else m')"

definition acqm :: "lockid \<Rightarrow> mach \<Rightarrow> mach" where
  "acqm lk m = (pushm m)\<lparr>locks := (locks m)(lk := (locks m lk)\<lparr>locked := 1, lk_cpu := Some (curcpu m)\<rparr>)\<rparr>"

definition relm :: "lockid \<Rightarrow> mach \<Rightarrow> mach" where
  "relm lk m = popm (m\<lparr>locks := (locks m)(lk := (locks m lk)\<lparr>lk_cpu := None, locked := 0\<rparr>)\<rparr>)"

text \<open>The net effect of a matched pair: only the stale \<open>intena\<close> of an interruptible CPU is refreshed.\<close>

definition ppm :: "mach \<Rightarrow> mach" where
  "ppm m = popm (pushm m)"

definition free_lock :: "lockid \<Rightarrow> mach \<Rightarrow> bool" where
  "free_lock lk m \<longleftrightarrow> locked (locks m lk) = 0 \<and> lk_cpu (locks m lk) = None"

definition holds :: "lockid \<Rightarrow> mach \<Rightarrow> bool" where
  "holds lk m \<longleftrightarrow> locked (locks m lk) \<noteq> 0 \<and> lk_cpu (locks m lk) = Some (curcpu m)"

lemmas reg_defs = r_sstatus_def w_sstatus_def r_tp_def intr_get_def intr_on_def intr_off_def
  cpuid_def mycpu_def get_cpu_def upd_cpu_def get_lock_def upd_lock_def

lemmas mach_defs = the_hart_def upd_hart_def curcpu_def sie_on_def set_sie_def depth_def

lemma intr_get_run [run_simps]: "intr_get m = Ret (sie_on m) m"
  by (simp add: reg_defs sie_on_def run_simps)

lemma intr_off_run [run_simps]: "intr_off m = Ret () (set_sie False m)"
  by (simp add: reg_defs mach_defs run_simps)

lemma intr_on_run [run_simps]: "intr_on m = Ret () (set_sie True m)"
  by (simp add: reg_defs mach_defs run_simps)

lemma mycpu_run [run_simps]: "mycpu m = Ret (curcpu m) m"
  by (simp add: reg_defs mach_defs run_simps)

lemma get_cpu_run [run_simps]: "get_cpu c m = Ret (cpus m c) m"
  by (simp add: get_cpu_def run_simps)

lemma upd_cpu_run [run_simps]: "upd_cpu c f m = Ret () (m\<lparr>cpus := (cpus m)(c := f (cpus m c))\<rparr>)"
  by (simp add: upd_cpu_def run_simps)

lemma get_lock_run [run_simps]: "get_lock lk m = Ret (locks m lk) m"
  by (simp add: get_lock_def run_simps)

lemma upd_lock_run [run_simps]: "upd_lock lk f m = Ret () (m\<lparr>locks := (locks m)(lk := f (locks m lk))\<rparr>)"
  by (simp add: upd_lock_def run_simps)

lemma set_sie_fields [simp]:
  "cpus (set_sie b m) = cpus m" "locks (set_sie b m) = locks m" "curhart (set_sie b m) = curhart m"
  "curcpu (set_sie b m) = curcpu m" "depth (set_sie b m) = depth m"
  by (simp_all add: mach_defs)

lemma sie_on_set_sie [simp]: "sie_on (set_sie b m) = b"
  by (simp add: sie_on_bit) (simp add: mach_defs)

lemma cpus_upd_fields [simp]:
  "curcpu (m\<lparr>cpus := c\<rparr>) = curcpu m" "sie_on (m\<lparr>cpus := c\<rparr>) = sie_on m"
  "curcpu (m\<lparr>locks := l\<rparr>) = curcpu m" "sie_on (m\<lparr>locks := l\<rparr>) = sie_on m"
  "depth (m\<lparr>locks := l\<rparr>) = depth m" "depth (m\<lparr>cpus := c\<rparr>) = noff (c (curcpu m))"
  by (simp_all add: mach_defs)

lemma set_sie_locks [simp]: "set_sie b (m\<lparr>locks := l\<rparr>) = (set_sie b m)\<lparr>locks := l\<rparr>"
  by (simp add: set_sie_def upd_hart_def)

lemma set_sie_cpus [simp]: "set_sie b (m\<lparr>cpus := l\<rparr>) = (set_sie b m)\<lparr>cpus := l\<rparr>"
  by (simp add: set_sie_def upd_hart_def)

lemma set_sie_restore: "sie_on m \<Longrightarrow> set_sie True (set_sie False m) = m"
proof -
  assume "sie_on m"
  then have "bit (reg_sstatus (harts m (curhart m))) (Suc 0)"
    by (simp add: sie_on_bit the_hart_def)
  then show ?thesis
    by (simp add: mach_defs sie_off_on)
qed

lemma set_sie_off_idem: "\<not> sie_on m \<Longrightarrow> set_sie False m = m"
proof -
  assume "\<not> sie_on m"
  then have "\<not> bit (reg_sstatus (harts m (curhart m))) (Suc 0)"
    by (simp add: sie_on_bit the_hart_def)
  then show ?thesis
    by (simp add: mach_defs sie_off_idem)
qed

lemma push_off_run [run_simps]: "push_off m = Ret () (pushm m)"
  by (cases "depth m = 0") (simp_all add: push_off_def pushm_def run_simps depth_def)

lemma pop_off_run:
  "pop_off m = (if sie_on m then Panic ''pop_off - interruptible'' m
     else if depth m < 1 then Panic ''pop_off'' m else Ret () (popm m))"
  by (simp add: pop_off_def popm_def run_simps depth_def Let_def kwhen_def)

lemma pushm_fields [simp]:
  "locks (pushm m) = locks m" "curhart (pushm m) = curhart m" "curcpu (pushm m) = curcpu m"
  "depth (pushm m) = depth m + 1" "\<not> sie_on (pushm m)" "curproc (pushm m) = curproc m"
  "intena (cpus (pushm m) (curcpu m)) = (if depth m = 0 then sie_on m else intena (cpus m (curcpu m)))"
  by (simp_all add: pushm_def curproc_def)

lemma popm_fields [simp]:
  "locks (popm m) = locks m" "curhart (popm m) = curhart m" "curcpu (popm m) = curcpu m"
  "depth (popm m) = depth m - 1" "curproc (popm m) = curproc m"
  by (simp_all add: popm_def curproc_def Let_def)

lemma popm_locks [simp]: "popm (m\<lparr>locks := l\<rparr>) = (popm m)\<lparr>locks := l\<rparr>"
  by (simp add: popm_def Let_def)

lemma pushm_locks [simp]: "pushm (m\<lparr>locks := l\<rparr>) = (pushm m)\<lparr>locks := l\<rparr>"
  by (simp add: pushm_def)

lemma ppm_locks [simp]: "ppm (m\<lparr>locks := l\<rparr>) = (ppm m)\<lparr>locks := l\<rparr>"
  by (simp add: ppm_def)

text \<open>Explicit forms of the net effect, by nesting depth.\<close>

lemma noff_same: "noff c = n \<Longrightarrow> c\<lparr>noff := n\<rparr> = c" for c :: cpu
  by (cases c) simp

lemma ppm_outer: "depth m = 0 \<Longrightarrow>
    ppm m = m\<lparr>cpus := (cpus m)(curcpu m := (cpus m (curcpu m))\<lparr>intena := sie_on m\<rparr>)\<rparr>"
  by (cases "sie_on m")
     (simp_all add: ppm_def popm_def Let_def pushm_def set_sie_restore set_sie_off_idem depth_def
       noff_same)

lemma ppm_inner: "0 < depth m \<Longrightarrow> ppm m = set_sie False m"
  by (simp add: ppm_def popm_def Let_def pushm_def depth_def)

lemma ppm_fields [simp]:
  "locks (ppm m) = locks m" "curhart (ppm m) = curhart m" "curcpu (ppm m) = curcpu m"
  "depth (ppm m) = depth m" "curproc (ppm m) = curproc m"
  by (simp_all add: ppm_def)

lemma ppm_sie: "sie_on (ppm m) \<longleftrightarrow> depth m = 0 \<and> sie_on m"
  by (cases "depth m = 0") (simp_all add: ppm_outer ppm_inner)

lemma ppm_idem [simp]: "ppm (ppm m) = ppm m"
proof (cases "depth m = 0")
  case True
  then have "depth (ppm m) = 0" by simp
  from ppm_outer [OF this] show ?thesis
    using True by (simp add: ppm_sie ppm_outer)
next
  case False
  then have "depth (ppm m) > 0" by simp
  from ppm_inner [OF this] show ?thesis
    using False by (simp add: set_sie_off_idem ppm_sie)
qed

lemma ppm_pushm [simp]: "ppm (pushm m) = pushm m"
  by (simp add: ppm_inner set_sie_off_idem)

lemma popm_pushm [simp]: "popm (pushm m) = ppm m"
  by (simp add: ppm_def)

lemma popm_pushm_pushm [simp]: "popm (pushm (pushm m)) = pushm m"
  using ppm_pushm [of m] unfolding ppm_def .

lemma myproc_run [run_simps]: "myproc m = Ret (curproc m) (ppm m)"
proof -
  have "cpu_proc (cpus (pushm m) (curcpu m)) = curproc m"
    using pushm_fields(6) [of m] by (simp add: curproc_def)
  then show ?thesis
    by (simp add: myproc_def run_simps pop_off_run)
qed

subsection \<open>Critical sections\<close>

lemma holding_run [run_simps]: "holding lk m = Ret (holds lk m) m"
  by (simp add: holding_def holds_def run_simps)

lemma lock_test_and_set_run:
  "lock_test_and_set lk m = Ret (locked (locks m lk)) (m\<lparr>locks := (locks m)(lk := (locks m lk)\<lparr>locked := 1\<rparr>)\<rparr>)"
  by (simp add: lock_test_and_set_def run_simps)

lemma acquire_free [run_simps]: "free_lock lk m \<Longrightarrow> acquire lk m = Ret () (acqm lk m)"
  by (simp add: acquire_def acqm_def free_lock_def holds_def lock_test_and_set_run run_simps)

lemma acquire_held: "holds lk m \<Longrightarrow> \<exists>m'. acquire lk m = Panic ''acquire'' m'"
  by (simp add: acquire_def holds_def run_simps)

lemma acquire_busy:
  "locked (locks m lk) \<noteq> 0 \<Longrightarrow> lk_cpu (locks m lk) \<noteq> Some (curcpu m) \<Longrightarrow> \<exists>m'. acquire lk m = Hang m'"
  by (simp add: acquire_def holds_def lock_test_and_set_run run_simps)

lemma release_run:
  "holds lk m \<Longrightarrow> \<not> sie_on m \<Longrightarrow> 0 < depth m \<Longrightarrow> release lk m = Ret () (relm lk m)"
  by (simp add: release_def relm_def pop_off_run run_simps)

lemma release_not_held: "\<not> holds lk m \<Longrightarrow> release lk m = Panic ''release'' m"
  by (simp add: release_def run_simps)

lemma acqm_fields [simp]:
  "curhart (acqm lk m) = curhart m" "curcpu (acqm lk m) = curcpu m" "depth (acqm lk m) = depth m + 1"
  "\<not> sie_on (acqm lk m)" "curproc (acqm lk m) = curproc m"
  by (simp_all add: acqm_def curproc_def)
     (metis curproc_def pushm_fields(3,6))

lemma holds_acqm [simp]: "holds lk' (acqm lk m) \<longleftrightarrow> lk' = lk \<or> holds lk' m"
  by (auto simp: holds_def acqm_def)

lemma free_lock_acqm [simp]: "free_lock lk' (acqm lk m) \<longleftrightarrow> lk' \<noteq> lk \<and> free_lock lk' m"
  by (auto simp: free_lock_def acqm_def)

lemma free_lock_ppm [simp]: "free_lock lk (ppm m) = free_lock lk m"
  by (simp add: free_lock_def)

lemma holds_ppm [simp]: "holds lk (ppm m) = holds lk m"
  by (simp add: holds_def)

lemma ppm_acqm [simp]: "ppm (acqm lk m) = acqm lk m"
  by (simp add: acqm_def)

lemma acqm_ppm [simp]: "acqm lk (ppm m) = acqm lk m"
proof -
  have "pushm (ppm m) = pushm m"
  proof (cases "depth m = 0")
    case True
    then show ?thesis by (simp add: ppm_outer pushm_def depth_def sie_on_def the_hart_def)
  next
    case False
    then show ?thesis by (simp add: ppm_inner pushm_def) (simp add: set_sie_off_idem)
  qed
  then show ?thesis by (simp add: acqm_def)
qed

lemma free_lock_restore:
  "free_lock lk m \<Longrightarrow> (locks m)(lk := (locks m lk)\<lparr>lk_cpu := None, locked := 0\<rparr>) = locks m"
  by (auto simp: free_lock_def fun_eq_iff)

text \<open>A critical section gives the lock back and leaves the machine as it was.\<close>

lemma release_acqm [run_simps]: "free_lock lk m \<Longrightarrow> release lk (acqm lk m) = Ret () (ppm m)"
  using free_lock_restore [of lk m]
  by (simp add: release_run relm_def) (simp add: acqm_def)

text \<open>The order in which \<open>sleep\<close> swaps its two locks.\<close>

lemma release_acqm_outer [run_simps]:
  "free_lock lk m \<Longrightarrow> lk \<noteq> l2 \<Longrightarrow> release lk (acqm l2 (acqm lk m)) = Ret () (acqm l2 m)"
  using free_lock_restore [of lk m]
  by (simp add: release_run relm_def) (simp add: acqm_def fun_upd_twist)

section \<open>Nesting\<close>

lemma kseq_append_run: "kseq (xs @ ys) s = kbind (kseq xs) (\<lambda>_. kseq ys) s"
proof (induction xs arbitrary: s)
  case Nil
  then show ?case by (simp add: run_simps)
next
  case (Cons x xs)
  then show ?case by (simp add: run_simps split: outcome.splits)
qed

lemma pushes_run: "kseq (replicate n push_off) m = Ret () ((pushm ^^ n) m)"
  by (induction n arbitrary: m) (simp_all add: run_simps funpow_swap1)

lemma pushes_fields:
  "depth ((pushm ^^ n) m) = depth m + n" "curcpu ((pushm ^^ n) m) = curcpu m"
  "sie_on ((pushm ^^ n) m) \<longleftrightarrow> n = 0 \<and> sie_on m"
  by (induction n) auto

lemma pops_run:
  "k \<le> n \<Longrightarrow> kseq (replicate k pop_off) ((pushm ^^ Suc n) m) = Ret () ((pushm ^^ Suc (n - k)) m)"
proof (induction k arbitrary: n)
  case 0
  then show ?case by (simp add: run_simps)
next
  case (Suc k)
  then obtain n' where n: "n = Suc n'" by (cases n) auto
  have "pop_off ((pushm ^^ Suc n) m) = Ret () ((pushm ^^ Suc n') m)"
    by (simp add: n pop_off_run)
  then show ?case
    using Suc.IH [of n'] Suc.prems n by (simp add: run_simps)
qed

text \<open>
  C25: interrupt disabling is counted. After \<open>n + 1\<close> calls of \<open>push_off\<close> and any \<open>k \<le> n\<close> calls of
  \<open>pop_off\<close>, none of which panics, device interrupts are still off; the last \<open>pop_off\<close> restores
  exactly the machine state before the first \<open>push_off\<close>, but for the CPU's \<open>intena\<close>, which now records
  whether interrupts were on, and for a nested section (positive depth), which stays
  uninterruptible.
\<close>

theorem push_pop_nesting:
  assumes "k \<le> n"
  shows "(\<exists>m'. kseq (replicate (Suc n) push_off @ replicate k pop_off) m = Ret () m' \<and>
        \<not> sie_on m' \<and> depth m' = depth m + (Suc n - k)) \<and>
      kseq (replicate (Suc n) push_off @ replicate (Suc n) pop_off) m =
      Ret () (if depth m = 0
        then m\<lparr>cpus := (cpus m)(curcpu m := (cpus m (curcpu m))\<lparr>intena := sie_on m\<rparr>)\<rparr>
        else set_sie False m)"
proof
  have "kseq (replicate (Suc n) push_off @ replicate k pop_off) m = Ret () ((pushm ^^ Suc (n - k)) m)"
    unfolding kseq_append_run by (simp only: kbind_run pushes_run outcome.case pops_run assms)
  moreover have "depth ((pushm ^^ Suc (n - k)) m) = depth m + (Suc n - k)"
    using assms by (simp add: pushes_fields Suc_diff_le)
  ultimately show "\<exists>m'. kseq (replicate (Suc n) push_off @ replicate k pop_off) m = Ret () m' \<and>
      \<not> sie_on m' \<and> depth m' = depth m + (Suc n - k)"
    by (simp add: pushes_fields)
next
  have split: "replicate (Suc n) pop_off = replicate n pop_off @ [pop_off]"
    by (simp add: replicate_append_same)
  have "kseq (replicate (Suc n) pop_off) ((pushm ^^ Suc n) m) = Ret () (popm (pushm m))"
    unfolding split kseq_append_run
    by (simp only: kbind_run pops_run order.refl outcome.case) (simp add: run_simps pop_off_run)
  then have "kseq (replicate (Suc n) push_off @ replicate (Suc n) pop_off) m = Ret () (ppm m)"
    by (simp only: kseq_append_run kbind_run pushes_run outcome.case popm_pushm)
  then show "kseq (replicate (Suc n) push_off @ replicate (Suc n) pop_off) m =
      Ret () (if depth m = 0
        then m\<lparr>cpus := (cpus m)(curcpu m := (cpus m (curcpu m))\<lparr>intena := sie_on m\<rparr>)\<rparr>
        else set_sie False m)"
    by (simp add: ppm_outer ppm_inner)
qed

theorem push_pop_nesting_witness:
  "(1::nat) \<le> 2 \<and>
   (\<exists>m'. kseq (replicate 3 push_off @ replicate 1 pop_off) (undefined :: mach) = Ret () m' \<and> \<not> sie_on m')"
proof -
  have le: "(1::nat) \<le> 2" by simp
  show ?thesis
    using le push_pop_nesting [OF le, of undefined] by (auto simp: numeral_3_eq_3 numeral_2_eq_2)
qed

section \<open>Interleaved harts\<close>

text \<open>
  Harts run \<open>acquire\<close> and \<open>release\<close> of one lock concurrently. A step is one hart passing one access to
  shared memory, so \<open>acquire\<close> is three kinds of steps (disable interrupts and check; one round of the
  swap loop; record the owner) and \<open>release\<close> two. \<open>other\<close> is any step of any hart that does not touch
  this lock: the code inside and outside of critical sections, other locks, interrupts.
\<close>

datatype lpc = Outside | Trying | Swapped | Critical | Clearing

inductive lock_step :: "lockid \<Rightarrow> mach \<times> (nat \<Rightarrow> lpc) \<Rightarrow> mach \<times> (nat \<Rightarrow> lpc) \<Rightarrow> bool" for lk where
  enter: "h < NCPU \<Longrightarrow> pc h = Outside \<Longrightarrow>
    kbind push_off (\<lambda>_. holding lk) (m\<lparr>curhart := h\<rparr>) = Ret False m' \<Longrightarrow>
    lock_step lk (m, pc) (m', pc(h := Trying))"
| spin: "pc h = Trying \<Longrightarrow> lock_test_and_set lk (m\<lparr>curhart := h\<rparr>) = Ret v m' \<Longrightarrow> v \<noteq> 0 \<Longrightarrow>
    lock_step lk (m, pc) (m', pc)"
| take: "pc h = Trying \<Longrightarrow> lock_test_and_set lk (m\<lparr>curhart := h\<rparr>) = Ret 0 m' \<Longrightarrow>
    lock_step lk (m, pc) (m', pc(h := Swapped))"
| own: "pc h = Swapped \<Longrightarrow>
    kbind mycpu (\<lambda>c. upd_lock lk (\<lambda>l. l\<lparr>lk_cpu := Some c\<rparr>)) (m\<lparr>curhart := h\<rparr>) = Ret () m' \<Longrightarrow>
    lock_step lk (m, pc) (m', pc(h := Critical))"
| clear: "pc h = Critical \<Longrightarrow>
    upd_lock lk (\<lambda>l. l\<lparr>lk_cpu := None\<rparr>) (m\<lparr>curhart := h\<rparr>) = Ret () m' \<Longrightarrow>
    lock_step lk (m, pc) (m', pc(h := Clearing))"
| drop: "pc h = Clearing \<Longrightarrow>
    kseq [upd_lock lk (\<lambda>l. l\<lparr>locked := 0\<rparr>), pop_off] (m\<lparr>curhart := h\<rparr>) = Ret () m' \<Longrightarrow>
    lock_step lk (m, pc) (m', pc(h := Outside))"
| other: "locks m' lk = locks m lk \<Longrightarrow> (\<And>h. reg_tp (harts m' h) = reg_tp (harts m h)) \<Longrightarrow>
    lock_step lk (m, pc) (m', pc)"

inductive lock_reachable :: "lockid \<Rightarrow> mach \<times> (nat \<Rightarrow> lpc) \<Rightarrow> bool" for lk where
  start: "free_lock lk m \<Longrightarrow> (\<And>h. h < NCPU \<Longrightarrow> reg_tp (harts m h) = of_nat h) \<Longrightarrow>
    lock_reachable lk (m, \<lambda>_. Outside)"
| step: "lock_reachable lk s \<Longrightarrow> lock_step lk s t \<Longrightarrow> lock_reachable lk t"

definition in_section :: "lpc \<Rightarrow> bool" where
  "in_section p \<longleftrightarrow> p = Swapped \<or> p = Critical \<or> p = Clearing"

lemma curcpu_on_hart: "h < NCPU \<Longrightarrow> reg_tp (harts m h) = of_nat h \<Longrightarrow> curcpu (m\<lparr>curhart := h\<rparr>) = h"
  by (simp add: curcpu_def the_hart_def unat_of_nat_less)

lemma harts_tp:
  "reg_tp (harts (set_sie b m) h) = reg_tp (harts m h)" "reg_tp (harts (pushm m) h) = reg_tp (harts m h)"
  "reg_tp (harts (popm m) h) = reg_tp (harts m h)"
  by (simp_all add: set_sie_def upd_hart_def pushm_def popm_def Let_def)

text \<open>
  The invariant names the hart inside the section, if any. \<open>owner_of\<close> relates that hart, the lock's
  two fields and the program counters.
\<close>

definition owner_of :: "spinlock \<Rightarrow> (nat \<Rightarrow> lpc) \<Rightarrow> nat option \<Rightarrow> bool" where
  "owner_of l pc w \<longleftrightarrow>
     (\<forall>h. in_section (pc h) \<longleftrightarrow> w = Some h) \<and>
     (\<forall>h. lk_cpu l = Some h \<longleftrightarrow> pc h = Critical) \<and>
     (w \<noteq> None \<longrightarrow> locked l \<noteq> 0)"

definition lock_inv :: "lockid \<Rightarrow> mach \<times> (nat \<Rightarrow> lpc) \<Rightarrow> bool" where
  "lock_inv lk s = (case s of (m, pc) \<Rightarrow>
     (\<forall>h < NCPU. reg_tp (harts m h) = of_nat h) \<and>
     (\<forall>h. pc h \<noteq> Outside \<longrightarrow> h < NCPU) \<and>
     (\<exists>w. owner_of (locks m lk) pc w))"

lemma owner_ofI:
  "(\<And>h. in_section (pc h) \<longleftrightarrow> w = Some h) \<Longrightarrow> (\<And>h. lk_cpu l = Some h \<longleftrightarrow> pc h = Critical) \<Longrightarrow>
   (w \<noteq> None \<Longrightarrow> locked l \<noteq> 0) \<Longrightarrow> owner_of l pc w"
  by (simp add: owner_of_def)

lemma owner_ofD:
  assumes "owner_of l pc w"
  shows "in_section (pc h) \<longleftrightarrow> w = Some h" "lk_cpu l = Some h \<longleftrightarrow> pc h = Critical"
    "w \<noteq> None \<Longrightarrow> locked l \<noteq> 0"
  using assms by (simp_all add: owner_of_def)

lemma owner_of_outside:
  assumes w: "owner_of l pc w" and "\<not> in_section (pc h)" "\<not> in_section p"
  shows "owner_of l (pc(h := p)) w"
proof (rule owner_ofI)
  fix h'
  show "in_section ((pc(h := p)) h') \<longleftrightarrow> w = Some h'"
    using assms owner_ofD(1) [OF w, of h'] by (cases "h' = h") auto
  show "lk_cpu l = Some h' \<longleftrightarrow> (pc(h := p)) h' = Critical"
    using assms owner_ofD(2) [OF w, of h'] by (cases "h' = h") (auto simp: in_section_def)
qed (rule owner_ofD(3) [OF w])

lemma owner_of_take:
  assumes w: "owner_of l pc w" and free: "locked l = 0"
  shows "owner_of (l\<lparr>locked := 1\<rparr>) (pc(h := Swapped)) (Some h)"
proof (rule owner_ofI)
  have none: "w = None" using owner_ofD(3) [OF w] free by (cases w) auto
  fix h'
  show "in_section ((pc(h := Swapped)) h') \<longleftrightarrow> Some h = Some h'"
    using none owner_ofD(1) [OF w, of h'] by (cases "h' = h") (auto simp: in_section_def)
  show "lk_cpu (l\<lparr>locked := 1\<rparr>) = Some h' \<longleftrightarrow> (pc(h := Swapped)) h' = Critical"
    using none owner_ofD(1,2) [OF w, of h'] by (cases "h' = h") (auto simp: in_section_def)
qed simp

text \<open>The hart inside the section moves on; the three ways differ in the owner field only.\<close>

lemma owner_of_inside:
  assumes w: "owner_of l pc w" and "in_section (pc h)" "in_section p"
    and "lk_cpu l' = (if p = Critical then Some h else None)" and "locked l' = locked l"
  shows "owner_of l' (pc(h := p)) (Some h)"
proof (rule owner_ofI)
  have some: "w = Some h" using owner_ofD(1) [OF w, of h] assms(2) by simp
  fix h'
  have "pc h' = Critical \<Longrightarrow> h' = h"
    using some owner_ofD(1) [OF w, of h'] by (simp add: in_section_def)
  then show "lk_cpu l' = Some h' \<longleftrightarrow> (pc(h := p)) h' = Critical"
    using assms(4) by (cases "h' = h") auto
  show "in_section ((pc(h := p)) h') \<longleftrightarrow> Some h = Some h'"
    using assms(3) some owner_ofD(1) [OF w, of h'] by (cases "h' = h") auto
  show "locked l' \<noteq> 0"
    using some owner_ofD(3) [OF w] assms(5) by simp
qed

lemma owner_of_drop:
  assumes w: "owner_of l pc w" and h: "pc h = Clearing"
  shows "owner_of (l\<lparr>locked := 0\<rparr>) (pc(h := Outside)) None"
proof (rule owner_ofI)
  have some: "w = Some h" using owner_ofD(1) [OF w, of h] h by (simp add: in_section_def)
  fix h'
  show "in_section ((pc(h := Outside)) h') \<longleftrightarrow> None = Some h'"
    using some owner_ofD(1) [OF w, of h'] by (cases "h' = h") (auto simp: in_section_def)
  show "lk_cpu (l\<lparr>locked := 0\<rparr>) = Some h' \<longleftrightarrow> (pc(h := Outside)) h' = Critical"
    using h owner_ofD(2) [OF w, of h'] by (cases "h' = h") auto
qed simp

lemma lock_invI:
  "(\<And>h. h < NCPU \<Longrightarrow> reg_tp (harts m h) = of_nat h) \<Longrightarrow> (\<And>h. pc h \<noteq> Outside \<Longrightarrow> h < NCPU) \<Longrightarrow>
   owner_of (locks m lk) pc w \<Longrightarrow> lock_inv lk (m, pc)"
  by (auto simp: lock_inv_def)

lemma lock_inv_start:
  "free_lock lk m \<Longrightarrow> (\<And>h. h < NCPU \<Longrightarrow> reg_tp (harts m h) = of_nat h) \<Longrightarrow> lock_inv lk (m, \<lambda>_. Outside)"
  by (rule lock_invI [where w = None]) (auto simp: owner_of_def free_lock_def in_section_def)

lemma lock_inv_step: "lock_step lk s t \<Longrightarrow> lock_inv lk s \<Longrightarrow> lock_inv lk t"
proof (induction rule: lock_step.induct)
  case (enter h pc m m')
  from enter.prems obtain w where tp: "\<And>h. h < NCPU \<Longrightarrow> reg_tp (harts m h) = of_nat h"
    and pc: "\<And>h. pc h \<noteq> Outside \<Longrightarrow> h < NCPU" and w: "owner_of (locks m lk) pc w"
    by (auto simp: lock_inv_def)
  have m': "m' = pushm (m\<lparr>curhart := h\<rparr>)" using enter by (simp add: run_simps)
  show ?case
    using tp pc owner_of_outside [OF w, of h Trying] enter(1,2)
    by (intro lock_invI [where w = w]) (auto simp: m' harts_tp in_section_def split: if_splits)
next
  case (spin pc h m v m')
  then show ?case
    by (auto simp: lock_inv_def lock_test_and_set_run owner_of_def)
next
  case (take pc h m m')
  from take.prems obtain w where tp: "\<And>h. h < NCPU \<Longrightarrow> reg_tp (harts m h) = of_nat h"
    and pc: "\<And>h. pc h \<noteq> Outside \<Longrightarrow> h < NCPU" and w: "owner_of (locks m lk) pc w"
    by (auto simp: lock_inv_def)
  from take show ?case
    using tp pc owner_of_take [OF w, of h]
    by (intro lock_invI [where w = "Some h"]) (auto simp: lock_test_and_set_run split: if_splits)
next
  case (own pc h m m')
  from own.prems obtain w where tp: "\<And>h. h < NCPU \<Longrightarrow> reg_tp (harts m h) = of_nat h"
    and pc: "\<And>h. pc h \<noteq> Outside \<Longrightarrow> h < NCPU" and w: "owner_of (locks m lk) pc w"
    by (auto simp: lock_inv_def)
  have "curcpu (m\<lparr>curhart := h\<rparr>) = h"
    using own(1) pc [of h] tp [of h] by (intro curcpu_on_hart) auto
  then show ?case
    using tp pc owner_of_inside [OF w, of h Critical] own
    by (intro lock_invI [where w = "Some h"]) (auto simp: run_simps in_section_def split: if_splits)
next
  case (clear pc h m m')
  from clear.prems obtain w where tp: "\<And>h. h < NCPU \<Longrightarrow> reg_tp (harts m h) = of_nat h"
    and pc: "\<And>h. pc h \<noteq> Outside \<Longrightarrow> h < NCPU" and w: "owner_of (locks m lk) pc w"
    by (auto simp: lock_inv_def)
  show ?case
    using tp pc owner_of_inside [OF w, of h Clearing] clear
    by (intro lock_invI [where w = "Some h"]) (auto simp: run_simps in_section_def split: if_splits)
next
  case (drop pc h m m')
  from drop.prems obtain w where tp: "\<And>h. h < NCPU \<Longrightarrow> reg_tp (harts m h) = of_nat h"
    and pc: "\<And>h. pc h \<noteq> Outside \<Longrightarrow> h < NCPU" and w: "owner_of (locks m lk) pc w"
    by (auto simp: lock_inv_def)
  have m': "m' = (popm (m\<lparr>curhart := h\<rparr>))\<lparr>locks := (locks m)(lk := (locks m lk)\<lparr>locked := 0\<rparr>)\<rparr>"
    using drop by (auto simp: run_simps pop_off_run split: if_splits)
  show ?case
    using tp pc owner_of_drop [OF w, of h] drop(1)
    by (intro lock_invI [where w = None]) (auto simp: m' harts_tp split: if_splits)
next
  case (other m' m pc)
  then show ?case by (auto simp: lock_inv_def)
qed

lemma lock_reachable_inv: "lock_reachable lk s \<Longrightarrow> lock_inv lk s"
  by (induction rule: lock_reachable.induct) (auto intro: lock_inv_start lock_inv_step)


lemma boot_mach_simps [simp]:
  "free_lock lk boot_mach" "depth boot_mach = 0" "\<not> sie_on boot_mach" "curcpu boot_mach = 0"
  "curproc boot_mach = None" "h < NCPU \<Longrightarrow> reg_tp (harts boot_mach h) = of_nat h"
  by (simp_all add: boot_mach_def boot_hart_def free_lock_def mach_defs curproc_def)

lemma lock_reachable_critical:
  assumes "lock_reachable lk (m, pc)" "h < NCPU" "pc h = Outside"
    and "locked (locks m lk) = 0"
  shows "\<exists>m'. lock_reachable lk (m', pc(h := Critical))"
proof -
  have inv: "lock_inv lk (m, pc)" using assms(1) by (rule lock_reachable_inv)
  then obtain w where "owner_of (locks m lk) pc w" by (auto simp: lock_inv_def)
  then have "lk_cpu (locks m lk) \<noteq> Some x" if "x = h" for x
    using that assms(3) owner_ofD(2) by fastforce
  moreover have tp: "curcpu (m\<lparr>curhart := h\<rparr>) = h"
    using inv assms(2) by (intro curcpu_on_hart) (auto simp: lock_inv_def)
  ultimately have "kbind push_off (\<lambda>_. holding lk) (m\<lparr>curhart := h\<rparr>) = Ret False (pushm (m\<lparr>curhart := h\<rparr>))"
    by (simp add: run_simps holds_def)
  then have "lock_reachable lk (pushm (m\<lparr>curhart := h\<rparr>), pc(h := Trying))"
    using assms by (intro lock_reachable.step [OF _ lock_step.enter]) auto
  moreover obtain m1 where m1: "lock_test_and_set lk ((pushm (m\<lparr>curhart := h\<rparr>))\<lparr>curhart := h\<rparr>) = Ret 0 m1"
    using assms(4) by (simp add: lock_test_and_set_run)
  ultimately have "lock_reachable lk (m1, pc(h := Trying, h := Swapped))"
    by (intro lock_reachable.step [OF _ lock_step.take]) auto
  moreover obtain m2 where "kbind mycpu (\<lambda>c. upd_lock lk (\<lambda>l. l\<lparr>lk_cpu := Some c\<rparr>)) (m1\<lparr>curhart := h\<rparr>) = Ret () m2"
    by (simp add: run_simps)
  ultimately have "lock_reachable lk (m2, pc(h := Trying, h := Swapped, h := Critical))"
    by (intro lock_reachable.step [OF _ lock_step.own]) auto
  then show ?thesis by auto
qed


end
