(* ===== verification/Cstring.thy ===== *)
theory Cstring
  imports Machine
begin

text \<open>
  The byte and string functions of \<open>kernel/string.c\<close>. A pointer is an offset into a byte array; a
  count of type \<open>uint\<close> is a \<open>u32\<close>. Functions on two strings that are never written together
  (\<open>strncmp\<close>, \<open>strncpy\<close>, \<open>safestrcpy\<close>, \<open>strlen\<close>) take each string as the array of bytes that the
  pointer points to. Shown: \<open>memmove\<close> copies the old contents of the source whatever the overlap, and
  what the string functions compute.
\<close>

section \<open>Definitions\<close>

fun memset_loop :: "bytes \<Rightarrow> nat \<Rightarrow> u8 \<Rightarrow> nat \<Rightarrow> bytes" where
  "memset_loop m p c 0 = m"
| "memset_loop m p c (Suc n) = memset_loop (m(p := c)) (Suc p) c n"

definition memset :: "bytes \<Rightarrow> nat \<Rightarrow> u32 \<Rightarrow> u32 \<Rightarrow> bytes" where
  "memset m dst c n = memset_loop m dst (ucast c) (unat n)"

fun memcmp_loop :: "bytes \<Rightarrow> nat \<Rightarrow> bytes \<Rightarrow> nat \<Rightarrow> nat \<Rightarrow> int" where
  "memcmp_loop m1 s1 m2 s2 0 = 0"
| "memcmp_loop m1 s1 m2 s2 (Suc n) =
     (if m1 s1 \<noteq> m2 s2 then uint (m1 s1) - uint (m2 s2)
      else memcmp_loop m1 (Suc s1) m2 (Suc s2) n)"

definition memcmp :: "bytes \<Rightarrow> nat \<Rightarrow> bytes \<Rightarrow> nat \<Rightarrow> u32 \<Rightarrow> int" where
  "memcmp m1 v1 m2 v2 n = memcmp_loop m1 v1 m2 v2 (unat n)"

text \<open>The two copying loops: downwards with pre-decrement, upwards with post-increment.\<close>

fun move_down :: "bytes \<Rightarrow> nat \<Rightarrow> nat \<Rightarrow> nat \<Rightarrow> bytes" where
  "move_down m d s 0 = m"
| "move_down m d s (Suc n) = move_down (m(d - 1 := m (s - 1))) (d - 1) (s - 1) n"

fun move_up :: "bytes \<Rightarrow> nat \<Rightarrow> nat \<Rightarrow> nat \<Rightarrow> bytes" where
  "move_up m d s 0 = m"
| "move_up m d s (Suc n) = move_up (m(d := m s)) (Suc d) (Suc s) n"

definition memmove :: "bytes \<Rightarrow> nat \<Rightarrow> nat \<Rightarrow> u32 \<Rightarrow> bytes" where
  "memmove m dst src n =
     (if n = 0 then m
      else if src < dst \<and> src + unat n > dst
      then move_down m (dst + unat n) (src + unat n) (unat n)
      else move_up m dst src (unat n))"

text \<open>
  Between two different objects the blocks cannot overlap and \<open>memmove\<close> takes its upward loop;
  \<open>memmove_from\<close> is that case, with the source in an object of its own.
\<close>

fun move_from :: "bytes \<Rightarrow> nat \<Rightarrow> bytes \<Rightarrow> nat \<Rightarrow> nat \<Rightarrow> bytes" where
  "move_from m d b s 0 = m"
| "move_from m d b s (Suc n) = move_from (m(d := b s)) (Suc d) b (Suc s) n"

definition memmove_from :: "bytes \<Rightarrow> nat \<Rightarrow> bytes \<Rightarrow> nat \<Rightarrow> u32 \<Rightarrow> bytes" where
  "memmove_from m dst b src n = (if n = 0 then m else move_from m dst b src (unat n))"

definition memcpy :: "bytes \<Rightarrow> nat \<Rightarrow> nat \<Rightarrow> u32 \<Rightarrow> bytes" where
  "memcpy m dst src n = memmove m dst src n"

fun strncmp_loop :: "bytes \<Rightarrow> bytes \<Rightarrow> nat \<Rightarrow> nat \<Rightarrow> int" where
  "strncmp_loop p q i 0 = 0"
| "strncmp_loop p q i (Suc n) =
     (if p i \<noteq> 0 \<and> p i = q i then strncmp_loop p q (Suc i) n
      else uint (p i) - uint (q i))"

definition strncmp :: "bytes \<Rightarrow> bytes \<Rightarrow> u32 \<Rightarrow> int" where
  "strncmp p q n = strncmp_loop p q 0 (unat n)"

text \<open>
  \<open>strncpy\<close>: the first loop copies until the count is used up or a NUL has been copied, the second
  fills the rest of the array with NULs.
\<close>

fun strncpy_fill :: "bytes \<Rightarrow> nat \<Rightarrow> nat \<Rightarrow> bytes" where
  "strncpy_fill s i 0 = s"
| "strncpy_fill s i (Suc n) = strncpy_fill (s(i := 0)) (Suc i) n"

fun strncpy_copy :: "bytes \<Rightarrow> bytes \<Rightarrow> nat \<Rightarrow> nat \<Rightarrow> bytes" where
  "strncpy_copy s t i 0 = s"
| "strncpy_copy s t i (Suc n) =
     (if t i \<noteq> 0 then strncpy_copy (s(i := t i)) t (Suc i) n
      else strncpy_fill (s(i := t i)) (Suc i) n)"

definition strncpy :: "bytes \<Rightarrow> bytes \<Rightarrow> int \<Rightarrow> bytes" where
  "strncpy s t n = strncpy_copy s t 0 (nat n)"

fun safestrcpy_loop :: "bytes \<Rightarrow> bytes \<Rightarrow> nat \<Rightarrow> nat \<Rightarrow> bytes" where
  "safestrcpy_loop s t i 0 = s(i := 0)"
| "safestrcpy_loop s t i (Suc n) =
     (if t i \<noteq> 0 then safestrcpy_loop (s(i := t i)) t (Suc i) n
      else (s(i := t i))(Suc i := 0))"

definition safestrcpy :: "bytes \<Rightarrow> bytes \<Rightarrow> int \<Rightarrow> bytes" where
  "safestrcpy s t n = (if n \<le> 0 then s else safestrcpy_loop s t 0 (nat n - 1))"

text \<open>\<open>strlen\<close> runs off the end of memory when there is no NUL: \<open>None\<close>.\<close>

partial_function (option) strlen_from :: "bytes \<Rightarrow> nat \<Rightarrow> nat option" where
  "strlen_from s n = (if s n \<noteq> 0 then strlen_from s (Suc n) else Some n)"

definition strlen :: "bytes \<Rightarrow> nat option" where
  "strlen s = strlen_from s 0"

section \<open>Memory blocks\<close>

text \<open>Replacing a range of one array by a range of another: what copying is meant to do.\<close>

definition blit :: "bytes \<Rightarrow> nat \<Rightarrow> bytes \<Rightarrow> nat \<Rightarrow> nat \<Rightarrow> bytes" where
  "blit a d b s n = (\<lambda>j. if d \<le> j \<and> j < d + n then b (s + (j - d)) else a j)"

definition fill :: "bytes \<Rightarrow> nat \<Rightarrow> u8 \<Rightarrow> nat \<Rightarrow> bytes" where
  "fill a d c n = (\<lambda>j. if d \<le> j \<and> j < d + n then c else a j)"

lemma memset_loop_fill: "memset_loop m p c n = fill m p c n"
  by (induction n arbitrary: m p) (auto simp: fill_def fun_eq_iff)

lemma memset_fill: "memset m dst c n = fill m dst (ucast c) (unat n)"
  by (simp add: memset_def memset_loop_fill)

lemma blit_0 [simp]: "blit a d b s 0 = a"
  by (auto simp: blit_def fun_eq_iff)

lemma blit_apply_in [simp]: "d \<le> j \<Longrightarrow> j < d + n \<Longrightarrow> blit a d b s n j = b (s + (j - d))"
  by (simp add: blit_def)

lemma blit_apply_out: "j < d \<or> d + n \<le> j \<Longrightarrow> blit a d b s n j = a j"
  by (auto simp: blit_def)

lemma move_from_blit: "move_from m d b s n = blit m d b s n"
proof (induction n arbitrary: m d s)
  case (Suc n)
  have "move_from (m(d := b s)) (Suc d) b (Suc s) n = blit (m(d := b s)) (Suc d) b (Suc s) n"
    by (rule Suc.IH)
  also have "\<dots> = blit m d b s (Suc n)"
    by (rule ext) (auto simp: blit_def Suc_diff_Suc)
  finally show ?case by simp
qed simp

lemma memmove_from_blit: "memmove_from m d b s n = blit m d b s (unat n)"
  by (simp add: memmove_from_def move_from_blit)

lemma move_up_blit: "d \<le> s \<or> s + n \<le> d \<Longrightarrow> move_up m d s n = blit m d m s n"
proof (induction n arbitrary: m d s)
  case (Suc n)
  have "move_up (m(d := m s)) (Suc d) (Suc s) n = blit (m(d := m s)) (Suc d) (m(d := m s)) (Suc s) n"
    using Suc.prems by (intro Suc.IH) auto
  moreover have "blit (m(d := m s)) (Suc d) (m(d := m s)) (Suc s) n = blit m d m s (Suc n)"
    using Suc.prems by (auto simp: blit_def fun_eq_iff Suc_diff_Suc not_less_eq_eq dest!: le_antisym)
  ultimately show ?case by simp
qed simp

lemma move_down_blit: "n \<le> s \<Longrightarrow> s \<le> d \<Longrightarrow> move_down m d s n = blit m (d - n) m (s - n) n"
proof (induction n arbitrary: m d s)
  case (Suc n)
  let ?m = "m(d - 1 := m (s - 1))"
  have "move_down ?m (d - 1) (s - 1) n = blit ?m (d - 1 - n) ?m (s - 1 - n) n"
    using Suc.prems by (intro Suc.IH) auto
  moreover have "blit ?m (d - 1 - n) ?m (s - 1 - n) n = blit m (d - Suc n) m (s - Suc n) (Suc n)"
  proof (rule ext)
    fix j
    have "s - Suc n + (j - (d - Suc n)) \<noteq> d - 1" if "d - Suc n \<le> j" "j < d - 1"
      using that Suc.prems by arith
    moreover have "s - Suc n + (d - 1 - (d - Suc n)) = s - 1"
      using Suc.prems by arith
    ultimately show "blit ?m (d - 1 - n) ?m (s - 1 - n) n j = blit m (d - Suc n) m (s - Suc n) (Suc n) j"
      using Suc.prems by (cases "j = d - 1") (auto simp: blit_def)
  qed
  ultimately show ?case by simp
qed simp

lemma memmove_blit: "memmove m dst src n = blit m dst m src (unat n)"
proof (cases "src < dst \<and> src + unat n > dst")
  case True
  have "memmove m dst src n = move_down m (dst + unat n) (src + unat n) (unat n)"
    using True by (auto simp: memmove_def)
  also have "\<dots> = blit m dst m src (unat n)"
    using True by (subst move_down_blit) auto
  finally show ?thesis .
next
  case False
  then have "n \<noteq> 0 \<Longrightarrow> move_up m dst src (unat n) = blit m dst m src (unat n)"
    by (intro move_up_blit) auto
  with False show ?thesis by (auto simp: memmove_def)
qed

text \<open>
  C34: \<open>memmove\<close> is correct for every overlap of source and destination: each of the \<open>n\<close> destination
  bytes holds what the corresponding source byte held before the call, and no other byte changes.
\<close>

theorem memmove_overlap:
  "(\<forall>i < unat n. memmove m dst src n (dst + i) = m (src + i)) \<and>
   (\<forall>j. j < dst \<or> dst + unat n \<le> j \<longrightarrow> memmove m dst src n j = m j)"
  by (auto simp: memmove_blit blit_def)

theorem memmove_overlap_witness:
  "memmove (\<lambda>j. of_nat j) 11 10 4 14 = 13 \<and> memmove (\<lambda>j. of_nat j) 10 11 4 10 = 11 \<and>
   memmove (\<lambda>j. of_nat j) 10 11 4 14 = 14"
  using memmove_overlap [of 4 "\<lambda>j. of_nat j" 11 10, THEN conjunct1, rule_format, of 3]
    memmove_overlap [of 4 "\<lambda>j. of_nat j" 10 11, THEN conjunct1, rule_format, of 0]
    memmove_overlap [of 4 "\<lambda>j. of_nat j" 10 11, THEN conjunct2, rule_format, of 14]
  by simp

section \<open>Strings\<close>

lemma uint_diff_eq_0: "uint a - uint b = 0 \<longleftrightarrow> a = b" for a b :: u8
  by (simp add: word_uint_eq_iff)

lemma strncmp_loop_eq_0:
  "strncmp_loop p q i n = 0 \<longleftrightarrow> (\<forall>k < n. (\<forall>l < k. p (i + l) \<noteq> 0) \<longrightarrow> p (i + k) = q (i + k))"
proof (induction n arbitrary: i)
  case (Suc n)
  show ?case
  proof (cases "p i \<noteq> 0 \<and> p i = q i")
    case True
    have "(\<forall>k < Suc n. (\<forall>l < k. p (i + l) \<noteq> 0) \<longrightarrow> p (i + k) = q (i + k)) \<longleftrightarrow>
        (\<forall>k < n. (\<forall>l < k. p (Suc i + l) \<noteq> 0) \<longrightarrow> p (Suc i + k) = q (Suc i + k))"
      using True by (auto simp: All_less_Suc2)
    moreover have "strncmp_loop p q i (Suc n) = strncmp_loop p q (Suc i) n"
      using True by auto
    ultimately show ?thesis by (simp only: Suc.IH)
  next
    case False
    have "p i = q i" if "\<forall>k < Suc n. (\<forall>l < k. p (i + l) \<noteq> 0) \<longrightarrow> p (i + k) = q (i + k)"
      using that [rule_format, of 0] by simp
    moreover have "\<forall>k < Suc n. (\<forall>l < k. p (i + l) \<noteq> 0) \<longrightarrow> p (i + k) = q (i + k)" if "p i = q i"
    proof (intro allI impI)
      fix k assume "\<forall>l < k. p (i + l) \<noteq> 0"
      with that False have "k = 0" by (metis add.right_neutral gr0I)
      with that show "p (i + k) = q (i + k)" by simp
    qed
    ultimately have "(\<forall>k < Suc n. (\<forall>l < k. p (i + l) \<noteq> 0) \<longrightarrow> p (i + k) = q (i + k)) \<longleftrightarrow> p i = q i"
      by blast
    moreover have "strncmp_loop p q i (Suc n) = uint (p i) - uint (q i)"
      using False by auto
    ultimately show ?thesis
      by (simp only: uint_diff_eq_0)
  qed
qed simp

lemma strncmp_eq_0:
  "strncmp p q n = 0 \<longleftrightarrow> (\<forall>k < unat n. (\<forall>l < k. p l \<noteq> 0) \<longrightarrow> p k = q k)"
  by (simp add: strncmp_def strncmp_loop_eq_0)

lemma strncpy_fill_eq: "strncpy_fill s i n = fill s i 0 n"
  by (induction n arbitrary: s i) (auto simp: fill_def fun_eq_iff)

lemma strncpy_copy_eq:
  "strncpy_copy s t i n = (\<lambda>j. if i \<le> j \<and> j < i + n then (if \<exists>k. i \<le> k \<and> k < j \<and> t k = 0 then 0 else t j) else s j)"
proof (induction n arbitrary: s i)
  case (Suc n)
  show ?case
  proof (cases "t i = 0")
    case True
    then show ?thesis
      by (auto simp: strncpy_fill_eq fill_def fun_eq_iff not_less_eq_eq le_Suc_eq Suc_le_eq)
  next
    case False
    have "(\<exists>k. i \<le> k \<and> k < j \<and> t k = 0) \<longleftrightarrow> (\<exists>k. Suc i \<le> k \<and> k < j \<and> t k = 0)" for j
      using False by (metis Suc_leD Suc_leI le_neq_implies_less)
    with False show ?thesis
      by (auto simp: Suc.IH fun_eq_iff not_less_eq_eq)
  qed
qed (auto simp: fun_eq_iff)

lemma strncpy_eq:
  "strncpy s t n = (\<lambda>j. if j < nat n then (if \<exists>k < j. t k = 0 then 0 else t j) else s j)"
  by (auto simp: strncpy_def strncpy_copy_eq fun_eq_iff)

lemma safestrcpy_loop_spec:
  "\<exists>k \<le> n. (\<forall>j < k. t (i + j) \<noteq> 0 \<and> safestrcpy_loop s t i n (i + j) = t (i + j)) \<and>
     safestrcpy_loop s t i n (i + k) = 0 \<and> (k = n \<or> t (i + k) = 0) \<and>
     (\<forall>j. j < i \<or> i + n < j \<longrightarrow> safestrcpy_loop s t i n j = s j)"
proof (induction n arbitrary: s i)
  case (Suc n)
  show ?case
  proof (cases "t i = 0")
    case True
    then show ?thesis by (intro exI [of _ 0]) auto
  next
    case False
    obtain k where k: "k \<le> n"
      "\<forall>j < k. t (Suc i + j) \<noteq> 0 \<and> safestrcpy_loop (s(i := t i)) t (Suc i) n (Suc i + j) = t (Suc i + j)"
      "safestrcpy_loop (s(i := t i)) t (Suc i) n (Suc i + k) = 0" "k = n \<or> t (Suc i + k) = 0"
      "\<forall>j. j < Suc i \<or> Suc i + n < j \<longrightarrow> safestrcpy_loop (s(i := t i)) t (Suc i) n j = (s(i := t i)) j"
      using Suc.IH [of "Suc i" "s(i := t i)"] by blast
    have here: "safestrcpy_loop (s(i := t i)) t (Suc i) n i = t i"
      using k(5) [rule_format, of i] by simp
    have out: "safestrcpy_loop (s(i := t i)) t (Suc i) n j = s j" if "j < i \<or> i + Suc n < j" for j
      using that k(5) [rule_format, of j] by auto
    have step: "safestrcpy_loop s t i (Suc n) = safestrcpy_loop (s(i := t i)) t (Suc i) n"
      using False by simp
    show ?thesis
      unfolding step using k(1-4) here out False
      by (intro exI [of _ "Suc k"]) (simp add: All_less_Suc2)
  qed
qed (intro exI [of _ 0], auto)

text \<open>
  C35: \<open>safestrcpy(s, t, n)\<close> with \<open>n > 0\<close> leaves a NUL-terminated string in the first \<open>n\<close> bytes of \<open>s\<close>: the
  longest prefix of \<open>t\<close> that fits with its terminator, and writes nothing beyond them.
\<close>

theorem safestrcpy_terminates:
  assumes "0 < n"
  shows "\<exists>k < nat n. (\<forall>j < k. t j \<noteq> 0 \<and> safestrcpy s t n j = t j) \<and> safestrcpy s t n k = 0 \<and>
      (k = nat n - 1 \<or> t k = 0) \<and> (\<forall>j \<ge> nat n. safestrcpy s t n j = s j)"
proof -
  obtain k where k: "k \<le> nat n - 1" "\<forall>j < k. t j \<noteq> 0 \<and> safestrcpy s t n j = t j"
    "safestrcpy s t n k = 0" "k = nat n - 1 \<or> t k = 0"
    "\<forall>j. nat n - 1 < j \<longrightarrow> safestrcpy s t n j = s j"
    using safestrcpy_loop_spec [of "nat n - 1" t 0 s] assms by (auto simp: safestrcpy_def)
  have "k < nat n" "\<forall>j \<ge> nat n. safestrcpy s t n j = s j"
    using k(1,5) assms by auto
  with k show ?thesis by blast
qed

theorem safestrcpy_terminates_witness:
  "(0::int) < 16 \<and> (\<exists>k < 16. safestrcpy (\<lambda>_. 7) (\<lambda>j. if j < 40 then 65 else 0) 16 k = 0)"
proof -
  have pos: "(0::int) < 16" by simp
  show ?thesis
    using safestrcpy_terminates [OF pos, of "\<lambda>j. if j < 40 then 65 else 0" "\<lambda>_. 7"] by auto
qed

lemma strlen_from_Some: "strlen_from s n = Some r \<Longrightarrow> n \<le> r \<and> s r = 0 \<and> (\<forall>i. n \<le> i \<and> i < r \<longrightarrow> s i \<noteq> 0)"
proof (rule strlen_from.raw_induct [where P = "\<lambda>s n r. n \<le> r \<and> s r = 0 \<and> (\<forall>i. n \<le> i \<and> i < r \<longrightarrow> s i \<noteq> 0)"])
  fix f s n r
  assume IH: "\<And>s n r. f s n = Some r \<Longrightarrow> n \<le> r \<and> s r = 0 \<and> (\<forall>i. n \<le> i \<and> i < r \<longrightarrow> s i \<noteq> (0::u8))"
    and eq: "(if s n \<noteq> 0 then f s (Suc n) else Some n) = Some r"
  show "n \<le> r \<and> s r = 0 \<and> (\<forall>i. n \<le> i \<and> i < r \<longrightarrow> s i \<noteq> 0)"
  proof (cases "s n = 0")
    case True
    with eq show ?thesis by auto
  next
    case False
    with eq IH [of s "Suc n" r] have "Suc n \<le> r \<and> s r = 0 \<and> (\<forall>i. Suc n \<le> i \<and> i < r \<longrightarrow> s i \<noteq> 0)"
      by simp
    with False show ?thesis by (auto simp: Suc_le_eq) (metis le_neq_implies_less)
  qed
qed

lemma strlen_from_complete: "s (n + k) = 0 \<Longrightarrow> \<exists>r. strlen_from s n = Some r"
proof (induction k arbitrary: n)
  case 0
  then show ?case by (subst strlen_from.simps) simp
next
  case (Suc k)
  then show ?case by (subst strlen_from.simps) (cases "s n = 0"; simp)
qed

lemma strlen_Some: "strlen s = Some r \<longleftrightarrow> s r = 0 \<and> (\<forall>i < r. s i \<noteq> 0)"
proof
  assume r: "s r = 0 \<and> (\<forall>i < r. s i \<noteq> 0)"
  then obtain r' where r': "strlen s = Some r'"
    using strlen_from_complete [of s 0 r] by (auto simp: strlen_def)
  then have "s r' = 0 \<and> (\<forall>i < r'. s i \<noteq> 0)"
    using strlen_from_Some [of s 0 r'] by (simp add: strlen_def)
  with r have "r' = r" by (metis nat_neq_iff)
  with r' show "strlen s = Some r" by simp
qed (use strlen_from_Some [of s 0 r] in \<open>simp add: strlen_def\<close>)

end
