(* ===== verification/Kstate.thy ===== *)
theory Kstate
  imports Spinlock Cstring
begin

text \<open>
  The state of the whole kernel: the structures declared in \<open>kernel/proc.h\<close>, \<open>kernel/fs.h\<close>,
  \<open>kernel/file.h\<close>, \<open>kernel/buf.h\<close>, \<open>kernel/sleeplock.h\<close>, \<open>kernel/virtio.h\<close> and at the top of the
  kernel's C files, as records, and one record \<open>kernel\<close> holding all of the kernel's global variables,
  the machine of theory Hart, physical memory and the device registers. A pointer into a kernel
  table is an index, \<open>None\<close> the null pointer; an array is a function from indices.

  The second part defines the two kinds of kernel code: code that never gives the CPU away runs on
  \<open>kernel\<close>; code that may sleep runs on \<open>world\<close>, a kernel state together with the list of the
  resumptions that the scheduler will still grant to this thread.
\<close>

section \<open>Processes (kernel/proc.h)\<close>

datatype procstate = UNUSED | USED | SLEEPING | RUNNABLE | RUNNING | ZOMBIE

text \<open>
  A sleep channel is the address of a kernel object. The objects the kernel sleeps on are named
  here: a process (\<open>wait\<close>), the tick counter, a buffer (disk request), the lock in a buffer and the
  lock in an inode (sleep locks), the log, the two counters of a pipe, the read index of the
  console, that of the transmit buffer, and the free descriptors of the disk.
\<close>

datatype chan =
    CH_PROC nat | CH_TICKS | CH_BUF nat | CH_BUF_LOCK nat | CH_INODE_LOCK nat | CH_LOG
  | CH_PIPE_NREAD u64 | CH_PIPE_NWRITE u64 | CH_CONS_R | CH_UART_TX_R | CH_DISK_FREE

record proc =
  p_state :: procstate
  p_chan :: "chan option"
  p_killed :: bool
  p_xstate :: int
  p_pid :: int
  p_parent :: "nat option"
  p_kstack :: u64
  p_sz :: u64
  p_pagetable :: u64
  p_trapframe :: u64
  p_context :: kcontext
  p_ofile :: "nat \<Rightarrow> nat option"
  p_cwd :: "nat option"
  p_name :: bytes

text \<open>The trap frame is a page of memory; its fields are 64-bit words at these offsets.\<close>

abbreviation (input) TF_KERNEL_SATP :: nat where "TF_KERNEL_SATP \<equiv> 0"
abbreviation (input) TF_KERNEL_SP :: nat where "TF_KERNEL_SP \<equiv> 8"
abbreviation (input) TF_KERNEL_TRAP :: nat where "TF_KERNEL_TRAP \<equiv> 16"
abbreviation (input) TF_EPC :: nat where "TF_EPC \<equiv> 24"
abbreviation (input) TF_KERNEL_HARTID :: nat where "TF_KERNEL_HARTID \<equiv> 32"
abbreviation (input) TF_SP :: nat where "TF_SP \<equiv> 48"
abbreviation (input) TF_A0 :: nat where "TF_A0 \<equiv> 112"
abbreviation (input) TF_A1 :: nat where "TF_A1 \<equiv> 120"
abbreviation (input) TF_A2 :: nat where "TF_A2 \<equiv> 128"
abbreviation (input) TF_A3 :: nat where "TF_A3 \<equiv> 136"
abbreviation (input) TF_A4 :: nat where "TF_A4 \<equiv> 144"
abbreviation (input) TF_A5 :: nat where "TF_A5 \<equiv> 152"
abbreviation (input) TF_A7 :: nat where "TF_A7 \<equiv> 168"
abbreviation (input) TF_SIZE :: nat where "TF_SIZE \<equiv> 288"

section \<open>Sleep locks and buffers (kernel/sleeplock.h, kernel/buf.h)\<close>

text \<open>The spin lock inside a sleep lock is \<open>BUF_SLEEP_LOCK\<close> or \<open>INODE_SLEEP_LOCK\<close> of theory Hart.\<close>

record sleeplock =
  sl_locked :: bool
  sl_name :: string
  sl_pid :: int

text \<open>Buffer \<open>NBUF\<close> of the table is \<open>bcache.head\<close>.\<close>

record buf =
  b_valid :: bool
  b_disk :: bool
  b_dev :: u32
  b_blockno :: u32
  b_lock :: sleeplock
  b_refcnt :: u32
  b_prev :: nat
  b_next :: nat
  b_data :: bytes

section \<open>File system (kernel/fs.h, kernel/log.c)\<close>

abbreviation (input) ROOTINO :: u32 where "ROOTINO \<equiv> 1"
abbreviation (input) BSIZE :: "'a::numeral" where "BSIZE \<equiv> 1024"
abbreviation (input) FSMAGIC :: u32 where "FSMAGIC \<equiv> 0x10203040"
abbreviation (input) NDIRECT :: "'a::numeral" where "NDIRECT \<equiv> 12"
abbreviation (input) NINDIRECT :: "'a::numeral" where "NINDIRECT \<equiv> 256"
abbreviation (input) MAXFILE :: "'a::numeral" where "MAXFILE \<equiv> 268"
abbreviation (input) IPB :: "'a::numeral" where "IPB \<equiv> 16"
abbreviation (input) BPB :: "'a::numeral" where "BPB \<equiv> 8192"
abbreviation (input) DIRSIZ :: nat where "DIRSIZ \<equiv> 14"

record superblock =
  sb_magic :: u32
  sb_size :: u32
  sb_nblocks :: u32
  sb_ninodes :: u32
  sb_nlog :: u32
  sb_logstart :: u32
  sb_inodestart :: u32
  sb_bmapstart :: u32

definition IBLOCK :: "u32 \<Rightarrow> superblock \<Rightarrow> u32" where
  "IBLOCK i sb = i div IPB + sb_inodestart sb"

definition BBLOCK :: "u32 \<Rightarrow> superblock \<Rightarrow> u32" where
  "BBLOCK b sb = b div BPB + sb_bmapstart sb"

text \<open>
  In-memory log state. The counters of \<open>log.c\<close> are C \<open>int\<close>s; block numbers are stored as \<open>int\<close>s but
  only ever compared with and passed as \<open>uint\<close>.
\<close>

record klog =
  log_start :: int
  log_size :: int
  log_outstanding :: int
  log_committing :: bool
  log_dev :: int
  lh_n :: int
  lh_block :: "nat \<Rightarrow> u32"

section \<open>Inodes and files (kernel/file.h, kernel/stat.h)\<close>

abbreviation (input) T_DIR :: u16 where "T_DIR \<equiv> 1"
abbreviation (input) T_FILE :: u16 where "T_FILE \<equiv> 2"
abbreviation (input) T_DEVICE :: u16 where "T_DEVICE \<equiv> 3"

record inode =
  i_dev :: u32
  i_inum :: u32
  i_ref :: int
  i_lock :: sleeplock
  i_valid :: bool
  i_type :: u16
  i_major :: u16
  i_minor :: u16
  i_nlink :: u16
  i_size :: u32
  i_addrs :: "nat \<Rightarrow> u32"

datatype ftype = FD_NONE | FD_PIPE | FD_INODE | FD_DEVICE

record kfile =
  f_type :: ftype
  f_ref :: int
  f_readable :: bool
  f_writable :: bool
  f_pipe :: u64
  f_ip :: "nat option"
  f_off :: u32
  f_major :: u16

text \<open>The device switch: the console's functions are the only ones the kernel installs.\<close>

datatype devfn = CONSOLEREAD | CONSOLEWRITE

record devsw =
  d_read :: "devfn option"
  d_write :: "devfn option"

abbreviation (input) CONSOLE :: nat where "CONSOLE \<equiv> 1"

section \<open>Pipes, console, UART (kernel/pipe.c, kernel/console.c, kernel/uart.c)\<close>

text \<open>
  A pipe lives in a page that \<open>kalloc\<close> returned; \<open>pipes\<close> of the kernel state below is the view of the
  allocated pages as pipe structures, by address.
\<close>

abbreviation (input) PIPESIZE :: "'a::numeral" where "PIPESIZE \<equiv> 512"

record pipe =
  pi_data :: bytes
  pi_nread :: u32
  pi_nwrite :: u32
  pi_readopen :: bool
  pi_writeopen :: bool

abbreviation (input) INPUT_BUF :: "'a::numeral" where "INPUT_BUF \<equiv> 128"

record cons =
  c_buf :: bytes
  c_r :: u32
  c_w :: u32
  c_e :: u32

abbreviation (input) UART_TX_BUF_SIZE :: "'a::numeral" where "UART_TX_BUF_SIZE \<equiv> 32"

record uart =
  uart_tx_buf :: bytes
  uart_tx_w :: u64
  uart_tx_r :: u64

section \<open>The virtio disk (kernel/virtio.h, kernel/virtio_disk.c)\<close>

abbreviation (input) NUM :: "'a::numeral" where "NUM \<equiv> 8"

text \<open>
  What a descriptor points at: the driver only ever enters the address of a command header, of a
  buffer's data or of a status byte.
\<close>

datatype vaddr = VNULL | V_OPS nat | V_DATA nat | V_STATUS nat

record virtq_desc =
  vd_addr :: vaddr
  vd_len :: u32
  vd_flags :: u16
  vd_next :: u16

record virtio_blk_req =
  vr_type :: u32
  vr_reserved :: u32
  vr_sector :: u64

record vdisk =
  vd_desc :: "nat \<Rightarrow> virtq_desc"
  avail_idx :: u16
  avail_ring :: "nat \<Rightarrow> u16"
  used_idx_dev :: u16
  used_ring_id :: "nat \<Rightarrow> u32"
  vd_free :: "nat \<Rightarrow> bool"
  vd_used_idx :: u16
  info_b :: "nat \<Rightarrow> nat option"
  info_status :: "nat \<Rightarrow> u8"
  vd_ops :: "nat \<Rightarrow> virtio_blk_req"

section \<open>The kernel\<close>

text \<open>
  Addresses the linker assigns (\<open>end\<close>, \<open>etext\<close>, \<open>trampoline\<close>, the trap vectors and \<open>forkret\<close>); they are
  constants of a build, and no code changes them.
\<close>

record symbols =
  sym_end :: u64
  sym_etext :: u64
  sym_trampoline :: u64
  sym_uservec :: u64
  sym_userret :: u64
  sym_kernelvec :: u64
  sym_timervec :: u64
  sym_usertrap :: u64
  sym_forkret :: u64
  sym_main :: u64
  sym_disk_pages :: u64
  sym_timer_scratch :: u64

text \<open>
  \<open>dev_in\<close> holds the values that memory-mapped device registers will deliver, one for each load, in
  order, and \<open>dev_out\<close> the stores to device registers so far, the latest last. \<open>disk\<close> is the medium of the
  disk, byte by byte; no kernel code touches it, only the device does.
\<close>

record kernel =
  mach :: mach
  syms :: symbols
  mem :: bytes
  freelist :: u64
  kernel_pagetable :: u64
  proc :: "nat \<Rightarrow> proc"
  initproc :: "nat option"
  nextpid :: int
  first :: bool
  bufs :: "nat \<Rightarrow> buf"
  sb :: superblock
  klog :: klog
  inodes :: "nat \<Rightarrow> inode"
  files :: "nat \<Rightarrow> kfile"
  devsw :: "nat \<Rightarrow> devsw"
  pipes :: "u64 \<Rightarrow> pipe"
  cons :: cons
  uart :: uart
  vdisk :: vdisk
  ticks :: u32
  panicked :: bool
  pr_locking :: bool
  started :: bool
  timer_scratch :: "nat \<Rightarrow> nat \<Rightarrow> u64"
  dev_in :: "u64 list"
  dev_out :: "(u64 \<times> u64) list"
  disk :: bytes

text \<open>The kernel before \<open>main\<close>: zero-initialised data, with the addresses \<open>sy\<close> and memory contents \<open>m\<close>.\<close>

definition zero_proc :: proc where
  "zero_proc = \<lparr>p_state = UNUSED, p_chan = None, p_killed = False, p_xstate = 0, p_pid = 0,
     p_parent = None, p_kstack = 0, p_sz = 0, p_pagetable = 0, p_trapframe = 0,
     p_context = zero_context, p_ofile = (\<lambda>_. None), p_cwd = None, p_name = (\<lambda>_. 0)\<rparr>"

definition zero_sleeplock :: sleeplock where
  "zero_sleeplock = \<lparr>sl_locked = False, sl_name = [], sl_pid = 0\<rparr>"

definition zero_buf :: buf where
  "zero_buf = \<lparr>b_valid = False, b_disk = False, b_dev = 0, b_blockno = 0, b_lock = zero_sleeplock,
     b_refcnt = 0, b_prev = 0, b_next = 0, b_data = (\<lambda>_. 0)\<rparr>"

definition zero_inode :: inode where
  "zero_inode = \<lparr>i_dev = 0, i_inum = 0, i_ref = 0, i_lock = zero_sleeplock, i_valid = False, i_type = 0,
     i_major = 0, i_minor = 0, i_nlink = 0, i_size = 0, i_addrs = (\<lambda>_. 0)\<rparr>"

definition zero_file :: kfile where
  "zero_file = \<lparr>f_type = FD_NONE, f_ref = 0, f_readable = False, f_writable = False, f_pipe = 0,
     f_ip = None, f_off = 0, f_major = 0\<rparr>"

definition zero_pipe :: pipe where
  "zero_pipe = \<lparr>pi_data = (\<lambda>_. 0), pi_nread = 0, pi_nwrite = 0, pi_readopen = False, pi_writeopen = False\<rparr>"

definition zero_vdisk :: vdisk where
  "zero_vdisk = \<lparr>vd_desc = (\<lambda>_. \<lparr>vd_addr = VNULL, vd_len = 0, vd_flags = 0, vd_next = 0\<rparr>),
     avail_idx = 0, avail_ring = (\<lambda>_. 0), used_idx_dev = 0, used_ring_id = (\<lambda>_. 0),
     vd_free = (\<lambda>_. False), vd_used_idx = 0, info_b = (\<lambda>_. None), info_status = (\<lambda>_. 0),
     vd_ops = (\<lambda>_. \<lparr>vr_type = 0, vr_reserved = 0, vr_sector = 0\<rparr>)\<rparr>"

definition boot_kernel :: "symbols \<Rightarrow> bytes \<Rightarrow> kernel" where
  "boot_kernel sy m = \<lparr>mach = boot_mach, syms = sy, mem = m, freelist = 0, kernel_pagetable = 0,
     proc = (\<lambda>_. zero_proc), initproc = None, nextpid = 1, first = True, bufs = (\<lambda>_. zero_buf),
     sb = \<lparr>sb_magic = 0, sb_size = 0, sb_nblocks = 0, sb_ninodes = 0, sb_nlog = 0, sb_logstart = 0,
       sb_inodestart = 0, sb_bmapstart = 0\<rparr>,
     klog = \<lparr>log_start = 0, log_size = 0, log_outstanding = 0, log_committing = False, log_dev = 0,
       lh_n = 0, lh_block = (\<lambda>_. 0)\<rparr>,
     inodes = (\<lambda>_. zero_inode), files = (\<lambda>_. zero_file),
     devsw = (\<lambda>_. \<lparr>d_read = None, d_write = None\<rparr>), pipes = (\<lambda>_. zero_pipe),
     cons = \<lparr>c_buf = (\<lambda>_. 0), c_r = 0, c_w = 0, c_e = 0\<rparr>,
     uart = \<lparr>uart_tx_buf = (\<lambda>_. 0), uart_tx_w = 0, uart_tx_r = 0\<rparr>,
     vdisk = zero_vdisk, ticks = 0, panicked = False, pr_locking = False, started = False,
     timer_scratch = (\<lambda>_ _. 0), dev_in = [], dev_out = [], disk = (\<lambda>_. 0)\<rparr>"

text \<open>A build's addresses: the kernel image ends at \<open>e\<close>.\<close>

definition syms_at :: "u64 \<Rightarrow> symbols" where
  "syms_at e = \<lparr>sym_end = e, sym_etext = 0x80008000, sym_trampoline = 0x80007000,
     sym_uservec = 0x80007000, sym_userret = 0x80007090, sym_kernelvec = 0x80005b50,
     sym_timervec = 0x80005be0, sym_usertrap = 0x800029f0, sym_forkret = 0x80001a10,
     sym_main = 0x80000e8a, sym_disk_pages = 0x8001d000,
     sym_timer_scratch = 0x80009060\<rparr>"

section \<open>Code that does not give the CPU away\<close>

definition on_mach :: "(mach, 'a) kmon \<Rightarrow> (kernel, 'a) kmon" where
  "on_mach m = klift mach (\<lambda>t k. k\<lparr>mach := t\<rparr>) m"

definition upd_proc :: "nat \<Rightarrow> (proc \<Rightarrow> proc) \<Rightarrow> (kernel, unit) kmon" where
  "upd_proc i f = kmod (\<lambda>k. k\<lparr>proc := (proc k)(i := f (proc k i))\<rparr>)"

definition upd_buf :: "nat \<Rightarrow> (buf \<Rightarrow> buf) \<Rightarrow> (kernel, unit) kmon" where
  "upd_buf i f = kmod (\<lambda>k. k\<lparr>bufs := (bufs k)(i := f (bufs k i))\<rparr>)"

definition upd_inode :: "nat \<Rightarrow> (inode \<Rightarrow> inode) \<Rightarrow> (kernel, unit) kmon" where
  "upd_inode i f = kmod (\<lambda>k. k\<lparr>inodes := (inodes k)(i := f (inodes k i))\<rparr>)"

definition upd_file :: "nat \<Rightarrow> (kfile \<Rightarrow> kfile) \<Rightarrow> (kernel, unit) kmon" where
  "upd_file i f = kmod (\<lambda>k. k\<lparr>files := (files k)(i := f (files k i))\<rparr>)"

definition upd_pipe :: "u64 \<Rightarrow> (pipe \<Rightarrow> pipe) \<Rightarrow> (kernel, unit) kmon" where
  "upd_pipe a f = kmod (\<lambda>k. k\<lparr>pipes := (pipes k)(a := f (pipes k a))\<rparr>)"

definition upd_mem :: "(bytes \<Rightarrow> bytes) \<Rightarrow> (kernel, unit) kmon" where
  "upd_mem f = kmod (\<lambda>k. k\<lparr>mem := f (mem k)\<rparr>)"

definition upd_klog :: "(klog \<Rightarrow> klog) \<Rightarrow> (kernel, unit) kmon" where
  "upd_klog f = kmod (\<lambda>k. k\<lparr>klog := f (klog k)\<rparr>)"

definition upd_cons :: "(cons \<Rightarrow> cons) \<Rightarrow> (kernel, unit) kmon" where
  "upd_cons f = kmod (\<lambda>k. k\<lparr>cons := f (cons k)\<rparr>)"

definition upd_uart :: "(uart \<Rightarrow> uart) \<Rightarrow> (kernel, unit) kmon" where
  "upd_uart f = kmod (\<lambda>k. k\<lparr>uart := f (uart k)\<rparr>)"

definition upd_vdisk :: "(vdisk \<Rightarrow> vdisk) \<Rightarrow> (kernel, unit) kmon" where
  "upd_vdisk f = kmod (\<lambda>k. k\<lparr>vdisk := f (vdisk k)\<rparr>)"

text \<open>
  A load from a device register delivers what the device answers; a load that is never answered
  stalls the hart. A store is appended to the trace.
\<close>

definition dev_read :: "u64 \<Rightarrow> (kernel, u64) kmon" where
  "dev_read a = (\<lambda>k. case dev_in k of [] \<Rightarrow> Hang k | v # vs \<Rightarrow> Ret v (k\<lparr>dev_in := vs\<rparr>))"

definition dev_write :: "u64 \<Rightarrow> u64 \<Rightarrow> (kernel, unit) kmon" where
  "dev_write a v = kmod (\<lambda>k. k\<lparr>dev_out := dev_out k @ [(a, v)]\<rparr>)"

lemma on_mach_run [run_simps]: "on_mach m k = (case m (mach k) of
      Ret x t \<Rightarrow> Ret x (k\<lparr>mach := t\<rparr>) | Panic e t \<Rightarrow> Panic e (k\<lparr>mach := t\<rparr>)
    | Switch t \<Rightarrow> Switch (k\<lparr>mach := t\<rparr>) | Hang t \<Rightarrow> Hang (k\<lparr>mach := t\<rparr>))"
  by (simp add: on_mach_def run_simps)

lemmas upd_defs [run_simps] = upd_proc_def upd_buf_def upd_inode_def upd_file_def upd_pipe_def
  upd_mem_def upd_klog_def upd_cons_def upd_uart_def upd_vdisk_def dev_write_def

section \<open>Code that may sleep\<close>

text \<open>
  When a thread gives the CPU away in \<open>swtch\<close>, other threads, other harts, interrupt handlers and
  devices change the kernel state before the scheduler switches back. A \<open>world\<close> carries one function
  per future resumption: the change the rest of the system makes while this thread is away. With
  no resumption left the run ends in \<open>Switch\<close>: the thread is suspended.
\<close>

type_synonym world = "kernel \<times> (kernel \<Rightarrow> kernel) list"

definition atom :: "(kernel, 'a) kmon \<Rightarrow> (world, 'a) kmon" where
  "atom m = klift fst (\<lambda>k w. (k, snd w)) m"

definition swtch :: "(world, unit) kmon" where
  "swtch = (\<lambda>w. case snd w of [] \<Rightarrow> Switch w | r # rs \<Rightarrow> Ret () (r (fst w), rs))"

lemma atom_run [run_simps]: "atom m (k, rs) = (case m k of
      Ret x t \<Rightarrow> Ret x (t, rs) | Panic e t \<Rightarrow> Panic e (t, rs)
    | Switch t \<Rightarrow> Switch (t, rs) | Hang t \<Rightarrow> Hang (t, rs))"
  by (cases "m k") (simp_all add: atom_def run_simps)

lemma swtch_run [run_simps]:
  "swtch (k, []) = Switch (k, [])" "swtch (k, r # rs) = Ret () (r k, rs)"
  by (simp_all add: swtch_def)

text \<open>The number of times the thread can still be resumed bounds the loops that wait by sleeping.\<close>

definition resumptions :: "world \<Rightarrow> nat" where
  "resumptions w = length (snd w)"

end
