(* ===== verification/Kalloc.thy ===== *)
theory Kalloc
  imports Kstate
begin

text \<open>
  The physical page allocator (\<open>kernel/kalloc.c\<close>): a linked list of free pages, threaded through the
  first eight bytes of each free page. The list is related to a HOL list of page addresses; each
  operation is then a push or a pop, and \<open>kinit\<close> puts every page between the end of the kernel and
  \<open>PHYSTOP\<close> on it exactly once.
\<close>

section \<open>Operations\<close>

definition kfree :: "u64 \<Rightarrow> (kernel, unit) kmon" where
  "kfree pa =
     kbind (kget (\<lambda>k. sym_end (syms k))) (\<lambda>endp.
     if pa mod PGSIZE \<noteq> 0 \<or> pa < endp \<or> pa \<ge> PHYSTOP then kpanic ''kfree''
     else kseq [
       upd_mem (\<lambda>m. memset m (unat pa) 1 PGSIZE),
       on_mach (acquire KMEM_LOCK),
       kmod (\<lambda>k. k\<lparr>mem := st64 (mem k) (unat pa) (freelist k)\<rparr>),
       kmod (\<lambda>k. k\<lparr>freelist := pa\<rparr>),
       on_mach (release KMEM_LOCK)])"

definition kalloc :: "(kernel, u64) kmon" where
  "kalloc =
     kbind (on_mach (acquire KMEM_LOCK)) (\<lambda>_.
     kbind (kget freelist) (\<lambda>r.
     kbind (kwhen (r \<noteq> 0) (kmod (\<lambda>k. k\<lparr>freelist := ld64 (mem k) (unat r)\<rparr>))) (\<lambda>_.
     kbind (on_mach (release KMEM_LOCK)) (\<lambda>_.
     kbind (kwhen (r \<noteq> 0) (upd_mem (\<lambda>m. memset m (unat r) 5 PGSIZE))) (\<lambda>_.
     kret r)))))"

text \<open>
  The loop ends when \<open>p + PGSIZE\<close> exceeds \<open>pa_end\<close>; each round advances \<open>p\<close> by a page, so it runs at
  most \<open>pa_end / PGSIZE\<close> times.
\<close>

definition freerange :: "u64 \<Rightarrow> u64 \<Rightarrow> (kernel, unit) kmon" where
  "freerange pa_start pa_end =
     kiter (unat pa_end div PGSIZE + 1)
       (\<lambda>p. if p + PGSIZE \<le> pa_end then kbind (kfree p) (\<lambda>_. kret (Inl (p + PGSIZE)))
            else kret (Inr ()))
       (PGROUNDUP pa_start)"

definition kinit :: "(kernel, unit) kmon" where
  "kinit =
     kbind (on_mach (initlock KMEM_LOCK ''kmem'')) (\<lambda>_.
     kbind (kget (\<lambda>k. sym_end (syms k))) (\<lambda>endp.
     freerange endp PHYSTOP))"

section \<open>The free list\<close>

fun free_list :: "bytes \<Rightarrow> u64 \<Rightarrow> u64 list \<Rightarrow> bool" where
  "free_list m r [] \<longleftrightarrow> r = 0"
| "free_list m r (p # ps) \<longleftrightarrow> r = p \<and> p \<noteq> 0 \<and> free_list m (ld64 m (unat p)) ps"

text \<open>Addresses that \<open>kfree\<close> accepts.\<close>

definition page_ok :: "kernel \<Rightarrow> u64 \<Rightarrow> bool" where
  "page_ok k p \<longleftrightarrow> p mod PGSIZE = 0 \<and> sym_end (syms k) \<le> p \<and> p < PHYSTOP"

definition kmem_inv :: "kernel \<Rightarrow> u64 list \<Rightarrow> bool" where
  "kmem_inv k ps \<longleftrightarrow> free_list (mem k) (freelist k) ps \<and> distinct ps \<and>
     (\<forall>p \<in> set ps. page_ok k p) \<and> 0 < sym_end (syms k)"

text \<open>The bytes of a page.\<close>

definition page_bytes :: "u64 \<Rightarrow> nat set" where
  "page_bytes p = {unat p ..< unat p + 4096}"

lemma page_okD:
  assumes "page_ok k p"
  shows "unat p mod 4096 = 0" and "unat p + 4096 \<le> 0x88000000"
proof -
  show m: "unat p mod 4096 = 0"
    using assms by (simp add: page_ok_def unat_aligned)
  have "unat p < 0x88000000"
    using assms by (simp add: page_ok_def word_less_nat_alt)
  then show "unat p + 4096 \<le> 0x88000000"
    using m by (intro aligned_below) simp_all
qed

lemma page_bytes_disjoint:
  assumes "page_ok k p" "page_ok k q" "p \<noteq> q"
  shows "page_bytes p \<inter> page_bytes q = {}"
proof -
  have "unat p + 4096 \<le> unat q \<or> unat q + 4096 \<le> unat p"
    using assms(3) page_okD(1) [OF assms(1)] page_okD(1) [OF assms(2)]
    by (intro aligned_apart) (simp_all add: word_unat_eq_iff)
  then show ?thesis by (auto simp: page_bytes_def)
qed

lemma free_list_cong:
  "(\<And>p j. p \<in> set ps \<Longrightarrow> j \<in> page_bytes p \<Longrightarrow> m j = m' j) \<Longrightarrow> free_list m r ps = free_list m' r ps"
proof (induction ps arbitrary: r)
  case (Cons p ps)
  have "ld64 m (unat p) = ld64 m' (unat p)"
    by (rule ld64_cong, rule Cons.prems [of p]) (simp_all add: page_bytes_def)
  moreover have "free_list m s ps = free_list m' s ps" for s
    by (rule Cons.IH, rule Cons.prems) auto
  ultimately show ?case by simp
qed simp

lemma kmem_inv_Nil: "kmem_inv k [] \<longleftrightarrow> freelist k = 0 \<and> 0 < sym_end (syms k)"
  by (auto simp: kmem_inv_def)

section \<open>Closed forms\<close>

lemma kalloc_run [run_simps]:
  assumes "free_lock KMEM_LOCK (mach k)"
  shows "kalloc k = (if freelist k = 0 then Ret 0 (k\<lparr>mach := ppm (mach k)\<rparr>)
     else Ret (freelist k) (k\<lparr>mach := ppm (mach k), mem := fill (mem k) (unat (freelist k)) 5 4096,
       freelist := ld64 (mem k) (unat (freelist k))\<rparr>))"
  using assms by (simp add: kalloc_def run_simps memset_fill)

lemma kfree_bad: "\<not> page_ok k pa \<Longrightarrow> kfree pa k = Panic ''kfree'' k"
  by (auto simp: kfree_def run_simps page_ok_def not_le)

lemma kfree_run [run_simps]:
  assumes "free_lock KMEM_LOCK (mach k)" and "page_ok k pa"
  shows "kfree pa k = Ret () (k\<lparr>mach := ppm (mach k),
     mem := st64 (fill (mem k) (unat pa) 1 4096) (unat pa) (freelist k), freelist := pa\<rparr>)"
  using assms by (simp add: kfree_def run_simps memset_fill page_ok_def not_less not_le)

section \<open>Refinement to a stack of pages\<close>

text \<open>The allocator is idle: its lock is free and its list is well formed.\<close>

definition kmem_ok :: "kernel \<Rightarrow> u64 list \<Rightarrow> bool" where
  "kmem_ok k ps \<longleftrightarrow> kmem_inv k ps \<and> free_lock KMEM_LOCK (mach k)"

text \<open>What an operation may change: the machine's bookkeeping, the list, and the bytes of one page.\<close>

definition only_page :: "u64 \<Rightarrow> kernel \<Rightarrow> kernel \<Rightarrow> bool" where
  "only_page p k k' \<longleftrightarrow>
     k' = k\<lparr>mach := ppm (mach k), mem := mem k', freelist := freelist k'\<rparr> \<and>
     (\<forall>j. j \<notin> page_bytes p \<longrightarrow> mem k' j = mem k j)"

lemma only_page_syms: "only_page p k k' \<Longrightarrow> syms k' = syms k"
  unfolding only_page_def by (metis kernel.select_convs(2) kernel.surjective kernel.update_convs(1,3,4))

lemma only_page_ok: "only_page p k k' \<Longrightarrow> page_ok k' q = page_ok k q"
  by (simp add: page_ok_def only_page_syms)

lemma fill_out: "j \<notin> {d ..< d + n} \<Longrightarrow> fill m d c n j = m j"
  by (auto simp: fill_def)

lemma fill_in: "j \<in> {d ..< d + n} \<Longrightarrow> fill m d c n j = c"
  by (auto simp: fill_def)

lemma kalloc_pop:
  assumes "kmem_ok k (p # ps)"
  shows "returns k kalloc (\<lambda>r k'. r = p \<and> kmem_ok k' ps \<and> only_page p k k' \<and>
    (\<forall>j \<in> page_bytes p. mem k' j = 5))"
proof -
  from assms have hd: "freelist k = p" "p \<noteq> 0" and tl: "free_list (mem k) (ld64 (mem k) (unat p)) ps"
    and d: "p \<notin> set ps" "distinct ps" and ok: "\<forall>q \<in> set (p # ps). page_ok k q"
    and e: "0 < sym_end (syms k)" and lk: "free_lock KMEM_LOCK (mach k)"
    by (auto simp: kmem_ok_def kmem_inv_def)
  let ?m = "fill (mem k) (unat p) 5 4096"
  have same: "?m j = mem k j" if "q \<in> set ps" "j \<in> page_bytes q" for q j
  proof -
    have "j \<notin> page_bytes p"
      using page_bytes_disjoint [of k p q] ok d that by auto
    then show ?thesis by (simp add: fill_out page_bytes_def)
  qed
  have "free_list ?m (ld64 (mem k) (unat p)) ps"
    using tl by (subst free_list_cong [where m' = "mem k"]) (auto simp: same)
  then show ?thesis
    using hd d ok e lk
    by (auto simp: returns_def kalloc_run kmem_ok_def kmem_inv_def only_page_def page_ok_def
        page_bytes_def fill_out fill_in)
qed

lemma kalloc_empty:
  assumes "kmem_ok k []"
  shows "kalloc k = Ret 0 (k\<lparr>mach := ppm (mach k)\<rparr>)" and "kmem_ok (k\<lparr>mach := ppm (mach k)\<rparr>) []"
  using assms by (simp_all add: kmem_ok_def kmem_inv_def kalloc_run)

lemma kfree_push:
  assumes "kmem_ok k ps" and "page_ok k p" and "p \<notin> set ps"
  shows "returns k (kfree p) (\<lambda>_ k'. kmem_ok k' (p # ps) \<and> only_page p k k')"
proof -
  from assms have fl: "free_list (mem k) (freelist k) ps" and d: "distinct ps"
    and ok: "\<forall>q \<in> set ps. page_ok k q" and e: "0 < sym_end (syms k)"
    and lk: "free_lock KMEM_LOCK (mach k)"
    by (auto simp: kmem_ok_def kmem_inv_def)
  let ?m = "st64 (fill (mem k) (unat p) 1 4096) (unat p) (freelist k)"
  have out: "?m j = mem k j" if "j \<notin> page_bytes p" for j
  proof -
    have "j < unat p \<or> unat p + 4096 \<le> j"
      using that by (auto simp: page_bytes_def)
    then show ?thesis by (auto simp: st64_other fill_out)
  qed
  have same: "?m j = mem k j" if "q \<in> set ps" "j \<in> page_bytes q" for q j
    using page_bytes_disjoint [of k p q] ok assms(2,3) that by (intro out) auto
  have "free_list ?m (freelist k) ps"
    using fl by (subst free_list_cong [where m' = "mem k"]) (auto simp: same)
  moreover have "p \<noteq> 0"
    using assms(2) e by (auto simp: page_ok_def)
  ultimately show ?thesis
    using assms d ok e lk out
    by (auto simp: returns_def kfree_run kmem_ok_def kmem_inv_def only_page_def page_ok_def mem_simps)
qed

section \<open>The interface of a page allocator\<close>

text \<open>
  What the rest of the kernel relies on: an allocation takes the first page off the free list or
  reports that none is left, a release puts a page back, and neither touches memory outside the
  page.
\<close>

locale page_allocator =
  fixes inv :: "kernel \<Rightarrow> u64 list \<Rightarrow> bool"
    and alloc :: "(kernel, u64) kmon"
    and free :: "u64 \<Rightarrow> (kernel, unit) kmon"
    and ok :: "kernel \<Rightarrow> u64 \<Rightarrow> bool"
  assumes inv_distinct: "inv k ps \<Longrightarrow> distinct ps"
    and inv_ok: "inv k ps \<Longrightarrow> p \<in> set ps \<Longrightarrow> ok k p \<and> p \<noteq> 0"
    and ok_frame: "only_page p k k' \<Longrightarrow> ok k' q = ok k q"
    and alloc_Cons: "inv k (p # ps) \<Longrightarrow> returns k alloc (\<lambda>r k'. r = p \<and> inv k' ps \<and> only_page p k k')"
    and alloc_Nil: "inv k [] \<Longrightarrow> returns k alloc (\<lambda>r k'. r = 0 \<and> inv k' [] \<and> k' = k\<lparr>mach := ppm (mach k)\<rparr>)"
    and free_inv: "inv k ps \<Longrightarrow> ok k p \<Longrightarrow> p \<notin> set ps \<Longrightarrow>
      returns k (free p) (\<lambda>_ k'. inv k' (p # ps) \<and> only_page p k k')"
begin

lemma allocs:
  "inv k ps \<Longrightarrow> returns k (kmany n alloc) (\<lambda>rs k'. rs = take n ps @ replicate (n - length ps) 0 \<and>
     inv k' (drop n ps) \<and> (\<forall>j. j \<notin> \<Union> (page_bytes ` set (take n ps)) \<longrightarrow> mem k' j = mem k j))"
proof (induction n arbitrary: k ps)
  case (Suc n)
  show ?case
  proof (cases ps)
    case Nil
    with Suc.prems have "returns k alloc (\<lambda>r k'. r = 0 \<and> inv k' [] \<and> mem k' = mem k)"
      by (auto intro: returns_mono [OF alloc_Nil])
    then show ?thesis
      unfolding kmany.simps using Nil
      by (elim returns_bind) (rule returns_bind [OF Suc.IH], auto simp: returns_def kret_def)
  next
    case (Cons p qs)
    have "returns k alloc (\<lambda>r k'. r = p \<and> inv k' qs \<and> only_page p k k')"
      using alloc_Cons Suc.prems Cons by simp
    then show ?thesis
      unfolding kmany.simps using Cons
      by (elim returns_bind) (rule returns_bind [OF Suc.IH], auto simp: returns_def kret_def only_page_def)
  qed
qed (simp add: returns_def kret_def)

lemma alloc_free_alloc:
  assumes "inv k (p # ps)"
  shows "returns k (kbind alloc (\<lambda>p. kbind (free p) (\<lambda>_. alloc))) (\<lambda>r k'. r = p \<and> inv k' ps)"
proof (rule returns_bind [OF alloc_Cons [OF assms]])
  fix r k' assume 1: "r = p \<and> inv k' ps \<and> only_page p k k'"
  have "p \<notin> set ps" using inv_distinct [OF assms] by simp
  moreover have "ok k' p" using 1 ok_frame [of p k k' p] inv_ok [OF assms, of p] by simp
  ultimately have "returns k' (free r) (\<lambda>_ k''. inv k'' (p # ps) \<and> only_page p k' k'')"
    using 1 free_inv by simp
  then show "returns k' (kbind (free r) (\<lambda>_. alloc)) (\<lambda>r k'. r = p \<and> inv k' ps)"
    by (elim returns_bind) (auto intro: returns_mono [OF alloc_Cons])
qed

end

interpretation kmem: page_allocator kmem_ok kalloc kfree page_ok
proof unfold_locales
  show "distinct ps" if "kmem_ok k ps" for k ps
    using that by (simp add: kmem_ok_def kmem_inv_def)
  show "page_ok k p \<and> p \<noteq> 0" if "kmem_ok k ps" "p \<in> set ps" for k ps p
    using that by (auto simp: kmem_ok_def kmem_inv_def page_ok_def)
  show "returns k kalloc (\<lambda>r k'. r = p \<and> kmem_ok k' ps \<and> only_page p k k')" if "kmem_ok k (p # ps)" for k p ps
    using kalloc_pop [OF that] by (rule returns_mono) simp
  show "returns k kalloc (\<lambda>r k'. r = 0 \<and> kmem_ok k' [] \<and> k' = k\<lparr>mach := ppm (mach k)\<rparr>)"
    if "kmem_ok k []" for k
    using kalloc_empty [OF that] by (simp add: returns_def)
qed (simp_all add: only_page_ok kfree_push)

section \<open>Initialisation\<close>

lemma initlock_run [run_simps]:
  "initlock lk nm m = Ret () (m\<lparr>locks := (locks m)(lk := \<lparr>locked = 0, lk_name = nm, lk_cpu = None\<rparr>)\<rparr>)"
  by (cases "locks m lk") (simp add: initlock_def run_simps)

lemma free_lock_init: "free_lock lk (m\<lparr>locks := l\<rparr>) \<longleftrightarrow> locked (l lk) = 0 \<and> lk_cpu (l lk) = None"
  by (simp add: free_lock_def)

text \<open>The state of the loop of \<open>freerange\<close>: all pages below \<open>p\<close> are free.\<close>

definition freed_below :: "symbols \<Rightarrow> u64 \<Rightarrow> kernel \<Rightarrow> bool" where
  "freed_below sy p k \<longleftrightarrow> syms k = sy \<and> p mod 4096 = 0 \<and> sym_end sy \<le> p \<and> p \<le> PHYSTOP \<and>
     (\<exists>ps. kmem_ok k ps \<and> set ps = {q. page_ok k q \<and> q < p})"

lemma next_page:
  fixes p :: u64
  assumes "p mod 4096 = 0" "p < PHYSTOP"
  shows "(p + 4096) mod 4096 = 0" "p + 4096 \<le> PHYSTOP" "unat (p + 4096) = unat p + 4096"
proof -
  have b: "unat p < 0x88000000" and a: "unat p mod 4096 = 0"
    using assms by (simp_all add: word_less_nat_alt unat_aligned)
  then show u: "unat (p + 4096) = unat p + 4096"
    by (simp add: unat_word_ariths)
  have "unat p + 4096 \<le> 0x88000000"
    using a b by (intro aligned_below) simp_all
  then show "p + 4096 \<le> PHYSTOP"
    by (simp add: word_le_nat_alt u)
  show "(p + 4096) mod 4096 = 0"
    by (simp only: unat_aligned u) (simp add: a)
qed

lemma freed_below_step:
  assumes "freed_below sy p k" and "p < PHYSTOP"
  shows "returns k (kfree p) (\<lambda>_. freed_below sy (p + 4096))"
proof -
  from assms obtain ps where ps: "kmem_ok k ps" "set ps = {q. page_ok k q \<and> q < p}"
    and p: "syms k = sy" "p mod 4096 = 0" "sym_end sy \<le> p"
    by (auto simp: freed_below_def)
  note np = next_page [OF p(2) assms(2)]
  have ok: "page_ok k p" using p assms(2) by (simp add: page_ok_def)
  have split: "q < p + 4096 \<longleftrightarrow> q < p \<or> q = p" if "page_ok k q" for q
  proof -
    have "unat q + 4096 \<le> unat p \<or> unat p + 4096 \<le> unat q" if "q \<noteq> p"
      using that page_okD(1) [OF \<open>page_ok k q\<close>] page_okD(1) [OF ok]
      by (intro aligned_apart) (simp_all add: word_unat_eq_iff)
    then show ?thesis
      by (auto simp: word_less_nat_alt np(3))
  qed
  have "returns k (kfree p) (\<lambda>_ k'. kmem_ok k' (p # ps) \<and> only_page p k k')"
    using ps ok by (intro kfree_push) auto
  then show ?thesis
  proof (rule returns_mono)
    fix u :: unit and k' assume k': "kmem_ok k' (p # ps) \<and> only_page p k k'"
    have "q \<in> insert p {q. page_ok k q \<and> q < p} \<longleftrightarrow> q \<in> {q. page_ok k' q \<and> q < p + 4096}" for q
      using split [of q] ok only_page_ok [of p k k' q] k' by blast
    then have "set (p # ps) = {q. page_ok k' q \<and> q < p + 4096}"
      unfolding list.set ps(2) by (rule set_eqI)
    moreover have "sym_end sy \<le> p + 4096"
      using p(3) np(3) by (simp add: word_le_nat_alt)
    moreover have "syms k' = sy"
      using k' only_page_syms [of p k k'] p(1) by simp
    ultimately show "freed_below sy (p + 4096) k'"
      unfolding freed_below_def using k' np(1,2) by blast
  qed
qed

lemma PGROUNDUP_le:
  assumes "e \<le> PHYSTOP"
  shows "e \<le> PGROUNDUP e" "PGROUNDUP e mod 4096 = 0" "PGROUNDUP e \<le> PHYSTOP"
    "\<And>q. q mod 4096 = 0 \<Longrightarrow> e \<le> q \<Longrightarrow> PGROUNDUP e \<le> q"
proof -
  have b: "unat e \<le> 0x88000000"
    using assms by (simp add: word_le_nat_alt)
  then have u: "unat (PGROUNDUP e) = (unat e + 4095) div 4096 * 4096"
    by (intro unat_PGROUNDUP) simp
  have least: "(unat e + 4095) div 4096 * 4096 \<le> n" if "n mod 4096 = 0" "unat e \<le> n" for n
  proof -
    from that obtain m where "n = 4096 * m" by (metis mod_0_imp_dvd dvdE)
    with that(2) have "(unat e + 4095) div 4096 < m + 1"
      by (intro less_mult_imp_div_less) simp
    with \<open>n = 4096 * m\<close> show ?thesis by simp
  qed
  show "e \<le> PGROUNDUP e" by (simp add: word_le_nat_alt u)
  show "PGROUNDUP e mod 4096 = 0" by (simp only: unat_aligned u) simp
  show "PGROUNDUP e \<le> PHYSTOP" using least [of "0x88000000"] b by (simp add: word_le_nat_alt u)
  show "PGROUNDUP e \<le> q" if "q mod 4096 = 0" "e \<le> q" for q
    using least [of "unat q"] that by (simp add: word_le_nat_alt u unat_aligned)
qed

text \<open>
  C31: After \<open>kinit\<close> the free list holds every page between the end of the kernel image and \<open>PHYSTOP\<close>,
  each exactly once, and nothing else; the initialisation returns without a panic.
\<close>

theorem kinit_frees_all:
  assumes "0 < sym_end (syms k)" and "sym_end (syms k) \<le> PHYSTOP" and "freelist k = 0"
  shows "returns k kinit (\<lambda>_ k'. \<exists>ps. kmem_ok k' ps \<and> set ps = {p. page_ok k p})"
proof -
  let ?sy = "syms k" and ?e = "sym_end (syms k)"
  let ?k = "k\<lparr>mach := (mach k)\<lparr>locks := (locks (mach k))(KMEM_LOCK := \<lparr>locked = 0, lk_name = ''kmem'', lk_cpu = None\<rparr>)\<rparr>\<rparr>"
  note e = PGROUNDUP_le [OF assms(2)]
  have "kmem_ok ?k []"
    using assms by (simp add: kmem_ok_def kmem_inv_Nil free_lock_init)
  moreover have "{q. page_ok ?k q \<and> q < PGROUNDUP ?e} = {}"
    using e(4) by (auto simp: page_ok_def not_less)
  ultimately have start: "freed_below ?sy (PGROUNDUP ?e) ?k"
    using e by (auto simp: freed_below_def intro!: exI [of _ "[]"])
  have "returns ?k (freerange ?e PHYSTOP) (\<lambda>_. freed_below ?sy PHYSTOP)"
    unfolding freerange_def
  proof (rule returns_kiter [where I = "freed_below ?sy" and \<mu> = "\<lambda>p. (0x88000000 - unat p) div 4096"])
    fix p t assume I: "freed_below ?sy p t"
    show "returns t (if p + 4096 \<le> PHYSTOP then kbind (kfree p) (\<lambda>_. kret (Inl (p + 4096))) else kret (Inr ()))
      (\<lambda>r t. case r of Inl j \<Rightarrow> freed_below ?sy j t \<and> (0x88000000 - unat j) div 4096 < (0x88000000 - unat p) div 4096
        | Inr v \<Rightarrow> freed_below ?sy PHYSTOP t)"
    proof (cases "p < PHYSTOP")
      case True
      note np = next_page [OF _ True]
      have m: "p mod 4096 = 0" using I by (simp add: freed_below_def)
      have "unat p + 4096 \<le> 0x88000000" using np(2,3) m by (simp add: word_le_nat_alt)
      then have "(0x88000000 - (unat p + 4096)) div 4096 < (0x88000000 - unat p) div 4096"
        using le_div_geq [of 4096 "0x88000000 - unat p"] by simp
      then show ?thesis
        using np m freed_below_step [OF I True]
        by (auto elim!: returns_bind)
    next
      case False
      then have "p = PHYSTOP" using I by (auto simp: freed_below_def)
      then show ?thesis
        using I by (simp add: returns_def kret_def)
    qed
  qed (use start in auto)
  then have "returns k kinit (\<lambda>_. freed_below ?sy PHYSTOP)"
    by (simp add: kinit_def returns_def run_simps)
  then show ?thesis
    by (rule returns_mono) (auto simp: freed_below_def page_ok_def)
qed

theorem kinit_frees_all_witness:
  "returns (boot_kernel (syms_at 0x87ffe800) (\<lambda>_. 0)) kinit
     (\<lambda>_ k'. \<exists>ps. kmem_ok k' ps \<and> set ps = {p. page_ok (boot_kernel (syms_at 0x87ffe800) (\<lambda>_. 0)) p}) \<and>
   page_ok (boot_kernel (syms_at 0x87ffe800) (\<lambda>_. 0)) 0x87fff000"
  using kinit_frees_all [of "boot_kernel (syms_at 0x87ffe800) (\<lambda>_. 0)"]
  by (simp add: boot_kernel_def syms_at_def page_ok_def)

section \<open>Allocation\<close>

text \<open>
  C15: Of any number of successive allocations, each returns a page of its own while free pages last
  and 0 afterwards; memory outside these pages keeps its contents, and the allocator stays well
  formed with the remaining pages.
\<close>

theorem kalloc_exclusive:
  assumes "kmem_ok k ps"
  shows "returns k (kmany n kalloc) (\<lambda>rs k'. rs = take n ps @ replicate (n - length ps) 0 \<and>
    distinct (take n ps) \<and> pairwise (\<lambda>p q. page_bytes p \<inter> page_bytes q = {}) (set (take n ps)) \<and>
    kmem_ok k' (drop n ps) \<and> (\<forall>j. j \<notin> \<Union> (page_bytes ` set (take n ps)) \<longrightarrow> mem k' j = mem k j))"
proof (rule returns_mono [OF kmem.allocs [OF assms, of n]])
  have d: "distinct (take n ps)"
    using kmem.inv_distinct [OF assms] by simp
  have "pairwise (\<lambda>p q. page_bytes p \<inter> page_bytes q = {}) (set (take n ps))"
    using kmem.inv_ok [OF assms] set_take_subset [of n ps]
    by (intro pairwiseI page_bytes_disjoint [of k]) auto
  with d show "rs = take n ps @ replicate (n - length ps) 0 \<and> distinct (take n ps) \<and>
      pairwise (\<lambda>p q. page_bytes p \<inter> page_bytes q = {}) (set (take n ps)) \<and>
      kmem_ok k' (drop n ps) \<and> (\<forall>j. j \<notin> \<Union> (page_bytes ` set (take n ps)) \<longrightarrow> mem k' j = mem k j)"
    if "rs = take n ps @ replicate (n - length ps) 0 \<and> kmem_ok k' (drop n ps) \<and>
      (\<forall>j. j \<notin> \<Union> (page_bytes ` set (take n ps)) \<longrightarrow> mem k' j = mem k j)" for rs k'
    using that by blast
qed

theorem kalloc_exclusive_witness:
  "kmem_ok ((boot_kernel (syms_at 0x87ffe800) (\<lambda>_. 0))\<lparr>freelist := 0x87fff000\<rparr>) [0x87fff000] \<and>
   returns ((boot_kernel (syms_at 0x87ffe800) (\<lambda>_. 0))\<lparr>freelist := 0x87fff000\<rparr>) (kmany 2 kalloc)
     (\<lambda>rs k'. rs = [0x87fff000, 0] \<and> kmem_ok k' [])"
proof -
  let ?k = "(boot_kernel (syms_at 0x87ffe800) (\<lambda>_. 0))\<lparr>freelist := 0x87fff000\<rparr>"
  have ok: "kmem_ok ?k [0x87fff000]"
    by (simp add: kmem_ok_def kmem_inv_def boot_kernel_def syms_at_def page_ok_def free_lock_def
        boot_mach_def ld64_zero)
  from kalloc_exclusive [OF ok, of 2] have "returns ?k (kmany 2 kalloc) (\<lambda>rs k'. rs = [0x87fff000, 0] \<and> kmem_ok k' [])"
    by (rule returns_mono) simp
  with ok show ?thesis by blast
qed

text \<open>
  C33: A page given back with \<open>kfree\<close> is the next one \<open>kalloc\<close> returns, both return without a panic, and
  an address outside the allocator's range or not on a page boundary makes \<open>kfree\<close> panic before it
  changes anything.
\<close>

theorem kfree_kalloc:
  "(kmem_ok k ps \<and> page_ok k p \<and> p \<notin> set ps \<longrightarrow>
     returns k (kbind (kfree p) (\<lambda>_. kalloc)) (\<lambda>r k'. r = p \<and> kmem_ok k' ps)) \<and>
   (\<not> page_ok k p \<longrightarrow> kfree p k = Panic ''kfree'' k)"
  using kfree_push [of k ps p] kfree_bad [of k p]
  by (auto elim!: returns_bind intro: returns_mono [OF kmem.alloc_Cons])

theorem kfree_kalloc_witness:
  "returns (boot_kernel (syms_at 0x87ffe800) (\<lambda>_. 0)) (kbind (kfree 0x87fff000) (\<lambda>_. kalloc))
     (\<lambda>r k'. r = 0x87fff000 \<and> kmem_ok k' []) \<and>
   kfree 0x87fff001 (boot_kernel (syms_at 0x87ffe800) (\<lambda>_. 0)) =
     Panic ''kfree'' (boot_kernel (syms_at 0x87ffe800) (\<lambda>_. 0))"
  using kfree_kalloc [of "boot_kernel (syms_at 0x87ffe800) (\<lambda>_. 0)" "[]" "0x87fff000"]
    kfree_kalloc [of "boot_kernel (syms_at 0x87ffe800) (\<lambda>_. 0)" "[]" "0x87fff001"]
  by (simp add: kmem_ok_def kmem_inv_def boot_kernel_def syms_at_def page_ok_def free_lock_def boot_mach_def)

end
