(* ===== verification/Vm.thy ===== *)
theory Vm
  imports Kalloc
begin

text \<open>
  Virtual memory (\<open>kernel/vm.c\<close>): the three-level Sv39 page tables in physical memory, creation and
  removal of mappings, copying of address spaces, and the copy functions between the kernel and
  user memory. A page table is the address of its root page, 0 the null pointer; the result of
  \<open>walk\<close> is the address of a page-table entry. Functions that return 0 or -1 return an \<open>int\<close> here.
\<close>

section \<open>Walking a page table\<close>

definition ld_pte :: "u64 \<Rightarrow> (kernel, u64) kmon" where
  "ld_pte a = kget (\<lambda>k. ld64 (mem k) (unat a))"

definition st_pte :: "u64 \<Rightarrow> u64 \<Rightarrow> (kernel, unit) kmon" where
  "st_pte a v = upd_mem (\<lambda>m. st64 m (unat a) v)"

definition pte_addr :: "u64 \<Rightarrow> nat \<Rightarrow> u64 \<Rightarrow> u64" where
  "pte_addr pagetable level va = pagetable + 8 * PX level va"

fun walk_levels :: "nat \<Rightarrow> u64 \<Rightarrow> u64 \<Rightarrow> bool \<Rightarrow> (kernel, u64) kmon" where
  "walk_levels 0 pagetable va alloc = kret (pte_addr pagetable 0 va)"
| "walk_levels (Suc l) pagetable va alloc =
     kbind (kret (pte_addr pagetable (Suc l) va)) (\<lambda>pte.
     kbind (ld_pte pte) (\<lambda>e.
     if e AND PTE_V \<noteq> 0 then walk_levels l (PTE2PA e) va alloc
     else if \<not> alloc then kret 0
     else
     kbind kalloc (\<lambda>pagetable.
     if pagetable = 0 then kret 0
     else
     kbind (upd_mem (\<lambda>m. memset m (unat pagetable) 0 PGSIZE)) (\<lambda>_.
     kbind (st_pte pte (PA2PTE pagetable OR PTE_V)) (\<lambda>_.
     walk_levels l pagetable va alloc)))))"

definition walk :: "u64 \<Rightarrow> u64 \<Rightarrow> bool \<Rightarrow> (kernel, u64) kmon" where
  "walk pagetable va alloc =
     (if va \<ge> MAXVA then kpanic ''walk'' else walk_levels 2 pagetable va alloc)"

definition walkaddr :: "u64 \<Rightarrow> u64 \<Rightarrow> (kernel, u64) kmon" where
  "walkaddr pagetable va =
     (if va \<ge> MAXVA then kret 0
      else
      kbind (walk pagetable va False) (\<lambda>pte.
      if pte = 0 then kret 0
      else
      kbind (ld_pte pte) (\<lambda>e.
      if e AND PTE_V = 0 then kret 0
      else if e AND PTE_U = 0 then kret 0
      else kret (PTE2PA e))))"

section \<open>Mapping and unmapping\<close>

text \<open>\<open>walk\<close> panics beyond \<open>MAXVA\<close>, so a loop over page addresses never makes more rounds than this.\<close>

abbreviation (input) MAXPAGES :: nat where "MAXPAGES \<equiv> 0x4000001"

definition mappages :: "u64 \<Rightarrow> u64 \<Rightarrow> u64 \<Rightarrow> u64 \<Rightarrow> u64 \<Rightarrow> (kernel, int) kmon" where
  "mappages pagetable va sz pa perm =
     (if sz = 0 then kpanic ''mappages: size''
      else let last = PGROUNDDOWN (va + sz - 1) in
      kiter MAXPAGES (\<lambda>(a, pa).
        kbind (walk pagetable a True) (\<lambda>pte.
        if pte = 0 then kret (Inr (-1))
        else
        kbind (ld_pte pte) (\<lambda>e.
        if e AND PTE_V \<noteq> 0 then kpanic ''mappages: remap''
        else
        kbind (st_pte pte (PA2PTE pa OR perm OR PTE_V)) (\<lambda>_.
        if a = last then kret (Inr 0)
        else kret (Inl (a + PGSIZE, pa + PGSIZE))))))
      (PGROUNDDOWN va, pa))"

definition kvmmap :: "u64 \<Rightarrow> u64 \<Rightarrow> u64 \<Rightarrow> u64 \<Rightarrow> u64 \<Rightarrow> (kernel, unit) kmon" where
  "kvmmap kpgtbl va pa sz perm =
     kbind (mappages kpgtbl va sz pa perm) (\<lambda>r. kwhen (r \<noteq> 0) (kpanic ''kvmmap''))"

definition uvmunmap :: "u64 \<Rightarrow> u64 \<Rightarrow> u64 \<Rightarrow> bool \<Rightarrow> (kernel, unit) kmon" where
  "uvmunmap pagetable va npages do_free =
     (if va mod PGSIZE \<noteq> 0 then kpanic ''uvmunmap: not aligned''
      else
      kiter (unat npages + 1) (\<lambda>a.
        if \<not> a < va + npages * PGSIZE then kret (Inr ())
        else
        kbind (walk pagetable a False) (\<lambda>pte.
        if pte = 0 then kpanic ''uvmunmap: walk''
        else
        kbind (ld_pte pte) (\<lambda>e.
        if e AND PTE_V = 0 then kpanic ''uvmunmap: not mapped''
        else if PTE_FLAGS e = PTE_V then kpanic ''uvmunmap: not a leaf''
        else
        kbind (kwhen do_free (kfree (PTE2PA e))) (\<lambda>_.
        kbind (st_pte pte 0) (\<lambda>_.
        kret (Inl (a + PGSIZE)))))))
      va)"

definition uvmcreate :: "(kernel, u64) kmon" where
  "uvmcreate =
     kbind kalloc (\<lambda>pagetable.
     if pagetable = 0 then kret 0
     else
     kbind (upd_mem (\<lambda>m. memset m (unat pagetable) 0 PGSIZE)) (\<lambda>_.
     kret pagetable))"

definition uvminit :: "u64 \<Rightarrow> bytes \<Rightarrow> u32 \<Rightarrow> (kernel, unit) kmon" where
  "uvminit pagetable src sz =
     (if sz \<ge> PGSIZE then kpanic ''inituvm: more than a page''
      else
      kbind kalloc (\<lambda>p.
      kbind (upd_mem (\<lambda>m. memset m (unat p) 0 PGSIZE)) (\<lambda>_.
      kbind (mappages pagetable 0 PGSIZE p (PTE_W OR PTE_R OR PTE_X OR PTE_U)) (\<lambda>_.
      upd_mem (\<lambda>m. memmove_from m (unat p) src 0 sz)))))"

definition uvmdealloc :: "u64 \<Rightarrow> u64 \<Rightarrow> u64 \<Rightarrow> (kernel, u64) kmon" where
  "uvmdealloc pagetable oldsz newsz =
     (if newsz \<ge> oldsz then kret oldsz
      else
      kbind (kwhen (PGROUNDUP newsz < PGROUNDUP oldsz)
        (let npages = (PGROUNDUP oldsz - PGROUNDUP newsz) div PGSIZE in
         uvmunmap pagetable (PGROUNDUP newsz) (scast (ucast npages :: 32 word)) True)) (\<lambda>_.
      kret newsz))"

definition uvmalloc :: "u64 \<Rightarrow> u64 \<Rightarrow> u64 \<Rightarrow> (kernel, u64) kmon" where
  "uvmalloc pagetable oldsz newsz =
     (if newsz < oldsz then kret oldsz
      else let oldsz = PGROUNDUP oldsz in
      kiter (unat newsz div PGSIZE + 2) (\<lambda>a.
        if \<not> a < newsz then kret (Inr newsz)
        else
        kbind kalloc (\<lambda>p.
        if p = 0 then kbind (uvmdealloc pagetable a oldsz) (\<lambda>_. kret (Inr 0))
        else
        kbind (upd_mem (\<lambda>m. memset m (unat p) 0 PGSIZE)) (\<lambda>_.
        kbind (mappages pagetable a PGSIZE p (PTE_W OR PTE_X OR PTE_R OR PTE_U)) (\<lambda>r.
        if r \<noteq> 0 then
          kbind (kfree p) (\<lambda>_.
          kbind (uvmdealloc pagetable a oldsz) (\<lambda>_. kret (Inr 0)))
        else kret (Inl (a + PGSIZE))))))
      oldsz)"

section \<open>Freeing\<close>

text \<open>
  \<open>freewalk\<close> calls itself for every child table; the argument \<open>d\<close> is the depth of recursion it is
  followed to. Sv39 tables have three levels.
\<close>

fun freewalk_depth :: "nat \<Rightarrow> u64 \<Rightarrow> (kernel, unit) kmon" where
  "freewalk_depth 0 pagetable = khang"
| "freewalk_depth (Suc d) pagetable =
     kbind (kfor [0..<512] (\<lambda>i.
       kbind (ld_pte (pagetable + 8 * of_nat i)) (\<lambda>pte.
       if pte AND PTE_V \<noteq> 0 \<and> pte AND (PTE_R OR PTE_W OR PTE_X) = 0 then
         kbind (freewalk_depth d (PTE2PA pte)) (\<lambda>_.
         st_pte (pagetable + 8 * of_nat i) 0)
       else kwhen (pte AND PTE_V \<noteq> 0) (kpanic ''freewalk: leaf'')))) (\<lambda>_.
     kfree pagetable)"

definition freewalk :: "u64 \<Rightarrow> (kernel, unit) kmon" where
  "freewalk pagetable = freewalk_depth 3 pagetable"

definition uvmfree :: "u64 \<Rightarrow> u64 \<Rightarrow> (kernel, unit) kmon" where
  "uvmfree pagetable sz =
     kbind (kwhen (sz > 0) (uvmunmap pagetable 0 (PGROUNDUP sz div PGSIZE) True)) (\<lambda>_.
     freewalk pagetable)"

section \<open>Copying\<close>

definition uvmcopy :: "u64 \<Rightarrow> u64 \<Rightarrow> u64 \<Rightarrow> (kernel, int) kmon" where
  "uvmcopy old new sz =
     (let err = (\<lambda>i. kbind (uvmunmap new 0 (i div PGSIZE) True) (\<lambda>_. kret (Inr (-1)))) in
      kiter (unat sz div PGSIZE + 2) (\<lambda>i.
        if \<not> i < sz then kret (Inr 0)
        else
        kbind (walk old i False) (\<lambda>pte.
        if pte = 0 then kpanic ''uvmcopy: pte should exist''
        else
        kbind (ld_pte pte) (\<lambda>e.
        if e AND PTE_V = 0 then kpanic ''uvmcopy: page not present''
        else
        kbind kalloc (\<lambda>p.
        if p = 0 then err i
        else
        kbind (upd_mem (\<lambda>m. memmove m (unat p) (unat (PTE2PA e)) PGSIZE)) (\<lambda>_.
        kbind (mappages new i PGSIZE p (PTE_FLAGS e)) (\<lambda>r.
        if r \<noteq> 0 then kbind (kfree p) (\<lambda>_. err i)
        else kret (Inl (i + PGSIZE))))))))
      0)"

definition uvmclear :: "u64 \<Rightarrow> u64 \<Rightarrow> (kernel, unit) kmon" where
  "uvmclear pagetable va =
     kbind (walk pagetable va False) (\<lambda>pte.
     if pte = 0 then kpanic ''uvmclear''
     else
     kbind (ld_pte pte) (\<lambda>e.
     st_pte pte (e AND NOT PTE_U)))"

text \<open>
  The source of \<open>copyout\<close> and the destination of \<open>copyin\<close> and \<open>copyinstr\<close> are kernel objects other
  than user pages (a buffer, a pipe, a local variable): their bytes are passed and returned. Each
  round moves at least one byte, which bounds the loops.
\<close>

definition copyout :: "u64 \<Rightarrow> u64 \<Rightarrow> bytes \<Rightarrow> u64 \<Rightarrow> (kernel, int) kmon" where
  "copyout pagetable dstva src len =
     kiter (unat len + 1) (\<lambda>(dstva, s, len).
       if \<not> len > 0 then kret (Inr 0)
       else let va0 = PGROUNDDOWN dstva in
       kbind (walkaddr pagetable va0) (\<lambda>pa0.
       if pa0 = 0 then kret (Inr (-1))
       else let n0 = PGSIZE - (dstva - va0); n = (if n0 > len then len else n0) in
       kbind (upd_mem (\<lambda>m. memmove_from m (unat (pa0 + (dstva - va0))) src s (ucast n))) (\<lambda>_.
       kret (Inl (va0 + PGSIZE, s + unat n, len - n)))))
     (dstva, 0, len)"

definition copyin :: "u64 \<Rightarrow> bytes \<Rightarrow> nat \<Rightarrow> u64 \<Rightarrow> u64 \<Rightarrow> (kernel, int \<times> bytes) kmon" where
  "copyin pagetable dst d srcva len =
     kiter (unat len + 1) (\<lambda>(srcva, dst, d, len).
       if \<not> len > 0 then kret (Inr (0, dst))
       else let va0 = PGROUNDDOWN srcva in
       kbind (walkaddr pagetable va0) (\<lambda>pa0.
       if pa0 = 0 then kret (Inr (-1, dst))
       else let n0 = PGSIZE - (srcva - va0); n = (if n0 > len then len else n0) in
       kbind (kget mem) (\<lambda>m.
       kret (Inl (va0 + PGSIZE,
         memmove_from dst d m (unat (pa0 + (srcva - va0))) (ucast n), d + unat n, len - n)))))
     (srcva, dst, d, len)"

text \<open>The inner loop of \<open>copyinstr\<close> copies at most \<open>n\<close> bytes and reports whether it met the NUL.\<close>

fun copyinstr_page :: "bytes \<Rightarrow> nat \<Rightarrow> bytes \<Rightarrow> nat \<Rightarrow> nat \<Rightarrow> bool \<times> bytes" where
  "copyinstr_page m p dst d 0 = (False, dst)"
| "copyinstr_page m p dst d (Suc n) =
     (if m p = 0 then (True, dst(d := 0))
      else copyinstr_page m (Suc p) (dst(d := m p)) (Suc d) n)"

definition copyinstr :: "u64 \<Rightarrow> bytes \<Rightarrow> u64 \<Rightarrow> u64 \<Rightarrow> (kernel, int \<times> bytes) kmon" where
  "copyinstr pagetable dst srcva maxlen =
     kiter (unat maxlen + 1) (\<lambda>(srcva, dst, d, maxlen).
       if \<not> maxlen > 0 then kret (Inr (-1, dst))
       else let va0 = PGROUNDDOWN srcva in
       kbind (walkaddr pagetable va0) (\<lambda>pa0.
       if pa0 = 0 then kret (Inr (-1, dst))
       else let n0 = PGSIZE - (srcva - va0); n = (if n0 > maxlen then maxlen else n0) in
       kbind (kget mem) (\<lambda>m.
       let (got_null, dst') = copyinstr_page m (unat (pa0 + (srcva - va0))) dst d (unat n) in
       if got_null then kret (Inr (0, dst'))
       else kret (Inl (va0 + PGSIZE, dst', d + unat n, maxlen - n)))))
     (srcva, dst, 0, maxlen)"

section \<open>The kernel's page table\<close>

definition proc_mapstacks :: "u64 \<Rightarrow> (kernel, unit) kmon" where
  "proc_mapstacks kpgtbl =
     kfor [0..<NPROC] (\<lambda>p.
       kbind kalloc (\<lambda>pa.
       if pa = 0 then kpanic ''kalloc''
       else kvmmap kpgtbl (KSTACK p) pa PGSIZE (PTE_R OR PTE_W)))"

definition kvmmake :: "(kernel, u64) kmon" where
  "kvmmake =
     kbind kalloc (\<lambda>kpgtbl.
     kbind (upd_mem (\<lambda>m. memset m (unat kpgtbl) 0 PGSIZE)) (\<lambda>_.
     kbind (kget syms) (\<lambda>sy.
     kbind (kseq [
       kvmmap kpgtbl UART0 UART0 PGSIZE (PTE_R OR PTE_W),
       kvmmap kpgtbl VIRTIO0 VIRTIO0 PGSIZE (PTE_R OR PTE_W),
       kvmmap kpgtbl PLIC PLIC 0x400000 (PTE_R OR PTE_W),
       kvmmap kpgtbl KERNBASE KERNBASE (sym_etext sy - KERNBASE) (PTE_R OR PTE_X),
       kvmmap kpgtbl (sym_etext sy) (sym_etext sy) (PHYSTOP - sym_etext sy) (PTE_R OR PTE_W),
       kvmmap kpgtbl TRAMPOLINE (sym_trampoline sy) PGSIZE (PTE_R OR PTE_X),
       proc_mapstacks kpgtbl]) (\<lambda>_.
     kret kpgtbl))))"

definition kvminit :: "(kernel, unit) kmon" where
  "kvminit = kbind kvmmake (\<lambda>pt. kmod (\<lambda>k. k\<lparr>kernel_pagetable := pt\<rparr>))"

definition kvminithart :: "(kernel, unit) kmon" where
  "kvminithart = kbind (kget kernel_pagetable) (\<lambda>pt. on_mach (w_satp (MAKE_SATP pt)))"

end
