(* ===== verification/PageTable.thy ===== *)
theory PageTable
  imports Vm
begin

text \<open>
  Correctness of the page-table code of theory Vm. A page table is a tree of pages; \<open>tnode\<close> follows a
  path of indices from the root to a table page, and \<open>lookup\<close> is the entry that the hardware (or
  \<open>walk\<close>) finds for a virtual address, 0 where the tree has no entry. Well-formed trees share no page
  with each other or with the free list; on them every operation is a function of \<open>lookup\<close>.
\<close>

section \<open>Entries and indices\<close>

definition ent :: "u64 \<Rightarrow> nat \<Rightarrow> nat" where
  "ent t i = unat t + 8 * i"

definition child :: "bytes \<Rightarrow> u64 \<Rightarrow> nat \<Rightarrow> u64 option" where
  "child m t i = (let e = ld64 m (ent t i) in if e AND PTE_V \<noteq> 0 then Some (PTE2PA e) else None)"

fun tnode :: "bytes \<Rightarrow> u64 \<Rightarrow> nat list \<Rightarrow> u64 option" where
  "tnode m r [] = Some r"
| "tnode m r (i # is) = (case child m r i of None \<Rightarrow> None | Some t \<Rightarrow> tnode m t is)"

definition px :: "nat \<Rightarrow> u64 \<Rightarrow> nat" where
  "px l va = unat (PX l va)"

definition lookup :: "bytes \<Rightarrow> u64 \<Rightarrow> u64 \<Rightarrow> u64" where
  "lookup m r va = (case tnode m r [px 2 va, px 1 va] of None \<Rightarrow> 0 | Some t \<Rightarrow> ld64 m (ent t (px 0 va)))"

lemma px_eq: "px l va = unat va div 2 ^ (12 + 9 * l) mod 512"
proof -
  have "(0x1FF::u64) = mask 9" by (simp add: mask_eq_exp_minus_1)
  then have "PX l va = take_bit 9 (drop_bit (12 + 9 * l) va)"
    by (simp only: PX_def PXSHIFT_def take_bit_eq_mask)
  then have "unat (PX l va) = take_bit 9 (drop_bit (12 + 9 * l) (unat va))"
    by (simp only: unsigned_take_bit_eq unat_drop_bit_eq)
  then show ?thesis
    by (simp add: px_def take_bit_eq_mod drop_bit_eq_div)
qed

lemma px_less [simp]: "px l va < 512"
  by (simp add: px_eq)

text \<open>Below \<open>MAXVA\<close> the three indices determine the page.\<close>

lemma px_page:
  assumes "va < MAXVA"
  shows "unat va div 4096 = px 2 va * 2 ^ 18 + px 1 va * 2 ^ 9 + px 0 va"
proof -
  have "unat va < 2 ^ 38" using assms by (simp add: word_less_nat_alt)
  then have "unat va div 2 ^ 30 < 512" by (intro less_mult_imp_div_less) simp
  then have p2: "px 2 va = unat va div 4096 div 2 ^ 18" by (simp add: px_eq flip: div_mult2_eq)
  have p1: "px 1 va = unat va div 4096 div 2 ^ 9 mod 2 ^ 9" by (simp add: px_eq flip: div_mult2_eq)
  have p0: "px 0 va = unat va div 4096 mod 2 ^ 9" by (simp add: px_eq)
  have n: "n = n div 2 ^ 18 * 2 ^ 18 + n div 2 ^ 9 mod 2 ^ 9 * 2 ^ 9 + n mod 2 ^ 9" for n :: nat
  proof -
    have "n div 2 ^ 18 = n div 2 ^ 9 div 2 ^ 9" by (simp flip: div_mult2_eq)
    moreover define q where "q = n div 2 ^ 9"
    ultimately have "n div 2 ^ 18 * 2 ^ 18 + n div 2 ^ 9 mod 2 ^ 9 * 2 ^ 9 = (q div 2 ^ 9 * 2 ^ 9 + q mod 2 ^ 9) * 2 ^ 9"
      by (simp only: add_mult_distrib mult.assoc) simp
    then have "n div 2 ^ 18 * 2 ^ 18 + n div 2 ^ 9 mod 2 ^ 9 * 2 ^ 9 = n div 2 ^ 9 * 2 ^ 9"
      by (simp only: div_mult_mod_eq q_def)
    then show ?thesis by (metis div_mult_mod_eq)
  qed
  show ?thesis unfolding p0 p1 p2 by (rule n)
qed

lemma px_inj:
  assumes "va < MAXVA" "va' < MAXVA" "px 2 va = px 2 va'" "px 1 va = px 1 va'" "px 0 va = px 0 va'"
  shows "unat va div 4096 = unat va' div 4096"
  using px_page [OF assms(1)] px_page [OF assms(2)] assms(3-5) by simp

lemma px_PGROUNDDOWN: "px l (PGROUNDDOWN va) = px l va"
proof -
  have "unat va div 4096 * 4096 div 4096 div 2 ^ (9 * l) = unat va div 4096 div 2 ^ (9 * l)" by simp
  then show ?thesis
    by (simp only: px_eq unat_PGROUNDDOWN power_add div_mult2_eq) simp
qed

lemma lookup_PGROUNDDOWN: "lookup m r (PGROUNDDOWN va) = lookup m r va"
  unfolding lookup_def px_PGROUNDDOWN ..

section \<open>Entry formats\<close>

lemma PTE2PA_PA2PTE:
  fixes pa f :: u64
  assumes "pa mod 4096 = 0" and "f < 1024"
  shows "PTE2PA (PA2PTE pa OR f) = pa"
proof (rule bit_word_eqI)
  fix n assume "n < LENGTH(64)"
  have f: "\<not> bit f i" if "10 \<le> i" for i
  proof -
    have "take_bit 10 f = f"
      using assms(2)
      by (simp add: word_less_nat_alt word_unat_eq_iff unsigned_take_bit_eq take_bit_nat_eq_self)
    then show ?thesis using that by (metis bit_take_bit_iff not_le)
  qed
  have "take_bit 12 pa = 0"
    using assms(1) by (simp add: take_bit_eq_mod)
  then have pa: "\<not> bit pa i" if "i < 12" for i
    using that by (metis bit_0_eq bit_take_bit_iff bot_apply bot_bool_def)
  show "bit (PTE2PA (PA2PTE pa OR f)) n = bit pa n"
  proof (cases "n < 12")
    case False
    then obtain j where "n = 12 + j" by (metis le_Suc_ex not_less)
    then show ?thesis
      using \<open>n < LENGTH(64)\<close> f [of "10 + j"] by (simp add: PTE2PA_def PA2PTE_def bit_simps)
  qed (simp add: PTE2PA_def bit_simps pa)
qed

lemma pte_valid: "(x OR f OR PTE_V) AND PTE_V \<noteq> 0" for x f :: u64
  by (simp add: and_one_eq odd_iff_mod_2_eq_one [symmetric] even_or_iff)

section \<open>Well-formed trees\<close>

definition is_path :: "nat list \<Rightarrow> bool" where
  "is_path \<pi> \<longleftrightarrow> length \<pi> \<le> 2 \<and> set \<pi> \<subseteq> {..<512}"

definition pt_wf :: "kernel \<Rightarrow> u64 \<Rightarrow> u64 list \<Rightarrow> bool" where
  "pt_wf k r ps \<longleftrightarrow> kmem_ok k ps \<and>
     (\<forall>\<pi> t. is_path \<pi> \<longrightarrow> tnode (mem k) r \<pi> = Some t \<longrightarrow> page_ok k t \<and> t \<notin> set ps) \<and>
     (\<forall>\<pi> \<pi>' t. is_path \<pi> \<longrightarrow> is_path \<pi>' \<longrightarrow> tnode (mem k) r \<pi> = Some t \<longrightarrow>
        tnode (mem k) r \<pi>' = Some t \<longrightarrow> \<pi> = \<pi>')"

lemma pt_wfD:
  assumes "pt_wf k r ps"
  shows "kmem_ok k ps" and "is_path \<pi> \<Longrightarrow> tnode (mem k) r \<pi> = Some t \<Longrightarrow> page_ok k t"
    and "is_path \<pi> \<Longrightarrow> tnode (mem k) r \<pi> = Some t \<Longrightarrow> t \<notin> set ps"
    and "is_path \<pi> \<Longrightarrow> is_path \<pi>' \<Longrightarrow> tnode (mem k) r \<pi> = Some t \<Longrightarrow> tnode (mem k) r \<pi>' = Some t \<Longrightarrow> \<pi> = \<pi>'"
  using assms unfolding pt_wf_def by blast+

lemma is_path_px [simp]: "is_path []" "is_path [px l va]" "is_path [px l va, px l' va']"
  by (simp_all add: is_path_def)

lemma tnode_snoc: "tnode m r (\<pi> @ [i]) = (case tnode m r \<pi> of None \<Rightarrow> None | Some t \<Rightarrow> child m t i)"
  by (induction \<pi> arbitrary: r) (auto split: option.splits)

lemma child_cong: "ld64 m' (ent t i) = ld64 m (ent t i) \<Longrightarrow> child m' t i = child m t i"
  by (simp add: child_def)

text \<open>A walk is unchanged if no entry on its way is.\<close>

lemma tnode_cong:
  assumes "\<And>\<sigma> i \<tau> t. \<pi> = \<sigma> @ i # \<tau> \<Longrightarrow> tnode m r \<sigma> = Some t \<Longrightarrow> ld64 m' (ent t i) = ld64 m (ent t i)"
  shows "tnode m' r \<pi> = tnode m r \<pi>"
  using assms
proof (induction \<pi> rule: rev_induct)
  case (snoc i \<pi>)
  have IH: "tnode m' r \<pi> = tnode m r \<pi>"
    by (rule snoc.IH) (metis append.assoc append_Cons snoc.prems)
  show ?case
    unfolding tnode_snoc IH using snoc.prems [of \<pi> i "[]"]
    by (auto split: option.splits intro: child_cong)
qed simp

text \<open>Entries of table pages occupy disjoint bytes.\<close>

lemma ent_in_page: "i < 512 \<Longrightarrow> j < 8 \<Longrightarrow> ent t i + j \<in> page_bytes t"
  by (auto simp: ent_def page_bytes_def)

lemma ld64_page_cong: "i < 512 \<Longrightarrow> (\<And>j. j \<in> page_bytes t \<Longrightarrow> m' j = m j) \<Longrightarrow> ld64 m' (ent t i) = ld64 m (ent t i)"
  by (rule ld64_cong) (simp add: ent_in_page)

lemma ents_apart:
  assumes "page_ok k t" "page_ok k t'" "i < 512" "i' < 512" "(t, i) \<noteq> (t', i')"
  shows "ent t i + 8 \<le> ent t' i' \<or> ent t' i' + 8 \<le> ent t i"
proof (cases "t = t'")
  case True
  then show ?thesis using assms(5) by (auto simp: ent_def)
next
  case False
  then have "unat t + 4096 \<le> unat t' \<or> unat t' + 4096 \<le> unat t"
    using page_okD(1) [OF assms(1)] page_okD(1) [OF assms(2)]
    by (intro aligned_apart) (simp_all add: word_unat_eq_iff)
  then show ?thesis using assms(3,4) by (auto simp: ent_def)
qed

lemma path_prefix: "is_path (\<sigma> @ i # \<tau>) \<Longrightarrow> is_path \<sigma> \<and> i < 512"
  by (auto simp: is_path_def)

text \<open>A store to a last-level entry changes the entry of one page and no table.\<close>

lemma leaf_store_tnode:
  assumes wf: "pt_wf k r ps" and t: "tnode (mem k) r \<pi> = Some t" and p: "is_path \<pi>" "length \<pi> = 2" and i: "i < 512"
    and q: "is_path \<pi>'"
  shows "tnode (st64 (mem k) (ent t i) v) r \<pi>' = tnode (mem k) r \<pi>'"
proof (rule tnode_cong)
  fix \<sigma> j \<tau> t' assume s: "\<pi>' = \<sigma> @ j # \<tau>" "tnode (mem k) r \<sigma> = Some t'"
  have sj: "is_path \<sigma>" "j < 512" using path_prefix q s(1) by blast+
  have "length \<sigma> < 2" using q s(1) by (simp add: is_path_def)
  then have "t' \<noteq> t" using pt_wfD(4) [OF wf p(1) sj(1) t] s(2) p(2) by auto
  then have "ent t' j + 8 \<le> ent t i \<or> ent t i + 8 \<le> ent t' j"
    using pt_wfD(2) [OF wf p(1) t] pt_wfD(2) [OF wf sj(1) s(2)] i sj(2) by (intro ents_apart) auto
  then show "ld64 (st64 (mem k) (ent t i) v) (ent t' j) = ld64 (mem k) (ent t' j)"
    by (rule ld64_st64_other)
qed

lemma kmem_ok_frame:
  assumes "kmem_ok k ps" and "\<And>p j. p \<in> set ps \<Longrightarrow> j \<in> page_bytes p \<Longrightarrow> m' j = mem k j"
  shows "kmem_ok (k\<lparr>mem := m'\<rparr>) ps"
proof -
  have "free_list m' (freelist k) ps = free_list (mem k) (freelist k) ps"
    by (rule free_list_cong) (rule assms(2))
  with assms(1) show ?thesis
    by (simp add: kmem_ok_def kmem_inv_def page_ok_def)
qed

lemma leaf_store_wf:
  assumes wf: "pt_wf k r ps" and t: "tnode (mem k) r \<pi> = Some t" and p: "is_path \<pi>" "length \<pi> = 2" and i: "i < 512"
  shows "pt_wf (k\<lparr>mem := st64 (mem k) (ent t i) v\<rparr>) r ps"
proof -
  let ?m = "st64 (mem k) (ent t i) v"
  have tp: "page_ok k t" "t \<notin> set ps"
    using pt_wfD(2,3) [OF wf p(1) t] by auto
  have "?m j = mem k j" if "q \<in> set ps" "j \<in> page_bytes q" for q j
  proof -
    have "page_ok k q"
      using that(1) kmem.inv_ok [OF pt_wfD(1) [OF wf]] by simp
    then have "j \<notin> page_bytes t"
      using page_bytes_disjoint [of k t q] tp that by auto
    then have "\<not> (ent t i \<le> j \<and> j - ent t i < 8)"
      using ent_in_page [OF i, of "j - ent t i" t] by auto
    then have "j < ent t i \<or> ent t i + 8 \<le> j" by linarith
    then show ?thesis by (rule st64_other)
  qed
  then have "kmem_ok (k\<lparr>mem := ?m\<rparr>) ps"
    using kmem_ok_frame [OF pt_wfD(1) [OF wf]] by blast
  moreover have "page_ok (k\<lparr>mem := ?m\<rparr>) x = page_ok k x" for x
    by (simp add: page_ok_def)
  ultimately show ?thesis
    using wf leaf_store_tnode [OF wf t p i] unfolding pt_wf_def by simp
qed

definition same_page :: "u64 \<Rightarrow> u64 \<Rightarrow> bool" where
  "same_page va va' \<longleftrightarrow> unat va div 4096 = unat va' div 4096"

lemma px_same_page: "same_page va va' \<Longrightarrow> px l va = px l va'"
  unfolding same_page_def px_eq power_add div_mult2_eq by simp

lemma leaf_store_lookup:
  assumes wf: "pt_wf k r ps" and t: "tnode (mem k) r [px 2 va, px 1 va] = Some t"
    and va: "va < MAXVA" "va' < MAXVA"
  shows "lookup (st64 (mem k) (ent t (px 0 va)) v) r va' = (if same_page va va' then v else lookup (mem k) r va')"
proof -
  let ?m = "st64 (mem k) (ent t (px 0 va)) v" and ?p' = "[px 2 va', px 1 va']"
  have tn: "tnode ?m r ?p' = tnode (mem k) r ?p'"
    by (rule leaf_store_tnode [OF wf t]) simp_all
  show ?thesis
  proof (cases "same_page va va'")
    case True
    then have "px l va' = px l va" for l using px_same_page [of va va'] by simp
    then show ?thesis using t tn True by (simp only: lookup_def) (simp add: mem_simps)
  next
    case False
    have "ld64 ?m (ent t' (px 0 va')) = ld64 (mem k) (ent t' (px 0 va'))" if t': "tnode (mem k) r ?p' = Some t'" for t'
    proof (rule ld64_st64_other)
      have "(t', px 0 va') \<noteq> (t, px 0 va)"
        using pt_wfD(4) [OF wf _ _ t', of "[px 2 va, px 1 va]"] t px_inj [OF va] False
        by (auto simp: same_page_def)
      then show "ent t' (px 0 va') + 8 \<le> ent t (px 0 va) \<or> ent t (px 0 va) + 8 \<le> ent t' (px 0 va')"
        using pt_wfD(2) [OF wf _ t] pt_wfD(2) [OF wf _ t'] by (intro ents_apart) simp_all
    qed
    with False show ?thesis unfolding lookup_def tn by (auto split: option.split)
  qed
qed

section \<open>A new table page\<close>

text \<open>
  The page \<open>p\<close> taken from the free list is cleared and entered at index \<open>i\<close> of the table at \<open>\<pi>\<close>, where
  there was no valid entry.
\<close>

definition new_table :: "bytes \<Rightarrow> u64 \<Rightarrow> nat \<Rightarrow> u64 \<Rightarrow> bytes" where
  "new_table m t i p = st64 (fill (fill m (unat p) 5 4096) (unat p) 0 4096) (ent t i) (PA2PTE p OR PTE_V)"

definition slot :: "kernel \<Rightarrow> u64 \<Rightarrow> u64 \<Rightarrow> u64 list \<Rightarrow> nat list \<Rightarrow> u64 \<Rightarrow> nat \<Rightarrow> bool" where
  "slot k r p ps \<pi> t i \<longleftrightarrow> pt_wf k r (p # ps) \<and> tnode (mem k) r \<pi> = Some t \<and> is_path \<pi> \<and>
     length \<pi> < 2 \<and> i < 512 \<and> child (mem k) t i = None"

lemma slotD:
  assumes "slot k r p ps \<pi> t i"
  shows "pt_wf k r (p # ps)" "tnode (mem k) r \<pi> = Some t" "is_path \<pi>" "length \<pi> < 2" "i < 512"
    "child (mem k) t i = None" "page_ok k p" "page_ok k t" "p \<noteq> t" "p \<notin> set ps" "t \<notin> set ps"
proof -
  show wf: "pt_wf k r (p # ps)" and t: "tnode (mem k) r \<pi> = Some t" and \<pi>: "is_path \<pi>" "length \<pi> < 2"
    and "i < 512" "child (mem k) t i = None"
    using assms by (simp_all add: slot_def)
  show "page_ok k p" using kmem.inv_ok [OF pt_wfD(1) [OF wf]] by simp
  show "page_ok k t" by (rule pt_wfD(2) [OF wf \<pi>(1) t])
  show "p \<noteq> t" "t \<notin> set ps" using pt_wfD(3) [OF wf \<pi>(1) t] by auto
  show "p \<notin> set ps" using kmem.inv_distinct [OF pt_wfD(1) [OF wf]] by simp
qed

text \<open>Other tables keep their entries, the new one is empty.\<close>

lemma new_table_out:
  assumes s: "slot k r p ps \<pi> t i" and j: "j \<notin> page_bytes p" "j \<notin> page_bytes t"
  shows "new_table (mem k) t i p j = mem k j"
proof -
  have "\<not> (ent t i \<le> j \<and> j - ent t i < 8)"
    using ent_in_page [OF slotD(5) [OF s], of "j - ent t i" t] j(2) by auto
  then have "j < ent t i \<or> ent t i + 8 \<le> j" by linarith
  then have "new_table (mem k) t i p j = fill (fill (mem k) (unat p) 5 4096) (unat p) 0 4096 j"
    unfolding new_table_def by (rule st64_other)
  with j(1) show ?thesis by (simp add: fill_out page_bytes_def)
qed

lemma new_table_other:
  assumes s: "slot k r p ps \<pi> t i" and t': "page_ok k t'" "t' \<noteq> p" and j: "j < 512" "(t', j) \<noteq> (t, i)"
  shows "ld64 (new_table (mem k) t i p) (ent t' j) = ld64 (mem k) (ent t' j)"
proof -
  have "ld64 (new_table (mem k) t i p) (ent t' j) = ld64 (fill (fill (mem k) (unat p) 5 4096) (unat p) 0 4096) (ent t' j)"
    unfolding new_table_def
    by (rule ld64_st64_other, rule ents_apart [OF t'(1) slotD(8) [OF s] j(1) slotD(5) [OF s] j(2)])
  also have "\<dots> = ld64 (mem k) (ent t' j)"
  proof (rule ld64_page_cong [OF j(1)])
    fix x assume "x \<in> page_bytes t'"
    then have "x \<notin> page_bytes p"
      using page_bytes_disjoint [OF t'(1) slotD(7) [OF s] t'(2)] by auto
    then show "fill (fill (mem k) (unat p) 5 4096) (unat p) 0 4096 x = mem k x"
      by (simp add: fill_out page_bytes_def)
  qed
  finally show ?thesis .
qed

lemma new_table_empty:
  assumes s: "slot k r p ps \<pi> t i" and "j < 512"
  shows "ld64 (new_table (mem k) t i p) (ent p j) = 0"
proof (rule ld64_zero)
  fix x :: nat assume "x < 8"
  then have x: "ent p j + x \<in> page_bytes p" using assms(2) by (intro ent_in_page)
  then have "ent p j + x \<notin> page_bytes t"
    using page_bytes_disjoint [OF slotD(7,8,9) [OF s]] by auto
  then have "\<not> (ent t i \<le> ent p j + x \<and> ent p j + x - ent t i < 8)"
    using ent_in_page [OF slotD(5) [OF s], of "ent p j + x - ent t i" t] by auto
  then have "ent p j + x < ent t i \<or> ent t i + 8 \<le> ent p j + x" by linarith
  then have "new_table (mem k) t i p (ent p j + x) = fill (fill (mem k) (unat p) 5 4096) (unat p) 0 4096 (ent p j + x)"
    unfolding new_table_def by (rule st64_other)
  with x show "new_table (mem k) t i p (ent p j + x) = 0" by (simp add: fill_in page_bytes_def)
qed

lemma new_table_child:
  assumes s: "slot k r p ps \<pi> t i"
  shows "child (new_table (mem k) t i p) t i = Some p"
proof -
  have "p mod 4096 = 0" using slotD(7) [OF s] by (simp add: page_ok_def)
  then have "PTE2PA (PA2PTE p OR 1) = p" by (intro PTE2PA_PA2PTE) simp_all
  then show ?thesis
    using pte_valid [of "PA2PTE p" 0] by (simp add: child_def new_table_def mem_simps)
qed

lemma new_table_tnode_old:
  assumes s: "slot k r p ps \<pi> t i" and q: "is_path \<pi>'" "\<nexists>\<tau>. \<pi>' = \<pi> @ i # \<tau>"
  shows "tnode (new_table (mem k) t i p) r \<pi>' = tnode (mem k) r \<pi>'"
proof (rule tnode_cong)
  fix \<sigma> j \<tau> t' assume e: "\<pi>' = \<sigma> @ j # \<tau>" "tnode (mem k) r \<sigma> = Some t'"
  have sj: "is_path \<sigma>" "j < 512" using path_prefix q(1) e(1) by blast+
  note wf = slotD(1) [OF s]
  have "(t', j) \<noteq> (t, i)"
    using pt_wfD(4) [OF wf slotD(3) [OF s] sj(1) slotD(2) [OF s]] e q(2) by auto
  moreover have "page_ok k t'" "t' \<noteq> p"
    using pt_wfD(2,3) [OF wf sj(1) e(2)] by auto
  ultimately show "ld64 (new_table (mem k) t i p) (ent t' j) = ld64 (mem k) (ent t' j)"
    using new_table_other [OF s _ _ sj(2)] by blast
qed

lemma new_table_tnode_new:
  assumes s: "slot k r p ps \<pi> t i"
  shows "tnode (new_table (mem k) t i p) r (\<pi> @ [i]) = Some p"
proof -
  have "tnode (new_table (mem k) t i p) r \<pi> = Some t"
    using new_table_tnode_old [OF s slotD(3) [OF s]] slotD(2) [OF s] by simp
  then show ?thesis
    using new_table_child [OF s] by (simp add: tnode_snoc)
qed

lemma new_table_tnode_below:
  assumes s: "slot k r p ps \<pi> t i" and "is_path (\<pi> @ i # j # \<tau>)"
  shows "tnode (new_table (mem k) t i p) r (\<pi> @ i # j # \<tau>) = None"
proof -
  have "length \<tau> = 0" and "j < 512"
    using assms(2) by (auto simp: is_path_def)
  then have "child (new_table (mem k) t i p) p j = None"
    using new_table_empty [OF s, of j] by (simp add: child_def)
  then have "tnode (new_table (mem k) t i p) r ((\<pi> @ [i]) @ [j]) = None"
    unfolding tnode_snoc [of _ _ "\<pi> @ [i]"] new_table_tnode_new [OF s] by simp
  with \<open>length \<tau> = 0\<close> show ?thesis by simp
qed

lemma new_table_tnode_cases:
  assumes s: "slot k r p ps \<pi> t i" and q: "is_path \<pi>'" and t': "tnode (new_table (mem k) t i p) r \<pi>' = Some t'"
  shows "(tnode (mem k) r \<pi>' = Some t' \<and> t' \<noteq> p \<and> t' \<notin> set ps \<and> page_ok k t') \<or> (\<pi>' = \<pi> @ [i] \<and> t' = p)"
proof (cases "\<exists>\<tau>. \<pi>' = \<pi> @ i # \<tau>")
  case True
  then obtain \<tau> where \<tau>: "\<pi>' = \<pi> @ i # \<tau>" by blast
  show ?thesis
  proof (cases \<tau>)
    case Nil
    then show ?thesis using new_table_tnode_new [OF s] \<tau> t' by simp
  next
    case (Cons j \<tau>')
    then show ?thesis using new_table_tnode_below [OF s] \<tau> t' q by simp
  qed
next
  case False
  then have "tnode (mem k) r \<pi>' = Some t'"
    using new_table_tnode_old [OF s q] t' by simp
  then show ?thesis
    using pt_wfD(2,3) [OF slotD(1) [OF s] q] by auto
qed

lemma new_table_wf:
  assumes s: "slot k r p ps \<pi> t i" and k': "mem k' = new_table (mem k) t i p" "syms k' = syms k" "kmem_ok k' ps"
  shows "pt_wf k' r ps"
  unfolding pt_wf_def k'(1)
proof (intro conjI allI impI)
  show "kmem_ok k' ps" by (rule k')
  fix \<pi>1 \<pi>2 t1
  assume p1: "is_path \<pi>1" "tnode (new_table (mem k) t i p) r \<pi>1 = Some t1"
  have pok: "page_ok k' x = page_ok k x" for x by (simp add: page_ok_def k'(2))
  show "page_ok k' t1" "t1 \<notin> set ps"
    using new_table_tnode_cases [OF s p1] slotD(7,10) [OF s] by (auto simp: pok)
  assume p2: "is_path \<pi>2" "tnode (new_table (mem k) t i p) r \<pi>2 = Some t1"
  show "\<pi>1 = \<pi>2"
    using new_table_tnode_cases [OF s p1] new_table_tnode_cases [OF s p2]
      pt_wfD(4) [OF slotD(1) [OF s] p1(1) p2(1), of t1] by auto
qed

lemma new_table_lookup:
  assumes s: "slot k r p ps \<pi> t i"
  shows "lookup (new_table (mem k) t i p) r va = lookup (mem k) r va"
proof -
  let ?m = "new_table (mem k) t i p" and ?\<pi> = "[px 2 va, px 1 va]"
  have old: "tnode (mem k) r (\<pi> @ i # \<tau>) = None" for \<tau>
  proof -
    have "tnode (mem k) r (\<pi> @ [i]) = None" using slotD(2,6) [OF s] by (simp add: tnode_snoc)
    moreover have "tnode m r (\<pi>1 @ \<pi>2) = (case tnode m r \<pi>1 of None \<Rightarrow> None | Some t \<Rightarrow> tnode m t \<pi>2)" for m r \<pi>1 \<pi>2
      by (induction \<pi>1 arbitrary: r) (auto split: option.splits)
    from this [of "mem k" r "\<pi> @ [i]" \<tau>] calculation show ?thesis by simp
  qed
  show ?thesis
  proof (cases "tnode ?m r ?\<pi>")
    case None
    then have "tnode (mem k) r ?\<pi> = None"
      using old new_table_tnode_old [OF s, of ?\<pi>] by (metis is_path_px(3))
    with None show ?thesis unfolding lookup_def by simp
  next
    case (Some t')
    from new_table_tnode_cases [OF s _ Some]
    consider "tnode (mem k) r ?\<pi> = Some t'" "t' \<noteq> p" "page_ok k t'" | "?\<pi> = \<pi> @ [i]" "t' = p" by auto
    then show ?thesis
    proof cases
      case 1
      have "t' \<noteq> t"
        using pt_wfD(4) [OF slotD(1) [OF s] slotD(3) [OF s] _ slotD(2) [OF s], of ?\<pi>] 1(1) slotD(4) [OF s] by auto
      then have "ld64 ?m (ent t' (px 0 va)) = ld64 (mem k) (ent t' (px 0 va))"
        using 1 by (intro new_table_other [OF s]) simp_all
      with 1(1) Some show ?thesis unfolding lookup_def by simp
    next
      case 2
      then have "tnode (mem k) r ?\<pi> = None" using old [of "[]"] by (simp only: 2(1))
      with Some 2(2) new_table_empty [OF s, of "px 0 va"] show ?thesis unfolding lookup_def by simp
    qed
  qed
qed

section \<open>Growth of a tree\<close>

definition tables :: "kernel \<Rightarrow> u64 \<Rightarrow> u64 set" where
  "tables k r = {t. \<exists>\<pi>. is_path \<pi> \<and> tnode (mem k) r \<pi> = Some t}"

text \<open>
  \<open>grows r k ps k' ps'\<close>: from \<open>k\<close> to \<open>k'\<close> the tree at \<open>r\<close> took pages from the free list \<open>ps\<close>, leaving \<open>ps'\<close>,
  and nothing outside tables and free pages changed.
\<close>

definition grows :: "u64 \<Rightarrow> kernel \<Rightarrow> u64 list \<Rightarrow> kernel \<Rightarrow> u64 list \<Rightarrow> bool" where
  "grows r k ps k' ps' \<longleftrightarrow> pt_wf k' r ps' \<and> set ps' \<subseteq> set ps \<and>
     tables k' r \<subseteq> tables k r \<union> set ps \<and>
     (\<forall>j. (\<forall>t \<in> tables k r \<union> set ps. j \<notin> page_bytes t) \<longrightarrow> mem k' j = mem k j) \<and>
     (\<exists>f m. k' = k\<lparr>mach := mach k', freelist := f, mem := m\<rparr>) \<and>
     mach k' \<in> {mach k, ppm (mach k)}"

lemma vm_upd_trans:
  "k1 = k\<lparr>mach := a, freelist := b, mem := c\<rparr> \<Longrightarrow> k2 = k1\<lparr>mach := d, freelist := e, mem := f\<rparr> \<Longrightarrow>
   k2 = k\<lparr>mach := d, freelist := e, mem := f\<rparr>"
  by simp

lemma grows_refl: "pt_wf k r ps \<Longrightarrow> grows r k ps k ps"
  unfolding grows_def by (intro conjI exI [of _ "freelist k"] exI [of _ "mem k"]) auto

lemma grows_trans:
  assumes "grows r k ps k1 ps1" and "grows r k1 ps1 k2 ps2"
  shows "grows r k ps k2 ps2"
proof -
  have "mach k2 \<in> {mach k, ppm (mach k)}"
    using assms by (auto simp: grows_def)
  moreover have "\<exists>f m. k2 = k\<lparr>mach := mach k2, freelist := f, mem := m\<rparr>"
  proof -
    obtain m1 f1 m2 f2 where "k1 = k\<lparr>mach := mach k1, freelist := f1, mem := m1\<rparr>"
      and "k2 = k1\<lparr>mach := mach k2, freelist := f2, mem := m2\<rparr>"
      using assms unfolding grows_def by blast
    then have "k2 = k\<lparr>mach := mach k2, freelist := f2, mem := m2\<rparr>"
      by (rule vm_upd_trans)
    then show ?thesis by blast
  qed
  moreover have sub: "tables k1 r \<union> set ps1 \<subseteq> tables k r \<union> set ps"
    and sub2: "tables k2 r \<union> set ps2 \<subseteq> tables k1 r \<union> set ps1" and ps: "set ps1 \<subseteq> set ps" "set ps2 \<subseteq> set ps1"
    and wf: "pt_wf k2 r ps2"
    using assms by (auto simp: grows_def)
  moreover have "mem k2 j = mem k j" if j: "\<forall>t \<in> tables k r \<union> set ps. j \<notin> page_bytes t" for j
  proof -
    have "mem k1 j = mem k j" using assms(1) j by (simp add: grows_def)
    moreover have "\<forall>t \<in> tables k1 r \<union> set ps1. j \<notin> page_bytes t" using sub j by blast
    then have "mem k2 j = mem k1 j" using assms(2) by (simp add: grows_def)
    ultimately show ?thesis by simp
  qed
  ultimately show ?thesis
    unfolding grows_def by (meson Un_least Un_upper1 subset_trans)
qed

lemma new_table_grows:
  assumes s: "slot k r p ps \<pi> t i"
    and k': "k' = k\<lparr>mach := ppm (mach k), freelist := freelist k', mem := new_table (mem k) t i p\<rparr>" "kmem_ok k' ps"
  shows "grows r k (p # ps) k' ps"
proof -
  have m: "mem k' = new_table (mem k) t i p" "syms k' = syms k" "mach k' = ppm (mach k)"
    by (subst k'(1), simp)+
  have "tables k' r \<subseteq> tables k r \<union> set (p # ps)"
    using new_table_tnode_cases [OF s] by (fastforce simp: tables_def m(1))
  moreover have "mem k' j = mem k j" if "\<forall>t \<in> tables k r \<union> set (p # ps). j \<notin> page_bytes t" for j
    unfolding m(1) using that slotD(2,3) [OF s] by (intro new_table_out [OF s]) (auto simp: tables_def)
  ultimately show ?thesis
    unfolding grows_def using new_table_wf [OF s m(1,2) k'(2)] k'(1) m by auto
qed

section \<open>walk\<close>

lemma unat_pte_addr:
  assumes "page_ok k t"
  shows "unat (pte_addr t l va) = ent t (px l va)"
proof -
  have "8 * px l va < 4096" and "unat t + 4096 \<le> 0x88000000"
    using px_less [of l va] page_okD(2) [OF assms] by auto
  then show ?thesis
    by (simp add: pte_addr_def ent_def px_def unat_word_ariths)
qed

lemma pte_addr_nonzero: "page_ok k t \<Longrightarrow> 0 < sym_end (syms k) \<Longrightarrow> pte_addr t l va \<noteq> 0"
proof -
  assume "page_ok k t" "0 < sym_end (syms k)"
  then have "0 < unat t" by (auto simp: page_ok_def unat_gt_0)
  then have "unat (pte_addr t l va) \<noteq> 0"
    using unat_pte_addr [OF \<open>page_ok k t\<close>] by (simp add: ent_def)
  then show ?thesis by auto
qed

lemma ld_pte_run [run_simps]: "ld_pte a k = Ret (ld64 (mem k) (unat a)) k"
  by (simp add: ld_pte_def run_simps)

lemma st_pte_run [run_simps]: "st_pte a v k = Ret () (k\<lparr>mem := st64 (mem k) (unat a) v\<rparr>)"
  by (simp add: st_pte_def run_simps)

lemma walk_levels_child:
  assumes "page_ok k t" and "child (mem k) t (px (Suc l) va) = Some t'"
  shows "walk_levels (Suc l) t va al k = walk_levels l t' va al k"
  using assms(2) by (simp add: run_simps unat_pte_addr [OF assms(1)] child_def Let_def split: if_splits)

lemma walk_levels_none:
  assumes "page_ok k t" and "child (mem k) t (px (Suc l) va) = None"
  shows "walk_levels (Suc l) t va False k = Ret 0 k"
  using assms(2) by (simp add: run_simps unat_pte_addr [OF assms(1)] child_def Let_def split: if_splits)

lemma walk_levels_full:
  assumes "page_ok k t" and "child (mem k) t (px (Suc l) va) = None" and "kmem_ok k []"
  shows "walk_levels (Suc l) t va True k = Ret 0 (k\<lparr>mach := ppm (mach k)\<rparr>)"
  using assms(2) kalloc_empty [OF assms(3)]
  by (simp add: run_simps unat_pte_addr [OF assms(1)] child_def Let_def split: if_splits)

definition alloc_table :: "kernel \<Rightarrow> u64 \<Rightarrow> nat \<Rightarrow> u64 \<Rightarrow> kernel" where
  "alloc_table k t i p = k\<lparr>mach := ppm (mach k), freelist := ld64 (mem k) (unat p),
     mem := new_table (mem k) t i p\<rparr>"

lemma kmem_ok_Cons: "kmem_ok k (p # ps) \<Longrightarrow> freelist k = p \<and> p \<noteq> 0 \<and> free_lock KMEM_LOCK (mach k)"
  by (auto simp: kmem_ok_def kmem_inv_def)

lemma walk_levels_alloc:
  assumes "page_ok k t" and "child (mem k) t (px (Suc l) va) = None" and "kmem_ok k (p # ps)"
  shows "walk_levels (Suc l) t va True k = walk_levels l p va True (alloc_table k t (px (Suc l) va) p)"
  using assms(2) kmem_ok_Cons [OF assms(3)]
  by (simp add: run_simps unat_pte_addr [OF assms(1)] child_def Let_def alloc_table_def new_table_def
      memset_fill split: if_splits)

lemma alloc_table_ok:
  assumes s: "slot k r p ps \<pi> t i"
  shows "kmem_ok (alloc_table k t i p) ps"
proof -
  note ok = pt_wfD(1) [OF slotD(1) [OF s]]
  let ?k1 = "k\<lparr>mach := ppm (mach k), mem := fill (mem k) (unat p) 5 4096, freelist := ld64 (mem k) (unat p)\<rparr>"
  have "kalloc k = Ret p ?k1"
    using kmem_ok_Cons [OF ok] by (simp add: kalloc_run)
  then have k1: "kmem_ok ?k1 ps"
    using kalloc_pop [OF ok] by (auto simp: returns_def)
  have "new_table (mem k) t i p j = mem ?k1 j" if q: "q \<in> set ps" "j \<in> page_bytes q" for q j
  proof -
    have "page_ok k q" using kmem.inv_ok [OF ok] q by simp
    then have "j \<notin> page_bytes p" "j \<notin> page_bytes t"
      using page_bytes_disjoint [of k p q] page_bytes_disjoint [of k t q] slotD(7,8,10,11) [OF s] q by auto
    then show ?thesis
      using new_table_out [OF s, of j] by (simp add: fill_out page_bytes_def)
  qed
  then have "kmem_ok (?k1\<lparr>mem := new_table (mem k) t i p\<rparr>) ps"
    by (rule kmem_ok_frame [OF k1])
  then show ?thesis by (simp add: alloc_table_def)
qed

lemma alloc_table_grows: "slot k r p ps \<pi> t i \<Longrightarrow> grows r k (p # ps) (alloc_table k t i p) ps"
  by (rule new_table_grows) (simp_all add: alloc_table_def alloc_table_ok [unfolded alloc_table_def])

lemma alloc_table_fields:
  "mem (alloc_table k t i p) = new_table (mem k) t i p" "syms (alloc_table k t i p) = syms k"
  by (simp_all add: alloc_table_def)

lemma ppm_grows:
  assumes "pt_wf k r ps"
  shows "grows r k ps (k\<lparr>mach := ppm (mach k)\<rparr>) ps"
proof -
  have "pt_wf (k\<lparr>mach := ppm (mach k)\<rparr>) r ps"
    using assms by (simp add: pt_wf_def kmem_ok_def kmem_inv_def page_ok_def)
  moreover have "tables (k\<lparr>mach := ppm (mach k)\<rparr>) r = tables k r"
    by (simp add: tables_def)
  ultimately show ?thesis
    unfolding grows_def by (intro conjI exI [of _ "freelist k"] exI [of _ "mem k"]) auto
qed

text \<open>One level of the walk: the table for the next level is reached, or memory ran out.\<close>

lemma walk_level:
  assumes wf: "pt_wf k r ps" and t: "tnode (mem k) r \<pi> = Some t" "is_path \<pi>" "length \<pi> < 2"
  shows "(\<exists>k' ps' t'. walk_levels (Suc l) t va True k = walk_levels l t' va True k' \<and> grows r k ps k' ps' \<and>
      (\<forall>va'. lookup (mem k') r va' = lookup (mem k) r va') \<and> tnode (mem k') r (\<pi> @ [px (Suc l) va]) = Some t') \<or>
    (\<exists>k'. walk_levels (Suc l) t va True k = Ret 0 k' \<and> ps = [] \<and> grows r k ps k' [] \<and> mem k' = mem k)"
proof -
  have pt: "page_ok k t" by (rule pt_wfD(2) [OF wf t(2,1)])
  show ?thesis
  proof (cases "child (mem k) t (px (Suc l) va)")
    case (Some t')
    then have "tnode (mem k) r (\<pi> @ [px (Suc l) va]) = Some t'" by (simp add: tnode_snoc t(1))
    then show ?thesis using walk_levels_child [OF pt Some] grows_refl [OF wf] by blast
  next
    case None
    show ?thesis
    proof (cases ps)
      case Nil
      have "walk_levels (Suc l) t va True k = Ret 0 (k\<lparr>mach := ppm (mach k)\<rparr>)"
        using walk_levels_full [OF pt None] pt_wfD(1) [OF wf] Nil by simp
      then show ?thesis using ppm_grows [OF wf] Nil by fastforce
    next
      case (Cons p qs)
      then have s: "slot k r p qs \<pi> t (px (Suc l) va)"
        using wf t None by (simp add: slot_def)
      then have "tnode (mem (alloc_table k t (px (Suc l) va) p)) r (\<pi> @ [px (Suc l) va]) = Some p"
        by (simp add: alloc_table_fields new_table_tnode_new)
      moreover have "lookup (mem (alloc_table k t (px (Suc l) va) p)) r va' = lookup (mem k) r va'" for va'
        by (simp add: alloc_table_fields new_table_lookup [OF s])
      ultimately show ?thesis
        using walk_levels_alloc [OF pt None] pt_wfD(1) [OF wf] alloc_table_grows [OF s] Cons by blast
    qed
  qed
qed

lemma walk_below: "va < MAXVA \<Longrightarrow> walk r va al = walk_levels (Suc (Suc 0)) r va al"
  unfolding walk_def numeral_2_eq_2 by (simp only: not_le [symmetric] if_False)

lemma walk_alloc:
  assumes wf: "pt_wf k r ps" and va: "va < MAXVA"
  shows "returns k (walk r va True) (\<lambda>pte k'. \<exists>ps'. grows r k ps k' ps' \<and>
    (\<forall>va'. lookup (mem k') r va' = lookup (mem k) r va') \<and>
    (pte = 0 \<and> ps' = [] \<or> (\<exists>t. tnode (mem k') r [px 2 va, px 1 va] = Some t \<and> pte = pte_addr t 0 va \<and> page_ok k' t)))"
proof -
  have w: "walk r va True k = walk_levels (Suc (Suc 0)) r va True k"
    by (simp only: walk_below [OF va])
  have px1: "px (Suc 0) va = px 1 va" "px (Suc (Suc 0)) va = px 2 va" by (simp_all add: numeral_2_eq_2)
  have nil: "tnode (mem k) r [] = Some r" "length ([] :: nat list) < 2" by simp_all
  from walk_level [OF wf nil(1) is_path_px(1) nil(2), of "Suc 0" va] show ?thesis
  proof (elim disjE exE conjE)
    fix k1 ps1 t1
    assume 1: "walk_levels (Suc (Suc 0)) r va True k = walk_levels (Suc 0) t1 va True k1" "grows r k ps k1 ps1"
      "\<forall>va'. lookup (mem k1) r va' = lookup (mem k) r va'" "tnode (mem k1) r ([] @ [px (Suc (Suc 0)) va]) = Some t1"
    have wf1: "pt_wf k1 r ps1" using 1(2) by (simp add: grows_def)
    have one: "is_path ([] @ [px (Suc (Suc 0)) va])" "length ([] @ [px (Suc (Suc 0)) va]) < 2" by simp_all
    from walk_level [OF wf1 1(4) one, of 0 va] show ?thesis
    proof (elim disjE exE conjE)
      fix k2 ps2 t2
      assume 2: "walk_levels (Suc 0) t1 va True k1 = walk_levels 0 t2 va True k2" "grows r k1 ps1 k2 ps2"
        "\<forall>va'. lookup (mem k2) r va' = lookup (mem k1) r va'"
        "tnode (mem k2) r (([] @ [px (Suc (Suc 0)) va]) @ [px (Suc 0) va]) = Some t2"
      have "tnode (mem k2) r [px 2 va, px 1 va] = Some t2" using 2(4) unfolding px1 append.simps .
      moreover have "page_ok k2 t2"
        using 2(2) pt_wfD(2) [of k2 r ps2, OF _ is_path_px(3) calculation] by (simp add: grows_def)
      ultimately show ?thesis
        using grows_trans [OF 1(2) 2(2)] w 1(1,3) 2(1,3) unfolding returns_def walk_levels.simps(1) kret_run by metis
    next
      fix k2 assume 2: "walk_levels (Suc 0) t1 va True k1 = Ret 0 k2" "ps1 = []" "grows r k1 ps1 k2 []" "mem k2 = mem k1"
      then show ?thesis
        using grows_trans [OF 1(2) 2(3)] w 1(1,3) unfolding returns_def by metis
    qed
  next
    fix k1 assume 1: "walk_levels (Suc (Suc 0)) r va True k = Ret 0 k1" "ps = []" "grows r k ps k1 []" "mem k1 = mem k"
    then show ?thesis
      using w unfolding returns_def by metis
  qed
qed

lemma walk_find:
  assumes wf: "pt_wf k r ps" and va: "va < MAXVA"
  shows "walk r va False k = Ret (case tnode (mem k) r [px 2 va, px 1 va] of None \<Rightarrow> 0 | Some t \<Rightarrow> pte_addr t 0 va) k"
proof -
  have w: "walk r va False k = walk_levels (Suc (Suc 0)) r va False k"
    by (simp only: walk_below [OF va])
  have px2: "px 2 va = px (Suc (Suc 0)) va" by (simp add: numeral_2_eq_2)
  have r: "page_ok k r" by (rule pt_wfD(2) [OF wf is_path_px(1)]) simp
  show ?thesis
  proof (cases "child (mem k) r (px (Suc (Suc 0)) va)")
    case None
    then show ?thesis using walk_levels_none [OF r] w by (simp add: px2 del: walk_levels.simps)
  next
    case (Some t1)
    then have t1: "page_ok k t1"
      using pt_wfD(2) [OF wf is_path_px(2) [of "Suc (Suc 0)" va]] by simp
    show ?thesis
      using walk_levels_child [OF r Some, of False] w walk_levels_none [OF t1] walk_levels_child [OF t1] Some
      by (cases "child (mem k) t1 (px (Suc 0) va)") (simp_all add: px2 kret_run del: walk_levels.simps(2))
  qed
qed

text \<open>The entry that \<open>walk\<close> finds is the one \<open>lookup\<close> describes.\<close>

lemma ld_lookup:
  assumes "pt_wf k r ps" and "tnode (mem k) r [px 2 va, px 1 va] = Some t"
  shows "ld64 (mem k) (unat (pte_addr t 0 va)) = lookup (mem k) r va"
  using assms(2) unat_pte_addr [OF pt_wfD(2) [OF assms(1) is_path_px(3) assms(2)]]
  by (simp only: lookup_def) simp

section \<open>mappages\<close>

definition pnum :: "u64 \<Rightarrow> nat" where
  "pnum va = unat va div 4096"

text \<open>The mappings after \<open>n\<close> pages from \<open>a\<close> on have been mapped to the frames from \<open>pa\<close> on.\<close>

definition map_range :: "(u64 \<Rightarrow> u64) \<Rightarrow> u64 \<Rightarrow> u64 \<Rightarrow> u64 \<Rightarrow> nat \<Rightarrow> u64 \<Rightarrow> u64" where
  "map_range look a pa perm n va =
     (if pnum a \<le> pnum va \<and> pnum va < pnum a + n
      then PA2PTE (pa + 4096 * of_nat (pnum va - pnum a)) OR perm OR PTE_V else look va)"

lemma map_range_0 [simp]: "map_range look a pa perm 0 = look"
  by (auto simp: map_range_def fun_eq_iff)

lemma map_range_cong: "look va = look' va \<Longrightarrow> map_range look a pa perm n va = map_range look' a pa perm n va"
  by (simp add: map_range_def)

lemma map_range_Suc:
  assumes "pnum (a + 4096) = pnum a + 1"
  shows "map_range (\<lambda>va. if same_page a va then PA2PTE pa OR perm OR PTE_V else look va) (a + 4096) (pa + 4096) perm n =
    map_range look a pa perm (Suc n)"
proof
  fix va
  consider "pnum va < pnum a" | "pnum va = pnum a" | d where "pnum va = pnum a + Suc d"
    by (metis add_Suc_right less_iff_Suc_add linorder_neqE_nat)
  then show "map_range (\<lambda>va. if same_page a va then PA2PTE pa OR perm OR PTE_V else look va) (a + 4096) (pa + 4096) perm n va =
    map_range look a pa perm (Suc n) va"
    by cases (auto simp: map_range_def same_page_def assms algebra_simps simp flip: pnum_def)
qed

definition mappages_body :: "u64 \<Rightarrow> u64 \<Rightarrow> u64 \<Rightarrow> u64 \<times> u64 \<Rightarrow> (kernel, (u64 \<times> u64) + int) kmon" where
  "mappages_body r perm lst = (\<lambda>(a, pa).
        kbind (walk r a True) (\<lambda>pte.
        if pte = 0 then kret (Inr (-1))
        else
        kbind (ld_pte pte) (\<lambda>e.
        if e AND PTE_V \<noteq> 0 then kpanic ''mappages: remap''
        else
        kbind (st_pte pte (PA2PTE pa OR perm OR PTE_V)) (\<lambda>_.
        if a = lst then kret (Inr 0)
        else kret (Inl (a + PGSIZE, pa + PGSIZE))))))"

lemma mappages_iter:
  "sz \<noteq> 0 \<Longrightarrow> mappages r va sz pa perm =
     kiter MAXPAGES (mappages_body r perm (PGROUNDDOWN (va + sz - 1))) (PGROUNDDOWN va, pa)"
  by (simp add: mappages_def mappages_body_def Let_def)

lemma leaf_store_grows:
  assumes wf: "pt_wf k r ps" and t: "tnode (mem k) r [px 2 va, px 1 va] = Some t"
  shows "grows r k ps (k\<lparr>mem := st64 (mem k) (ent t (px 0 va)) v\<rparr>) ps"
proof -
  let ?k = "k\<lparr>mem := st64 (mem k) (ent t (px 0 va)) v\<rparr>"
  have "pt_wf ?k r ps" by (rule leaf_store_wf [OF wf t]) simp_all
  moreover have "tables ?k r = tables k r"
    using leaf_store_tnode [OF wf t, of "px 0 va"] by (auto simp: tables_def)
  moreover have "mem ?k j = mem k j" if "\<forall>t \<in> tables k r \<union> set ps. j \<notin> page_bytes t" for j
  proof -
    have "t \<in> tables k r" unfolding tables_def using t is_path_px(3) by blast
    then have "j \<notin> page_bytes t" using that by blast
    then have "\<not> (ent t (px 0 va) \<le> j \<and> j - ent t (px 0 va) < 8)"
      using ent_in_page [of "px 0 va" "j - ent t (px 0 va)" t] by auto
    then have "j < ent t (px 0 va) \<or> ent t (px 0 va) + 8 \<le> j" by linarith
    then show ?thesis by (simp add: st64_other)
  qed
  moreover have "\<exists>f m. ?k = k\<lparr>mach := mach ?k, freelist := f, mem := m\<rparr>"
    by (intro exI [of _ "freelist k"] exI [of _ "mem ?k"]) simp
  ultimately show ?thesis
    unfolding grows_def by auto
qed

text \<open>One round of the loop.\<close>

lemma mappages_step:
  assumes wf: "pt_wf k r ps" and a: "a < MAXVA" and free: "lookup (mem k) r a AND PTE_V = 0"
  shows "returns k (mappages_body r perm lst (a, pa)) (\<lambda>res k'. \<exists>ps'. grows r k ps k' ps' \<and>
     (res = Inr (-1) \<and> ps' = [] \<and> (\<forall>va. lookup (mem k') r va = lookup (mem k) r va) \<or>
      res = (if a = lst then Inr 0 else Inl (a + 4096, pa + 4096)) \<and>
      (\<forall>va < MAXVA. lookup (mem k') r va =
         (if same_page a va then PA2PTE pa OR perm OR PTE_V else lookup (mem k) r va))))"
  unfolding mappages_body_def prod.case
proof (rule returns_bind [OF walk_alloc [OF wf a]])
  let ?e = "PA2PTE pa OR perm OR PTE_V"
  fix pte k1
  assume "\<exists>ps'. grows r k ps k1 ps' \<and> (\<forall>va'. lookup (mem k1) r va' = lookup (mem k) r va') \<and>
    (pte = 0 \<and> ps' = [] \<or> (\<exists>t. tnode (mem k1) r [px 2 a, px 1 a] = Some t \<and> pte = pte_addr t 0 a \<and> page_ok k1 t))"
  then obtain ps1 where g: "grows r k ps k1 ps1" and l: "\<forall>va'. lookup (mem k1) r va' = lookup (mem k) r va'"
    and c: "pte = 0 \<and> ps1 = [] \<or> (\<exists>t. tnode (mem k1) r [px 2 a, px 1 a] = Some t \<and> pte = pte_addr t 0 a \<and> page_ok k1 t)"
    by blast
  have wf1: "pt_wf k1 r ps1" using g by (simp add: grows_def)
  show "returns k1 (if pte = 0 then kret (Inr (-1)) else kbind (ld_pte pte) (\<lambda>e.
        if e AND PTE_V \<noteq> 0 then kpanic ''mappages: remap'' else
        kbind (st_pte pte ?e) (\<lambda>_. if a = lst then kret (Inr 0) else kret (Inl (a + PGSIZE, pa + PGSIZE)))))
     (\<lambda>res k'. \<exists>ps'. grows r k ps k' ps' \<and>
       (res = Inr (-1) \<and> ps' = [] \<and> (\<forall>va. lookup (mem k') r va = lookup (mem k) r va) \<or>
        res = (if a = lst then Inr 0 else Inl (a + 4096, pa + 4096)) \<and>
        (\<forall>va < MAXVA. lookup (mem k') r va = (if same_page a va then ?e else lookup (mem k) r va))))"
  proof (cases "pte = 0")
    case True
    then have "ps1 = []" using c pte_addr_nonzero pt_wfD(1) [OF wf1] by (auto simp: kmem_ok_def kmem_inv_def)
    with True g l show ?thesis by auto
  next
    case False
    with c obtain t where t: "tnode (mem k1) r [px 2 a, px 1 a] = Some t" "pte = pte_addr t 0 a" "page_ok k1 t" by blast
    let ?k2 = "k1\<lparr>mem := st64 (mem k1) (ent t (px 0 a)) ?e\<rparr>"
    have e: "ld64 (mem k1) (unat pte) AND PTE_V = 0"
      using ld_lookup [OF wf1 t(1)] l free t(2) by simp
    have "grows r k ps ?k2 ps1" by (rule grows_trans [OF g leaf_store_grows [OF wf1 t(1)]])
    moreover have "lookup (mem ?k2) r va = (if same_page a va then ?e else lookup (mem k) r va)" if "va < MAXVA" for va
      using leaf_store_lookup [OF wf1 t(1) a that] l by simp
    ultimately show ?thesis
      using False e unat_pte_addr [OF t(3)] t(2)
      by (auto simp: returns_def run_simps intro!: exI [of _ ps1])
  qed
qed

lemma pnum_step: "unat a + 4096 < 2 ^ 64 \<Longrightarrow> pnum (a + 4096) = pnum a + 1"
proof -
  assume "unat a + 4096 < 2 ^ 64"
  then have "unat (a + 4096) = unat a + 4096" by (simp add: unat_word_ariths)
  then show ?thesis by (simp add: pnum_def)
qed

text \<open>
  The outcome of mapping \<open>Suc n\<close> pages from \<open>a\<close> on: all are mapped, or memory ran out and a prefix is.
\<close>

definition mapped :: "u64 \<Rightarrow> kernel \<Rightarrow> u64 list \<Rightarrow> u64 \<Rightarrow> u64 \<Rightarrow> u64 \<Rightarrow> nat \<Rightarrow> int \<Rightarrow> kernel \<Rightarrow> bool" where
  "mapped r k ps a pa perm n res k' \<longleftrightarrow> (\<exists>ps' j. grows r k ps k' ps' \<and>
     (res = 0 \<and> j = Suc n \<or> res = -1 \<and> j \<le> n \<and> ps' = []) \<and>
     (\<forall>va < MAXVA. lookup (mem k') r va = map_range (lookup (mem k) r) a pa perm j va))"

lemma mapped_Suc:
  assumes g: "grows r k ps k1 ps1" and pa: "pnum (a + 4096) = pnum a + 1"
    and l1: "\<forall>va < MAXVA. lookup (mem k1) r va =
      (if same_page a va then PA2PTE pa OR perm OR PTE_V else lookup (mem k) r va)"
    and m: "mapped r k1 ps1 (a + 4096) (pa + 4096) perm n res k'"
  shows "mapped r k ps a pa perm (Suc n) res k'"
proof -
  have eq: "map_range (lookup (mem k1) r) (a + 4096) (pa + 4096) perm j va =
    map_range (lookup (mem k) r) a pa perm (Suc j) va" if "va < MAXVA" for j va
    by (subst map_range_Suc [OF pa, symmetric], rule map_range_cong) (simp add: l1 that)
  from m obtain ps' j where "grows r k1 ps1 k' ps'" "res = 0 \<and> j = Suc n \<or> res = -1 \<and> j \<le> n \<and> ps' = []"
    "\<forall>va < MAXVA. lookup (mem k') r va = map_range (lookup (mem k1) r) (a + 4096) (pa + 4096) perm j va"
    unfolding mapped_def by blast
  then show ?thesis
    unfolding mapped_def using grows_trans [OF g] eq by (intro exI [of _ ps'] exI [of _ "Suc j"]) auto
qed

lemma mappages_loop:
  assumes "pt_wf k r ps" and "unat a + 4096 * n < 2 ^ 38" and "lst = a + 4096 * of_nat n" and "n < f"
    and "\<And>va. va < MAXVA \<Longrightarrow> pnum a \<le> pnum va \<Longrightarrow> pnum va \<le> pnum a + n \<Longrightarrow> lookup (mem k) r va AND PTE_V = 0"
  shows "returns k (kiter f (mappages_body r perm lst) (a, pa)) (mapped r k ps a pa perm n)"
  using assms
proof (induction n arbitrary: k ps a pa f)
  case 0
  then obtain g where f: "f = Suc g" by (cases f) auto
  have a: "a < MAXVA" using 0(2) by (simp add: word_less_nat_alt)
  have one: "map_range look a pa perm (Suc 0) va = (if same_page a va then PA2PTE pa OR perm OR PTE_V else look va)"
    for look va by (auto simp: map_range_def same_page_def pnum_def)
  show ?case
    unfolding f kiter.simps mapped_def
    using 0(3) one
    by (intro returns_bind [OF mappages_step [OF 0(1) a 0(5) [OF a]]])
       (auto intro!: exI [of _ 0] exI [of _ "Suc 0"] split: if_splits)
next
  case (Suc n)
  then obtain g where f: "f = Suc g" "n < g" by (cases f) auto
  have a: "a < MAXVA" using Suc.prems(2) by (simp add: word_less_nat_alt)
  have ua: "unat (a + 4096) = unat a + 4096" and pa: "pnum (a + 4096) = pnum a + 1"
    using Suc.prems(2) pnum_step [of a] by (simp_all add: unat_word_ariths)
  have "lst \<noteq> a"
  proof -
    have "unat lst = unat a + 4096 * Suc n"
      using Suc.prems(2,3) by (simp add: unat_word_ariths unat_of_nat take_bit_nat_eq_self)
    then show ?thesis by auto
  qed
  show ?case
    unfolding f kiter.simps
  proof (rule returns_bind [OF mappages_step [OF Suc.prems(1) a Suc.prems(5) [OF a]]])
    show "pnum a \<le> pnum a" "pnum a \<le> pnum a + Suc n" by simp_all
    let ?e = "PA2PTE pa OR perm OR PTE_V"
    fix res :: "u64 \<times> u64 + int" and k1
    assume "\<exists>ps'. grows r k ps k1 ps' \<and>
      (res = Inr (-1) \<and> ps' = [] \<and> (\<forall>va. lookup (mem k1) r va = lookup (mem k) r va) \<or>
       res = (if a = lst then Inr 0 else Inl (a + 4096, pa + 4096)) \<and>
       (\<forall>va < MAXVA. lookup (mem k1) r va = (if same_page a va then ?e else lookup (mem k) r va)))"
    then obtain ps1 where g: "grows r k ps k1 ps1" and c: "res = Inr (-1) \<and> ps1 = [] \<and>
        (\<forall>va. lookup (mem k1) r va = lookup (mem k) r va) \<or> res = Inl (a + 4096, pa + 4096) \<and>
        (\<forall>va < MAXVA. lookup (mem k1) r va = (if same_page a va then ?e else lookup (mem k) r va))"
      using \<open>lst \<noteq> a\<close> by auto
    from c show "returns k1 (case res of Inl j \<Rightarrow> kiter g (mappages_body r perm lst) j | Inr v \<Rightarrow> kret v)
       (mapped r k ps a pa perm (Suc n))"
    proof (elim disjE conjE)
      assume res: "res = Inl (a + 4096, pa + 4096)"
        and l1: "\<forall>va < MAXVA. lookup (mem k1) r va = (if same_page a va then ?e else lookup (mem k) r va)"
      have free1: "lookup (mem k1) r va AND PTE_V = 0"
        if "va < MAXVA" "pnum (a + 4096) \<le> pnum va" "pnum va \<le> pnum (a + 4096) + n" for va
        using Suc.prems(5) [OF that(1)] l1 that by (auto simp: pa same_page_def simp flip: pnum_def)
      have "pt_wf k1 r ps1" using g by (simp add: grows_def)
      from Suc.IH [OF this _ _ f(2) free1] Suc.prems(2,3) ua
      have "returns k1 (kiter g (mappages_body r perm lst) (a + 4096, pa + 4096))
          (mapped r k1 ps1 (a + 4096) (pa + 4096) perm n)"
        by (simp add: algebra_simps)
      then show ?thesis
        unfolding res sum.case by (rule returns_mono) (rule mapped_Suc [OF g pa l1])
    qed (use g in \<open>auto simp: mapped_def intro!: exI [of _ 0]\<close>)
  qed
qed

text \<open>
  C8: On a well-formed page table, \<open>mappages\<close> of a range of unmapped pages returns; with 0 when every
  page of the range, and no other, now translates to the frames from \<open>pa\<close> on with permissions \<open>perm\<close>
  and all other translations are unchanged; with -1 only when the allocator is empty, a prefix of
  the range then being mapped. The tree stays well formed, and memory outside page tables and free
  pages is untouched.
\<close>

theorem mappages_maps:
  assumes wf: "pt_wf k r ps" and sz: "0 < sz" and range: "unat va + unat sz \<le> 2 ^ 38"
    and free: "\<forall>va' < MAXVA. pnum va \<le> pnum va' \<and> pnum va' \<le> pnum (va + sz - 1) \<longrightarrow> lookup (mem k) r va' AND PTE_V = 0"
  shows "returns k (mappages r va sz pa perm) (\<lambda>res k'. \<exists>ps' j. grows r k ps k' ps' \<and>
     (res = 0 \<and> j = Suc (pnum (va + sz - 1) - pnum va) \<or> res = -1 \<and> j \<le> pnum (va + sz - 1) - pnum va \<and> ps' = []) \<and>
     (\<forall>va' < MAXVA. lookup (mem k') r va' = map_range (lookup (mem k) r) va pa perm j va'))"
proof -
  let ?l = "va + sz - 1" and ?n = "pnum (va + sz - 1) - pnum va"
  have "sz \<noteq> 0" "1 \<le> unat sz" using sz by (auto simp: unat_gt_0 Suc_le_eq)
  then have ul: "unat ?l = unat va + unat sz - 1"
    using range by (simp add: unat_word_ariths unat_sub word_le_nat_alt)
  have pn: "pnum (PGROUNDDOWN x) = pnum x" for x by (simp add: pnum_def unat_PGROUNDDOWN)
  have le: "pnum va \<le> pnum ?l" unfolding pnum_def ul using \<open>1 \<le> unat sz\<close> by (intro div_le_mono) simp
  have mr: "map_range look (PGROUNDDOWN va) = map_range look va" for look
    by (intro ext) (simp add: map_range_def pn)
  have ua: "unat (PGROUNDDOWN va) + 4096 * ?n = pnum ?l * 4096"
    using le by (simp add: unat_PGROUNDDOWN algebra_simps flip: pnum_def)
  have b: "pnum ?l * 4096 < 2 ^ 38"
    using range \<open>1 \<le> unat sz\<close> ul div_times_less_eq_dividend [of "unat ?l" 4096] unfolding pnum_def by linarith
  have "unat (PGROUNDDOWN va + 4096 * of_nat ?n) = unat (PGROUNDDOWN va) + 4096 * ?n"
    using ua b by (simp add: unat_word_ariths unat_of_nat take_bit_nat_eq_self)
  then have lst: "PGROUNDDOWN ?l = PGROUNDDOWN va + 4096 * of_nat ?n"
    by (simp only: word_unat_eq_iff ua unat_PGROUNDDOWN [of ?l, folded pnum_def])
  have "?n < MAXPAGES" using ua b by simp
  from mappages_loop [OF wf _ lst this] ua b free le
  have "returns k (kiter MAXPAGES (mappages_body r perm (PGROUNDDOWN ?l)) (PGROUNDDOWN va, pa))
      (mapped r k ps (PGROUNDDOWN va) pa perm ?n)"
    by (simp add: pn)
  then show ?thesis
    unfolding mappages_iter [OF \<open>sz \<noteq> 0\<close>] by (rule returns_mono) (simp add: mapped_def mr)
qed

text \<open>A zeroed page is the root of a well-formed tree without mappings.\<close>

lemma empty_root:
  assumes "kmem_ok k ps" "page_ok k r" "r \<notin> set ps" "\<And>j. j \<in> page_bytes r \<Longrightarrow> mem k j = 0"
  shows "pt_wf k r ps" and "lookup (mem k) r va = 0"
proof -
  have none: "child (mem k) r i = None" if "i < 512" for i
  proof -
    have "ld64 (mem k) (ent r i) = 0"
      by (rule ld64_zero) (simp add: assms(4) ent_in_page that)
    then show ?thesis by (simp add: child_def)
  qed
  have "tnode (mem k) r \<pi> = Some t \<Longrightarrow> is_path \<pi> \<Longrightarrow> \<pi> = [] \<and> t = r" for \<pi> t
    using none by (cases \<pi>) (auto simp: is_path_def)
  then show "pt_wf k r ps"
    using assms unfolding pt_wf_def by blast
  show "lookup (mem k) r va = 0"
    using none [of "px 2 va"] by (simp add: lookup_def)
qed

text \<open>A machine with a zeroed page \<open>0x87ff0000\<close> and two free pages behind it.\<close>

definition three_pages :: kernel where
  "three_pages = (boot_kernel (syms_at 0x87ff0000) (st64 (\<lambda>_. 0) 0x87ff1000 0x87ff2000))\<lparr>freelist := 0x87ff1000\<rparr>"

lemma three_pages_ok: "kmem_ok three_pages [0x87ff1000, 0x87ff2000]"
proof -
  have "ld64 (st64 (\<lambda>_. 0) 0x87ff1000 (0x87ff2000 :: u64)) 0x87ff2000 = 0"
    by (rule ld64_zero) (simp add: st64_other)
  then show ?thesis
    by (simp add: kmem_ok_def kmem_inv_def three_pages_def boot_kernel_def syms_at_def page_ok_def
        free_lock_def boot_mach_def mem_simps)
qed

lemma three_pages_root: "pt_wf three_pages 0x87ff0000 [0x87ff1000, 0x87ff2000]" "lookup (mem three_pages) 0x87ff0000 va = 0"
proof -
  have p: "page_ok three_pages 0x87ff0000" by (simp add: page_ok_def three_pages_def boot_kernel_def syms_at_def)
  have z: "mem three_pages j = 0" if "j \<in> page_bytes 0x87ff0000" for j
    using that by (simp add: three_pages_def boot_kernel_def page_bytes_def st64_other)
  show "pt_wf three_pages 0x87ff0000 [0x87ff1000, 0x87ff2000]" "lookup (mem three_pages) 0x87ff0000 va = 0"
    using empty_root [OF three_pages_ok p _ z] by simp_all
qed

theorem mappages_maps_witness:
  "returns three_pages (mappages 0x87ff0000 0x5000 100 0x80042000 0x16) (\<lambda>res k'. \<exists>ps'.
     grows 0x87ff0000 three_pages [0x87ff1000, 0x87ff2000] k' ps' \<and>
     (res = 0 \<and> lookup (mem k') 0x87ff0000 0x5008 = PA2PTE 0x80042000 OR 0x16 OR 1 \<or> res = -1 \<and> ps' = []) \<and>
     lookup (mem k') 0x87ff0000 0x6000 = 0)"
proof -
  have "\<forall>va' < MAXVA. pnum 0x5000 \<le> pnum va' \<and> pnum va' \<le> pnum (0x5000 + 100 - 1) \<longrightarrow>
      lookup (mem three_pages) 0x87ff0000 va' AND PTE_V = 0"
    by (simp add: three_pages_root)
  from mappages_maps [OF three_pages_root(1) _ _ this, where pa = "0x80042000" and perm = "0x16"]
  show ?thesis
    by (auto elim!: returns_mono simp: pnum_def map_range_def three_pages_root(2))
qed

end
