(* ===== verification/UserMem.thy ===== *)
theory UserMem
  imports PageTable
begin

text \<open>
  User memory as the kernel sees it: \<open>upa\<close> gives the physical address of a user byte, if the page
  table maps it for user access. The copy functions of \<open>kernel/vm.c\<close> are shown to move exactly the
  bytes of the user's address space, across page boundaries, and to fail exactly when one of the
  pages is not accessible.
\<close>

section \<open>Translation of user addresses\<close>

definition utrans :: "bytes \<Rightarrow> u64 \<Rightarrow> u64 \<Rightarrow> u64" where
  "utrans m r va = (if va < MAXVA \<and> lookup m r va AND PTE_V \<noteq> 0 \<and> lookup m r va AND PTE_U \<noteq> 0
     then PTE2PA (lookup m r va) else 0)"

text \<open>The physical address of the user's byte at address \<open>x\<close>.\<close>

definition upa :: "bytes \<Rightarrow> u64 \<Rightarrow> nat \<Rightarrow> nat option" where
  "upa m r x = (if x < 2 ^ 38 \<and> utrans m r (of_nat x) \<noteq> 0
     then Some (unat (utrans m r (of_nat x)) + x mod 4096) else None)"

lemma walkaddr_run:
  assumes wf: "pt_wf k r ps"
  shows "walkaddr r va k = Ret (utrans (mem k) r va) k"
proof (cases "va < MAXVA")
  case False
  then have "MAXVA \<le> va" by (simp only: not_less)
  then show ?thesis unfolding walkaddr_def utrans_def using False by (simp add: kret_run)
next
  case True
  let ?t = "tnode (mem k) r [px 2 va, px 1 va]"
  have e: "0 < sym_end (syms k)" using pt_wfD(1) [OF wf] by (simp add: kmem_ok_def kmem_inv_def)
  have w: "walkaddr r va k = (kbind (walk r va False) (\<lambda>pte. if pte = 0 then kret 0 else
      kbind (ld_pte pte) (\<lambda>e. if e AND PTE_V = 0 then kret 0 else if e AND PTE_U = 0 then kret 0 else kret (PTE2PA e)))) k"
    unfolding walkaddr_def using True by (simp only: not_le [symmetric] if_False)
  show ?thesis
  proof (cases ?t)
    case None
    then have "lookup (mem k) r va = 0" unfolding lookup_def by simp
    then show ?thesis
      unfolding w using walk_find [OF wf True] None by (simp add: run_simps utrans_def del: tnode.simps)
  next
    case (Some t)
    have "page_ok k t" by (rule pt_wfD(2) [OF wf is_path_px(3) Some])
    then have "pte_addr t 0 va \<noteq> 0" using e by (rule pte_addr_nonzero)
    then show ?thesis
      unfolding w using walk_find [OF wf True] Some ld_lookup [OF wf Some] True
      by (simp add: run_simps utrans_def del: tnode.simps)
  qed
qed

lemma utrans_PGROUNDDOWN: "va < MAXVA \<Longrightarrow> utrans m r (PGROUNDDOWN va) = utrans m r va"
  "\<not> va < MAXVA \<Longrightarrow> utrans m r (PGROUNDDOWN va) = 0"
proof -
  have u: "unat (PGROUNDDOWN va) \<le> unat va" by (simp add: unat_PGROUNDDOWN)
  show "utrans m r (PGROUNDDOWN va) = utrans m r va" if "va < MAXVA"
    using that u by (simp add: utrans_def lookup_PGROUNDDOWN word_less_nat_alt)
  show "utrans m r (PGROUNDDOWN va) = 0" if "\<not> va < MAXVA"
  proof -
    have "2 ^ 38 div 4096 \<le> unat va div 4096"
      using that by (intro div_le_mono) (simp add: word_less_nat_alt not_less)
    then have "\<not> PGROUNDDOWN va < MAXVA"
      by (simp add: word_less_nat_alt unat_PGROUNDDOWN not_less)
    then show ?thesis by (simp add: utrans_def)
  qed
qed

lemma utrans_aligned: "utrans m r va mod 4096 = 0"
proof -
  have "take_bit 12 (push_bit 12 x) = (0 :: u64)" for x by (rule bit_word_eqI) (auto simp: bit_simps)
  then show ?thesis by (simp add: utrans_def PTE2PA_def take_bit_eq_mod)
qed

text \<open>Within a page, physical addresses follow virtual ones.\<close>

lemma upa_page:
  assumes va: "unat va + j < (unat va div 4096 + 1) * 4096"
  shows "upa m r (unat va + j) = (if utrans m r (PGROUNDDOWN va) = 0 then None
     else Some (unat (utrans m r (PGROUNDDOWN va) + (va - PGROUNDDOWN va)) + j))"
proof (cases "va < MAXVA")
  case True
  let ?pa = "utrans m r (PGROUNDDOWN va)"
  have ub: "unat va < 2 ^ 38" using True by (simp add: word_less_nat_alt)
  then have lt: "unat va div 4096 < 2 ^ 26" by (intro less_mult_imp_div_less) simp
  then have "(unat va div 4096 + 1) * 4096 \<le> 2 ^ 38" by simp
  with va have x: "unat va + j < 2 ^ 38" by linarith
  have div: "(unat va + j) div 4096 = unat va div 4096" using va by (intro div_nat_eqI) simp_all
  have ux: "unat (of_nat (unat va + j) :: u64) = unat va + j" using x by (intro unat_of_nat_less) simp
  have "PGROUNDDOWN (of_nat (unat va + j)) = PGROUNDDOWN va"
    by (simp only: word_unat_eq_iff unat_PGROUNDDOWN ux div)
  moreover have "of_nat (unat va + j) < (MAXVA :: u64)" using x ux by (simp add: word_less_nat_alt)
  ultimately have t: "utrans m r (of_nat (unat va + j)) = ?pa"
    using utrans_PGROUNDDOWN(1) [of "of_nat (unat va + j)" m r] by simp
  have off: "unat (va - PGROUNDDOWN va) = unat va mod 4096"
    by (subst unat_sub) (simp_all add: word_le_nat_alt unat_PGROUNDDOWN minus_div_mult_eq_mod)
  have "unat ?pa + 4096 \<le> 2 ^ 64"
    using utrans_aligned [of m r "PGROUNDDOWN va"] unat_less_length [of ?pa]
    by (intro aligned_below) (simp_all add: unat_aligned)
  then have "unat (?pa + (va - PGROUNDDOWN va)) = unat ?pa + unat va mod 4096"
    using off mod_less_divisor [of 4096 "unat va"] by (simp add: unat_word_ariths)
  moreover have "(unat va + j) mod 4096 = unat va mod 4096 + j"
    using div div_times_less_eq_dividend [of "unat va" 4096]
    by (simp only: modulo_nat_def)
  ultimately show ?thesis using x t by (simp add: upa_def)
next
  case False
  then have "\<not> unat va + j < 2 ^ 38" by (simp add: word_less_nat_alt)
  then show ?thesis using False by (simp add: upa_def utrans_PGROUNDDOWN)
qed

section \<open>Chunks\<close>

text \<open>The number of bytes a round of the copy loops moves: to the end of the page, or to the end.\<close>

definition chunk :: "u64 \<Rightarrow> u64 \<Rightarrow> u64" where
  "chunk va len = (if 4096 - (va - PGROUNDDOWN va) > len then len else 4096 - (va - PGROUNDDOWN va))"

lemma unat_chunk: "unat (chunk va len) = min (unat len) (4096 - unat va mod 4096)"
proof -
  have off: "unat (va - PGROUNDDOWN va) = unat va mod 4096"
    by (subst unat_sub) (simp_all add: word_le_nat_alt unat_PGROUNDDOWN minus_div_mult_eq_mod)
  then have "unat (4096 - (va - PGROUNDDOWN va)) = 4096 - unat va mod 4096"
    by (subst unat_sub) (simp_all add: word_le_nat_alt less_imp_le)
  then show ?thesis by (simp add: chunk_def word_less_nat_alt min_def)
qed

lemma chunk_bounds:
  assumes "0 < len"
  shows "0 < unat (chunk va len)" "unat (chunk va len) \<le> unat len" "unat (ucast (chunk va len) :: u32) = unat (chunk va len)"
    "i < unat (chunk va len) \<Longrightarrow> unat va + i < (unat va div 4096 + 1) * 4096"
    "unat (len - chunk va len) = unat len - unat (chunk va len)"
proof -
  have l: "0 < unat len" using assms by (simp add: word_less_nat_alt)
  have m: "unat va mod 4096 < 4096" by simp
  show "0 < unat (chunk va len)" using l m by (simp add: unat_chunk)
  show le: "unat (chunk va len) \<le> unat len" by (simp add: unat_chunk)
  have "unat (chunk va len) \<le> 4096" by (auto simp: unat_chunk min_def)
  then show "unat (ucast (chunk va len) :: u32) = unat (chunk va len)"
    by (simp add: unsigned_ucast_eq take_bit_nat_eq_self)
  show "unat va + i < (unat va div 4096 + 1) * 4096" if "i < unat (chunk va len)"
  proof -
    have "unat va mod 4096 + i < 4096" using that by (simp add: unat_chunk less_diff_conv)
    then have "(unat va div 4096 * 4096 + unat va mod 4096) + i < (unat va div 4096 + 1) * 4096"
      by (simp only: add.assoc add_mult_distrib mult_1 add_less_cancel_left)
    then show ?thesis by (simp only: div_mult_mod_eq)
  qed
  show "unat (len - chunk va len) = unat len - unat (chunk va len)"
    using le by (simp add: unat_sub word_le_nat_alt)
qed

lemma chunk_next:
  assumes "va < MAXVA" "unat (chunk va len) < unat len"
  shows "unat (PGROUNDDOWN va + 4096) = unat va + unat (chunk va len)"
proof -
  have u: "unat (PGROUNDDOWN va) = unat va - unat va mod 4096"
    by (simp add: unat_PGROUNDDOWN minus_mod_eq_div_mult)
  have "unat va < 2 ^ 38" using assms(1) by (simp add: word_less_nat_alt)
  then have "unat (PGROUNDDOWN va + 4096) = unat (PGROUNDDOWN va) + 4096"
    using u by (simp add: unat_word_ariths)
  moreover have "unat (chunk va len) = 4096 - unat va mod 4096"
    using assms(2) by (simp add: unat_chunk min_def split: if_splits)
  ultimately show ?thesis
    using u mod_less_eq_dividend [of "unat va" 4096] by (simp add: less_imp_le)
qed

section \<open>copyin\<close>

definition copyin_body ::
  "u64 \<Rightarrow> u64 \<times> bytes \<times> nat \<times> u64 \<Rightarrow> (kernel, (u64 \<times> bytes \<times> nat \<times> u64) + (int \<times> bytes)) kmon" where
  "copyin_body r = (\<lambda>(srcva, dst, d, len).
       if \<not> len > 0 then kret (Inr (0, dst))
       else
       kbind (walkaddr r (PGROUNDDOWN srcva)) (\<lambda>pa0.
       if pa0 = 0 then kret (Inr (-1, dst))
       else
       kbind (kget mem) (\<lambda>m.
       kret (Inl (PGROUNDDOWN srcva + PGSIZE,
         memmove_from dst d m (unat (pa0 + (srcva - PGROUNDDOWN srcva))) (ucast (chunk srcva len)),
         d + unat (chunk srcva len), len - chunk srcva len)))))"

lemma copyin_iter: "copyin r dst d srcva len = kiter (unat len + 1) (copyin_body r) (srcva, dst, d, len)"
  unfolding copyin_def copyin_body_def chunk_def Let_def ..

lemma copyin_body_run:
  assumes "pt_wf k r ps" and "0 < len"
  shows "copyin_body r (srcva, dst, d, len) k = (if utrans (mem k) r (PGROUNDDOWN srcva) = 0 then Ret (Inr (-1, dst)) k
     else Ret (Inl (PGROUNDDOWN srcva + 4096,
       blit dst d (mem k) (unat (utrans (mem k) r (PGROUNDDOWN srcva) + (srcva - PGROUNDDOWN srcva))) (unat (chunk srcva len)),
       d + unat (chunk srcva len), len - chunk srcva len)) k)"
  using assms(2) chunk_bounds(3) [OF assms(2), of srcva]
  by (simp add: copyin_body_def run_simps walkaddr_run [OF assms(1)] memmove_from_blit)

text \<open>What a run of \<open>copyin\<close> over \<open>n\<close> bytes from user address \<open>x\<close> leaves in the destination.\<close>

definition copied_in :: "bytes \<Rightarrow> u64 \<Rightarrow> nat \<Rightarrow> nat \<Rightarrow> bytes \<Rightarrow> nat \<Rightarrow> int \<times> bytes \<Rightarrow> bool" where
  "copied_in m r x n dst d res \<longleftrightarrow>
     (\<forall>j. j < d \<or> d + n \<le> j \<longrightarrow> snd res j = dst j) \<and>
     (if \<forall>i < n. upa m r (x + i) \<noteq> None
      then fst res = 0 \<and> (\<forall>i < n. snd res (d + i) = m (the (upa m r (x + i))))
      else fst res = -1)"

lemma copied_in_chunk:
  assumes c: "c \<le> n" and all: "\<And>i. i < c \<Longrightarrow> upa m r (x + i) = Some (p + i)"
    and rest: "copied_in m r (x + c) (n - c) (blit dst d m p c) (d + c) res"
  shows "copied_in m r x n dst d res"
proof -
  have out: "snd res j = dst j" if "j < d \<or> d + n \<le> j" for j
  proof -
    have "j < d + c \<or> d + c + (n - c) \<le> j" using that c by auto
    then have "snd res j = blit dst d m p c j" using rest unfolding copied_in_def by blast
    then show ?thesis using that c by (auto simp: blit_def)
  qed
  have iff: "(\<forall>i < n - c. upa m r (x + c + i) \<noteq> None) \<longleftrightarrow> (\<forall>i < n. upa m r (x + i) \<noteq> None)" (is "?A \<longleftrightarrow> ?B")
  proof
    assume A: ?A
    show ?B
    proof (intro allI impI)
      fix i assume "i < n"
      then show "upa m r (x + i) \<noteq> None"
        using all [of i] A [rule_format, of "i - c"] by (cases "i < c") auto
    qed
  next
    assume B: ?B
    then show ?A by (auto dest: spec [of _ "c + _"] simp: add.assoc)
  qed
  have low: "snd res (d + i) = m (the (upa m r (x + i)))" if "i < c" for i
  proof -
    have "snd res (d + i) = blit dst d m p c (d + i)" using rest that by (simp add: copied_in_def)
    then show ?thesis using all [OF that] that by simp
  qed
  have high: "snd res (d + i) = m (the (upa m r (x + i)))"
    if "c \<le> i" "i < n" "\<forall>i < n. upa m r (x + i) \<noteq> None" for i
  proof -
    have "\<forall>i < n - c. snd res (d + c + i) = m (the (upa m r (x + c + i)))"
      using rest that(3) iff by (simp add: copied_in_def)
    from this [rule_format, of "i - c"] that(1,2) show ?thesis by simp
  qed
  have "fst res = (if \<forall>i < n. upa m r (x + i) \<noteq> None then 0 else -1)"
    using rest unfolding copied_in_def iff by (simp split: if_splits)
  then show ?thesis
    unfolding copied_in_def using out low high by (metis not_le)
qed

lemma copyin_loop:
  assumes "pt_wf k r ps" and "unat len < f"
  shows "\<exists>res. kiter f (copyin_body r) (srcva, dst, d, len) k = Ret res k \<and>
    copied_in (mem k) r (unat srcva) (unat len) dst d res"
  using assms(2)
proof (induction f arbitrary: srcva dst d len)
  case (Suc f)
  show ?case
  proof (cases "len > 0")
    case False
    then have "len = 0" by (simp add: word_neq_0_conv [symmetric])
    then show ?thesis by (simp add: copyin_body_def run_simps copied_in_def)
  next
    case True
    note cb = chunk_bounds [OF True, where va = srcva]
    let ?pa = "utrans (mem k) r (PGROUNDDOWN srcva)" and ?c = "unat (chunk srcva len)"
    show ?thesis
    proof (cases "?pa = 0")
      case pa: True
      have "upa (mem k) r (unat srcva + 0) = None"
        using upa_page [OF cb(4) [OF cb(1)]] pa by simp
      then have "copied_in (mem k) r (unat srcva) (unat len) dst d (-1, dst)"
        using True by (auto simp: copied_in_def word_less_nat_alt)
      then show ?thesis
        using pa copyin_body_run [OF assms(1) True, of srcva dst d] by (simp add: run_simps)
    next
      case pa: False
      let ?p = "unat (?pa + (srcva - PGROUNDDOWN srcva))"
      have all: "upa (mem k) r (unat srcva + i) = Some (?p + i)" if "i < ?c" for i
        using upa_page [OF cb(4) [OF that]] pa by simp
      have "srcva < MAXVA" using pa utrans_PGROUNDDOWN(2) by blast
      let ?dst = "blit dst d (mem k) ?p ?c"
      have "unat (len - chunk srcva len) < f" using Suc.prems cb(1,2,5) by linarith
      from Suc.IH [OF this, of "PGROUNDDOWN srcva + 4096" ?dst "d + ?c"]
      obtain res where res: "kiter f (copyin_body r) (PGROUNDDOWN srcva + 4096, ?dst, d + ?c, len - chunk srcva len) k = Ret res k"
        "copied_in (mem k) r (unat (PGROUNDDOWN srcva + 4096)) (unat len - ?c) ?dst (d + ?c) res"
        by (auto simp: cb(5))
      have "copied_in (mem k) r (unat srcva + ?c) (unat len - ?c) ?dst (d + ?c) res"
        using res(2) chunk_next [OF \<open>srcva < MAXVA\<close>, of len] cb(2)
        by (cases "?c < unat len") (simp_all add: copied_in_def)
      from copied_in_chunk [OF cb(2) all this] show ?thesis
        using pa copyin_body_run [OF assms(1) True, of srcva dst d] res(1) by (simp add: run_simps)
    qed
  qed
qed simp

text \<open>
  C9: \<open>copyin\<close> always returns without changing the kernel state. It returns 0 and delivers exactly the
  user's bytes from \<open>srcva\<close> on if every one of them is mapped for user access, and -1 otherwise; it
  writes no byte outside the destination range.
\<close>

theorem copyin_correct:
  assumes "pt_wf k r ps"
  shows "\<exists>res dst'. copyin r dst d srcva len k = Ret (res, dst') k \<and>
    (\<forall>j. j < d \<or> d + unat len \<le> j \<longrightarrow> dst' j = dst j) \<and>
    (if \<forall>i < unat len. upa (mem k) r (unat srcva + i) \<noteq> None
     then res = 0 \<and> (\<forall>i < unat len. dst' (d + i) = mem k (the (upa (mem k) r (unat srcva + i))))
     else res = -1)"
proof -
  obtain res where "copyin r dst d srcva len k = Ret res k" "copied_in (mem k) r (unat srcva) (unat len) dst d res"
    unfolding copyin_iter using copyin_loop [OF assms, of len "unat len + 1" srcva dst d] by auto
  then show ?thesis
    by (intro exI [of _ "fst res"] exI [of _ "snd res"]) (simp add: copied_in_def)
qed

text \<open>
  A machine whose page table at \<open>0x87ff0000\<close> maps the user page \<open>0x4000\<close> to the frame \<open>0x87fe0000\<close>,
  readable and writable; the two table pages came from the allocator of \<open>three_pages\<close>.
\<close>

definition user_page :: kernel where
  "user_page = (let k = alloc_table (alloc_table three_pages 0x87ff0000 0 0x87ff1000) 0x87ff1000 0 0x87ff2000
     in k\<lparr>mem := st64 (mem k) (ent 0x87ff2000 4) (PA2PTE 0x87fe0000 OR 0x16 OR PTE_V)\<rparr>)"

lemma user_page_wf:
  shows "pt_wf user_page 0x87ff0000 []"
    and "va < MAXVA \<Longrightarrow> lookup (mem user_page) 0x87ff0000 va = (if same_page 0x4000 va then PA2PTE 0x87fe0000 OR 0x16 OR 1 else 0)"
    and "tables user_page 0x87ff0000 \<subseteq> {0x87ff0000, 0x87ff1000, 0x87ff2000}"
proof -
  let ?r = "0x87ff0000 :: u64" and ?p1 = "0x87ff1000 :: u64" and ?p2 = "0x87ff2000 :: u64" and ?k0 = three_pages
  define k1 where "k1 = alloc_table ?k0 ?r 0 ?p1"
  define k2 where "k2 = alloc_table k1 ?p1 0 ?p2"
  have "ld64 (mem ?k0) (ent ?r 0) = 0"
    by (rule ld64_zero) (simp add: three_pages_def boot_kernel_def ent_def st64_other)
  then have s1: "slot ?k0 ?r ?p1 [?p2] [] ?r 0"
    using three_pages_root(1) by (simp add: slot_def child_def)
  have m1: "mem k1 = new_table (mem ?k0) ?r 0 ?p1" by (simp add: k1_def alloc_table_fields)
  have wf1: "pt_wf k1 ?r [?p2]" using alloc_table_grows [OF s1] by (simp add: grows_def k1_def)
  have "child (mem k1) ?p1 0 = None" using new_table_empty [OF s1, of 0] by (simp add: m1 child_def)
  then have s2: "slot k1 ?r ?p2 [] [0] ?p1 0"
    using wf1 new_table_tnode_new [OF s1] by (simp add: slot_def is_path_def m1)
  have m2: "mem k2 = new_table (mem k1) ?p1 0 ?p2" by (simp add: k2_def alloc_table_fields)
  have wf2: "pt_wf k2 ?r []" using alloc_table_grows [OF s2] by (simp add: grows_def k2_def)
  have "px 2 0x4000 = 0" "px 1 0x4000 = 0" "px 0 0x4000 = 4" by (simp_all add: px_eq)
  moreover have "tnode (mem k2) ?r [0, 0] = Some ?p2"
    using new_table_tnode_new [OF s2] by (simp add: m2)
  ultimately have t: "tnode (mem k2) ?r [px 2 0x4000, px 1 0x4000] = Some ?p2" and px0: "px 0 0x4000 = 4" by simp_all
  have up: "user_page = k2\<lparr>mem := st64 (mem k2) (ent ?p2 (px 0 0x4000)) (PA2PTE 0x87fe0000 OR 0x16 OR 1)\<rparr>"
    by (simp add: user_page_def k1_def k2_def Let_def px0)
  have g: "grows ?r k2 [] user_page []" unfolding up by (rule leaf_store_grows [OF wf2 t])
  then show "pt_wf user_page ?r []" by (simp add: grows_def)
  have l2: "lookup (mem k2) ?r va = 0" for va
    by (simp add: m2 m1 new_table_lookup [OF s2, unfolded m1] new_table_lookup [OF s1] three_pages_root(2))
  show "lookup (mem user_page) ?r va = (if same_page 0x4000 va then PA2PTE 0x87fe0000 OR 0x16 OR 1 else 0)" if "va < MAXVA"
    using leaf_store_lookup [OF wf2 t _ that] l2 by (simp add: up)
  have "tables ?k0 ?r \<subseteq> {?r}"
  proof -
    have "mem ?k0 j = 0" if "j \<in> page_bytes ?r" for j
      using that by (simp add: three_pages_def boot_kernel_def page_bytes_def st64_other)
    then have "ld64 (mem ?k0) (ent ?r i) = 0" if "i < 512" for i
      by (intro ld64_zero) (simp add: ent_in_page that)
    then have "tnode (mem ?k0) ?r \<pi> = Some t \<Longrightarrow> is_path \<pi> \<Longrightarrow> t = ?r" for \<pi> t
      by (cases \<pi>) (auto simp: is_path_def child_def)
    then show ?thesis by (auto simp: tables_def)
  qed
  moreover have "tables k1 ?r \<subseteq> tables ?k0 ?r \<union> {?p1, ?p2}" "tables k2 ?r \<subseteq> tables k1 ?r \<union> {?p2}" "tables user_page ?r \<subseteq> tables k2 ?r"
    using alloc_table_grows [OF s1] alloc_table_grows [OF s2] g unfolding grows_def k1_def [symmetric] k2_def [symmetric] by auto
  ultimately show "tables user_page ?r \<subseteq> {?r, ?p1, ?p2}" by blast
qed

lemma user_page_upa: "upa (mem user_page) 0x87ff0000 x = (if x div 4096 = 4 then Some (0x87fe0000 + x mod 4096) else None)"
proof (cases "x < 2 ^ 38")
  case True
  then have u: "unat (of_nat x :: u64) = x" by (intro unat_of_nat_less) simp
  then have va: "of_nat x < (MAXVA :: u64)" using True by (simp add: word_less_nat_alt)
  have "PTE2PA (PA2PTE 0x87fe0000 OR 0x17) = 0x87fe0000" by (rule PTE2PA_PA2PTE) simp_all
  moreover have "PA2PTE 0x87fe0000 = 0x21FF8000" by (simp add: PA2PTE_def drop_bit_eq_div push_bit_eq_mult)
  ultimately show ?thesis
    using True va user_page_wf(2) [OF va] by (simp add: upa_def utrans_def same_page_def u)
next
  case False
  then have "2 ^ 38 div 4096 \<le> x div 4096" by (intro div_le_mono) simp
  then show ?thesis using False by (auto simp: upa_def)
qed

theorem copyin_correct_witness:
  "(\<exists>dst'. copyin 0x87ff0000 (\<lambda>_. 7) 0 0x4ffc 4 user_page = Ret (0, dst') user_page \<and>
     dst' 3 = mem user_page 0x87fe0fff \<and> dst' 4 = 7) \<and>
   (\<exists>dst'. copyin 0x87ff0000 (\<lambda>_. 7) 0 0x4ffc 5 user_page = Ret (-1, dst') user_page)"
proof -
  have "(0x4ffc + i) div 4096 = 4" if "i < 4" for i :: nat
    using that by (intro div_nat_eqI) simp_all
  then have 4: "\<forall>i < 4. upa (mem user_page) 0x87ff0000 (0x4ffc + i) = Some (0x87fe0000 + (0x4ffc + i) mod 4096)"
    by (simp add: user_page_upa)
  have "upa (mem user_page) 0x87ff0000 (0x4ffc + 4) = None" by (simp add: user_page_upa)
  then have 5: "\<not> (\<forall>i < 5. upa (mem user_page) 0x87ff0000 (0x4ffc + i) \<noteq> None)"
    by (auto intro!: exI [of _ 4])
  obtain dst' where "copyin 0x87ff0000 (\<lambda>_. 7) 0 0x4ffc 4 user_page = Ret (0, dst') user_page"
    and "\<forall>i < 4. dst' i = mem user_page (0x87fe0000 + (0x4ffc + i) mod 4096)" and "\<forall>j \<ge> 4. dst' j = 7"
    using copyin_correct [OF user_page_wf(1), of "\<lambda>_. 7" 0 "0x4ffc" 4] 4 by auto
  moreover have "\<exists>dst'. copyin 0x87ff0000 (\<lambda>_. 7) 0 0x4ffc 5 user_page = Ret (-1, dst') user_page"
    using copyin_correct [OF user_page_wf(1), of "\<lambda>_. 7" 0 "0x4ffc" 5] 5 by (auto split: if_splits)
  moreover have "(3 :: nat) < 4" "(0x4ffc + 3) mod 4096 = (4095 :: nat)" by simp_all
  ultimately show ?thesis by (intro conjI, intro exI [of _ dst']) auto
qed

section \<open>copyout\<close>

text \<open>
  An address space: the page table is well formed, no user byte lies in a table or on the free list,
  and different user bytes lie at different places.
\<close>

definition user_ok :: "kernel \<Rightarrow> u64 \<Rightarrow> u64 list \<Rightarrow> bool" where
  "user_ok k r ps \<longleftrightarrow> pt_wf k r ps \<and>
     (\<forall>x p t. upa (mem k) r x = Some p \<longrightarrow> t \<in> tables k r \<union> set ps \<longrightarrow> p \<notin> page_bytes t) \<and>
     (\<forall>x y p. upa (mem k) r x = Some p \<longrightarrow> upa (mem k) r y = Some p \<longrightarrow> x = y)"

lemma user_okD:
  assumes "user_ok k r ps"
  shows "pt_wf k r ps" and "upa (mem k) r x = Some p \<Longrightarrow> t \<in> tables k r \<union> set ps \<Longrightarrow> p \<notin> page_bytes t"
    and "upa (mem k) r x = Some p \<Longrightarrow> upa (mem k) r y = Some p \<Longrightarrow> x = y"
  using assms unfolding user_ok_def by blast+

text \<open>A change of memory outside tables and free pages leaves all translations as they are.\<close>

lemma tables_frame:
  assumes "\<And>t j. t \<in> tables k r \<Longrightarrow> j \<in> page_bytes t \<Longrightarrow> m' j = mem k j"
  shows "is_path \<pi> \<Longrightarrow> tnode m' r \<pi> = tnode (mem k) r \<pi>" and "lookup m' r va = lookup (mem k) r va"
    and "tables (k\<lparr>mem := m'\<rparr>) r = tables k r"
proof -
  have e: "ld64 m' (ent t i) = ld64 (mem k) (ent t i)" if "t \<in> tables k r" "i < 512" for t i
    using that assms by (intro ld64_page_cong) auto
  show tn: "tnode m' r \<pi> = tnode (mem k) r \<pi>" if "is_path \<pi>" for \<pi>
  proof (rule tnode_cong)
    fix \<sigma> i \<tau> t assume "\<pi> = \<sigma> @ i # \<tau>" "tnode (mem k) r \<sigma> = Some t"
    then show "ld64 m' (ent t i) = ld64 (mem k) (ent t i)"
      using that path_prefix by (intro e) (auto simp: tables_def)
  qed
  show "lookup m' r va = lookup (mem k) r va"
  proof (cases "tnode (mem k) r [px 2 va, px 1 va]")
    case (Some t)
    then have "t \<in> tables k r" using is_path_px(3) unfolding tables_def by blast
    then show ?thesis using e [of t "px 0 va"] Some tn [OF is_path_px(3)] unfolding lookup_def by simp
  qed (use tn [OF is_path_px(3)] in \<open>simp add: lookup_def del: tnode.simps\<close>)
  show "tables (k\<lparr>mem := m'\<rparr>) r = tables k r"
    using tn by (auto simp: tables_def)
qed

lemma user_ok_frame:
  assumes ok: "user_ok k r ps" and m': "\<And>t j. t \<in> tables k r \<union> set ps \<Longrightarrow> j \<in> page_bytes t \<Longrightarrow> m' j = mem k j"
  shows "user_ok (k\<lparr>mem := m'\<rparr>) r ps" and "upa m' r x = upa (mem k) r x"
proof -
  note fr = tables_frame [of k r m', OF m', OF UnI1]
  show upa: "upa m' r x = upa (mem k) r x" for x
    by (simp add: upa_def utrans_def fr(2))
  have "kmem_ok (k\<lparr>mem := m'\<rparr>) ps"
    using kmem_ok_frame [OF pt_wfD(1) [OF user_okD(1) [OF ok]]] m' by blast
  moreover have "page_ok (k\<lparr>mem := m'\<rparr>) = page_ok k" by (intro ext) (simp add: page_ok_def)
  ultimately have "pt_wf (k\<lparr>mem := m'\<rparr>) r ps"
    using user_okD(1) [OF ok] fr(1) unfolding pt_wf_def by simp
  then show "user_ok (k\<lparr>mem := m'\<rparr>) r ps"
    using ok fr(3) upa unfolding user_ok_def by simp
qed

definition copyout_body :: "u64 \<Rightarrow> bytes \<Rightarrow> u64 \<times> nat \<times> u64 \<Rightarrow> (kernel, (u64 \<times> nat \<times> u64) + int) kmon" where
  "copyout_body r src = (\<lambda>(dstva, s, len).
       if \<not> len > 0 then kret (Inr 0)
       else
       kbind (walkaddr r (PGROUNDDOWN dstva)) (\<lambda>pa0.
       if pa0 = 0 then kret (Inr (-1))
       else
       kbind (upd_mem (\<lambda>m. memmove_from m (unat (pa0 + (dstva - PGROUNDDOWN dstva))) src s (ucast (chunk dstva len)))) (\<lambda>_.
       kret (Inl (PGROUNDDOWN dstva + PGSIZE, s + unat (chunk dstva len), len - chunk dstva len)))))"

lemma copyout_iter: "copyout r dstva src len = kiter (unat len + 1) (copyout_body r src) (dstva, 0, len)"
  unfolding copyout_def copyout_body_def chunk_def Let_def ..

lemma copyout_body_run:
  assumes "pt_wf k r ps" and "0 < len"
  shows "copyout_body r src (dstva, s, len) k = (if utrans (mem k) r (PGROUNDDOWN dstva) = 0 then Ret (Inr (-1)) k
     else Ret (Inl (PGROUNDDOWN dstva + 4096, s + unat (chunk dstva len), len - chunk dstva len))
       (k\<lparr>mem := blit (mem k) (unat (utrans (mem k) r (PGROUNDDOWN dstva) + (dstva - PGROUNDDOWN dstva))) src s
          (unat (chunk dstva len))\<rparr>))"
  using assms(2) chunk_bounds(3) [OF assms(2), of dstva]
  by (simp add: copyout_body_def run_simps walkaddr_run [OF assms(1)] memmove_from_blit)

definition copied_out :: "bytes \<Rightarrow> u64 \<Rightarrow> nat \<Rightarrow> nat \<Rightarrow> bytes \<Rightarrow> nat \<Rightarrow> int \<Rightarrow> bytes \<Rightarrow> bool" where
  "copied_out m r x n src s res m' \<longleftrightarrow>
     (\<forall>j. (\<forall>i < n. upa m r (x + i) \<noteq> Some j) \<longrightarrow> m' j = m j) \<and>
     (if \<forall>i < n. upa m r (x + i) \<noteq> None
      then res = 0 \<and> (\<forall>i < n. m' (the (upa m r (x + i))) = src (s + i))
      else res = -1)"

lemma all_split: "c \<le> (n::nat) \<Longrightarrow> (\<forall>i < n. P i) \<longleftrightarrow> (\<forall>i < c. P i) \<and> (\<forall>i < n - c. P (c + i))"
  by (metis add.commute add_diff_cancel_left' le_add_diff_inverse less_diff_conv nat_le_linear less_le_trans not_le)

lemma copied_out_chunk:
  assumes c: "c \<le> n" and all: "\<And>i. i < c \<Longrightarrow> upa m r (x + i) = Some (p + i)"
    and same: "upa (blit m p src s c) r = upa m r"
    and inj: "\<And>y z q. upa m r y = Some q \<Longrightarrow> upa m r z = Some q \<Longrightarrow> y = z"
    and rest: "copied_out (blit m p src s c) r (x + c) (n - c) src (s + c) res m'"
  shows "copied_out m r x n src s res m'"
proof -
  let ?m = "blit m p src s c"
  have fr: "m' j = ?m j" if "\<forall>i < n - c. upa m r (x + (c + i)) \<noteq> Some j" for j
    using rest that unfolding copied_out_def same by (simp add: add.assoc)
  have out: "m' j = m j" if j: "\<forall>i < n. upa m r (x + i) \<noteq> Some j" for j
  proof -
    have "\<forall>i < c. p + i \<noteq> j" using j all c by fastforce
    then have "\<not> (p \<le> j \<and> j < p + c)" by (metis le_Suc_ex nat_add_left_cancel_less)
    then show ?thesis
      using fr [of j] j c by (auto simp: blit_def)
  qed
  have low: "m' (the (upa m r (x + i))) = src (s + i)" if "i < c" for i
  proof -
    have "upa m r (x + (c + i')) \<noteq> Some (p + i)" for i'
      using inj [OF all [OF that], of "x + (c + i')"] that by auto
    then show ?thesis using fr [of "p + i"] that by (simp add: all [OF that])
  qed
  have "res = (if \<forall>i < n. upa m r (x + i) \<noteq> None then 0 else -1)"
    "(\<forall>i < n. upa m r (x + i) \<noteq> None) \<Longrightarrow> \<forall>i < n - c. m' (the (upa m r (x + (c + i)))) = src (s + (c + i))"
    using rest all unfolding copied_out_def same all_split [OF c] by (auto simp: add.assoc split: if_splits)
  then show ?thesis
    unfolding copied_out_def all_split [OF c, of "\<lambda>i. m' (the (upa m r (x + i))) = src (s + i)"]
    using out low by (auto split: if_splits)
qed

lemma copyout_loop:
  assumes "user_ok k r ps" and "unat len < f"
  shows "\<exists>res m'. kiter f (copyout_body r src) (dstva, s, len) k = Ret res (k\<lparr>mem := m'\<rparr>) \<and>
    copied_out (mem k) r (unat dstva) (unat len) src s res m'"
  using assms
proof (induction f arbitrary: k dstva s len)
  case (Suc f)
  note ok = Suc.prems(1)
  show ?case
  proof (cases "len > 0")
    case False
    then have "len = 0" by (simp add: word_neq_0_conv [symmetric])
    then show ?thesis
      by (intro exI [of _ 0] exI [of _ "mem k"]) (simp add: copyout_body_def run_simps copied_out_def)
  next
    case True
    note cb = chunk_bounds [OF True, where va = dstva]
    let ?pa = "utrans (mem k) r (PGROUNDDOWN dstva)" and ?c = "unat (chunk dstva len)"
    show ?thesis
    proof (cases "?pa = 0")
      case pa: True
      have "upa (mem k) r (unat dstva + 0) = None"
        using upa_page [OF cb(4) [OF cb(1)]] pa by simp
      then have "copied_out (mem k) r (unat dstva) (unat len) src s (-1) (mem k)"
        using True by (auto simp: copied_out_def word_less_nat_alt)
      then show ?thesis
        using pa copyout_body_run [OF user_okD(1) [OF ok] True, of src dstva s]
        by (intro exI [of _ "-1"] exI [of _ "mem k"]) (simp add: run_simps)
    next
      case pa: False
      let ?p = "unat (?pa + (dstva - PGROUNDDOWN dstva))"
      have all: "upa (mem k) r (unat dstva + i) = Some (?p + i)" if "i < ?c" for i
        using upa_page [OF cb(4) [OF that]] pa by simp
      have va: "dstva < MAXVA" using pa utrans_PGROUNDDOWN(2) by blast
      let ?m = "blit (mem k) ?p src s ?c"
      have fr: "?m j = mem k j" if "t \<in> tables k r \<union> set ps" "j \<in> page_bytes t" for t j
      proof -
        have "?p + i \<noteq> j" if "i < ?c" for i
          using user_okD(2) [OF ok all [OF that] \<open>t \<in> tables k r \<union> set ps\<close>] \<open>j \<in> page_bytes t\<close> by blast
        then show ?thesis by (metis blit_def le_Suc_ex nat_add_left_cancel_less)
      qed
      have "unat (len - chunk dstva len) < f" using Suc.prems(2) cb(1,2,5) by linarith
      have ok': "user_ok (k\<lparr>mem := ?m\<rparr>) r ps" and same: "upa ?m r y = upa (mem k) r y" for y
        by (rule user_ok_frame [OF ok], rule fr, assumption+)+
      from Suc.IH [OF ok' \<open>unat (len - chunk dstva len) < f\<close>, of "PGROUNDDOWN dstva + 4096" "s + ?c"]
      obtain res m' where res: "kiter f (copyout_body r src) (PGROUNDDOWN dstva + 4096, s + ?c, len - chunk dstva len)
          (k\<lparr>mem := ?m\<rparr>) = Ret res (k\<lparr>mem := m'\<rparr>)"
        "copied_out ?m r (unat (PGROUNDDOWN dstva + 4096)) (unat len - ?c) src (s + ?c) res m'"
        by (auto simp: cb(5))
      have "copied_out ?m r (unat dstva + ?c) (unat len - ?c) src (s + ?c) res m'"
        using res(2) chunk_next [OF va, of len] cb(2)
        by (cases "?c < unat len") (simp_all add: copied_out_def)
      from copied_out_chunk [OF cb(2) all _ user_okD(3) [OF ok] this] same
      show ?thesis
        using pa copyout_body_run [OF user_okD(1) [OF ok] True, of src dstva s] res(1)
        by (intro exI [of _ res] exI [of _ m']) (simp add: run_simps fun_eq_iff)
    qed
  qed
qed simp

text \<open>
  C10: In a user address space whose pages are not page-table pages, \<open>copyout\<close> always returns. It returns
  0 exactly if every byte of the range is mapped for user access, and then the user's bytes from
  \<open>dstva\<close> on are the source bytes; otherwise it returns -1. In either case it changes no byte of memory
  outside that range, and no translation.
\<close>

theorem copyout_correct:
  assumes ok: "user_ok k r ps"
  shows "\<exists>res m'. copyout r dstva src len k = Ret res (k\<lparr>mem := m'\<rparr>) \<and>
    (\<forall>j. (\<forall>i < unat len. upa (mem k) r (unat dstva + i) \<noteq> Some j) \<longrightarrow> m' j = mem k j) \<and>
    (\<forall>x. upa m' r x = upa (mem k) r x) \<and> user_ok (k\<lparr>mem := m'\<rparr>) r ps \<and>
    (if \<forall>i < unat len. upa (mem k) r (unat dstva + i) \<noteq> None
     then res = 0 \<and> (\<forall>i < unat len. m' (the (upa m' r (unat dstva + i))) = src i)
     else res = -1)"
proof -
  obtain res m' where r: "copyout r dstva src len k = Ret res (k\<lparr>mem := m'\<rparr>)"
    and c: "copied_out (mem k) r (unat dstva) (unat len) src 0 res m'"
    unfolding copyout_iter using copyout_loop [OF ok, of len "unat len + 1" src dstva 0] by auto
  have fr: "m' j = mem k j" if "t \<in> tables k r \<union> set ps" "j \<in> page_bytes t" for t j
  proof -
    have "upa (mem k) r y \<noteq> Some j" for y using user_okD(2) [OF ok _ that(1)] that(2) by blast
    then show ?thesis using c by (simp add: copied_out_def)
  qed
  have ok': "user_ok (k\<lparr>mem := m'\<rparr>) r ps" and same: "upa m' r y = upa (mem k) r y" for y
    by (rule user_ok_frame [OF ok], rule fr, assumption+)+
  show ?thesis
    using r c ok' same by (intro exI [of _ res] exI [of _ m']) (simp add: copied_out_def)
qed

lemma user_page_ok: "user_ok user_page 0x87ff0000 []"
proof -
  have "0x87fe0000 + x mod 4096 \<notin> page_bytes t" if "t \<in> tables user_page 0x87ff0000 \<union> set []" for x t
  proof -
    have "x mod 4096 < 4096" by simp
    moreover have "t \<in> {0x87ff0000, 0x87ff1000, 0x87ff2000}" using that user_page_wf(3) by auto
    ultimately show ?thesis by (auto simp: page_bytes_def)
  qed
  moreover have "x = y" if "x div 4096 = 4" "y div 4096 = 4" "x mod 4096 = y mod 4096" for x y :: nat
    using that by (metis div_mult_mod_eq)
  moreover have "upa (mem user_page) 0x87ff0000 x = Some p \<longleftrightarrow> x div 4096 = 4 \<and> p = 0x87fe0000 + x mod 4096" for x p
    by (auto simp: user_page_upa)
  ultimately show ?thesis
    unfolding user_ok_def using user_page_wf(1) by (metis add_left_cancel)
qed

theorem copyout_correct_witness:
  "\<exists>m'. copyout 0x87ff0000 0x4008 (\<lambda>i. of_nat (65 + i)) 3 user_page = Ret 0 (user_page\<lparr>mem := m'\<rparr>) \<and>
     m' 0x87fe0009 = 66 \<and> m' 0x87fe000b = mem user_page 0x87fe000b"
proof -
  have d: "(0x4008 + i) div 4096 = 4 \<and> (0x4008 + i) mod 4096 = 8 + i" if "i < 3" for i :: nat
    using that div_nat_eqI [of 4096 4 "0x4008 + i"] mod_less [of "8 + i" 4096] mod_add_left_eq [of "0x4008" 4096 i] by simp
  then have all: "\<forall>i < 3. upa (mem user_page) 0x87ff0000 (0x4008 + i) = Some (0x87fe0008 + i)"
    by (simp add: user_page_upa)
  obtain m' where m': "copyout 0x87ff0000 0x4008 (\<lambda>i. of_nat (65 + i)) 3 user_page = Ret 0 (user_page\<lparr>mem := m'\<rparr>)"
    and fr: "\<forall>j. (\<forall>i < 3. upa (mem user_page) 0x87ff0000 (0x4008 + i) \<noteq> Some j) \<longrightarrow> m' j = mem user_page j"
    and v: "\<forall>i < 3. m' (the (upa m' 0x87ff0000 (0x4008 + i))) = of_nat (65 + i)"
    and s: "\<forall>x. upa m' 0x87ff0000 x = upa (mem user_page) 0x87ff0000 x"
    using copyout_correct [OF user_page_ok, of "0x4008" "\<lambda>i. of_nat (65 + i)" 3] all by auto
  have "m' 0x87fe0009 = 66" using v [rule_format, of 1] s all [rule_format, of 1] by simp
  moreover have "m' 0x87fe000b = mem user_page 0x87fe000b" using fr all by auto
  ultimately show ?thesis using m' by blast
qed

section \<open>copyinstr\<close>

text \<open>The user has a NUL-terminated string of length \<open>l\<close> at address \<open>x\<close>.\<close>

definition ustr :: "bytes \<Rightarrow> u64 \<Rightarrow> nat \<Rightarrow> nat \<Rightarrow> bool" where
  "ustr m r x l \<longleftrightarrow> (\<forall>i \<le> l. upa m r (x + i) \<noteq> None) \<and> (\<forall>i < l. m (the (upa m r (x + i))) \<noteq> 0) \<and>
     m (the (upa m r (x + l))) = 0"

lemma ustr_unique: "ustr m r x l \<Longrightarrow> ustr m r x l' \<Longrightarrow> l = l'"
  unfolding ustr_def by (metis linorder_neqE_nat)

lemma copyinstr_page_nul:
  "l < n \<Longrightarrow> m (p + l) = 0 \<Longrightarrow> (\<forall>i < l. m (p + i) \<noteq> 0) \<Longrightarrow> copyinstr_page m p dst d n = (True, blit dst d m p (Suc l))"
proof (induction n arbitrary: p dst d l)
  case (Suc n)
  show ?case
  proof (cases l)
    case 0
    then have "m p = 0" using Suc.prems(2) by simp
    then show ?thesis using 0 by (auto simp: blit_def fun_eq_iff)
  next
    case (Suc l')
    have "m p \<noteq> 0" using Suc.prems(3) Suc by auto
    moreover have "copyinstr_page m (Suc p) (dst(d := m p)) (Suc d) n = (True, blit (dst(d := m p)) (Suc d) m (Suc p) (Suc l'))"
      using Suc.prems Suc by (intro Suc.IH) auto
    moreover have "blit (dst(d := m p)) (Suc d) m (Suc p) (Suc l') = blit dst d m p (Suc l)"
      by (rule ext) (auto simp: blit_def Suc Suc_diff_Suc)
    ultimately show ?thesis by simp
  qed
qed simp

lemma copyinstr_page_none:
  "(\<forall>i < n. m (p + i) \<noteq> 0) \<Longrightarrow> copyinstr_page m p dst d n = (False, blit dst d m p n)"
proof (induction n arbitrary: p dst d)
  case (Suc n)
  have "m p \<noteq> 0" using Suc.prems [rule_format, of 0] by simp
  moreover have "copyinstr_page m (Suc p) (dst(d := m p)) (Suc d) n = (False, blit (dst(d := m p)) (Suc d) m (Suc p) n)"
    using Suc.prems by (intro Suc.IH) auto
  moreover have "blit (dst(d := m p)) (Suc d) m (Suc p) n = blit dst d m p (Suc n)"
    by (rule ext) (auto simp: blit_def Suc_diff_Suc)
  ultimately show ?case by simp
qed simp

definition copyinstr_body ::
  "u64 \<Rightarrow> u64 \<times> bytes \<times> nat \<times> u64 \<Rightarrow> (kernel, (u64 \<times> bytes \<times> nat \<times> u64) + (int \<times> bytes)) kmon" where
  "copyinstr_body r = (\<lambda>(srcva, dst, d, len).
       if \<not> len > 0 then kret (Inr (-1, dst))
       else
       kbind (walkaddr r (PGROUNDDOWN srcva)) (\<lambda>pa0.
       if pa0 = 0 then kret (Inr (-1, dst))
       else
       kbind (kget mem) (\<lambda>m.
       let (got_null, dst') = copyinstr_page m (unat (pa0 + (srcva - PGROUNDDOWN srcva))) dst d (unat (chunk srcva len)) in
       if got_null then kret (Inr (0, dst'))
       else kret (Inl (PGROUNDDOWN srcva + PGSIZE, dst', d + unat (chunk srcva len), len - chunk srcva len)))))"

lemma copyinstr_iter: "copyinstr r dst srcva len = kiter (unat len + 1) (copyinstr_body r) (srcva, dst, 0, len)"
  unfolding copyinstr_def copyinstr_body_def chunk_def Let_def ..

definition copied_str :: "bytes \<Rightarrow> u64 \<Rightarrow> nat \<Rightarrow> nat \<Rightarrow> bytes \<Rightarrow> nat \<Rightarrow> int \<times> bytes \<Rightarrow> bool" where
  "copied_str m r x n dst d res \<longleftrightarrow>
     (\<forall>j. j < d \<or> d + n \<le> j \<longrightarrow> snd res j = dst j) \<and>
     (fst res = (if \<exists>l < n. ustr m r x l then 0 else -1)) \<and>
     (\<forall>l < n. ustr m r x l \<longrightarrow> (\<forall>i \<le> l. snd res (d + i) = m (the (upa m r (x + i)))))"

lemma ustr_shift:
  assumes "\<And>i. i < c \<Longrightarrow> upa m r (x + i) = Some (p + i) \<and> m (p + i) \<noteq> 0"
  shows "ustr m r x l \<longleftrightarrow> c \<le> l \<and> ustr m r (x + c) (l - c)"
proof (cases "c \<le> l")
  case True
  then obtain e where l: "l = c + e" by (metis le_Suc_ex)
  have lt: "(\<forall>i < c + e. P i) \<longleftrightarrow> (\<forall>i < c. P i) \<and> (\<forall>i < e. P (c + i))" for P
    using all_split [of c "c + e" P] by simp
  have le: "(\<forall>i \<le> c + e. P i) \<longleftrightarrow> (\<forall>i < c. P i) \<and> (\<forall>i \<le> e. P (c + i))" for P
    using all_split [of c "Suc (c + e)" P] by (simp add: less_Suc_eq_le Suc_diff_le)
  show ?thesis
    unfolding ustr_def l le [of "\<lambda>i. upa m r (x + i) \<noteq> None"] lt [of "\<lambda>i. m (the (upa m r (x + i))) \<noteq> 0"]
    using assms by (simp add: add.assoc)
next
  case False
  then show ?thesis using assms [of l] by (auto simp: ustr_def)
qed

lemma copied_str_chunk:
  assumes c: "c \<le> n" and all: "\<And>i. i < c \<Longrightarrow> upa m r (x + i) = Some (p + i) \<and> m (p + i) \<noteq> 0"
    and rest: "copied_str m r (x + c) (n - c) (blit dst d m p c) (d + c) res"
  shows "copied_str m r x n dst d res"
proof -
  have sh: "ustr m r x l \<longleftrightarrow> c \<le> l \<and> ustr m r (x + c) (l - c)" for l
    by (rule ustr_shift) (rule all)
  have fr: "snd res j = blit dst d m p c j" if "j < d + c \<or> d + c + (n - c) \<le> j" for j
    using rest that unfolding copied_str_def by blast
  have out: "snd res j = dst j" if "j < d \<or> d + n \<le> j" for j
    using fr [of j] that c by (auto simp: blit_def)
  have "(\<exists>l < n. ustr m r x l) \<longleftrightarrow> (\<exists>l < n - c. ustr m r (x + c) l)"
  proof
    assume "\<exists>l < n. ustr m r x l"
    then show "\<exists>l < n - c. ustr m r (x + c) l" unfolding sh by (metis diff_less_mono)
  next
    assume "\<exists>l < n - c. ustr m r (x + c) l"
    then obtain l where "l < n - c" "ustr m r (x + c) l" by blast
    then have "c + l < n \<and> ustr m r x (c + l)" unfolding sh by simp
    then show "\<exists>l < n. ustr m r x l" by blast
  qed
  then have "fst res = (if \<exists>l < n. ustr m r x l then 0 else -1)"
    using rest unfolding copied_str_def by simp
  moreover have "snd res (d + i) = m (the (upa m r (x + i)))" if l: "l < n" "ustr m r x l" "i \<le> l" for l i
  proof (cases "i < c")
    case True
    then show ?thesis using fr [of "d + i"] all [OF True] by simp
  next
    case False
    have "l - c < n - c" "ustr m r (x + c) (l - c)" "i - c \<le> l - c"
      using l sh c by (auto simp: diff_less_mono)
    then have "snd res (d + c + (i - c)) = m (the (upa m r (x + c + (i - c))))"
      using rest unfolding copied_str_def by blast
    then show ?thesis using False by simp
  qed
  ultimately show ?thesis unfolding copied_str_def using out by blast
qed

lemma copied_str_here:
  assumes l: "l < n" and all: "\<And>i. i \<le> l \<Longrightarrow> upa m r (x + i) = Some (p + i)" and nul: "m (p + l) = 0"
    and nz: "\<forall>i < l. m (p + i) \<noteq> 0"
  shows "copied_str m r x n dst d (0, blit dst d m p (Suc l))"
proof -
  have u: "ustr m r x l" using all nul nz by (simp add: ustr_def)
  then have "ustr m r x l' \<longleftrightarrow> l' = l" for l' using ustr_unique by blast
  then show ?thesis using l all by (auto simp: copied_str_def blit_def)
qed

lemma copyinstr_loop:
  assumes "pt_wf k r ps" and "unat len < f"
  shows "\<exists>res. kiter f (copyinstr_body r) (srcva, dst, d, len) k = Ret res k \<and>
    copied_str (mem k) r (unat srcva) (unat len) dst d res"
  using assms(2)
proof (induction f arbitrary: srcva dst d len)
  case (Suc f)
  show ?case
  proof (cases "len > 0")
    case False
    then have "len = 0" by (simp add: word_neq_0_conv [symmetric])
    then show ?thesis by (simp add: copyinstr_body_def run_simps copied_str_def)
  next
    case True
    note cb = chunk_bounds [OF True, where va = srcva]
    let ?m = "mem k" and ?pa = "utrans (mem k) r (PGROUNDDOWN srcva)" and ?c = "unat (chunk srcva len)"
    let ?p = "unat (?pa + (srcva - PGROUNDDOWN srcva))"
    note run = copyinstr_body_def walkaddr_run [OF assms(1)] run_simps
    show ?thesis
    proof (cases "?pa = 0")
      case pa: True
      have "upa ?m r (unat srcva + 0) = None" using upa_page [OF cb(4) [OF cb(1)]] pa by simp
      then have "\<not> ustr ?m r (unat srcva) l" for l by (auto simp: ustr_def)
      then have "copied_str ?m r (unat srcva) (unat len) dst d (-1, dst)" by (simp add: copied_str_def)
      then show ?thesis using pa True by (simp add: run)
    next
      case pa: False
      have all: "upa ?m r (unat srcva + i) = Some (?p + i)" if "i < ?c" for i
        using upa_page [OF cb(4) [OF that]] pa by simp
      show ?thesis
      proof (cases "\<exists>l < ?c. ?m (?p + l) = 0")
        case nul: True
        define l where "l = (LEAST l. ?m (?p + l) = 0)"
        have l: "?m (?p + l) = 0" "\<forall>i < l. ?m (?p + i) \<noteq> 0" "l < ?c"
          unfolding l_def using nul by (auto intro: LeastI not_less_Least dest: not_less_Least le_less_trans [OF Least_le])
        then show ?thesis
          using copied_str_here [of l "unat len" ?m r "unat srcva" ?p dst d] all cb(2) pa True
            copyinstr_page_nul [OF l(3,1,2)] by (simp add: run)
      next
        case nz: False
        have va: "srcva < MAXVA" using pa utrans_PGROUNDDOWN(2) by blast
        let ?dst = "blit dst d ?m ?p ?c"
        have "unat (len - chunk srcva len) < f" using Suc.prems cb(1,2,5) by linarith
        from Suc.IH [OF this, of "PGROUNDDOWN srcva + 4096" ?dst "d + ?c"]
        obtain res where res: "kiter f (copyinstr_body r) (PGROUNDDOWN srcva + 4096, ?dst, d + ?c, len - chunk srcva len) k = Ret res k"
          "copied_str ?m r (unat (PGROUNDDOWN srcva + 4096)) (unat len - ?c) ?dst (d + ?c) res"
          by (auto simp: cb(5))
        have "copied_str ?m r (unat srcva + ?c) (unat len - ?c) ?dst (d + ?c) res"
          using res(2) chunk_next [OF va, of len] cb(2)
          by (cases "?c < unat len") (simp_all add: copied_str_def)
        from copied_str_chunk [OF cb(2) _ this] all nz show ?thesis
          using pa True res(1) copyinstr_page_none [of ?c ?m ?p dst d] by (simp add: run)
      qed
    qed
  qed
qed simp

text \<open>
  C11: \<open>copyinstr\<close> always returns without changing the kernel state. It returns 0 exactly if the user has
  a mapped NUL-terminated string of fewer than \<open>max\<close> bytes at \<open>srcva\<close>, and then has delivered that
  string with its NUL; otherwise it returns -1. It never writes at or beyond index \<open>max\<close>.
\<close>

theorem copyinstr_correct:
  assumes "pt_wf k r ps"
  shows "\<exists>res dst'. copyinstr r dst srcva maxlen k = Ret (res, dst') k \<and>
    (\<forall>j \<ge> unat maxlen. dst' j = dst j) \<and>
    res = (if \<exists>l < unat maxlen. ustr (mem k) r (unat srcva) l then 0 else -1) \<and>
    (\<forall>l < unat maxlen. ustr (mem k) r (unat srcva) l \<longrightarrow>
       (\<forall>i < l. dst' i = mem k (the (upa (mem k) r (unat srcva + i))) \<and> dst' i \<noteq> 0) \<and> dst' l = 0)"
proof -
  obtain res where r: "copyinstr r dst srcva maxlen k = Ret res k"
    and c: "copied_str (mem k) r (unat srcva) (unat maxlen) dst 0 res"
    unfolding copyinstr_iter using copyinstr_loop [OF assms, of maxlen "unat maxlen + 1" srcva dst 0] by auto
  obtain a b where res: "res = (a, b)" by (cases res)
  have "b i \<noteq> 0 \<and> b l = 0" if "l < unat maxlen" "ustr (mem k) r (unat srcva) l" "i < l" for l i
    using c that unfolding copied_str_def res by (metis add_0 less_imp_le order_refl snd_conv ustr_def)
  with r c show ?thesis
    unfolding copied_str_def res by (intro exI [of _ a] exI [of _ b]) (auto simp: ustr_def)
qed

theorem copyinstr_correct_witness:
  "(\<exists>dst'. copyinstr 0x87ff0000 (\<lambda>_. 7) 0x4000 16 user_page = Ret (0, dst') user_page \<and> dst' 0 = 0) \<and>
   (\<exists>dst'. copyinstr 0x87ff0000 (\<lambda>_. 7) 0x9000 16 user_page = Ret (-1, dst') user_page \<and> dst' 16 = 7)"
proof -
  have "\<not> ustr (mem user_page) 0x87ff0000 0x9000 l" for l
    by (auto simp: ustr_def user_page_upa intro!: exI [of _ 0])
  moreover have "mem user_page 0x87fe0000 = 0"
    by (simp add: user_page_def Let_def alloc_table_def new_table_def ent_def st64_other fill_out
        three_pages_def boot_kernel_def)
  then have "ustr (mem user_page) 0x87ff0000 0x4000 0" by (simp add: ustr_def user_page_upa)
  moreover have "(0 :: nat) < 16" by simp
  ultimately show ?thesis
    using copyinstr_correct [OF user_page_wf(1), of "\<lambda>_. 7" "0x4000" 16]
      copyinstr_correct [OF user_page_wf(1), of "\<lambda>_. 7" "0x9000" 16]
    by (auto split: if_splits)
qed

end
