(* ===== verification/Proc.thy ===== *)
theory Proc
  imports UserMem
begin

text \<open>
  Processes (\<open>kernel/proc.c\<close>), the part that does not involve the file system: process identifiers,
  allocation and release of process slots, growing and shrinking of memory, the scheduler and
  \<open>sched\<close>, \<open>sleep\<close> and \<open>wakeup\<close>, \<open>kill\<close>, \<open>wait\<close>, and the copy functions that accept user or kernel
  addresses. \<open>fork\<close>, \<open>exit\<close>, \<open>userinit\<close> and \<open>forkret\<close> are in theory Process.
\<close>

section \<open>The current process\<close>

text \<open>
  Code that dereferences \<open>myproc()\<close> needs a current process; dereferencing a null pointer in the kernel
  is a page fault, for which \<open>kerneltrap\<close> panics.
\<close>

definition cur_proc :: "(kernel, nat) kmon" where
  "cur_proc = kbind (on_mach myproc) (\<lambda>p. case p of None \<Rightarrow> kpanic ''kerneltrap'' | Some i \<Rightarrow> kret i)"

definition get_proc :: "nat \<Rightarrow> (kernel, proc) kmon" where
  "get_proc i = kget (\<lambda>k. proc k i)"

text \<open>A field of the trap frame of process \<open>i\<close>.\<close>

definition get_tf :: "nat \<Rightarrow> nat \<Rightarrow> (kernel, u64) kmon" where
  "get_tf i off = kget (\<lambda>k. ld64 (mem k) (unat (p_trapframe (proc k i)) + off))"

definition set_tf :: "nat \<Rightarrow> nat \<Rightarrow> u64 \<Rightarrow> (kernel, unit) kmon" where
  "set_tf i off v = kmod (\<lambda>k. k\<lparr>mem := st64 (mem k) (unat (p_trapframe (proc k i)) + off) v\<rparr>)"

section \<open>Process slots\<close>

definition procinit :: "(kernel, unit) kmon" where
  "procinit = kseq [
     on_mach (initlock PID_LOCK ''nextpid''),
     on_mach (initlock WAIT_LOCK ''wait_lock''),
     kfor [0..<NPROC] (\<lambda>p. kseq [
       on_mach (initlock (PROC_LOCK p) ''proc''),
       upd_proc p (\<lambda>x. x\<lparr>p_kstack := KSTACK p\<rparr>)])]"

definition allocpid :: "(kernel, int) kmon" where
  "allocpid =
     kbind (on_mach (acquire PID_LOCK)) (\<lambda>_.
     kbind (kget nextpid) (\<lambda>pid.
     kbind (kmod (\<lambda>k. k\<lparr>nextpid := nextpid k + 1\<rparr>)) (\<lambda>_.
     kbind (on_mach (release PID_LOCK)) (\<lambda>_.
     kret pid))))"

definition proc_pagetable :: "nat \<Rightarrow> (kernel, u64) kmon" where
  "proc_pagetable p =
     kbind uvmcreate (\<lambda>pagetable.
     if pagetable = 0 then kret 0
     else
     kbind (kget (\<lambda>k. sym_trampoline (syms k))) (\<lambda>trampoline.
     kbind (mappages pagetable TRAMPOLINE PGSIZE trampoline (PTE_R OR PTE_X)) (\<lambda>r.
     if r < 0 then kbind (uvmfree pagetable 0) (\<lambda>_. kret 0)
     else
     kbind (get_proc p) (\<lambda>pr.
     kbind (mappages pagetable TRAPFRAME PGSIZE (p_trapframe pr) (PTE_R OR PTE_W)) (\<lambda>r.
     if r < 0 then
       kbind (uvmunmap pagetable TRAMPOLINE 1 False) (\<lambda>_.
       kbind (uvmfree pagetable 0) (\<lambda>_. kret 0))
     else kret pagetable)))))"

definition proc_freepagetable :: "u64 \<Rightarrow> u64 \<Rightarrow> (kernel, unit) kmon" where
  "proc_freepagetable pagetable sz = kseq [
     uvmunmap pagetable TRAMPOLINE 1 False,
     uvmunmap pagetable TRAPFRAME 1 False,
     uvmfree pagetable sz]"

definition freeproc :: "nat \<Rightarrow> (kernel, unit) kmon" where
  "freeproc p =
     kbind (get_proc p) (\<lambda>pr.
     kbind (kwhen (p_trapframe pr \<noteq> 0) (kfree (p_trapframe pr))) (\<lambda>_.
     kbind (upd_proc p (\<lambda>x. x\<lparr>p_trapframe := 0\<rparr>)) (\<lambda>_.
     kbind (kwhen (p_pagetable pr \<noteq> 0) (proc_freepagetable (p_pagetable pr) (p_sz pr))) (\<lambda>_.
     upd_proc p (\<lambda>x. x\<lparr>p_pagetable := 0, p_sz := 0, p_pid := 0, p_parent := None,
       p_name := (p_name x)(0 := 0), p_chan := None, p_killed := False, p_xstate := 0,
       p_state := UNUSED\<rparr>)))))"

definition allocproc :: "(kernel, nat option) kmon" where
  "allocproc =
     kbind (kfind [0..<NPROC] (\<lambda>p.
       kbind (on_mach (acquire (PROC_LOCK p))) (\<lambda>_.
       kbind (get_proc p) (\<lambda>pr.
       if p_state pr = UNUSED then kret (Some p)
       else kbind (on_mach (release (PROC_LOCK p))) (\<lambda>_. kret None))))) (\<lambda>found.
     case found of
       None \<Rightarrow> kret None
     | Some p \<Rightarrow>
         kbind allocpid (\<lambda>pid.
         kbind (upd_proc p (\<lambda>x. x\<lparr>p_pid := pid, p_state := USED\<rparr>)) (\<lambda>_.
         kbind kalloc (\<lambda>tf.
         kbind (upd_proc p (\<lambda>x. x\<lparr>p_trapframe := tf\<rparr>)) (\<lambda>_.
         if tf = 0 then
           kbind (freeproc p) (\<lambda>_.
           kbind (on_mach (release (PROC_LOCK p))) (\<lambda>_. kret None))
         else
         kbind (proc_pagetable p) (\<lambda>pt.
         kbind (upd_proc p (\<lambda>x. x\<lparr>p_pagetable := pt\<rparr>)) (\<lambda>_.
         if pt = 0 then
           kbind (freeproc p) (\<lambda>_.
           kbind (on_mach (release (PROC_LOCK p))) (\<lambda>_. kret None))
         else
         kbind (kget (\<lambda>k. sym_forkret (syms k))) (\<lambda>forkret.
         kbind (upd_proc p (\<lambda>x. x\<lparr>p_context :=
           zero_context\<lparr>ctx_ra := forkret, ctx_sp := p_kstack x + PGSIZE\<rparr>\<rparr>)) (\<lambda>_.
         kret (Some p))))))))))"

text \<open>\<open>sz\<close> is a 32-bit \<open>uint\<close> in \<open>growproc\<close>, so that \<open>sz + n\<close> is computed modulo \<open>2^32\<close>.\<close>

definition growproc :: "int \<Rightarrow> (kernel, int) kmon" where
  "growproc n =
     kbind cur_proc (\<lambda>p.
     kbind (get_proc p) (\<lambda>pr.
     let sz = (ucast (p_sz pr) :: u32); new = sz + of_int n in
     if n > 0 then
       kbind (uvmalloc (p_pagetable pr) (ucast sz) (ucast new)) (\<lambda>r.
       let sz = (ucast r :: u32) in
       if sz = 0 then kret (-1)
       else kbind (upd_proc p (\<lambda>x. x\<lparr>p_sz := ucast sz\<rparr>)) (\<lambda>_. kret 0))
     else if n < 0 then
       kbind (uvmdealloc (p_pagetable pr) (ucast sz) (ucast new)) (\<lambda>r.
       kbind (upd_proc p (\<lambda>x. x\<lparr>p_sz := ucast (ucast r :: u32)\<rparr>)) (\<lambda>_. kret 0))
     else kbind (upd_proc p (\<lambda>x. x\<lparr>p_sz := ucast sz\<rparr>)) (\<lambda>_. kret 0)))"

section \<open>Giving up the CPU\<close>

definition sched :: "(world, unit) kmon" where
  "sched =
     kbind (atom cur_proc) (\<lambda>p.
     kbind (atom (on_mach (holding (PROC_LOCK p)))) (\<lambda>h.
     if \<not> h then kpanic ''sched p->lock''
     else
     kbind (atom (on_mach (kbind mycpu get_cpu))) (\<lambda>c.
     if noff c \<noteq> 1 then kpanic ''sched locks''
     else
     kbind (atom (get_proc p)) (\<lambda>pr.
     if p_state pr = RUNNING then kpanic ''sched running''
     else
     kbind (atom (on_mach intr_get)) (\<lambda>on.
     if on then kpanic ''sched interruptible''
     else
     kbind (atom (on_mach (kbind mycpu get_cpu))) (\<lambda>c.
     kbind swtch (\<lambda>_.
     atom (on_mach (kbind mycpu (\<lambda>id. upd_cpu id (\<lambda>x. x\<lparr>intena := intena c\<rparr>)))))))))))"

definition yield :: "(world, unit) kmon" where
  "yield =
     kbind (atom cur_proc) (\<lambda>p. kseq [
       atom (on_mach (acquire (PROC_LOCK p))),
       atom (upd_proc p (\<lambda>x. x\<lparr>p_state := RUNNABLE\<rparr>)),
       sched,
       atom (on_mach (release (PROC_LOCK p)))])"

definition sleep :: "chan \<Rightarrow> lockid \<Rightarrow> (world, unit) kmon" where
  "sleep ch lk =
     kbind (atom cur_proc) (\<lambda>p. kseq [
       atom (on_mach (acquire (PROC_LOCK p))),
       atom (on_mach (release lk)),
       atom (upd_proc p (\<lambda>x. x\<lparr>p_chan := Some ch\<rparr>)),
       atom (upd_proc p (\<lambda>x. x\<lparr>p_state := SLEEPING\<rparr>)),
       sched,
       atom (upd_proc p (\<lambda>x. x\<lparr>p_chan := None\<rparr>)),
       atom (on_mach (release (PROC_LOCK p))),
       atom (on_mach (acquire lk))])"

definition wakeup :: "chan \<Rightarrow> (kernel, unit) kmon" where
  "wakeup ch =
     kfor [0..<NPROC] (\<lambda>p.
       kbind (on_mach myproc) (\<lambda>me.
       kwhen (Some p \<noteq> me) (kseq [
         on_mach (acquire (PROC_LOCK p)),
         kbind (get_proc p) (\<lambda>pr.
         kwhen (p_state pr = SLEEPING \<and> p_chan pr = Some ch)
           (upd_proc p (\<lambda>x. x\<lparr>p_state := RUNNABLE\<rparr>))),
         on_mach (release (PROC_LOCK p))])))"

text \<open>
  One round of the scheduler's endless loop over the process table, on its own CPU's thread; a
  resumption here is the chosen process running until it switches back.
\<close>

definition scheduler_round :: "nat \<Rightarrow> (world, unit) kmon" where
  "scheduler_round c =
     kbind (atom (on_mach intr_on)) (\<lambda>_.
     kfor [0..<NPROC] (\<lambda>p.
       kbind (atom (on_mach (acquire (PROC_LOCK p)))) (\<lambda>_.
       kbind (atom (get_proc p)) (\<lambda>pr.
       kbind (kwhen (p_state pr = RUNNABLE) (kseq [
         atom (upd_proc p (\<lambda>x. x\<lparr>p_state := RUNNING\<rparr>)),
         atom (on_mach (upd_cpu c (\<lambda>x. x\<lparr>cpu_proc := Some p\<rparr>))),
         swtch,
         atom (on_mach (upd_cpu c (\<lambda>x. x\<lparr>cpu_proc := None\<rparr>)))])) (\<lambda>_.
       atom (on_mach (release (PROC_LOCK p))))))))"

fun scheduler_loop :: "nat \<Rightarrow> nat \<Rightarrow> (world, unit) kmon" where
  "scheduler_loop 0 c = khang"
| "scheduler_loop (Suc n) c = kbind (scheduler_round c) (\<lambda>_. scheduler_loop n c)"

definition scheduler :: "nat \<Rightarrow> (world, unit) kmon" where
  "scheduler n =
     kbind (atom (on_mach mycpu)) (\<lambda>c.
     kbind (atom (on_mach (upd_cpu c (\<lambda>x. x\<lparr>cpu_proc := None\<rparr>)))) (\<lambda>_.
     scheduler_loop n c))"

section \<open>Killing and waiting\<close>

definition kill :: "int \<Rightarrow> (kernel, int) kmon" where
  "kill pid =
     kbind (kfind [0..<NPROC] (\<lambda>p.
       kbind (on_mach (acquire (PROC_LOCK p))) (\<lambda>_.
       kbind (get_proc p) (\<lambda>pr.
       if p_pid pr = pid then
         kbind (upd_proc p (\<lambda>x. x\<lparr>p_killed := True\<rparr>)) (\<lambda>_.
         kbind (kwhen (p_state pr = SLEEPING) (upd_proc p (\<lambda>x. x\<lparr>p_state := RUNNABLE\<rparr>))) (\<lambda>_.
         kbind (on_mach (release (PROC_LOCK p))) (\<lambda>_.
         kret (Some 0))))
       else
         kbind (on_mach (release (PROC_LOCK p))) (\<lambda>_. kret None))))) (\<lambda>r.
     case r of Some v \<Rightarrow> kret v | None \<Rightarrow> kret (-1))"

definition reparent :: "nat \<Rightarrow> (kernel, unit) kmon" where
  "reparent p =
     kfor [0..<NPROC] (\<lambda>pp.
       kbind (get_proc pp) (\<lambda>pr.
       kwhen (p_parent pr = Some p)
         (kbind (kget initproc) (\<lambda>ip. kseq [
           upd_proc pp (\<lambda>x. x\<lparr>p_parent := ip\<rparr>),
           (case ip of None \<Rightarrow> kret () | Some i \<Rightarrow> wakeup (CH_PROC i))]))))"

text \<open>
  The scan of \<open>wait\<close> over the process table: it ends at the first zombie child, with the value that
  \<open>wait\<close> returns, and otherwise reports whether there are children.
\<close>

fun wait_scan :: "nat \<Rightarrow> u64 \<Rightarrow> nat list \<Rightarrow> bool \<Rightarrow> (kernel, bool \<times> int option) kmon" where
  "wait_scan p addr [] havekids = kret (havekids, None)"
| "wait_scan p addr (np # nps) havekids =
     kbind (get_proc np) (\<lambda>npr.
     if p_parent npr \<noteq> Some p then wait_scan p addr nps havekids
     else
     kbind (on_mach (acquire (PROC_LOCK np))) (\<lambda>_.
     kbind (get_proc np) (\<lambda>npr.
     if p_state npr = ZOMBIE then
       kbind (get_proc p) (\<lambda>pr.
       kbind (if addr \<noteq> 0
              then copyout (p_pagetable pr) addr (st32 (\<lambda>_. 0) 0 (of_int (p_xstate npr))) 4
              else kret 0) (\<lambda>r.
       if addr \<noteq> 0 \<and> r < 0 then
         kbind (on_mach (release (PROC_LOCK np))) (\<lambda>_.
         kbind (on_mach (release WAIT_LOCK)) (\<lambda>_.
         kret (True, Some (-1))))
       else
         kbind (freeproc np) (\<lambda>_.
         kbind (on_mach (release (PROC_LOCK np))) (\<lambda>_.
         kbind (on_mach (release WAIT_LOCK)) (\<lambda>_.
         kret (True, Some (p_pid npr)))))))
     else
       kbind (on_mach (release (PROC_LOCK np))) (\<lambda>_.
       wait_scan p addr nps True))))"

definition wait :: "u64 \<Rightarrow> (world, int) kmon" where
  "wait addr =
     kbind (atom cur_proc) (\<lambda>p.
     kbind (atom (on_mach (acquire WAIT_LOCK))) (\<lambda>_.
     kbind (kget resumptions) (\<lambda>n.
     kiter (n + 1) (\<lambda>_.
       kbind (atom (wait_scan p addr [0..<NPROC] False)) (\<lambda>(havekids, res).
       case res of
         Some v \<Rightarrow> kret (Inr v)
       | None \<Rightarrow>
           kbind (atom (get_proc p)) (\<lambda>pr.
           if \<not> havekids \<or> p_killed pr then
             kbind (atom (on_mach (release WAIT_LOCK))) (\<lambda>_. kret (Inr (-1)))
           else
             kbind (sleep (CH_PROC p) WAIT_LOCK) (\<lambda>_. kret (Inl ()))))) ())))"

section \<open>Copying to and from user or kernel addresses\<close>

text \<open>
  The destination of \<open>either_copyout\<close> and the source of \<open>either_copyin\<close>: a user virtual address, a
  kernel address in physical memory, or an offset into a local variable of the caller, whose bytes
  are then passed and returned.
\<close>

datatype kptr = UserP u64 | KernP u64 | LocalP nat

definition either_copyout :: "kptr \<Rightarrow> bytes \<Rightarrow> bytes \<Rightarrow> u64 \<Rightarrow> (kernel, int \<times> bytes) kmon" where
  "either_copyout dst lbuf src len =
     kbind (on_mach myproc) (\<lambda>me.
     case dst of
       UserP va \<Rightarrow>
         (case me of
            None \<Rightarrow> kpanic ''kerneltrap''
          | Some p \<Rightarrow>
              kbind (get_proc p) (\<lambda>pr.
              kbind (copyout (p_pagetable pr) va src len) (\<lambda>r. kret (r, lbuf))))
     | KernP pa \<Rightarrow>
         kbind (upd_mem (\<lambda>m. memmove_from m (unat pa) src 0 (ucast len))) (\<lambda>_. kret (0, lbuf))
     | LocalP o1 \<Rightarrow> kret (0, memmove_from lbuf o1 src 0 (ucast len)))"

definition either_copyin :: "bytes \<Rightarrow> nat \<Rightarrow> kptr \<Rightarrow> bytes \<Rightarrow> u64 \<Rightarrow> (kernel, int \<times> bytes) kmon" where
  "either_copyin dst d src lbuf len =
     kbind (on_mach myproc) (\<lambda>me.
     case src of
       UserP va \<Rightarrow>
         (case me of
            None \<Rightarrow> kpanic ''kerneltrap''
          | Some p \<Rightarrow>
              kbind (get_proc p) (\<lambda>pr. copyin (p_pagetable pr) dst d va len))
     | KernP pa \<Rightarrow>
         kbind (kget mem) (\<lambda>m. kret (0, memmove_from dst d m (unat pa) (ucast len)))
     | LocalP o1 \<Rightarrow> kret (0, memmove_from dst d lbuf o1 (ucast len)))"

text \<open>A pointer advanced by \<open>n\<close> bytes.\<close>

definition kptr_add :: "kptr \<Rightarrow> u64 \<Rightarrow> kptr" where
  "kptr_add p n = (case p of UserP a \<Rightarrow> UserP (a + n) | KernP a \<Rightarrow> KernP (a + n) | LocalP o1 \<Rightarrow> LocalP (o1 + unat n))"

section \<open>Closed forms\<close>

lemma cur_proc_run [run_simps]:
  "curproc (mach k) = Some p \<Longrightarrow> cur_proc k = Ret p (k\<lparr>mach := ppm (mach k)\<rparr>)"
  by (simp add: cur_proc_def run_simps)

lemma get_proc_run [run_simps]: "get_proc i k = Ret (proc k i) k"
  by (simp add: get_proc_def run_simps)

text \<open>The effect of \<open>wakeup\<close> on one process.\<close>

definition wake :: "chan \<Rightarrow> proc \<Rightarrow> proc" where
  "wake ch pr = (if p_state pr = SLEEPING \<and> p_chan pr = Some ch then pr\<lparr>p_state := RUNNABLE\<rparr> else pr)"

lemma wake_idem [simp]: "wake ch (wake ch pr) = wake ch pr"
  by (simp add: wake_def)

definition wakeup_body :: "chan \<Rightarrow> nat \<Rightarrow> (kernel, unit) kmon" where
  "wakeup_body ch p =
       kbind (on_mach myproc) (\<lambda>me.
       kwhen (Some p \<noteq> me) (kseq [
         on_mach (acquire (PROC_LOCK p)),
         kbind (get_proc p) (\<lambda>pr.
         kwhen (p_state pr = SLEEPING \<and> p_chan pr = Some ch)
           (upd_proc p (\<lambda>x. x\<lparr>p_state := RUNNABLE\<rparr>))),
         on_mach (release (PROC_LOCK p))]))"

lemma wakeup_body_run:
  assumes "Some p \<noteq> curproc (mach k) \<Longrightarrow> free_lock (PROC_LOCK p) (mach k)"
  shows "wakeup_body ch p k = Ret () (k\<lparr>mach := ppm (mach k),
     proc := (proc k)(p := if Some p = curproc (mach k) then proc k p else wake ch (proc k p))\<rparr>)"
  using assms by (simp add: wakeup_body_def run_simps wake_def)

lemma wakeup_loop:
  assumes "\<And>p. p \<in> set ps \<Longrightarrow> Some p \<noteq> curproc (mach k) \<Longrightarrow> free_lock (PROC_LOCK p) (mach k)" and "ps \<noteq> []"
  shows "kfor ps (wakeup_body ch) k = Ret () (k\<lparr>mach := ppm (mach k),
     proc := (\<lambda>p. if p \<in> set ps \<and> Some p \<noteq> curproc (mach k) then wake ch (proc k p) else proc k p)\<rparr>)"
  using assms
proof (induction ps arbitrary: k)
  case (Cons p ps)
  let ?k = "k\<lparr>mach := ppm (mach k),
     proc := (proc k)(p := if Some p = curproc (mach k) then proc k p else wake ch (proc k p))\<rparr>"
  have 1: "wakeup_body ch p k = Ret () ?k"
    using Cons.prems(1) [of p] by (intro wakeup_body_run) simp
  show ?case
  proof (cases "ps = []")
    case True
    then show ?thesis using 1 by (auto simp: run_simps fun_eq_iff)
  next
    case False
    have "kfor ps (wakeup_body ch) ?k = Ret () (?k\<lparr>mach := ppm (mach ?k),
        proc := (\<lambda>p. if p \<in> set ps \<and> Some p \<noteq> curproc (mach ?k) then wake ch (proc ?k p) else proc ?k p)\<rparr>)"
      using Cons.prems(1) False by (intro Cons.IH) auto
    moreover have "?k\<lparr>mach := ppm (mach ?k),
        proc := (\<lambda>p. if p \<in> set ps \<and> Some p \<noteq> curproc (mach ?k) then wake ch (proc ?k p) else proc ?k p)\<rparr> =
      k\<lparr>mach := ppm (mach k),
        proc := (\<lambda>q. if q \<in> set (p # ps) \<and> Some q \<noteq> curproc (mach k) then wake ch (proc k q) else proc k q)\<rparr>"
      by (auto simp: fun_eq_iff)
    ultimately show ?thesis using 1 by (simp add: run_simps)
  qed
qed simp

lemma wakeup_kfor: "wakeup ch = kfor [0..<NPROC] (wakeup_body ch)"
  by (simp only: wakeup_def wakeup_body_def [abs_def])

text \<open>The effect of \<open>wakeup\<close> on the process table: all sleepers but the caller \<open>me\<close> become runnable.\<close>

definition wake_procs :: "nat option \<Rightarrow> chan \<Rightarrow> (nat \<Rightarrow> proc) \<Rightarrow> nat \<Rightarrow> proc" where
  "wake_procs me ch tab = (\<lambda>p. if p < NPROC \<and> Some p \<noteq> me then wake ch (tab p) else tab p)"

lemma wakeup_run [run_simps]:
  assumes "\<forall>p < NPROC. Some p \<noteq> curproc (mach k) \<longrightarrow> free_lock (PROC_LOCK p) (mach k)"
  shows "wakeup ch k = Ret () (k\<lparr>mach := ppm (mach k), proc := wake_procs (curproc (mach k)) ch (proc k)\<rparr>)"
  using assms unfolding wakeup_kfor wake_procs_def by (subst wakeup_loop) auto

text \<open>A thread of process \<open>p\<close> at a moment when no spin lock is taken.\<close>

definition quiet :: "nat \<Rightarrow> mach \<Rightarrow> bool" where
  "quiet p m \<longleftrightarrow> (\<forall>lk. free_lock lk m) \<and> depth m = 0 \<and> curproc m = Some p"

lemma quietD: "quiet p m \<Longrightarrow> free_lock lk m" "quiet p m \<Longrightarrow> depth m = 0" "quiet p m \<Longrightarrow> curproc m = Some p"
  by (simp_all add: quiet_def)

lemma quiet_ppm [simp]: "quiet p (ppm m) = quiet p m"
  by (simp add: quiet_def)

section \<open>Killing\<close>

definition kill_body :: "int \<Rightarrow> nat \<Rightarrow> (kernel, int option) kmon" where
  "kill_body pid p =
       kbind (on_mach (acquire (PROC_LOCK p))) (\<lambda>_.
       kbind (get_proc p) (\<lambda>pr.
       if p_pid pr = pid then
         kbind (upd_proc p (\<lambda>x. x\<lparr>p_killed := True\<rparr>)) (\<lambda>_.
         kbind (kwhen (p_state pr = SLEEPING) (upd_proc p (\<lambda>x. x\<lparr>p_state := RUNNABLE\<rparr>))) (\<lambda>_.
         kbind (on_mach (release (PROC_LOCK p))) (\<lambda>_.
         kret (Some 0))))
       else
         kbind (on_mach (release (PROC_LOCK p))) (\<lambda>_. kret None)))"

lemma kill_kfind: "kill pid = kbind (kfind [0..<NPROC] (kill_body pid)) (\<lambda>r. case r of Some v \<Rightarrow> kret v | None \<Rightarrow> kret (-1))"
  by (simp only: kill_def kill_body_def [abs_def])

text \<open>The process after \<open>kill\<close>.\<close>

definition killed_proc :: "proc \<Rightarrow> proc" where
  "killed_proc x = x\<lparr>p_killed := True, p_state := (if p_state x = SLEEPING then RUNNABLE else p_state x)\<rparr>"

lemma kill_body_run:
  assumes "free_lock (PROC_LOCK p) (mach k)"
  shows "kill_body pid p k = (if p_pid (proc k p) = pid
    then Ret (Some 0) (k\<lparr>proc := (proc k)(p := killed_proc (proc k p)), mach := ppm (mach k)\<rparr>)
    else Ret None (k\<lparr>mach := ppm (mach k)\<rparr>))"
  using assms by (simp add: kill_body_def run_simps killed_proc_def)

lemma kill_loop:
  assumes "\<forall>p. free_lock (PROC_LOCK p) (mach k)" and "ps \<noteq> []"
  shows "kfind ps (kill_body pid) k = (case find (\<lambda>p. p_pid (proc k p) = pid) ps of
      Some p \<Rightarrow> Ret (Some 0) (k\<lparr>proc := (proc k)(p := killed_proc (proc k p)), mach := ppm (mach k)\<rparr>)
    | None \<Rightarrow> Ret None (k\<lparr>mach := ppm (mach k)\<rparr>))"
  using assms
proof (induction ps arbitrary: k)
  case (Cons p ps)
  show ?case
  proof (cases "p_pid (proc k p) = pid \<or> ps = []")
    case True
    then show ?thesis using Cons.prems(1) by (auto simp: run_simps kill_body_run)
  next
    case False
    then show ?thesis using Cons.prems Cons.IH [of "k\<lparr>mach := ppm (mach k)\<rparr>"]
      by (simp add: run_simps kill_body_run split: option.split)
  qed
qed simp

text \<open>
  C37: \<open>kill\<close> marks exactly one process, the first in the table with the given pid: it sets its \<open>killed\<close>
  flag, makes it runnable if it sleeps (in whatever call), and returns 0; without such a process it
  changes no process and returns -1. No lock stays taken and nothing else of the kernel changes.
\<close>

theorem kill_marks_first:
  assumes "\<forall>p. free_lock (PROC_LOCK p) (mach k)"
  shows "kill pid k = (case find (\<lambda>p. p_pid (proc k p) = pid) [0..<NPROC] of
      Some p \<Rightarrow> Ret 0 (k\<lparr>proc := (proc k)(p := killed_proc (proc k p)), mach := ppm (mach k)\<rparr>)
    | None \<Rightarrow> Ret (-1) (k\<lparr>mach := ppm (mach k)\<rparr>))"
proof -
  have "[0..<NPROC] \<noteq> []" by simp
  from kill_loop [OF assms this] show ?thesis
    unfolding kill_kfind kbind_run
    by (cases "find (\<lambda>p. p_pid (proc k p) = pid) [0..<NPROC]") (simp_all only: option.case outcome.case kret_run)
qed

text \<open>Memory management does not touch the process table.\<close>

lemma keeps_proc [keeps_rules]:
  "keeps proc (on_mach m)" "keeps proc (upd_mem f)" "keeps proc kalloc" "keeps proc (kfree pa)"
  "keeps proc (ld_pte a)" "keeps proc (st_pte a v)" "keeps proc (get_proc p)"
  unfolding on_mach_def upd_mem_def kalloc_def kfree_def ld_pte_def st_pte_def get_proc_def Let_def
  by (intro keeps_rules | simp)+

lemma keeps_proc_walk [keeps_rules]: "keeps proc (walk_levels l r va al)"
  by (induction l arbitrary: r al) (auto intro!: keeps_rules simp: Let_def)

lemma keeps_proc_freewalk [keeps_rules]: "keeps proc (freewalk_depth d r)"
  by (induction d arbitrary: r) (auto intro!: keeps_rules simp: Let_def)

lemma keeps_proc_vm [keeps_rules]:
  "keeps proc (walk r va al)" "keeps proc (mappages r va sz pa perm)" "keeps proc (uvmunmap r va n fr)" "keeps proc uvmcreate"
  unfolding walk_def mappages_def uvmunmap_def uvmcreate_def Let_def by (intro keeps_rules | simp split: prod.split)+

lemma keeps_proc_pagetable [keeps_rules]: "keeps proc (uvmfree r sz)" "keeps proc (proc_pagetable p)"
  unfolding uvmfree_def freewalk_def proc_pagetable_def by (intro keeps_rules)+

section \<open>Sleeping\<close>

text \<open>
  A thread of process \<open>p\<close> that holds exactly the lock \<open>lk\<close>, which it acquired in the machine state \<open>m\<close>.
\<close>

definition in_section :: "nat \<Rightarrow> lockid \<Rightarrow> mach \<Rightarrow> kernel \<Rightarrow> bool" where
  "in_section p lk m k \<longleftrightarrow> mach k = acqm lk m \<and> free_lock lk m \<and> depth m = 0 \<and> curproc m = Some p"

text \<open>The state in which \<open>sleep\<close> gives the CPU away.\<close>

definition asleep :: "nat \<Rightarrow> chan \<Rightarrow> mach \<Rightarrow> kernel \<Rightarrow> kernel" where
  "asleep p ch m k = k\<lparr>proc := (proc k)(p := (proc k p)\<lparr>p_chan := Some ch, p_state := SLEEPING\<rparr>),
     mach := acqm (PROC_LOCK p) m\<rparr>"

definition set_intena :: "bool \<Rightarrow> mach \<Rightarrow> mach" where
  "set_intena b m = m\<lparr>cpus := (cpus m)(curcpu m := (cpus m (curcpu m))\<lparr>intena := b\<rparr>)\<rparr>"

text \<open>The part of \<open>sleep\<close> before the thread gives the CPU away.\<close>

lemma sleep_until_swtch:
  assumes "in_section p lk m k" and "free_lock (PROC_LOCK p) m" and "lk \<noteq> PROC_LOCK p"
  shows "sleep ch lk (k, rs) = (case swtch (asleep p ch m k, rs) of
      Ret _ w \<Rightarrow> kseq [
        atom (on_mach (kbind mycpu (\<lambda>id. upd_cpu id (\<lambda>x. x\<lparr>intena := intena (cpus (acqm (PROC_LOCK p) m) (curcpu m))\<rparr>)))),
        atom (upd_proc p (\<lambda>x. x\<lparr>p_chan := None\<rparr>)),
        atom (on_mach (release (PROC_LOCK p))),
        atom (on_mach (acquire lk))] w
    | Panic e w \<Rightarrow> Panic e w | Switch w \<Rightarrow> Switch w | Hang w \<Rightarrow> Hang w)"
proof -
  have noff: "noff (cpus (acqm (PROC_LOCK p) m) (curcpu m)) = 1"
    using assms(1) acqm_fields(2,3) [of "PROC_LOCK p" m] unfolding depth_def in_section_def by simp
  show ?thesis
    using assms noff
    by (cases rs) (simp_all add: sleep_def sched_def asleep_def in_section_def run_simps)
qed

lemma sleep_switch:
  assumes "in_section p lk m k" and "free_lock (PROC_LOCK p) m" and "lk \<noteq> PROC_LOCK p"
  shows "sleep ch lk (k, []) = Switch (asleep p ch m k, [])"
  by (simp add: sleep_until_swtch [OF assms] run_simps)

text \<open>
  What the scheduler guarantees to a thread it resumes: it runs again, on some CPU, holding its
  process lock and no other.
\<close>

definition resumed :: "nat \<Rightarrow> mach \<Rightarrow> kernel \<Rightarrow> bool" where
  "resumed p m k \<longleftrightarrow> in_section p (PROC_LOCK p) m k"

lemma curproc_locks: "curproc (m\<lparr>locks := l\<rparr>) = curproc m"
  by (simp add: curproc_def)

lemma release_set_intena:
  assumes "free_lock lk m" and "depth m = 0"
  shows "\<exists>m'. release lk (set_intena b (acqm lk m)) = Ret () m' \<and> locks m' = locks m \<and> depth m' = 0 \<and>
    curproc m' = curproc m \<and> curcpu m' = curcpu m \<and> curhart m' = curhart m"
proof -
  let ?m = "set_intena b (acqm lk m)"
  have f: "curcpu ?m = curcpu m" "depth ?m = 1" "locks ?m = locks (acqm lk m)" "\<not> sie_on ?m" "curproc ?m = curproc m"
    "curhart ?m = curhart m"
    using assms(2) acqm_fields [of lk m] by (simp_all add: set_intena_def depth_def curproc_def)
  have "holds lk ?m" using f holds_acqm [of lk lk m] by (simp add: holds_def)
  then have "release lk ?m = Ret () (relm lk ?m)" using f by (intro release_run) simp_all
  moreover have "locks (relm lk ?m) = locks m"
    using free_lock_restore [OF assms(1)] f(3) by (simp add: relm_def) (simp add: acqm_def)
  moreover have "depth (relm lk ?m) = 0" "curproc (relm lk ?m) = curproc m" "curcpu (relm lk ?m) = curcpu m"
    "curhart (relm lk ?m) = curhart m"
    using f by (simp_all add: relm_def curproc_locks)
  ultimately show ?thesis by blast
qed

lemma upd_intena_run:
  "on_mach (kbind mycpu (\<lambda>id. upd_cpu id (\<lambda>x. x\<lparr>intena := b\<rparr>))) k = Ret () (k\<lparr>mach := set_intena b (mach k)\<rparr>)"
  by (simp add: run_simps set_intena_def)

lemma sleep_resume:
  assumes "in_section p lk m k" and "free_lock (PROC_LOCK p) m" and "lk \<noteq> PROC_LOCK p"
    and r: "resumed p m2 (r (asleep p ch m k))" "free_lock lk m2"
  shows "\<exists>m3. sleep ch lk (k, r # rs) = Ret () ((r (asleep p ch m k))\<lparr>
      proc := (proc (r (asleep p ch m k)))(p := (proc (r (asleep p ch m k)) p)\<lparr>p_chan := None\<rparr>), mach := acqm lk m3\<rparr>, rs) \<and>
    locks m3 = locks m2 \<and> depth m3 = 0 \<and> curproc m3 = Some p \<and> free_lock lk m3 \<and> free_lock (PROC_LOCK p) m3"
proof -
  let ?b = "intena (cpus (acqm (PROC_LOCK p) m) (curcpu m))" and ?k = "r (asleep p ch m k)"
  have m2: "mach ?k = acqm (PROC_LOCK p) m2" "free_lock (PROC_LOCK p) m2" "depth m2 = 0" "curproc m2 = Some p"
    using r(1) by (simp_all add: resumed_def in_section_def)
  obtain m3 where m3: "release (PROC_LOCK p) (set_intena ?b (acqm (PROC_LOCK p) m2)) = Ret () m3"
    "locks m3 = locks m2" "depth m3 = 0" "curproc m3 = curproc m2"
    using release_set_intena [OF m2(2,3)] by blast
  have fl: "free_lock lk m3" "free_lock (PROC_LOCK p) m3"
    using r(2) m2(2) by (simp_all add: free_lock_def m3(2))
  have "kseq [atom (on_mach (kbind mycpu (\<lambda>id. upd_cpu id (\<lambda>x. x\<lparr>intena := ?b\<rparr>)))),
        atom (upd_proc p (\<lambda>x. x\<lparr>p_chan := None\<rparr>)), atom (on_mach (release (PROC_LOCK p))), atom (on_mach (acquire lk))] (?k, rs) =
      Ret () (?k\<lparr>proc := (proc ?k)(p := (proc ?k p)\<lparr>p_chan := None\<rparr>), mach := acqm lk m3\<rparr>, rs)"
    unfolding kseq_Cons_run kseq_Nil_run kbind_run atom_run upd_intena_run m2(1)
    using m3 fl by (simp add: run_simps)
  then have "sleep ch lk (k, r # rs) = Ret () (?k\<lparr>proc := (proc ?k)(p := (proc ?k p)\<lparr>p_chan := None\<rparr>), mach := acqm lk m3\<rparr>, rs)"
    by (simp only: sleep_until_swtch [OF assms(1-3)] swtch_run outcome.case)
  then show ?thesis
    using m3 fl m2(4) by auto
qed

text \<open>
  Whatever the state, a step of \<open>wakeup\<close>'s loop that returns leaves \<open>curproc\<close> alone, changes no process
  but its own, and makes its own runnable if it sleeps on the channel.
\<close>

lemma acquire_RetD: "acquire lk m = Ret u m' \<Longrightarrow> curproc m' = curproc m"
  by (auto simp: acquire_def run_simps lock_test_and_set_run curproc_locks split: outcome.splits if_splits)

lemma release_RetD: "release lk m = Ret u m' \<Longrightarrow> curproc m' = curproc m"
  by (auto simp: release_def run_simps pop_off_run curproc_locks split: outcome.splits if_splits)

lemma wakeup_body_RetD:
  assumes "wakeup_body ch q k = Ret u k'"
  shows "curproc (mach k') = curproc (mach k)"
    and "proc k' = (if Some q = curproc (mach k) then proc k else (proc k)(q := wake ch (proc k q)))"
  using assms unfolding wakeup_body_def wake_def
  by (auto simp: run_simps dest!: acquire_RetD release_RetD split: outcome.splits if_splits)

lemma wakeup_loop_RetD:
  assumes "kfor ps (wakeup_body ch) k = Ret u k'"
  shows "curproc (mach k') = curproc (mach k)"
    and "proc k' = (\<lambda>p. if p \<in> set ps \<and> Some p \<noteq> curproc (mach k) then wake ch (proc k p) else proc k p)"
  using assms
proof (induction ps arbitrary: k)
  case (Cons q ps)
  {
    case 1
    then show ?case using Cons.IH(1) wakeup_body_RetD(1) by (fastforce simp: run_simps split: outcome.splits)
  next
    case 2
    then obtain k1 where k1: "wakeup_body ch q k = Ret () k1" "kfor ps (wakeup_body ch) k1 = Ret u k'"
      by (auto simp: run_simps split: outcome.splits)
    show ?case
      using Cons.IH(2) [OF k1(2)] wakeup_body_RetD [OF k1(1)] by (auto simp: fun_eq_iff)
  }
qed (simp_all add: run_simps)

lemma wakeup_wakes:
  assumes "wakeup ch k = Ret u k'" "p < NPROC" "curproc (mach k) \<noteq> Some p"
    "p_state (proc k p) = SLEEPING" "p_chan (proc k p) = Some ch"
  shows "p_state (proc k' p) = RUNNABLE"
  using wakeup_loop_RetD(2) [OF assms(1) [unfolded wakeup_kfor]] assms(2-) by (auto simp: wake_def)


text \<open>A machine whose first hart runs process \<open>p\<close> and holds no lock.\<close>

definition thread_mach :: "nat \<Rightarrow> mach" where
  "thread_mach p = boot_mach\<lparr>cpus := (cpus boot_mach)(0 := (cpus boot_mach 0)\<lparr>cpu_proc := Some p\<rparr>)\<rparr>"

lemma thread_mach_simps [simp]:
  "free_lock lk (thread_mach p)" "depth (thread_mach p) = 0" "curproc (thread_mach p) = Some p"
  "curcpu (thread_mach p) = 0" "curhart (thread_mach p) = 0" "\<not> sie_on (thread_mach p)"
  by (simp_all add: thread_mach_def boot_mach_def boot_hart_def free_lock_def depth_def curproc_def curcpu_def
      the_hart_def sie_on_def)


section \<open>Two consequences of unchecked arguments\<close>

lemma keeps_allocpid: "keeps proc allocpid"
  unfolding allocpid_def by (intro keeps_rules | simp)+

lemma allocproc_killed:
  assumes "allocproc k = Ret (Some q) k'"
  shows "p_killed (proc k' q) = p_killed (proc k q)"
proof -
  let ?F = "kfind [0..<NPROC] (\<lambda>p.
       kbind (on_mach (acquire (PROC_LOCK p))) (\<lambda>_.
       kbind (get_proc p) (\<lambda>pr.
       if p_state pr = UNUSED then kret (Some p)
       else kbind (on_mach (release (PROC_LOCK p))) (\<lambda>_. kret None))))"
  have F: "keeps proc ?F" by (intro keeps_rules)
  show ?thesis
    using assms unfolding allocproc_def
    by (auto simp: kbind_run upd_proc_def kmod_run kget_run kret_run simp del: kfind.simps split: outcome.splits option.splits if_splits
        dest!: keepsD [OF F] keepsD [OF keeps_allocpid] keepsD [OF keeps_proc(3)] keepsD [OF keeps_proc_pagetable(2)])
qed

text \<open>
  C38: \<open>kill(0)\<close> is not refused. Process ids start at 1 and a free slot of the process table has pid 0, so that
  \<open>kill(0)\<close> returns 0 and sets the \<open>killed\<close> flag of the first free slot. \<open>allocproc\<close> does not clear the flag:
  the process created in that slot next is killed from the start.
\<close>

theorem kill_zero_marks_free_slot:
  assumes "\<forall>p. free_lock (PROC_LOCK p) (mach k)" and "find (\<lambda>p. p_pid (proc k p) = 0) [0..<NPROC] = Some q"
    and "p_state (proc k q) = UNUSED"
  shows "\<exists>k1. kill 0 k = Ret 0 k1 \<and> p_state (proc k1 q) = UNUSED \<and> p_killed (proc k1 q) \<and>
    (\<forall>k'. allocproc k1 = Ret (Some q) k' \<longrightarrow> p_killed (proc k' q))"
proof -
  have "[0..<NPROC] \<noteq> []" by simp
  from kill_loop [OF assms(1) this, of 0]
  have "kill 0 k = Ret 0 (k\<lparr>proc := (proc k)(q := killed_proc (proc k q)), mach := ppm (mach k)\<rparr>)"
    unfolding kill_kfind kbind_run assms(2) by (simp only: option.case outcome.case kret_run)
  then show ?thesis
    using assms(3) by (auto simp: killed_proc_def dest: allocproc_killed)
qed

theorem kill_zero_marks_free_slot_witness:
  "\<exists>k1. kill 0 (boot_kernel (syms_at 0x80022000) (\<lambda>_. 0)) = Ret 0 k1 \<and> p_state (proc k1 0) = UNUSED \<and> p_killed (proc k1 0)"
proof -
  have l: "\<forall>p. free_lock (PROC_LOCK p) (mach (boot_kernel (syms_at 0x80022000) (\<lambda>_. 0)))"
    by (simp add: boot_kernel_def boot_mach_def free_lock_def)
  have f: "find (\<lambda>p. p_pid (proc (boot_kernel (syms_at 0x80022000) (\<lambda>_. 0)) p) = 0) [0..<NPROC] = Some 0"
    by (simp add: boot_kernel_def zero_proc_def upt_conv_Cons)
  show ?thesis
    using kill_zero_marks_free_slot [OF l f] by (auto simp: boot_kernel_def zero_proc_def)
qed

theorem kill_marks_first_witness:
  "kill 7 ((boot_kernel (syms_at 0x80022000) (\<lambda>_. 0))\<lparr>mach := thread_mach 3,
      proc := (\<lambda>_. zero_proc)(2 := zero_proc\<lparr>p_pid := 7, p_state := SLEEPING\<rparr>)\<rparr>) =
    Ret 0 ((boot_kernel (syms_at 0x80022000) (\<lambda>_. 0))\<lparr>mach := ppm (thread_mach 3),
      proc := (\<lambda>_. zero_proc)(2 := zero_proc\<lparr>p_pid := 7, p_state := RUNNABLE, p_killed := True\<rparr>)\<rparr>)"
proof -
  let ?k = "(boot_kernel (syms_at 0x80022000) (\<lambda>_. 0))\<lparr>mach := thread_mach 3,
      proc := (\<lambda>_. zero_proc)(2 := zero_proc\<lparr>p_pid := 7, p_state := SLEEPING\<rparr>)\<rparr>"
  have "[0..<NPROC] = 0 # 1 # 2 # [3..<NPROC]" by (simp add: upt_conv_Cons)
  then have f: "find (\<lambda>p. p_pid (proc ?k p) = 7) [0..<NPROC] = Some 2" by (simp add: zero_proc_def)
  have l: "\<forall>p. free_lock (PROC_LOCK p) (mach ?k)" by simp
  show ?thesis
    unfolding kill_marks_first [OF l] f by (simp add: killed_proc_def fun_eq_iff)
qed

text \<open>
  C36: a process that asks \<open>growproc\<close> (the \<open>sbrk\<close> system call) to shrink it by more than its size is told that
  this succeeded, but nothing is freed: the new size is computed in 32 bits, wraps around to a value
  above the old one, and \<open>uvmdealloc\<close> does nothing then. In particular the size does not become negative.
\<close>

theorem growproc_below_zero:
  assumes "curproc (mach k) = Some p" and "p_sz (proc k p) < 0x80000000"
    and "- 0x80000000 \<le> n" and "n < - int (unat (p_sz (proc k p)))"
  shows "growproc n k = Ret 0 (k\<lparr>mach := ppm (mach k)\<rparr>)"
proof -
  define sz where "sz = (ucast (p_sz (proc k p)) :: u32)"
  have s: "unat (p_sz (proc k p)) < 0x80000000" using assms(2) by (simp add: word_less_nat_alt)
  then have u: "unat sz = unat (p_sz (proc k p))" by (simp add: sz_def unsigned_ucast_eq take_bit_nat_eq_self)
  have wide: "ucast sz = p_sz (proc k p)" using u s by (simp add: word_unat_eq_iff unsigned_ucast_eq take_bit_nat_eq_self)
  have range: "0 \<le> int N + n + 2 ^ 32" "n < - int N \<Longrightarrow> int N + n + 2 ^ 32 < 2 ^ 32" for N
    using assms(3) by simp_all
  have "uint (sz + of_int n) = int (unat sz) + n + 2 ^ 32"
  proof -
    have "uint (sz + of_int n) = (int (unat sz) + n) mod 2 ^ 32"
      by (simp add: uint_word_ariths uint_word_of_int mod_simps)
    also have "\<dots> = (int (unat sz) + n + 2 ^ 32) mod 2 ^ 32" by simp
    also have "\<dots> = int (unat sz) + n + 2 ^ 32" using assms(4) u by (intro mod_pos_pos_trivial range) simp
    finally show ?thesis .
  qed
  then have "sz \<le> sz + of_int n" unfolding word_le_def using assms(3) by simp
  moreover have "unat (ucast x :: u64) = unat x" for x :: u32
    using unat_less_length [of x] by (simp add: unsigned_ucast_eq take_bit_nat_eq_self)
  ultimately have "(ucast sz :: u64) \<le> ucast (sz + of_int n)" by (simp add: word_le_nat_alt)
  moreover have "n < 0" using assms(4) by (rule less_le_trans) simp
  moreover have "(proc k)(p := (proc k p)\<lparr>p_sz := ucast sz\<rparr>) = proc k" by (simp add: wide)
  ultimately show ?thesis
    using assms(1) by (simp add: growproc_def run_simps sz_def [symmetric] Let_def uvmdealloc_def wide)
qed

theorem growproc_below_zero_witness:
  "growproc (- 20000) ((boot_kernel (syms_at 0x80022000) (\<lambda>_. 0))\<lparr>mach := thread_mach 3,
      proc := (\<lambda>_. zero_proc\<lparr>p_sz := 0x3000\<rparr>)\<rparr>) =
    Ret 0 ((boot_kernel (syms_at 0x80022000) (\<lambda>_. 0))\<lparr>mach := ppm (thread_mach 3), proc := (\<lambda>_. zero_proc\<lparr>p_sz := 0x3000\<rparr>)\<rparr>)"
  by (subst growproc_below_zero [of _ 3]) simp_all

end
