(* ===== verification/Sleeplock.thy ===== *)
theory Sleeplock
  imports Proc
begin

text \<open>
  Sleep locks (\<open>kernel/sleeplock.c\<close>). A sleep lock is a field of a buffer or of an inode; \<open>slid\<close> names
  it, and with it the spin lock that protects it and the channel its waiters sleep on.
\<close>

datatype slid = SL_BUF nat | SL_INODE nat

definition sl_spin :: "slid \<Rightarrow> lockid" where
  "sl_spin s = (case s of SL_BUF b \<Rightarrow> BUF_SLEEP_LOCK b | SL_INODE i \<Rightarrow> INODE_SLEEP_LOCK i)"

definition sl_chan :: "slid \<Rightarrow> chan" where
  "sl_chan s = (case s of SL_BUF b \<Rightarrow> CH_BUF_LOCK b | SL_INODE i \<Rightarrow> CH_INODE_LOCK i)"

definition get_sl :: "slid \<Rightarrow> kernel \<Rightarrow> sleeplock" where
  "get_sl s k = (case s of SL_BUF b \<Rightarrow> b_lock (bufs k b) | SL_INODE i \<Rightarrow> i_lock (inodes k i))"

definition upd_sl :: "slid \<Rightarrow> (sleeplock \<Rightarrow> sleeplock) \<Rightarrow> (kernel, unit) kmon" where
  "upd_sl s f = (case s of
       SL_BUF b \<Rightarrow> upd_buf b (\<lambda>x. x\<lparr>b_lock := f (b_lock x)\<rparr>)
     | SL_INODE i \<Rightarrow> upd_inode i (\<lambda>x. x\<lparr>i_lock := f (i_lock x)\<rparr>))"

definition initsleeplock :: "slid \<Rightarrow> string \<Rightarrow> (kernel, unit) kmon" where
  "initsleeplock s name = kseq [
     on_mach (initlock (sl_spin s) ''sleep lock''),
     upd_sl s (\<lambda>x. x\<lparr>sl_name := name, sl_locked := False, sl_pid := 0\<rparr>)]"

definition acquiresleep :: "slid \<Rightarrow> (world, unit) kmon" where
  "acquiresleep s =
     kbind (atom (on_mach (acquire (sl_spin s)))) (\<lambda>_.
     kbind (kget resumptions) (\<lambda>n.
     kbind (kiter (n + 1) (\<lambda>_.
       kbind (atom (kget (get_sl s))) (\<lambda>l.
       if sl_locked l then kbind (sleep (sl_chan s) (sl_spin s)) (\<lambda>_. kret (Inl ()))
       else kret (Inr ()))) ()) (\<lambda>_.
     kbind (atom (upd_sl s (\<lambda>x. x\<lparr>sl_locked := True\<rparr>))) (\<lambda>_.
     kbind (atom cur_proc) (\<lambda>p.
     kbind (atom (get_proc p)) (\<lambda>pr.
     kbind (atom (upd_sl s (\<lambda>x. x\<lparr>sl_pid := p_pid pr\<rparr>))) (\<lambda>_.
     atom (on_mach (release (sl_spin s))))))))))"

definition releasesleep :: "slid \<Rightarrow> (kernel, unit) kmon" where
  "releasesleep s = kseq [
     on_mach (acquire (sl_spin s)),
     upd_sl s (\<lambda>x. x\<lparr>sl_locked := False, sl_pid := 0\<rparr>),
     wakeup (sl_chan s),
     on_mach (release (sl_spin s))]"

text \<open>\<open>myproc()\<close> is dereferenced only when the lock is held, because of the short-circuit \<open>&&\<close>.\<close>

definition holdingsleep :: "slid \<Rightarrow> (kernel, bool) kmon" where
  "holdingsleep s =
     kbind (on_mach (acquire (sl_spin s))) (\<lambda>_.
     kbind (kget (get_sl s)) (\<lambda>l.
     kbind (if sl_locked l then
              kbind cur_proc (\<lambda>p.
              kbind (get_proc p) (\<lambda>pr.
              kret (sl_pid l = p_pid pr)))
            else kret False) (\<lambda>r.
     kbind (on_mach (release (sl_spin s))) (\<lambda>_.
     kret r))))"

section \<open>Closed forms\<close>

definition put_sl :: "slid \<Rightarrow> sleeplock \<Rightarrow> kernel \<Rightarrow> kernel" where
  "put_sl s l k = (case s of
       SL_BUF b \<Rightarrow> k\<lparr>bufs := (bufs k)(b := (bufs k b)\<lparr>b_lock := l\<rparr>)\<rparr>
     | SL_INODE i \<Rightarrow> k\<lparr>inodes := (inodes k)(i := (inodes k i)\<lparr>i_lock := l\<rparr>)\<rparr>)"

lemma upd_sl_run [run_simps]: "upd_sl s f k = Ret () (put_sl s (f (get_sl s k)) k)"
  by (cases s) (simp_all add: upd_sl_def put_sl_def get_sl_def run_simps)

lemma put_sl_simps [simp]:
  "get_sl s (put_sl s l k) = l" "put_sl s l (put_sl s l' k) = put_sl s l k" "put_sl s (get_sl s k) k = k"
  "mach (put_sl s l k) = mach k" "proc (put_sl s l k) = proc k" "klog (put_sl s l k) = klog k"
  "vdisk (put_sl s l k) = vdisk k" "disk (put_sl s l k) = disk k"
  by (cases s; simp add: get_sl_def put_sl_def)+

lemma put_sl_upd [simp]:
  "get_sl s (k\<lparr>mach := m\<rparr>) = get_sl s k" "get_sl s (k\<lparr>proc := t\<rparr>) = get_sl s k"
  "put_sl s l (k\<lparr>mach := m\<rparr>) = (put_sl s l k)\<lparr>mach := m\<rparr>" "put_sl s l (k\<lparr>proc := t\<rparr>) = (put_sl s l k)\<lparr>proc := t\<rparr>"
  by (cases s; simp add: get_sl_def put_sl_def)+

lemma sl_spin_not_proc [simp]: "sl_spin s \<noteq> PROC_LOCK p" "PROC_LOCK p \<noteq> sl_spin s"
  by (cases s; simp add: sl_spin_def)+

text \<open>The lock as its holder with process id \<open>pid\<close> leaves it, and as a release leaves it.\<close>

definition taken :: "int \<Rightarrow> sleeplock \<Rightarrow> sleeplock" where
  "taken pid l = l\<lparr>sl_locked := True, sl_pid := pid\<rparr>"

definition released :: "sleeplock \<Rightarrow> sleeplock" where
  "released l = l\<lparr>sl_locked := False, sl_pid := 0\<rparr>"

lemma taken_fields [simp]: "sl_locked (taken pid l)" "sl_pid (taken pid l) = pid" "\<not> sl_locked (released l)"
  "released (taken pid l) = released l" "taken pid (released l) = taken pid l"
  by (simp_all add: taken_def released_def)

definition acquiresleep_body :: "slid \<Rightarrow> unit \<Rightarrow> (world, unit + unit) kmon" where
  "acquiresleep_body s = (\<lambda>_.
       kbind (atom (kget (get_sl s))) (\<lambda>l.
       if sl_locked l then kbind (sleep (sl_chan s) (sl_spin s)) (\<lambda>_. kret (Inl ()))
       else kret (Inr ())))"

definition acquiresleep_take :: "slid \<Rightarrow> (world, unit) kmon" where
  "acquiresleep_take s =
     kbind (atom (upd_sl s (\<lambda>x. x\<lparr>sl_locked := True\<rparr>))) (\<lambda>_.
     kbind (atom cur_proc) (\<lambda>p.
     kbind (atom (get_proc p)) (\<lambda>pr.
     kbind (atom (upd_sl s (\<lambda>x. x\<lparr>sl_pid := p_pid pr\<rparr>))) (\<lambda>_.
     atom (on_mach (release (sl_spin s)))))))"

lemma acquiresleep_eq: "acquiresleep s =
     kbind (atom (on_mach (acquire (sl_spin s)))) (\<lambda>_.
     kbind (kget resumptions) (\<lambda>n.
     kbind (kiter (n + 1) (acquiresleep_body s) ()) (\<lambda>_. acquiresleep_take s)))"
  by (simp only: acquiresleep_def acquiresleep_body_def acquiresleep_take_def)

lemma acquiresleep_take_run:
  assumes "free_lock (sl_spin s) m" and "curproc m = Some p"
  shows "acquiresleep_take s (k\<lparr>mach := acqm (sl_spin s) m\<rparr>, rs) =
    Ret () (put_sl s (taken (p_pid (proc k p)) (get_sl s k)) k\<lparr>mach := ppm m\<rparr>, rs)"
  using assms by (simp add: acquiresleep_take_def run_simps taken_def)

text \<open>A free lock is taken without giving the CPU away.\<close>

lemma acquiresleep_free:
  assumes "\<not> sl_locked (get_sl s k)" and "free_lock (sl_spin s) (mach k)" and "curproc (mach k) = Some p"
  shows "acquiresleep s (k, rs) = Ret () (put_sl s (taken (p_pid (proc k p)) (get_sl s k)) k\<lparr>mach := ppm (mach k)\<rparr>, rs)"
  using assms acquiresleep_take_run [of s "mach k" p k rs]
  by (simp add: acquiresleep_eq acquiresleep_body_def run_simps resumptions_def)

lemma releasesleep_run:
  assumes "free_lock (sl_spin s) (mach k)" and "\<forall>p < NPROC. Some p \<noteq> curproc (mach k) \<longrightarrow> free_lock (PROC_LOCK p) (mach k)"
  shows "releasesleep s k = Ret () (put_sl s (released (get_sl s k)) k\<lparr>
    proc := wake_procs (curproc (mach k)) (sl_chan s) (proc k), mach := ppm (mach k)\<rparr>)"
  using assms by (simp add: releasesleep_def run_simps released_def)

lemma holdingsleep_run:
  assumes "free_lock (sl_spin s) (mach k)" and "curproc (mach k) = Some p"
  shows "holdingsleep s k = Ret (sl_locked (get_sl s k) \<and> sl_pid (get_sl s k) = p_pid (proc k p)) (k\<lparr>mach := ppm (mach k)\<rparr>)"
  using assms by (simp add: holdingsleep_def run_simps)

section \<open>Waiting\<close>

text \<open>
  One turn of the scheduler as a sleeping thread sees it: it is resumed, on some machine \<open>m'\<close> where no
  spin lock is taken but its own process lock.
\<close>

definition resumes :: "nat \<Rightarrow> kernel \<Rightarrow> mach \<Rightarrow> bool" where
  "resumes p k m' \<longleftrightarrow> quiet p m' \<and> mach k = acqm (PROC_LOCK p) m'"

text \<open>The state in which a thread that slept goes on, once it has its condition lock back; \<open>m3\<close> is the machine without it.\<close>

definition woken :: "nat \<Rightarrow> mach \<Rightarrow> kernel \<Rightarrow> kernel" where
  "woken p m3 k = k\<lparr>proc := (proc k)(p := (proc k p)\<lparr>p_chan := None\<rparr>), mach := m3\<rparr>"

lemma sleep_quiet:
  assumes "quiet p (mach k)" and "lk \<noteq> PROC_LOCK p" and "resumes p (r (asleep p ch (mach k) k)) m2"
  shows "\<exists>m3. quiet p m3 \<and> sleep ch lk (k\<lparr>mach := acqm lk (mach k)\<rparr>, r # rs) =
    Ret () ((woken p m3 (r (asleep p ch (mach k) k)))\<lparr>mach := acqm lk m3\<rparr>, rs)"
proof -
  let ?k = "k\<lparr>mach := acqm lk (mach k)\<rparr>"
  have i: "in_section p lk (mach k) ?k" using assms(1) by (simp add: in_section_def quietD)
  have a: "asleep p ch (mach k) ?k = asleep p ch (mach k) k" by (simp add: asleep_def)
  have r: "resumed p m2 (r (asleep p ch (mach k) ?k))" "free_lock lk m2"
    using assms(3) quietD [of p m2] unfolding a by (simp_all add: resumes_def resumed_def in_section_def)
  obtain m3 where m3: "sleep ch lk (?k, r # rs) = Ret () ((r (asleep p ch (mach k) k))\<lparr>
      proc := (proc (r (asleep p ch (mach k) k)))(p := (proc (r (asleep p ch (mach k) k)) p)\<lparr>p_chan := None\<rparr>), mach := acqm lk m3\<rparr>, rs)"
    "locks m3 = locks m2" "depth m3 = 0" "curproc m3 = Some p"
    using sleep_resume [where r = r and ch = ch, OF i quietD(1) [OF assms(1)] assms(2) r, of rs] unfolding a by blast
  have "quiet p m3" using assms(3) m3(2-4) by (simp add: quiet_def resumes_def free_lock_def)
  then show ?thesis using m3(1) by (intro exI [of _ m3]) (simp add: woken_def)
qed

text \<open>
  C26: sleep locks. A thread that calls \<open>acquiresleep\<close> on a free lock becomes its owner at once: the lock is
  marked taken with the process id of the caller, and nothing else changes. While the lock is taken the
  thread sleeps on the lock's channel; each time it is resumed it goes on exactly as if it called
  \<open>acquiresleep\<close> in the state it finds, so that it never returns without having seen the lock free. Then
  \<open>holdingsleep\<close> is true for the owner, and for no process with another process id, and \<open>releasesleep\<close>
  frees the lock and makes all its waiters runnable.
\<close>

theorem sleeplock_protocol:
  assumes "quiet p (mach k)"
  shows "(\<not> sl_locked (get_sl s k) \<longrightarrow>
      acquiresleep s (k, rs) = Ret () (put_sl s (taken (p_pid (proc k p)) (get_sl s k)) k\<lparr>mach := ppm (mach k)\<rparr>, rs)) \<and>
    (sl_locked (get_sl s k) \<longrightarrow>
      acquiresleep s (k, []) = Switch (asleep p (sl_chan s) (mach k) k, []) \<and>
      (\<forall>r m2. resumes p (r (asleep p (sl_chan s) (mach k) k)) m2 \<longrightarrow>
        (\<exists>m3. quiet p m3 \<and> acquiresleep s (k, r # rs) =
          acquiresleep s (woken p m3 (r (asleep p (sl_chan s) (mach k) k)), rs)))) \<and>
    holdingsleep s k = Ret (sl_locked (get_sl s k) \<and> sl_pid (get_sl s k) = p_pid (proc k p)) (k\<lparr>mach := ppm (mach k)\<rparr>) \<and>
    releasesleep s k = Ret () (put_sl s (released (get_sl s k)) k\<lparr>
      proc := wake_procs (Some p) (sl_chan s) (proc k), mach := ppm (mach k)\<rparr>)"
proof (intro conjI impI allI)
  note q = quietD [OF assms]
  show "acquiresleep s (k, rs) = Ret () (put_sl s (taken (p_pid (proc k p)) (get_sl s k)) k\<lparr>mach := ppm (mach k)\<rparr>, rs)"
    if "\<not> sl_locked (get_sl s k)"
    using that q by (intro acquiresleep_free) simp_all
  show "holdingsleep s k = Ret (sl_locked (get_sl s k) \<and> sl_pid (get_sl s k) = p_pid (proc k p)) (k\<lparr>mach := ppm (mach k)\<rparr>)"
    using q by (intro holdingsleep_run) simp_all
  show "releasesleep s k = Ret () (put_sl s (released (get_sl s k)) k\<lparr>
      proc := wake_procs (Some p) (sl_chan s) (proc k), mach := ppm (mach k)\<rparr>)"
    using releasesleep_run [of s k] q by simp
  assume locked: "sl_locked (get_sl s k)"
  let ?k = "k\<lparr>mach := acqm (sl_spin s) (mach k)\<rparr>" and ?a = "asleep p (sl_chan s) (mach k) k"
  have i: "in_section p (sl_spin s) (mach k) ?k" using q by (simp add: in_section_def)
  have a: "asleep p ch (mach k) ?k = asleep p ch (mach k) k" for ch by (simp add: asleep_def)
  show "acquiresleep s (k, []) = Switch (?a, [])"
    using locked q sleep_switch [OF i q(1), of "sl_chan s"]
    by (simp add: acquiresleep_eq acquiresleep_body_def run_simps resumptions_def a)
  fix r m2 assume "resumes p (r ?a) m2"
  then obtain m3 where m3: "quiet p m3" "sleep (sl_chan s) (sl_spin s) (?k, r # rs) =
      Ret () ((woken p m3 (r ?a))\<lparr>mach := acqm (sl_spin s) m3\<rparr>, rs)"
    using sleep_quiet [OF assms sl_spin_not_proc(1)] by blast
  have "mach (woken p m3 (r ?a)) = m3" by (simp add: woken_def)
  then have "acquiresleep s (k, r # rs) = acquiresleep s (woken p m3 (r ?a), rs)"
    using locked q m3(2) quietD(1) [OF m3(1)]
    by (simp add: acquiresleep_eq acquiresleep_body_def [of s] run_simps resumptions_def)
  then show "\<exists>m3. quiet p m3 \<and> acquiresleep s (k, r # rs) = acquiresleep s (woken p m3 (r ?a), rs)"
    using m3(1) by blast
qed

text \<open>The lock in buffer 4 is held by the process with id 9, which releases it while process 3 sleeps.\<close>

definition sl_demo :: kernel where
  "sl_demo = put_sl (SL_BUF 4) (taken 9 zero_sleeplock) ((boot_kernel (syms_at 0x80022000) (\<lambda>_. 0))\<lparr>mach := thread_mach 3,
     proc := (\<lambda>_. zero_proc)(3 := zero_proc\<lparr>p_pid := 7\<rparr>)\<rparr>)"

definition sl_demo_turn :: "kernel \<Rightarrow> kernel" where
  "sl_demo_turn k = (put_sl (SL_BUF 4) zero_sleeplock k)\<lparr>mach := acqm (PROC_LOCK 3) (thread_mach 3)\<rparr>"

lemma quiet_thread_mach [simp]: "quiet p (thread_mach p)"
  by (simp add: quiet_def)

theorem sleeplock_protocol_witness:
  "\<exists>k'. acquiresleep (SL_BUF 4) (sl_demo, [sl_demo_turn]) = Ret () (k', []) \<and> sl_pid (get_sl (SL_BUF 4) k') = 7"
proof -
  let ?s = "SL_BUF 4" and ?h = "asleep 3 (sl_chan (SL_BUF 4)) (mach sl_demo) sl_demo"
  have q: "quiet 3 (mach sl_demo)" and l: "sl_locked (get_sl ?s sl_demo)" by (simp_all add: sl_demo_def)
  have "resumes 3 (sl_demo_turn ?h) (thread_mach 3)" by (simp add: resumes_def sl_demo_turn_def)
  then obtain m3 where m3: "quiet 3 m3" "acquiresleep ?s (sl_demo, [sl_demo_turn]) = acquiresleep ?s (woken 3 m3 (sl_demo_turn ?h), [])"
    using sleeplock_protocol [OF q, of ?s "[]"] l by blast
  have "quiet 3 (mach (woken 3 m3 (sl_demo_turn ?h)))" "\<not> sl_locked (get_sl ?s (woken 3 m3 (sl_demo_turn ?h)))"
    "p_pid (proc (woken 3 m3 (sl_demo_turn ?h)) 3) = 7"
    using m3(1) by (simp_all add: woken_def sl_demo_turn_def zero_sleeplock_def sl_demo_def asleep_def)
  then show ?thesis
    using m3(2) sleeplock_protocol [of 3 "woken 3 m3 (sl_demo_turn ?h)" ?s "[]"] by simp
qed

end
