(* ===== verification/Virtio.thy ===== *)
theory Virtio
  imports Sleeplock
begin

text \<open>
  The driver of the virtio disk (\<open>kernel/virtio_disk.c\<close>, constants of \<open>kernel/virtio.h\<close>). The device
  itself is not part of the sources: it acts between a request and its completion interrupt, that
  is in the resumptions of the thread that waits, and in the values its registers deliver.
\<close>

section \<open>Registers and constants\<close>

abbreviation (input) VIRTIO_MMIO_MAGIC_VALUE :: u64 where "VIRTIO_MMIO_MAGIC_VALUE \<equiv> 0x000"
abbreviation (input) VIRTIO_MMIO_VERSION :: u64 where "VIRTIO_MMIO_VERSION \<equiv> 0x004"
abbreviation (input) VIRTIO_MMIO_DEVICE_ID :: u64 where "VIRTIO_MMIO_DEVICE_ID \<equiv> 0x008"
abbreviation (input) VIRTIO_MMIO_VENDOR_ID :: u64 where "VIRTIO_MMIO_VENDOR_ID \<equiv> 0x00c"
abbreviation (input) VIRTIO_MMIO_DEVICE_FEATURES :: u64 where "VIRTIO_MMIO_DEVICE_FEATURES \<equiv> 0x010"
abbreviation (input) VIRTIO_MMIO_DRIVER_FEATURES :: u64 where "VIRTIO_MMIO_DRIVER_FEATURES \<equiv> 0x020"
abbreviation (input) VIRTIO_MMIO_GUEST_PAGE_SIZE :: u64 where "VIRTIO_MMIO_GUEST_PAGE_SIZE \<equiv> 0x028"
abbreviation (input) VIRTIO_MMIO_QUEUE_SEL :: u64 where "VIRTIO_MMIO_QUEUE_SEL \<equiv> 0x030"
abbreviation (input) VIRTIO_MMIO_QUEUE_NUM_MAX :: u64 where "VIRTIO_MMIO_QUEUE_NUM_MAX \<equiv> 0x034"
abbreviation (input) VIRTIO_MMIO_QUEUE_NUM :: u64 where "VIRTIO_MMIO_QUEUE_NUM \<equiv> 0x038"
abbreviation (input) VIRTIO_MMIO_QUEUE_PFN :: u64 where "VIRTIO_MMIO_QUEUE_PFN \<equiv> 0x040"
abbreviation (input) VIRTIO_MMIO_QUEUE_NOTIFY :: u64 where "VIRTIO_MMIO_QUEUE_NOTIFY \<equiv> 0x050"
abbreviation (input) VIRTIO_MMIO_INTERRUPT_STATUS :: u64 where "VIRTIO_MMIO_INTERRUPT_STATUS \<equiv> 0x060"
abbreviation (input) VIRTIO_MMIO_INTERRUPT_ACK :: u64 where "VIRTIO_MMIO_INTERRUPT_ACK \<equiv> 0x064"
abbreviation (input) VIRTIO_MMIO_STATUS :: u64 where "VIRTIO_MMIO_STATUS \<equiv> 0x070"

abbreviation (input) VIRTIO_CONFIG_S_ACKNOWLEDGE :: u32 where "VIRTIO_CONFIG_S_ACKNOWLEDGE \<equiv> 1"
abbreviation (input) VIRTIO_CONFIG_S_DRIVER :: u32 where "VIRTIO_CONFIG_S_DRIVER \<equiv> 2"
abbreviation (input) VIRTIO_CONFIG_S_DRIVER_OK :: u32 where "VIRTIO_CONFIG_S_DRIVER_OK \<equiv> 4"
abbreviation (input) VIRTIO_CONFIG_S_FEATURES_OK :: u32 where "VIRTIO_CONFIG_S_FEATURES_OK \<equiv> 8"

abbreviation (input) VIRTIO_BLK_F_RO :: nat where "VIRTIO_BLK_F_RO \<equiv> 5"
abbreviation (input) VIRTIO_BLK_F_SCSI :: nat where "VIRTIO_BLK_F_SCSI \<equiv> 7"
abbreviation (input) VIRTIO_BLK_F_CONFIG_WCE :: nat where "VIRTIO_BLK_F_CONFIG_WCE \<equiv> 11"
abbreviation (input) VIRTIO_BLK_F_MQ :: nat where "VIRTIO_BLK_F_MQ \<equiv> 12"
abbreviation (input) VIRTIO_F_ANY_LAYOUT :: nat where "VIRTIO_F_ANY_LAYOUT \<equiv> 27"
abbreviation (input) VIRTIO_RING_F_INDIRECT_DESC :: nat where "VIRTIO_RING_F_INDIRECT_DESC \<equiv> 28"
abbreviation (input) VIRTIO_RING_F_EVENT_IDX :: nat where "VIRTIO_RING_F_EVENT_IDX \<equiv> 29"

abbreviation (input) VRING_DESC_F_NEXT :: u16 where "VRING_DESC_F_NEXT \<equiv> 1"
abbreviation (input) VRING_DESC_F_WRITE :: u16 where "VRING_DESC_F_WRITE \<equiv> 2"
abbreviation (input) VIRTIO_BLK_T_IN :: u32 where "VIRTIO_BLK_T_IN \<equiv> 0"
abbreviation (input) VIRTIO_BLK_T_OUT :: u32 where "VIRTIO_BLK_T_OUT \<equiv> 1"

definition read_R :: "u64 \<Rightarrow> (kernel, u32) kmon" where
  "read_R r = kbind (dev_read (VIRTIO0 + r)) (\<lambda>v. kret (ucast v))"

definition write_R :: "u64 \<Rightarrow> u32 \<Rightarrow> (kernel, unit) kmon" where
  "write_R r v = dev_write (VIRTIO0 + r) (ucast v)"

section \<open>Initialisation\<close>

text \<open>The test for the device: the four loads stop at the first mismatch.\<close>

fun virtio_probe :: "(u64 \<times> u32) list \<Rightarrow> (kernel, bool) kmon" where
  "virtio_probe [] = kret True"
| "virtio_probe ((r, v) # rs) =
     kbind (read_R r) (\<lambda>x. if x \<noteq> v then kret False else virtio_probe rs)"

definition virtio_features :: "u64 \<Rightarrow> u64" where
  "virtio_features features =
     (let clear = (\<lambda>n x. x AND NOT (push_bit n (1::u64))) in
      clear VIRTIO_RING_F_INDIRECT_DESC (clear VIRTIO_RING_F_EVENT_IDX (clear VIRTIO_F_ANY_LAYOUT
      (clear VIRTIO_BLK_F_MQ (clear VIRTIO_BLK_F_CONFIG_WCE (clear VIRTIO_BLK_F_SCSI
      (clear VIRTIO_BLK_F_RO features)))))))"

definition virtio_disk_init :: "(kernel, unit) kmon" where
  "virtio_disk_init =
     kbind (on_mach (initlock VDISK_LOCK ''virtio_disk'')) (\<lambda>_.
     kbind (virtio_probe [(VIRTIO_MMIO_MAGIC_VALUE, 0x74726976), (VIRTIO_MMIO_VERSION, 1),
       (VIRTIO_MMIO_DEVICE_ID, 2), (VIRTIO_MMIO_VENDOR_ID, 0x554d4551)]) (\<lambda>found.
     if \<not> found then kpanic ''could not find virtio disk''
     else
     let status = 0 OR VIRTIO_CONFIG_S_ACKNOWLEDGE in
     kbind (write_R VIRTIO_MMIO_STATUS status) (\<lambda>_.
     let status = status OR VIRTIO_CONFIG_S_DRIVER in
     kbind (write_R VIRTIO_MMIO_STATUS status) (\<lambda>_.
     kbind (read_R VIRTIO_MMIO_DEVICE_FEATURES) (\<lambda>features.
     kbind (write_R VIRTIO_MMIO_DRIVER_FEATURES (ucast (virtio_features (ucast features)))) (\<lambda>_.
     let status = status OR VIRTIO_CONFIG_S_FEATURES_OK in
     kbind (write_R VIRTIO_MMIO_STATUS status) (\<lambda>_.
     let status = status OR VIRTIO_CONFIG_S_DRIVER_OK in
     kbind (write_R VIRTIO_MMIO_STATUS status) (\<lambda>_.
     kbind (write_R VIRTIO_MMIO_GUEST_PAGE_SIZE 4096) (\<lambda>_.
     kbind (write_R VIRTIO_MMIO_QUEUE_SEL 0) (\<lambda>_.
     kbind (read_R VIRTIO_MMIO_QUEUE_NUM_MAX) (\<lambda>maxq.
     if maxq = 0 then kpanic ''virtio disk has no queue 0''
     else if maxq < NUM then kpanic ''virtio disk max queue too short''
     else
     kbind (write_R VIRTIO_MMIO_QUEUE_NUM NUM) (\<lambda>_.
     kbind (upd_vdisk (\<lambda>d. d\<lparr>vd_desc := (\<lambda>_. \<lparr>vd_addr = VNULL, vd_len = 0, vd_flags = 0, vd_next = 0\<rparr>),
       avail_idx := 0, avail_ring := (\<lambda>_. 0), used_idx_dev := 0, used_ring_id := (\<lambda>_. 0)\<rparr>)) (\<lambda>_.
     kbind (kget (\<lambda>k. sym_disk_pages (syms k))) (\<lambda>pages.
     kbind (write_R VIRTIO_MMIO_QUEUE_PFN (ucast (drop_bit PGSHIFT pages))) (\<lambda>_.
     kfor [0..<NUM] (\<lambda>i. upd_vdisk (\<lambda>d. d\<lparr>vd_free := (vd_free d)(i := True)\<rparr>)))))))))))))))))"

section \<open>Descriptors\<close>

definition alloc_desc :: "(kernel, int) kmon" where
  "alloc_desc =
     kbind (kfind [0..<NUM] (\<lambda>i.
       kbind (kget (\<lambda>k. vd_free (vdisk k) i)) (\<lambda>fr.
       if fr then
         kbind (upd_vdisk (\<lambda>d. d\<lparr>vd_free := (vd_free d)(i := False)\<rparr>)) (\<lambda>_. kret (Some (int i)))
       else kret None))) (\<lambda>r.
     case r of Some i \<Rightarrow> kret i | None \<Rightarrow> kret (-1))"

definition upd_desc :: "nat \<Rightarrow> (virtq_desc \<Rightarrow> virtq_desc) \<Rightarrow> (kernel, unit) kmon" where
  "upd_desc i f = upd_vdisk (\<lambda>d. d\<lparr>vd_desc := (vd_desc d)(i := f (vd_desc d i))\<rparr>)"

definition free_desc :: "int \<Rightarrow> (kernel, unit) kmon" where
  "free_desc i =
     (if i \<ge> NUM then kpanic ''free_desc 1''
      else
      kbind (kget (\<lambda>k. vd_free (vdisk k) (nat i))) (\<lambda>fr.
      if fr then kpanic ''free_desc 2''
      else kseq [
        upd_desc (nat i) (\<lambda>d. d\<lparr>vd_addr := VNULL, vd_len := 0, vd_flags := 0, vd_next := 0\<rparr>),
        upd_vdisk (\<lambda>d. d\<lparr>vd_free := (vd_free d)(nat i := True)\<rparr>),
        wakeup CH_DISK_FREE]))"

text \<open>Each round frees a descriptor that was not free, so there are at most \<open>NUM\<close> rounds.\<close>

definition free_chain :: "int \<Rightarrow> (kernel, unit) kmon" where
  "free_chain i =
     kiter (NUM + 1) (\<lambda>i.
       kbind (kget (\<lambda>k. vd_desc (vdisk k) (nat i))) (\<lambda>d.
       kbind (free_desc i) (\<lambda>_.
       kret (if vd_flags d AND VRING_DESC_F_NEXT \<noteq> 0 then Inl (uint (vd_next d)) else Inr ())))) i"

fun alloc3_loop :: "nat \<Rightarrow> int list \<Rightarrow> (kernel, int list option) kmon" where
  "alloc3_loop 0 idx = kret (Some idx)"
| "alloc3_loop (Suc n) idx =
     kbind alloc_desc (\<lambda>i.
     if i < 0 then kbind (kfor idx free_desc) (\<lambda>_. kret None)
     else alloc3_loop n (idx @ [i]))"

text \<open>The array \<open>idx\<close> on success (return value 0), nothing for \<open>-1\<close>.\<close>

definition alloc3_desc :: "(kernel, int list option) kmon" where
  "alloc3_desc = alloc3_loop 3 []"

section \<open>Requests\<close>

definition virtio_format :: "nat \<Rightarrow> bool \<Rightarrow> u64 \<Rightarrow> nat \<Rightarrow> nat \<Rightarrow> nat \<Rightarrow> (kernel, unit) kmon" where
  "virtio_format b wr sector i0 i1 i2 = kseq [
     upd_vdisk (\<lambda>d. d\<lparr>vd_ops := (vd_ops d)(i0 :=
       \<lparr>vr_type = (if wr then VIRTIO_BLK_T_OUT else VIRTIO_BLK_T_IN), vr_reserved = 0, vr_sector = sector\<rparr>)\<rparr>),
     upd_desc i0 (\<lambda>_. \<lparr>vd_addr = V_OPS i0, vd_len = 16, vd_flags = VRING_DESC_F_NEXT, vd_next = of_nat i1\<rparr>),
     upd_desc i1 (\<lambda>_. \<lparr>vd_addr = V_DATA b, vd_len = BSIZE,
       vd_flags = (if wr then 0 else VRING_DESC_F_WRITE) OR VRING_DESC_F_NEXT, vd_next = of_nat i2\<rparr>),
     upd_vdisk (\<lambda>d. d\<lparr>info_status := (info_status d)(i0 := 0xff)\<rparr>),
     upd_desc i2 (\<lambda>_. \<lparr>vd_addr = V_STATUS i0, vd_len = 1, vd_flags = VRING_DESC_F_WRITE, vd_next = 0\<rparr>)]"

definition virtio_disk_rw :: "nat \<Rightarrow> bool \<Rightarrow> (world, unit) kmon" where
  "virtio_disk_rw b wr =
     kbind (atom (kget (\<lambda>k. ucast (b_blockno (bufs k b) * 2 :: u32)))) (\<lambda>sector.
     kbind (atom (on_mach (acquire VDISK_LOCK))) (\<lambda>_.
     kbind (kget resumptions) (\<lambda>n.
     kbind (kiter (n + 1) (\<lambda>_.
       kbind (atom alloc3_desc) (\<lambda>r.
       case r of
         Some idx \<Rightarrow> kret (Inr idx)
       | None \<Rightarrow> kbind (sleep CH_DISK_FREE VDISK_LOCK) (\<lambda>_. kret (Inl ())))) ()) (\<lambda>idx.
     let i0 = nat (idx ! 0); i1 = nat (idx ! 1); i2 = nat (idx ! 2) in
     kbind (atom (kseq [
       virtio_format b wr sector i0 i1 i2,
       upd_buf b (\<lambda>x. x\<lparr>b_disk := True\<rparr>),
       upd_vdisk (\<lambda>d. d\<lparr>info_b := (info_b d)(i0 := Some b)\<rparr>),
       upd_vdisk (\<lambda>d. d\<lparr>avail_ring := (avail_ring d)(unat (avail_idx d mod NUM) := of_nat i0)\<rparr>),
       upd_vdisk (\<lambda>d. d\<lparr>avail_idx := avail_idx d + 1\<rparr>),
       write_R VIRTIO_MMIO_QUEUE_NOTIFY 0])) (\<lambda>_.
     kbind (kget resumptions) (\<lambda>n.
     kbind (kiter (n + 1) (\<lambda>_.
       kbind (atom (kget (\<lambda>k. b_disk (bufs k b)))) (\<lambda>busy.
       if busy then kbind (sleep (CH_BUF b) VDISK_LOCK) (\<lambda>_. kret (Inl ()))
       else kret (Inr ()))) ()) (\<lambda>_.
     atom (kseq [
       upd_vdisk (\<lambda>d. d\<lparr>info_b := (info_b d)(i0 := None)\<rparr>),
       free_chain (int i0),
       on_mach (release VDISK_LOCK)]))))))))"

text \<open>
  The completion interrupt. The loop handles the entries that the device had added to the used ring
  when the handler read its index; entries added later raise another interrupt. A completed request
  without a buffer is a null pointer dereference.
\<close>

definition virtio_disk_intr :: "(kernel, unit) kmon" where
  "virtio_disk_intr =
     kbind (on_mach (acquire VDISK_LOCK)) (\<lambda>_.
     kbind (read_R VIRTIO_MMIO_INTERRUPT_STATUS) (\<lambda>st.
     kbind (write_R VIRTIO_MMIO_INTERRUPT_ACK (st AND 0x3)) (\<lambda>_.
     kbind (kget vdisk) (\<lambda>d.
     kbind (kiter (unat (used_idx_dev d - vd_used_idx d) + 1) (\<lambda>_.
       kbind (kget vdisk) (\<lambda>d.
       if vd_used_idx d \<noteq> used_idx_dev d then
         let id = unat (used_ring_id d (unat (vd_used_idx d mod NUM))) in
         if info_status d id \<noteq> 0 then kpanic ''virtio_disk_intr status''
         else
         (case info_b d id of
            None \<Rightarrow> kpanic ''kerneltrap''
          | Some b \<Rightarrow>
              kbind (upd_buf b (\<lambda>x. x\<lparr>b_disk := False\<rparr>)) (\<lambda>_.
              kbind (wakeup (CH_BUF b)) (\<lambda>_.
              kbind (upd_vdisk (\<lambda>d. d\<lparr>vd_used_idx := vd_used_idx d + 1\<rparr>)) (\<lambda>_.
              kret (Inl ())))))
       else kret (Inr ()))) ()) (\<lambda>_.
     on_mach (release VDISK_LOCK))))))"

section \<open>Allocation of descriptors\<close>

definition alloc_scan :: "nat list \<Rightarrow> (kernel, int option) kmon" where
  "alloc_scan is = kfind is (\<lambda>i.
       kbind (kget (\<lambda>k. vd_free (vdisk k) i)) (\<lambda>fr.
       if fr then
         kbind (upd_vdisk (\<lambda>d. d\<lparr>vd_free := (vd_free d)(i := False)\<rparr>)) (\<lambda>_. kret (Some (int i)))
       else kret None))"

text \<open>The disk with the descriptors \<open>I\<close> taken.\<close>

definition take_descs :: "nat set \<Rightarrow> kernel \<Rightarrow> kernel" where
  "take_descs I k = k\<lparr>vdisk := (vdisk k)\<lparr>vd_free := (\<lambda>i. vd_free (vdisk k) i \<and> i \<notin> I)\<rparr>\<rparr>"

definition free_descs :: "kernel \<Rightarrow> nat list" where
  "free_descs k = filter (vd_free (vdisk k)) [0..<NUM]"

lemma alloc_scan_run:
  "alloc_scan is k = (case filter (vd_free (vdisk k)) is of
     [] \<Rightarrow> Ret None k | i # _ \<Rightarrow> Ret (Some (int i)) (take_descs {i} k))"
proof (induction "is")
  case (Cons i "is")
  have "(vd_free (vdisk k))(i := False) = (\<lambda>j. vd_free (vdisk k) j \<and> j \<noteq> i)" by (auto simp: fun_eq_iff)
  then show ?case using Cons by (auto simp: alloc_scan_def run_simps take_descs_def)
qed (simp add: alloc_scan_def run_simps)

lemma alloc_desc_run: "alloc_desc k = (case free_descs k of
     [] \<Rightarrow> Ret (-1) k | i # _ \<Rightarrow> Ret (int i) (take_descs {i} k))"
proof -
  have e: "alloc_desc = kbind (alloc_scan [0..<NUM]) (\<lambda>r. case r of Some i \<Rightarrow> kret i | None \<Rightarrow> kret (-1))"
    by (simp only: alloc_desc_def alloc_scan_def)
  show ?thesis
    unfolding e free_descs_def kbind_run alloc_scan_run
    by (cases "filter (vd_free (vdisk k)) [0..<NUM]") (simp_all only: list.case outcome.case option.case kret_run)
qed

lemma take_descs_simps [simp]:
  "take_descs I (take_descs J k) = take_descs (J \<union> I) k" "take_descs {} k = k" "mach (take_descs I k) = mach k"
  "proc (take_descs I k) = proc k"
  by (auto simp: take_descs_def)

lemma free_descs_take: "free_descs k = i # is \<Longrightarrow> free_descs (take_descs {i} k) = is"
proof -
  assume e: "free_descs k = i # is"
  have "free_descs (take_descs {i} k) = filter (\<lambda>j. j \<noteq> i) (free_descs k)"
    by (simp add: free_descs_def take_descs_def conj_commute)
  moreover have "distinct (free_descs k)" by (simp add: free_descs_def)
  ultimately show ?thesis using e by (auto simp: filter_id_conv)
qed

lemma set_free_descs: "i \<in> set (free_descs k) \<longleftrightarrow> i < NUM \<and> vd_free (vdisk k) i"
  by (auto simp: free_descs_def)

text \<open>A descriptor given back.\<close>

definition zero_desc :: virtq_desc where
  "zero_desc = \<lparr>vd_addr = VNULL, vd_len = 0, vd_flags = 0, vd_next = 0\<rparr>"

definition give_desc :: "nat \<Rightarrow> vdisk \<Rightarrow> vdisk" where
  "give_desc i d = d\<lparr>vd_desc := (vd_desc d)(i := zero_desc), vd_free := (vd_free d)(i := True)\<rparr>"

text \<open>The wakeups of \<open>free_desc\<close> reach all processes but the caller; a second one changes nothing.\<close>

definition procs_free :: "mach \<Rightarrow> bool" where
  "procs_free m \<longleftrightarrow> (\<forall>p < NPROC. Some p \<noteq> curproc m \<longrightarrow> free_lock (PROC_LOCK p) m)"

lemma procs_free_ppm [simp]: "procs_free (ppm m) = procs_free m"
  by (simp add: procs_free_def)

lemma wake_procs_idem [simp]: "wake_procs me ch (wake_procs me ch tab) = wake_procs me ch tab"
  by (auto simp: wake_procs_def fun_eq_iff)

lemma zero_desc_fields: "d\<lparr>vd_addr := VNULL, vd_len := 0, vd_flags := 0, vd_next := 0\<rparr> = zero_desc"
  by (simp add: zero_desc_def)

lemma free_desc_run:
  assumes "i < NUM" and "\<not> vd_free (vdisk k) i" and "procs_free (mach k)"
  shows "free_desc (int i) k = Ret () (k\<lparr>vdisk := give_desc i (vdisk k),
     proc := wake_procs (curproc (mach k)) CH_DISK_FREE (proc k), mach := ppm (mach k)\<rparr>)"
  using assms by (simp add: free_desc_def upd_desc_def run_simps give_desc_def zero_desc_fields procs_free_def)

text \<open>The bugs that \<open>free_desc\<close> catches.\<close>

lemma free_desc_panics:
  "NUM \<le> i \<Longrightarrow> free_desc i k = Panic ''free_desc 1'' k"
  "i < NUM \<Longrightarrow> vd_free (vdisk k) (nat i) \<Longrightarrow> free_desc i k = Panic ''free_desc 2'' k"
  by (simp_all add: free_desc_def run_simps)

lemma free_descs_loop:
  assumes "distinct is" and "\<forall>i \<in> set is. i < NUM \<and> \<not> vd_free (vdisk k) i" and "procs_free (mach k)" and "is \<noteq> []"
  shows "kfor (map int is) free_desc k = Ret () (k\<lparr>vdisk := fold give_desc is (vdisk k),
     proc := wake_procs (curproc (mach k)) CH_DISK_FREE (proc k), mach := ppm (mach k)\<rparr>)"
  using assms
proof (induction "is" arbitrary: k)
  case (Cons i "is")
  let ?k = "k\<lparr>vdisk := give_desc i (vdisk k), proc := wake_procs (curproc (mach k)) CH_DISK_FREE (proc k), mach := ppm (mach k)\<rparr>"
  have 1: "free_desc (int i) k = Ret () ?k" using Cons.prems by (intro free_desc_run) simp_all
  show ?case
  proof (cases "is = []")
    case True
    then show ?thesis using 1 by (simp add: run_simps)
  next
    case False
    then have "kfor (map int is) free_desc ?k = Ret () (?k\<lparr>vdisk := fold give_desc is (vdisk ?k),
        proc := wake_procs (curproc (mach ?k)) CH_DISK_FREE (proc ?k), mach := ppm (mach ?k)\<rparr>)"
      using Cons.prems by (intro Cons.IH) (auto simp: give_desc_def)
    then show ?thesis using 1 by (simp add: run_simps)
  qed
qed simp

text \<open>The descriptors taken one after the other: all that are asked for, or all are given back.\<close>

lemma alloc3_loop_run:
  assumes "n \<le> length (free_descs k)"
  shows "alloc3_loop n (map int is) k = Ret (Some (map int (is @ take n (free_descs k)))) (take_descs (set (take n (free_descs k))) k)"
  using assms
proof (induction n arbitrary: k "is")
  case (Suc n)
  then obtain i fs where f: "free_descs k = i # fs" by (cases "free_descs k") auto
  note f' = free_descs_take [OF f]
  have "alloc3_loop n (map int (is @ [i])) (take_descs {i} k) =
      Ret (Some (map int ((is @ [i]) @ take n fs))) (take_descs (set (take n fs)) (take_descs {i} k))"
    using Suc.IH [of "take_descs {i} k" "is @ [i]"] Suc.prems f unfolding f' by simp
  then show ?case by (simp add: run_simps alloc_desc_run f)
qed (simp add: run_simps)

lemma alloc3_loop_fails:
  assumes "length (free_descs k) < n" and "distinct is" and "\<forall>i \<in> set is. i < NUM \<and> \<not> vd_free (vdisk k) i"
    and "procs_free (mach k)" and "is @ free_descs k \<noteq> []"
  shows "alloc3_loop n (map int is) k = Ret None (k\<lparr>
     vdisk := fold give_desc (is @ free_descs k) (vdisk (take_descs (set (free_descs k)) k)),
     proc := wake_procs (curproc (mach k)) CH_DISK_FREE (proc k), mach := ppm (mach k)\<rparr>)"
  using assms
proof (induction n arbitrary: k "is")
  case (Suc n)
  show ?case
  proof (cases "free_descs k")
    case Nil
    then show ?thesis using Suc.prems free_descs_loop [of "is" k] by (simp add: run_simps alloc_desc_run)
  next
    case (Cons i fs)
    let ?k = "take_descs {i} k"
    note f' = free_descs_take [OF Cons]
    have i: "i < NUM" "vd_free (vdisk k) i" using set_free_descs [of i k] Cons by simp_all
    have "alloc3_loop n (map int (is @ [i])) ?k = Ret None (?k\<lparr>
        vdisk := fold give_desc ((is @ [i]) @ free_descs ?k) (vdisk (take_descs (set (free_descs ?k)) ?k)),
        proc := wake_procs (curproc (mach ?k)) CH_DISK_FREE (proc ?k), mach := ppm (mach ?k)\<rparr>)"
      using Suc.prems i by (intro Suc.IH) (auto simp: f' Cons, auto simp: take_descs_def)
    then have "alloc3_loop n (map int (is @ [i])) ?k = Ret None (k\<lparr>
        vdisk := fold give_desc (is @ free_descs k) (vdisk (take_descs (set (free_descs k)) k)),
        proc := wake_procs (curproc (mach k)) CH_DISK_FREE (proc k), mach := ppm (mach k)\<rparr>)"
      by (simp add: f' Cons) (simp add: take_descs_def)
    then show ?thesis by (simp add: run_simps alloc_desc_run Cons)
  qed
qed simp

lemma give_descs_fields:
  "vd_free (fold give_desc is d) i \<longleftrightarrow> i \<in> set is \<or> vd_free d i"
  "vd_desc (fold give_desc is d) i = (if i \<in> set is then zero_desc else vd_desc d i)"
  by (induction "is" arbitrary: d) (auto simp: give_desc_def)

text \<open>
  C32: the three descriptors of a disk request are allocated all or none. With three or more free descriptors
  \<open>alloc3_desc\<close> takes the three lowest, which are distinct and in range, and changes nothing else. With
  fewer it returns without any: every descriptor is free afterwards that was free before (none leaks,
  none is freed twice), and those it held in between are cleared.
\<close>

theorem alloc3_all_or_nothing:
  assumes "procs_free (mach k)"
  shows "if 3 \<le> length (free_descs k) then
      alloc3_desc k = Ret (Some (map int (take 3 (free_descs k)))) (take_descs (set (take 3 (free_descs k))) k) \<and>
      distinct (take 3 (free_descs k)) \<and> sorted (free_descs k) \<and> set (free_descs k) = {i. i < NUM \<and> vd_free (vdisk k) i}
    else \<exists>d t m. alloc3_desc k = Ret None (k\<lparr>vdisk := d, proc := t, mach := m\<rparr>) \<and> vd_free d = vd_free (vdisk k) \<and>
      (\<forall>i. vd_desc d i = (if i < NUM \<and> vd_free (vdisk k) i then zero_desc else vd_desc (vdisk k) i))"
proof (cases "3 \<le> length (free_descs k)")
  case True
  have "sorted (free_descs k)" "distinct (free_descs k)" by (simp_all add: free_descs_def sorted_wrt_filter)
  then show ?thesis
    using True alloc3_loop_run [of 3 k "[]"] by (auto simp: alloc3_desc_def set_free_descs)
next
  case False
  show ?thesis
  proof (cases "free_descs k = []")
    case True
    have "alloc3_desc k = Ret None k"
      by (simp add: alloc3_desc_def numeral_3_eq_3 run_simps alloc_desc_run True)
    moreover have "\<not> (i < NUM \<and> vd_free (vdisk k) i)" for i using set_free_descs [of i k] True by simp
    ultimately show ?thesis
      unfolding if_not_P [OF False] by (intro exI [of _ "vdisk k"] exI [of _ "proc k"] exI [of _ "mach k"]) auto
  next
    case ne: False
    let ?d = "fold give_desc (free_descs k) (vdisk (take_descs (set (free_descs k)) k))"
    have "alloc3_desc k = Ret None (k\<lparr>vdisk := ?d, proc := wake_procs (curproc (mach k)) CH_DISK_FREE (proc k), mach := ppm (mach k)\<rparr>)"
      using alloc3_loop_fails [of k 3 "[]"] False ne assms by (simp add: alloc3_desc_def)
    moreover have "vd_free ?d = vd_free (vdisk k)"
      by (auto simp: fun_eq_iff give_descs_fields set_free_descs take_descs_def)
    moreover have "vd_desc ?d i = (if i < NUM \<and> vd_free (vdisk k) i then zero_desc else vd_desc (vdisk k) i)" for i
      by (simp add: give_descs_fields set_free_descs take_descs_def)
    ultimately show ?thesis unfolding if_not_P [OF False] by blast
  qed
qed

theorem alloc3_all_or_nothing_witness:
  "\<exists>k'. alloc3_desc ((boot_kernel (syms_at 0x80022000) (\<lambda>_. 0))\<lparr>mach := thread_mach 3,
      vdisk := zero_vdisk\<lparr>vd_free := (\<lambda>i. i \<in> {2, 5})\<rparr>\<rparr>) = Ret None k' \<and> vd_free (vdisk k') = (\<lambda>i. i \<in> {2, 5})"
proof -
  let ?k = "(boot_kernel (syms_at 0x80022000) (\<lambda>_. 0))\<lparr>mach := thread_mach 3, vdisk := zero_vdisk\<lparr>vd_free := (\<lambda>i. i \<in> {2, 5})\<rparr>\<rparr>"
  have "procs_free (mach ?k)" by (simp add: procs_free_def)
  moreover have "free_descs ?k = [2, 5]" by (simp add: free_descs_def upt_conv_Cons)
  ultimately show ?thesis using alloc3_all_or_nothing [of ?k] by fastforce
qed

end
