(* ===== verification/Bio.thy ===== *)
theory Bio
  imports Virtio
begin

text \<open>
  The buffer cache (\<open>kernel/bio.c\<close>): a doubly linked list of \<open>NBUF\<close> buffers in order of use, with the
  list head as element \<open>NBUF\<close> of the table.
\<close>

abbreviation (input) BHEAD :: nat where "BHEAD \<equiv> NBUF"

definition get_buf :: "nat \<Rightarrow> (kernel, buf) kmon" where
  "get_buf b = kget (\<lambda>k. bufs k b)"

definition binit :: "(kernel, unit) kmon" where
  "binit = kseq [
     on_mach (initlock BCACHE_LOCK ''bcache''),
     upd_buf BHEAD (\<lambda>x. x\<lparr>b_prev := BHEAD\<rparr>),
     upd_buf BHEAD (\<lambda>x. x\<lparr>b_next := BHEAD\<rparr>),
     kfor [0..<NBUF] (\<lambda>b. kbind (get_buf BHEAD) (\<lambda>head. kseq [
       upd_buf b (\<lambda>x. x\<lparr>b_next := b_next head\<rparr>),
       upd_buf b (\<lambda>x. x\<lparr>b_prev := BHEAD\<rparr>),
       initsleeplock (SL_BUF b) ''buffer'',
       upd_buf (b_next head) (\<lambda>x. x\<lparr>b_prev := b\<rparr>),
       upd_buf BHEAD (\<lambda>x. x\<lparr>b_next := b\<rparr>)]))]"

text \<open>
  The two loops of \<open>bget\<close>: forwards for a cached block, backwards for a buffer to recycle. The list has
  at most \<open>NBUF\<close> elements besides the head.
\<close>

definition bget_cached :: "u32 \<Rightarrow> u32 \<Rightarrow> (kernel, nat option) kmon" where
  "bget_cached dev blockno =
     kbind (get_buf BHEAD) (\<lambda>head.
     kiter (NBUF + 1) (\<lambda>b.
       if b = BHEAD then kret (Inr None)
       else
       kbind (get_buf b) (\<lambda>x.
       if b_dev x = dev \<and> b_blockno x = blockno then
         kbind (upd_buf b (\<lambda>x. x\<lparr>b_refcnt := b_refcnt x + 1\<rparr>)) (\<lambda>_.
         kbind (on_mach (release BCACHE_LOCK)) (\<lambda>_.
         kret (Inr (Some b))))
       else kret (Inl (b_next x)))) (b_next head))"

definition bget_recycle :: "u32 \<Rightarrow> u32 \<Rightarrow> (kernel, nat) kmon" where
  "bget_recycle dev blockno =
     kbind (get_buf BHEAD) (\<lambda>head.
     kiter (NBUF + 1) (\<lambda>b.
       if b = BHEAD then kpanic ''bget: no buffers''
       else
       kbind (get_buf b) (\<lambda>x.
       if b_refcnt x = 0 then
         kbind (upd_buf b (\<lambda>x. x\<lparr>b_dev := dev, b_blockno := blockno, b_valid := False, b_refcnt := 1\<rparr>)) (\<lambda>_.
         kbind (on_mach (release BCACHE_LOCK)) (\<lambda>_.
         kret (Inr b)))
       else kret (Inl (b_prev x)))) (b_prev head))"

definition bget :: "u32 \<Rightarrow> u32 \<Rightarrow> (world, nat) kmon" where
  "bget dev blockno =
     kbind (atom (on_mach (acquire BCACHE_LOCK))) (\<lambda>_.
     kbind (atom (bget_cached dev blockno)) (\<lambda>r.
     case r of
       Some b \<Rightarrow> kbind (acquiresleep (SL_BUF b)) (\<lambda>_. kret b)
     | None \<Rightarrow>
         kbind (atom (bget_recycle dev blockno)) (\<lambda>b.
         kbind (acquiresleep (SL_BUF b)) (\<lambda>_. kret b))))"

definition bread :: "u32 \<Rightarrow> u32 \<Rightarrow> (world, nat) kmon" where
  "bread dev blockno =
     kbind (bget dev blockno) (\<lambda>b.
     kbind (atom (get_buf b)) (\<lambda>x.
     kbind (kwhen (\<not> b_valid x) (kseq [
       virtio_disk_rw b False,
       atom (upd_buf b (\<lambda>x. x\<lparr>b_valid := True\<rparr>))])) (\<lambda>_.
     kret b)))"

definition bwrite :: "nat \<Rightarrow> (world, unit) kmon" where
  "bwrite b =
     kbind (atom (holdingsleep (SL_BUF b))) (\<lambda>h.
     if \<not> h then kpanic ''bwrite''
     else virtio_disk_rw b True)"

text \<open>Unlinking of a buffer and its insertion behind the head.\<close>

definition brelse_move :: "nat \<Rightarrow> (kernel, unit) kmon" where
  "brelse_move b =
     kbind (get_buf b) (\<lambda>x.
     kbind (upd_buf (b_next x) (\<lambda>y. y\<lparr>b_prev := b_prev x\<rparr>)) (\<lambda>_.
     kbind (get_buf b) (\<lambda>x.
     kbind (upd_buf (b_prev x) (\<lambda>y. y\<lparr>b_next := b_next x\<rparr>)) (\<lambda>_.
     kbind (get_buf BHEAD) (\<lambda>head. kseq [
       upd_buf b (\<lambda>y. y\<lparr>b_next := b_next head\<rparr>),
       upd_buf b (\<lambda>y. y\<lparr>b_prev := BHEAD\<rparr>),
       upd_buf (b_next head) (\<lambda>y. y\<lparr>b_prev := b\<rparr>),
       upd_buf BHEAD (\<lambda>y. y\<lparr>b_next := b\<rparr>)])))))"

definition brelse :: "nat \<Rightarrow> (kernel, unit) kmon" where
  "brelse b =
     kbind (holdingsleep (SL_BUF b)) (\<lambda>h.
     if \<not> h then kpanic ''brelse''
     else
     kbind (releasesleep (SL_BUF b)) (\<lambda>_.
     kbind (on_mach (acquire BCACHE_LOCK)) (\<lambda>_.
     kbind (upd_buf b (\<lambda>x. x\<lparr>b_refcnt := b_refcnt x - 1\<rparr>)) (\<lambda>_.
     kbind (get_buf b) (\<lambda>x.
     kbind (kwhen (b_refcnt x = 0) (brelse_move b)) (\<lambda>_.
     on_mach (release BCACHE_LOCK)))))))"

definition bpin :: "nat \<Rightarrow> (kernel, unit) kmon" where
  "bpin b = kseq [
     on_mach (acquire BCACHE_LOCK),
     upd_buf b (\<lambda>x. x\<lparr>b_refcnt := b_refcnt x + 1\<rparr>),
     on_mach (release BCACHE_LOCK)]"

definition bunpin :: "nat \<Rightarrow> (kernel, unit) kmon" where
  "bunpin b = kseq [
     on_mach (acquire BCACHE_LOCK),
     upd_buf b (\<lambda>x. x\<lparr>b_refcnt := b_refcnt x - 1\<rparr>),
     on_mach (release BCACHE_LOCK)]"

end
