(* ===== verification/Log.thy ===== *)
theory Log
  imports Bio
begin

text \<open>
  The write-ahead log (\<open>kernel/log.c\<close>). A header block on disk holds the count \<open>n\<close> and the home block
  numbers of the logged blocks, as 32-bit words at offsets 0, 4, 8, ...; the blocks themselves follow.
\<close>

text \<open>A loop whose counter is an \<open>int\<close> makes at most \<open>2^31\<close> rounds before the counter overflows.\<close>

abbreviation (input) INT_ROUNDS :: nat where "INT_ROUNDS \<equiv> 2147483648"

section \<open>The header on disk\<close>

definition lh_get_n :: "bytes \<Rightarrow> int" where
  "lh_get_n d = sint (ld32 d 0)"

definition lh_get_block :: "bytes \<Rightarrow> nat \<Rightarrow> u32" where
  "lh_get_block d i = ld32 d (4 + 4 * i)"

definition read_head :: "(world, unit) kmon" where
  "read_head =
     kbind (atom (kget klog)) (\<lambda>l.
     kbind (bread (of_int (log_dev l)) (of_int (log_start l))) (\<lambda>b.
     kbind (atom (get_buf b)) (\<lambda>x.
     kbind (atom (upd_klog (\<lambda>l. l\<lparr>lh_n := lh_get_n (b_data x)\<rparr>))) (\<lambda>_.
     kbind (atom (kfor [0..<nat (lh_get_n (b_data x))] (\<lambda>i.
       upd_klog (\<lambda>l. l\<lparr>lh_block := (lh_block l)(i := lh_get_block (b_data x) i)\<rparr>)))) (\<lambda>_.
     atom (brelse b))))))"

definition write_head :: "(world, unit) kmon" where
  "write_head =
     kbind (atom (kget klog)) (\<lambda>l.
     kbind (bread (of_int (log_dev l)) (of_int (log_start l))) (\<lambda>b.
     kbind (atom (kget klog)) (\<lambda>l.
     kbind (atom (upd_buf b (\<lambda>x. x\<lparr>b_data := st32 (b_data x) 0 (of_int (lh_n l))\<rparr>))) (\<lambda>_.
     kbind (atom (kfor [0..<nat (lh_n l)] (\<lambda>i.
       upd_buf b (\<lambda>x. x\<lparr>b_data := st32 (b_data x) (4 + 4 * i) (lh_block l i)\<rparr>)))) (\<lambda>_.
     kbind (bwrite b) (\<lambda>_.
     atom (brelse b)))))))"

section \<open>Installing and writing\<close>

definition install_trans :: "bool \<Rightarrow> (world, unit) kmon" where
  "install_trans recovering =
     kiter INT_ROUNDS (\<lambda>tail.
       kbind (atom (kget klog)) (\<lambda>l.
       if tail < lh_n l then
         kbind (bread (of_int (log_dev l)) (of_int (log_start l + tail + 1))) (\<lambda>lbuf.
         kbind (atom (kget klog)) (\<lambda>l.
         kbind (bread (of_int (log_dev l)) (lh_block l (nat tail))) (\<lambda>dbuf.
         kbind (atom (get_buf lbuf)) (\<lambda>lb.
         kbind (atom (upd_buf dbuf (\<lambda>x. x\<lparr>b_data := memmove_from (b_data x) 0 (b_data lb) 0 BSIZE\<rparr>))) (\<lambda>_.
         kbind (bwrite dbuf) (\<lambda>_.
         kbind (kwhen (\<not> recovering) (atom (bunpin dbuf))) (\<lambda>_.
         kbind (atom (brelse lbuf)) (\<lambda>_.
         kbind (atom (brelse dbuf)) (\<lambda>_.
         kret (Inl (tail + 1)))))))))))
       else kret (Inr ()))) 0"

definition recover_from_log :: "(world, unit) kmon" where
  "recover_from_log = kseq [
     read_head,
     install_trans True,
     atom (upd_klog (\<lambda>l. l\<lparr>lh_n := 0\<rparr>)),
     write_head]"

text \<open>The size of \<open>struct logheader\<close>: a count and \<open>LOGSIZE\<close> block numbers of four bytes.\<close>

definition initlog :: "int \<Rightarrow> superblock \<Rightarrow> (world, unit) kmon" where
  "initlog dev sbk =
     (if 4 + 4 * LOGSIZE \<ge> BSIZE then kpanic ''initlog: too big logheader''
      else kseq [
        atom (on_mach (initlock LOG_LOCK ''log'')),
        atom (upd_klog (\<lambda>l. l\<lparr>log_start := sint (sb_logstart sbk)\<rparr>)),
        atom (upd_klog (\<lambda>l. l\<lparr>log_size := sint (sb_nlog sbk)\<rparr>)),
        atom (upd_klog (\<lambda>l. l\<lparr>log_dev := dev\<rparr>)),
        recover_from_log])"

definition write_log :: "(world, unit) kmon" where
  "write_log =
     kiter INT_ROUNDS (\<lambda>tail.
       kbind (atom (kget klog)) (\<lambda>l.
       if tail < lh_n l then
         kbind (bread (of_int (log_dev l)) (of_int (log_start l + tail + 1))) (\<lambda>dst.
         kbind (atom (kget klog)) (\<lambda>l.
         kbind (bread (of_int (log_dev l)) (lh_block l (nat tail))) (\<lambda>src.
         kbind (atom (get_buf src)) (\<lambda>x.
         kbind (atom (upd_buf dst (\<lambda>y. y\<lparr>b_data := memmove_from (b_data y) 0 (b_data x) 0 BSIZE\<rparr>))) (\<lambda>_.
         kbind (bwrite dst) (\<lambda>_.
         kbind (atom (brelse src)) (\<lambda>_.
         kbind (atom (brelse dst)) (\<lambda>_.
         kret (Inl (tail + 1))))))))))
       else kret (Inr ()))) 0"

definition commit :: "(world, unit) kmon" where
  "commit =
     kbind (atom (kget klog)) (\<lambda>l.
     kwhen (lh_n l > 0) (kseq [
       write_log,
       write_head,
       install_trans False,
       atom (upd_klog (\<lambda>l. l\<lparr>lh_n := 0\<rparr>)),
       write_head]))"

section \<open>Transactions\<close>

definition begin_op :: "(world, unit) kmon" where
  "begin_op =
     kbind (atom (on_mach (acquire LOG_LOCK))) (\<lambda>_.
     kbind (kget resumptions) (\<lambda>n.
     kiter (n + 1) (\<lambda>_.
       kbind (atom (kget klog)) (\<lambda>l.
       if log_committing l then kbind (sleep CH_LOG LOG_LOCK) (\<lambda>_. kret (Inl ()))
       else if lh_n l + (log_outstanding l + 1) * int MAXOPBLOCKS > int LOGSIZE then
         kbind (sleep CH_LOG LOG_LOCK) (\<lambda>_. kret (Inl ()))
       else
         kbind (atom (upd_klog (\<lambda>l. l\<lparr>log_outstanding := log_outstanding l + 1\<rparr>))) (\<lambda>_.
         kbind (atom (on_mach (release LOG_LOCK))) (\<lambda>_.
         kret (Inr ()))))) ()))"

definition end_op :: "(world, unit) kmon" where
  "end_op =
     kbind (atom (on_mach (acquire LOG_LOCK))) (\<lambda>_.
     kbind (atom (upd_klog (\<lambda>l. l\<lparr>log_outstanding := log_outstanding l - 1\<rparr>))) (\<lambda>_.
     kbind (atom (kget klog)) (\<lambda>l.
     if log_committing l then kpanic ''log.committing''
     else
     let do_commit = (log_outstanding l = 0) in
     kbind (if do_commit then atom (upd_klog (\<lambda>l. l\<lparr>log_committing := True\<rparr>))
            else atom (wakeup CH_LOG)) (\<lambda>_.
     kbind (atom (on_mach (release LOG_LOCK))) (\<lambda>_.
     kwhen do_commit (kseq [
       commit,
       atom (on_mach (acquire LOG_LOCK)),
       atom (upd_klog (\<lambda>l. l\<lparr>log_committing := False\<rparr>)),
       atom (wakeup CH_LOG),
       atom (on_mach (release LOG_LOCK))]))))))"

text \<open>The index at which \<open>log_write\<close> records the block: where it already is, or the end.\<close>

fun log_index :: "(nat \<Rightarrow> u32) \<Rightarrow> u32 \<Rightarrow> nat list \<Rightarrow> nat \<Rightarrow> nat" where
  "log_index blk b [] n = n"
| "log_index blk b (i # is) n = (if blk i = b then i else log_index blk b is n)"

definition log_write :: "nat \<Rightarrow> (kernel, unit) kmon" where
  "log_write b =
     kbind (on_mach (acquire LOG_LOCK)) (\<lambda>_.
     kbind (kget klog) (\<lambda>l.
     if lh_n l \<ge> int LOGSIZE \<or> lh_n l \<ge> log_size l - 1 then kpanic ''too big a transaction''
     else if log_outstanding l < 1 then kpanic ''log_write outside of trans''
     else
     kbind (get_buf b) (\<lambda>x.
     let i = log_index (lh_block l) (b_blockno x) [0..<nat (lh_n l)] (nat (lh_n l)) in
     kbind (upd_klog (\<lambda>l. l\<lparr>lh_block := (lh_block l)(i := b_blockno x)\<rparr>)) (\<lambda>_.
     kbind (kwhen (int i = lh_n l) (kseq [
       bpin b,
       upd_klog (\<lambda>l. l\<lparr>lh_n := lh_n l + 1\<rparr>)])) (\<lambda>_.
     on_mach (release LOG_LOCK))))))"

end
