(* ===== verification/Inode.thy ===== *)
theory Inode
  imports Log
begin

text \<open>
  The lower layers of the file system (\<open>kernel/fs.c\<close>): super block, the block allocator over the free
  map, the inode table with its reference counts, the map from file offsets to blocks, truncation,
  and reading and writing of file content. Directories and paths are in theory Dir.
\<close>

section \<open>Structures on disk (kernel/fs.h)\<close>

definition decode_sb :: "bytes \<Rightarrow> superblock" where
  "decode_sb d = \<lparr>sb_magic = ld32 d 0, sb_size = ld32 d 4, sb_nblocks = ld32 d 8, sb_ninodes = ld32 d 12,
     sb_nlog = ld32 d 16, sb_logstart = ld32 d 20, sb_inodestart = ld32 d 24, sb_bmapstart = ld32 d 28\<rparr>"

text \<open>Offsets of the fields of \<open>struct dinode\<close>, of 64 bytes, in the block that holds inode \<open>inum\<close>.\<close>

definition dinode_at :: "u32 \<Rightarrow> nat" where
  "dinode_at inum = 64 * unat (inum mod IPB)"

abbreviation (input) DI_TYPE :: nat where "DI_TYPE \<equiv> 0"
abbreviation (input) DI_MAJOR :: nat where "DI_MAJOR \<equiv> 2"
abbreviation (input) DI_MINOR :: nat where "DI_MINOR \<equiv> 4"
abbreviation (input) DI_NLINK :: nat where "DI_NLINK \<equiv> 6"
abbreviation (input) DI_SIZE :: nat where "DI_SIZE \<equiv> 8"
abbreviation (input) DI_ADDRS :: nat where "DI_ADDRS \<equiv> 12"

section \<open>Blocks\<close>

definition readsb :: "int \<Rightarrow> (world, unit) kmon" where
  "readsb dev =
     kbind (bread (of_int dev) 1) (\<lambda>bp.
     kbind (atom (get_buf bp)) (\<lambda>x.
     kbind (atom (kmod (\<lambda>k. k\<lparr>sb := decode_sb (b_data x)\<rparr>))) (\<lambda>_.
     atom (brelse bp))))"

definition fsinit :: "int \<Rightarrow> (world, unit) kmon" where
  "fsinit dev =
     kbind (readsb dev) (\<lambda>_.
     kbind (atom (kget sb)) (\<lambda>s.
     if sb_magic s \<noteq> FSMAGIC then kpanic ''invalid file system''
     else initlog dev s))"

definition bzero :: "int \<Rightarrow> int \<Rightarrow> (world, unit) kmon" where
  "bzero dev bno =
     kbind (bread (of_int dev) (of_int bno)) (\<lambda>bp. kseq [
       atom (upd_buf bp (\<lambda>x. x\<lparr>b_data := memset (b_data x) 0 0 BSIZE\<rparr>)),
       atom (log_write bp),
       atom (brelse bp)])"

text \<open>The bit of the free map for block \<open>bi\<close> of its map block.\<close>

definition map_bit :: "nat \<Rightarrow> u8" where
  "map_bit bi = push_bit (bi mod 8) 1"

text \<open>The inner loop of \<open>balloc\<close>: the first clear bit of the map block that covers blocks \<open>b ..< b + BPB\<close>.\<close>

fun balloc_scan :: "bytes \<Rightarrow> int \<Rightarrow> u32 \<Rightarrow> nat list \<Rightarrow> nat option" where
  "balloc_scan d b fsz [] = None"
| "balloc_scan d b fsz (bi # bis) =
     (if \<not> (of_int (b + int bi) < fsz) then None
      else if d (bi div 8) AND map_bit bi = 0 then Some bi
      else balloc_scan d b fsz bis)"

definition balloc :: "u32 \<Rightarrow> (world, u32) kmon" where
  "balloc dev =
     kiter INT_ROUNDS (\<lambda>b.
       kbind (atom (kget sb)) (\<lambda>s.
       if (of_int b :: u32) < sb_size s then
         kbind (bread dev (BBLOCK (of_int b) s)) (\<lambda>bp.
         kbind (atom (get_buf bp)) (\<lambda>x.
         case balloc_scan (b_data x) b (sb_size s) [0..<BPB] of
           Some bi \<Rightarrow>
             kbind (atom (upd_buf bp (\<lambda>x. x\<lparr>b_data := (b_data x)(bi div 8 := b_data x (bi div 8) OR map_bit bi)\<rparr>))) (\<lambda>_.
             kbind (atom (log_write bp)) (\<lambda>_.
             kbind (atom (brelse bp)) (\<lambda>_.
             kbind (bzero (sint dev) (b + int bi)) (\<lambda>_.
             kret (Inr (of_int (b + int bi)))))))
         | None \<Rightarrow> kbind (atom (brelse bp)) (\<lambda>_. kret (Inl (b + BPB)))))
       else kpanic ''balloc: out of blocks'')) 0"

definition bfree :: "int \<Rightarrow> u32 \<Rightarrow> (world, unit) kmon" where
  "bfree dev b =
     kbind (atom (kget sb)) (\<lambda>s.
     kbind (bread (of_int dev) (BBLOCK b s)) (\<lambda>bp.
     let bi = unat (b mod BPB) in
     kbind (atom (get_buf bp)) (\<lambda>x.
     if b_data x (bi div 8) AND map_bit bi = 0 then kpanic ''freeing free block''
     else kseq [
       atom (upd_buf bp (\<lambda>x. x\<lparr>b_data := (b_data x)(bi div 8 := b_data x (bi div 8) AND NOT (map_bit bi))\<rparr>)),
       atom (log_write bp),
       atom (brelse bp)])))"

section \<open>The inode table\<close>

definition get_inode :: "nat \<Rightarrow> (kernel, inode) kmon" where
  "get_inode ip = kget (\<lambda>k. inodes k ip)"

definition iinit :: "(kernel, unit) kmon" where
  "iinit = kseq [
     on_mach (initlock ITABLE_LOCK ''itable''),
     kfor [0..<NINODE] (\<lambda>i. initsleeplock (SL_INODE i) ''inode'')]"

text \<open>The scan of \<open>iget\<close>: the entry of the inode, else the first empty entry seen.\<close>

fun iget_scan :: "(nat \<Rightarrow> inode) \<Rightarrow> u32 \<Rightarrow> u32 \<Rightarrow> nat list \<Rightarrow> nat option \<Rightarrow> nat option + nat" where
  "iget_scan tab dev inum [] emp = Inl emp"
| "iget_scan tab dev inum (ip # ips) emp =
     (if i_ref (tab ip) > 0 \<and> i_dev (tab ip) = dev \<and> i_inum (tab ip) = inum then Inr ip
      else iget_scan tab dev inum ips
        (if emp = None \<and> i_ref (tab ip) = 0 then Some ip else emp))"

definition iget :: "u32 \<Rightarrow> u32 \<Rightarrow> (kernel, nat) kmon" where
  "iget dev inum =
     kbind (on_mach (acquire ITABLE_LOCK)) (\<lambda>_.
     kbind (kget inodes) (\<lambda>tab.
     case iget_scan tab dev inum [0..<NINODE] None of
       Inr ip \<Rightarrow>
         kbind (upd_inode ip (\<lambda>x. x\<lparr>i_ref := i_ref x + 1\<rparr>)) (\<lambda>_.
         kbind (on_mach (release ITABLE_LOCK)) (\<lambda>_.
         kret ip))
     | Inl None \<Rightarrow> kpanic ''iget: no inodes''
     | Inl (Some ip) \<Rightarrow>
         kbind (upd_inode ip (\<lambda>x. x\<lparr>i_dev := dev, i_inum := inum, i_ref := 1, i_valid := False\<rparr>)) (\<lambda>_.
         kbind (on_mach (release ITABLE_LOCK)) (\<lambda>_.
         kret ip))))"

definition ialloc :: "u32 \<Rightarrow> u16 \<Rightarrow> (world, nat) kmon" where
  "ialloc dev type =
     kiter INT_ROUNDS (\<lambda>inum.
       kbind (atom (kget sb)) (\<lambda>s.
       if (of_int inum :: u32) < sb_ninodes s then
         kbind (bread dev (IBLOCK (of_int inum) s)) (\<lambda>bp.
         kbind (atom (get_buf bp)) (\<lambda>x.
         let dip = dinode_at (of_int inum) in
         if ld16 (b_data x) (dip + DI_TYPE) = 0 then
           kbind (atom (upd_buf bp (\<lambda>x. x\<lparr>b_data := memset (b_data x) dip 0 64\<rparr>))) (\<lambda>_.
           kbind (atom (upd_buf bp (\<lambda>x. x\<lparr>b_data := st16 (b_data x) (dip + DI_TYPE) type\<rparr>))) (\<lambda>_.
           kbind (atom (log_write bp)) (\<lambda>_.
           kbind (atom (brelse bp)) (\<lambda>_.
           kbind (atom (iget dev (of_int inum))) (\<lambda>ip.
           kret (Inr ip))))))
         else kbind (atom (brelse bp)) (\<lambda>_. kret (Inl (inum + 1)))))
       else kpanic ''ialloc: no inodes'')) 1"

text \<open>The in-memory inode as a \<open>struct dinode\<close> at offset \<open>dip\<close> of a block, and back.\<close>

fun store_addrs :: "bytes \<Rightarrow> nat \<Rightarrow> (nat \<Rightarrow> u32) \<Rightarrow> nat list \<Rightarrow> bytes" where
  "store_addrs d a addrs [] = d"
| "store_addrs d a addrs (i # is) = store_addrs (st32 d (a + 4 * i) (addrs i)) a addrs is"

definition encode_dinode :: "bytes \<Rightarrow> nat \<Rightarrow> inode \<Rightarrow> bytes" where
  "encode_dinode d dip ip =
     (let d = st16 d (dip + DI_TYPE) (i_type ip);
          d = st16 d (dip + DI_MAJOR) (i_major ip);
          d = st16 d (dip + DI_MINOR) (i_minor ip);
          d = st16 d (dip + DI_NLINK) (i_nlink ip);
          d = st32 d (dip + DI_SIZE) (i_size ip)
      in store_addrs d (dip + DI_ADDRS) (i_addrs ip) [0..<NDIRECT + 1])"

definition decode_dinode :: "bytes \<Rightarrow> nat \<Rightarrow> inode \<Rightarrow> inode" where
  "decode_dinode d dip ip = ip\<lparr>
     i_type := ld16 d (dip + DI_TYPE),
     i_major := ld16 d (dip + DI_MAJOR),
     i_minor := ld16 d (dip + DI_MINOR),
     i_nlink := ld16 d (dip + DI_NLINK),
     i_size := ld32 d (dip + DI_SIZE),
     i_addrs := (\<lambda>i. if i < NDIRECT + 1 then ld32 d (dip + DI_ADDRS + 4 * i) else i_addrs ip i)\<rparr>"

definition iupdate :: "nat \<Rightarrow> (world, unit) kmon" where
  "iupdate ip =
     kbind (atom (get_inode ip)) (\<lambda>i.
     kbind (atom (kget sb)) (\<lambda>s.
     kbind (bread (i_dev i) (IBLOCK (i_inum i) s)) (\<lambda>bp.
     kbind (atom (get_inode ip)) (\<lambda>i. kseq [
       atom (upd_buf bp (\<lambda>x. x\<lparr>b_data := encode_dinode (b_data x) (dinode_at (i_inum i)) i\<rparr>)),
       atom (log_write bp),
       atom (brelse bp)]))))"

definition idup :: "nat \<Rightarrow> (kernel, nat) kmon" where
  "idup ip =
     kbind (on_mach (acquire ITABLE_LOCK)) (\<lambda>_.
     kbind (upd_inode ip (\<lambda>x. x\<lparr>i_ref := i_ref x + 1\<rparr>)) (\<lambda>_.
     kbind (on_mach (release ITABLE_LOCK)) (\<lambda>_.
     kret ip)))"

definition ilock :: "nat option \<Rightarrow> (world, unit) kmon" where
  "ilock ipo = (case ipo of
       None \<Rightarrow> kpanic ''ilock''
     | Some ip \<Rightarrow>
         kbind (atom (get_inode ip)) (\<lambda>i.
         if i_ref i < 1 then kpanic ''ilock''
         else
         kbind (acquiresleep (SL_INODE ip)) (\<lambda>_.
         kbind (atom (get_inode ip)) (\<lambda>i.
         if i_valid i then kret ()
         else
         kbind (atom (kget sb)) (\<lambda>s.
         kbind (bread (i_dev i) (IBLOCK (i_inum i) s)) (\<lambda>bp.
         kbind (atom (get_buf bp)) (\<lambda>x.
         kbind (atom (upd_inode ip (\<lambda>i. decode_dinode (b_data x) (dinode_at (i_inum i)) i))) (\<lambda>_.
         kbind (atom (brelse bp)) (\<lambda>_.
         kbind (atom (upd_inode ip (\<lambda>i. i\<lparr>i_valid := True\<rparr>))) (\<lambda>_.
         kbind (atom (get_inode ip)) (\<lambda>i.
         if i_type i = 0 then kpanic ''ilock: no type'' else kret ())))))))))))"

definition iunlock :: "nat option \<Rightarrow> (kernel, unit) kmon" where
  "iunlock ipo = (case ipo of
       None \<Rightarrow> kpanic ''iunlock''
     | Some ip \<Rightarrow>
         kbind (holdingsleep (SL_INODE ip)) (\<lambda>h.
         kbind (get_inode ip) (\<lambda>i.
         if \<not> h \<or> i_ref i < 1 then kpanic ''iunlock''
         else releasesleep (SL_INODE ip))))"

section \<open>Inode content\<close>

definition bmap :: "nat \<Rightarrow> u32 \<Rightarrow> (world, u32) kmon" where
  "bmap ip bn =
     kbind (atom (get_inode ip)) (\<lambda>i.
     if bn < NDIRECT then
       (let addr = i_addrs i (unat bn) in
       if addr = 0 then
         kbind (balloc (i_dev i)) (\<lambda>addr.
         kbind (atom (upd_inode ip (\<lambda>i. i\<lparr>i_addrs := (i_addrs i)(unat bn := addr)\<rparr>))) (\<lambda>_.
         kret addr))
       else kret addr)
     else
     let bn = bn - NDIRECT in
     if bn < NINDIRECT then
       kbind (let addr = i_addrs i NDIRECT in
         if addr = 0 then
           kbind (balloc (i_dev i)) (\<lambda>addr.
           kbind (atom (upd_inode ip (\<lambda>i. i\<lparr>i_addrs := (i_addrs i)(NDIRECT := addr)\<rparr>))) (\<lambda>_.
           kret addr))
         else kret addr) (\<lambda>addr.
       kbind (bread (i_dev i) addr) (\<lambda>bp.
       kbind (atom (get_buf bp)) (\<lambda>x.
       let addr = ld32 (b_data x) (4 * unat bn) in
       kbind (if addr = 0 then
           kbind (balloc (i_dev i)) (\<lambda>addr.
           kbind (atom (upd_buf bp (\<lambda>x. x\<lparr>b_data := st32 (b_data x) (4 * unat bn) addr\<rparr>))) (\<lambda>_.
           kbind (atom (log_write bp)) (\<lambda>_.
           kret addr)))
         else kret addr) (\<lambda>addr.
       kbind (atom (brelse bp)) (\<lambda>_.
       kret addr)))))
     else kpanic ''bmap: out of range'')"

definition itrunc :: "nat \<Rightarrow> (world, unit) kmon" where
  "itrunc ip =
     kbind (kfor [0..<NDIRECT] (\<lambda>n.
       kbind (atom (get_inode ip)) (\<lambda>i.
       kwhen (i_addrs i n \<noteq> 0) (kseq [
         bfree (sint (i_dev i)) (i_addrs i n),
         atom (upd_inode ip (\<lambda>i. i\<lparr>i_addrs := (i_addrs i)(n := 0)\<rparr>))])))) (\<lambda>_.
     kbind (atom (get_inode ip)) (\<lambda>i.
     kbind (kwhen (i_addrs i NDIRECT \<noteq> 0) (
       kbind (bread (i_dev i) (i_addrs i NDIRECT)) (\<lambda>bp.
       kbind (kfor [0..<NINDIRECT] (\<lambda>j.
         kbind (atom (get_buf bp)) (\<lambda>x.
         kwhen (ld32 (b_data x) (4 * j) \<noteq> 0)
           (bfree (sint (i_dev i)) (ld32 (b_data x) (4 * j)))))) (\<lambda>_. kseq [
       atom (brelse bp),
       bfree (sint (i_dev i)) (i_addrs i NDIRECT),
       atom (upd_inode ip (\<lambda>i. i\<lparr>i_addrs := (i_addrs i)(NDIRECT := 0)\<rparr>))])))) (\<lambda>_. kseq [
     atom (upd_inode ip (\<lambda>i. i\<lparr>i_size := 0\<rparr>)),
     iupdate ip])))"

definition iput :: "nat \<Rightarrow> (world, unit) kmon" where
  "iput ip =
     kbind (atom (on_mach (acquire ITABLE_LOCK))) (\<lambda>_.
     kbind (atom (get_inode ip)) (\<lambda>i.
     kbind (kwhen (i_ref i = 1 \<and> i_valid i \<and> i_nlink i = 0) (kseq [
       acquiresleep (SL_INODE ip),
       atom (on_mach (release ITABLE_LOCK)),
       itrunc ip,
       atom (upd_inode ip (\<lambda>i. i\<lparr>i_type := 0\<rparr>)),
       iupdate ip,
       atom (upd_inode ip (\<lambda>i. i\<lparr>i_valid := False\<rparr>)),
       atom (releasesleep (SL_INODE ip)),
       atom (on_mach (acquire ITABLE_LOCK))])) (\<lambda>_. kseq [
     atom (upd_inode ip (\<lambda>i. i\<lparr>i_ref := i_ref i - 1\<rparr>)),
     atom (on_mach (release ITABLE_LOCK))])))"

definition iunlockput :: "nat \<Rightarrow> (world, unit) kmon" where
  "iunlockput ip = kseq [
     atom (iunlock (Some ip)),
     iput ip]"

text \<open>
  \<open>struct stat\<close> (24 bytes) with the fields set in the bytes \<open>st\<close> of the caller's variable; the four
  bytes of padding before \<open>size\<close> keep what was there.
\<close>

definition stati :: "nat \<Rightarrow> bytes \<Rightarrow> (kernel, bytes) kmon" where
  "stati ip st =
     kbind (get_inode ip) (\<lambda>i.
     let st = st32 st 0 (i_dev i);
         st = st32 st 4 (i_inum i);
         st = st16 st 8 (i_type i);
         st = st16 st 10 (i_nlink i);
         st = st64 st 16 (ucast (i_size i))
     in kret st)"

text \<open>\<open>min(n - tot, BSIZE - off%BSIZE)\<close>: what is left of the request or of the block.\<close>

definition rw_chunk :: "u32 \<Rightarrow> u32 \<Rightarrow> u32 \<Rightarrow> u32" where
  "rw_chunk n tot off = min (n - tot) (BSIZE - off mod BSIZE)"

text \<open>Each round of the loops of \<open>readi\<close> and \<open>writei\<close> adds at least one byte to \<open>tot\<close>.\<close>

definition readi :: "nat \<Rightarrow> kptr \<Rightarrow> bytes \<Rightarrow> u32 \<Rightarrow> u32 \<Rightarrow> (world, int \<times> bytes) kmon" where
  "readi ip dst lbuf off n =
     kbind (atom (get_inode ip)) (\<lambda>i.
     if off > i_size i \<or> off + n < off then kret (0, lbuf)
     else
     let n = (if off + n > i_size i then i_size i - off else n) in
     kbind (kiter (unat n + 1) (\<lambda>(tot, off, dst, lbuf).
       if tot < n then
         kbind (bmap ip (off div BSIZE)) (\<lambda>addr.
         kbind (atom (get_inode ip)) (\<lambda>i.
         kbind (bread (i_dev i) addr) (\<lambda>bp.
         let m = rw_chunk n tot off in
         kbind (atom (get_buf bp)) (\<lambda>x.
         kbind (atom (either_copyout dst lbuf (\<lambda>j. b_data x (unat (off mod BSIZE) + j)) (ucast m))) (\<lambda>(r, lbuf).
         if r = -1 then kbind (atom (brelse bp)) (\<lambda>_. kret (Inr (-1, lbuf)))
         else
         kbind (atom (brelse bp)) (\<lambda>_.
         kret (Inl (tot + m, off + m, kptr_add dst (ucast m), lbuf))))))))
       else kret (Inr (tot, lbuf))) (0, off, dst, lbuf)) (\<lambda>(tot, lbuf).
     kret (sint tot, lbuf)))"

definition writei :: "nat \<Rightarrow> kptr \<Rightarrow> bytes \<Rightarrow> u32 \<Rightarrow> u32 \<Rightarrow> (world, int) kmon" where
  "writei ip src lbuf off n =
     kbind (atom (get_inode ip)) (\<lambda>i.
     if off > i_size i \<or> off + n < off then kret (-1)
     else if off + n > MAXFILE * BSIZE then kret (-1)
     else
     kbind (kiter (unat n + 1) (\<lambda>(tot, off, src).
       if tot < n then
         kbind (bmap ip (off div BSIZE)) (\<lambda>addr.
         kbind (atom (get_inode ip)) (\<lambda>i.
         kbind (bread (i_dev i) addr) (\<lambda>bp.
         let m = rw_chunk n tot off in
         kbind (atom (get_buf bp)) (\<lambda>x.
         kbind (atom (either_copyin (b_data x) (unat (off mod BSIZE)) src lbuf (ucast m))) (\<lambda>(r, d).
         kbind (atom (upd_buf bp (\<lambda>x. x\<lparr>b_data := d\<rparr>))) (\<lambda>_.
         if r = -1 then kbind (atom (brelse bp)) (\<lambda>_. kret (Inr (tot, off)))
         else
         kbind (atom (log_write bp)) (\<lambda>_.
         kbind (atom (brelse bp)) (\<lambda>_.
         kret (Inl (tot + m, off + m, kptr_add src (ucast m)))))))))))
       else kret (Inr (tot, off))) (0, off, src)) (\<lambda>(tot, off).
     kbind (atom (get_inode ip)) (\<lambda>i.
     kbind (kwhen (off > i_size i) (atom (upd_inode ip (\<lambda>i. i\<lparr>i_size := off\<rparr>)))) (\<lambda>_.
     kbind (iupdate ip) (\<lambda>_.
     kret (sint tot))))))"

end
