(* ===== verification/Dir.thy ===== *)
theory Dir
  imports Inode
begin

text \<open>
  Directories and path names (\<open>kernel/fs.c\<close>). A path is the list of its bytes before the terminating
  NUL; the buffer for a path element is an array of \<open>DIRSIZ\<close> bytes.
\<close>

section \<open>Directories\<close>

definition namecmp :: "bytes \<Rightarrow> bytes \<Rightarrow> int" where
  "namecmp s t = strncmp s t (of_nat DIRSIZ)"

text \<open>\<open>struct dirent\<close> is 16 bytes: the inode number and \<open>DIRSIZ\<close> bytes of name.\<close>

abbreviation (input) SIZEOF_DIRENT :: "'a::numeral" where "SIZEOF_DIRENT \<equiv> 16"

definition de_inum :: "bytes \<Rightarrow> u16" where
  "de_inum de = ld16 de 0"

definition de_name :: "bytes \<Rightarrow> bytes" where
  "de_name de = (\<lambda>i. de (2 + i))"

text \<open>The inode found, with the offset of its entry (\<open>*poff\<close>).\<close>

definition dirlookup :: "nat \<Rightarrow> bytes \<Rightarrow> (world, (nat \<times> u32) option) kmon" where
  "dirlookup dp name =
     kbind (atom (get_inode dp)) (\<lambda>d.
     if i_type d \<noteq> T_DIR then kpanic ''dirlookup not DIR''
     else
     kiter INT_ROUNDS (\<lambda>off.
       kbind (atom (get_inode dp)) (\<lambda>d.
       if off < i_size d then
         kbind (readi dp (LocalP 0) (\<lambda>_. 0) off SIZEOF_DIRENT) (\<lambda>(r, de).
         if r \<noteq> SIZEOF_DIRENT then kpanic ''dirlookup read''
         else if de_inum de = 0 then kret (Inl (off + SIZEOF_DIRENT))
         else if namecmp name (de_name de) = 0 then
           kbind (atom (get_inode dp)) (\<lambda>d.
           kbind (atom (iget (i_dev d) (ucast (de_inum de)))) (\<lambda>ip.
           kret (Inr (Some (ip, off)))))
         else kret (Inl (off + SIZEOF_DIRENT)))
       else kret (Inr None))) 0)"

definition dirlink :: "nat \<Rightarrow> bytes \<Rightarrow> u32 \<Rightarrow> (world, int) kmon" where
  "dirlink dp name inum =
     kbind (dirlookup dp name) (\<lambda>r.
     case r of
       Some (ip, _) \<Rightarrow> kbind (iput ip) (\<lambda>_. kret (-1))
     | None \<Rightarrow>
         kbind (kiter INT_ROUNDS (\<lambda>(off, de).
           kbind (atom (get_inode dp)) (\<lambda>d.
           if (of_int off :: u32) < i_size d then
             kbind (readi dp (LocalP 0) de (of_int off) SIZEOF_DIRENT) (\<lambda>(r, de).
             if r \<noteq> SIZEOF_DIRENT then kpanic ''dirlink read''
             else if de_inum de = 0 then kret (Inr (off, de))
             else kret (Inl (off + SIZEOF_DIRENT, de)))
           else kret (Inr (off, de)))) (0, \<lambda>_. 0)) (\<lambda>(off, de).
         let nm = strncpy (de_name de) name (int DIRSIZ);
             de = (\<lambda>i. if i < 2 then de i else nm (i - 2));
             de = st16 de 0 (ucast inum)
         in
         kbind (writei dp (LocalP 0) de (of_int off) SIZEOF_DIRENT) (\<lambda>r.
         if r \<noteq> SIZEOF_DIRENT then kpanic ''dirlink''
         else kret 0)))"

section \<open>Paths\<close>

abbreviation (input) SLASH :: u8 where "SLASH \<equiv> 47"

text \<open>A list of bytes as an array.\<close>

definition array_of :: "u8 list \<Rightarrow> bytes" where
  "array_of xs = (\<lambda>i. if i < length xs then xs ! i else 0)"

text \<open>The rest of the path and the new contents of \<open>name\<close>.\<close>

definition skipelem :: "u8 list \<Rightarrow> bytes \<Rightarrow> (u8 list \<times> bytes) option" where
  "skipelem path name =
     (let path = dropWhile (\<lambda>c. c = SLASH) path in
      if path = [] then None
      else
      let s = path;
          path = dropWhile (\<lambda>c. c \<noteq> SLASH) path;
          len = length s - length path;
          name = (if len \<ge> DIRSIZ then memmove_from name 0 (array_of s) 0 (of_nat DIRSIZ)
                  else (memmove_from name 0 (array_of s) 0 (of_nat len))(len := 0))
      in Some (dropWhile (\<lambda>c. c = SLASH) path, name))"

text \<open>Each round of the loop of \<open>namex\<close> removes at least one byte from the path.\<close>

definition namex :: "u8 list \<Rightarrow> bool \<Rightarrow> bytes \<Rightarrow> (world, nat option \<times> bytes) kmon" where
  "namex path nameiparent name =
     kbind (if path \<noteq> [] \<and> hd path = SLASH then atom (iget ROOTDEV ROOTINO)
            else
            kbind (atom cur_proc) (\<lambda>p.
            kbind (atom (get_proc p)) (\<lambda>pr.
            case p_cwd pr of
              None \<Rightarrow> kpanic ''kerneltrap''
            | Some d \<Rightarrow> atom (idup d)))) (\<lambda>ip.
     kiter (length path + 1) (\<lambda>(path, name, ip).
       case skipelem path name of
         None \<Rightarrow>
           if nameiparent then kbind (iput ip) (\<lambda>_. kret (Inr (None, name)))
           else kret (Inr (Some ip, name))
       | Some (path, name) \<Rightarrow>
           kbind (ilock (Some ip)) (\<lambda>_.
           kbind (atom (get_inode ip)) (\<lambda>i.
           if i_type i \<noteq> T_DIR then kbind (iunlockput ip) (\<lambda>_. kret (Inr (None, name)))
           else if nameiparent \<and> path = [] then
             kbind (atom (iunlock (Some ip))) (\<lambda>_. kret (Inr (Some ip, name)))
           else
           kbind (dirlookup ip name) (\<lambda>r.
           case r of
             None \<Rightarrow> kbind (iunlockput ip) (\<lambda>_. kret (Inr (None, name)))
           | Some (nxt, _) \<Rightarrow>
               kbind (iunlockput ip) (\<lambda>_.
               kret (Inl (path, name, nxt))))))) (path, name, ip))"

definition namei :: "u8 list \<Rightarrow> (world, nat option) kmon" where
  "namei path = kbind (namex path False (\<lambda>_. 0)) (\<lambda>(ip, _). kret ip)"

definition nameiparent :: "u8 list \<Rightarrow> bytes \<Rightarrow> (world, nat option \<times> bytes) kmon" where
  "nameiparent path name = namex path True name"

end
