(* ===== verification/Ring.thy ===== *)
theory Ring
  imports Kstate
begin

text \<open>
  Ring buffers with free-running counters, as pipes, the console input and the UART's transmit buffer
  use them: a counter of bytes read and one of bytes written, both words that wrap around, and an
  array indexed by a counter modulo its size. The interface \<open>ring\<close> says how the two operations change
  the counters and the array; its lemmas show that such a buffer is a first-in-first-out queue of at
  most \<open>sz\<close> bytes, whatever the counters' values.
\<close>

section \<open>Contents\<close>

definition ring_contents :: "bytes \<Rightarrow> 'w::len word \<Rightarrow> 'w word \<Rightarrow> nat \<Rightarrow> u8 list" where
  "ring_contents d r w sz = map (\<lambda>i. d ((unat r + i) mod sz)) [0..<unat (w - r)]"

lemma length_ring_contents [simp]: "length (ring_contents d r w sz) = unat (w - r)"
  by (simp add: ring_contents_def)

lemma ring_contents_Nil [simp]: "ring_contents d r r sz = []"
  by (simp add: ring_contents_def)

lemma unat_diff_Suc:
  fixes w r :: "'w::len word"
  assumes "unat (w - r) + 1 < 2 ^ LENGTH('w)"
  shows "unat (w + 1 - r) = unat (w - r) + 1"
proof -
  have "unat (x + 1) = unat x + 1" if "unat x + 1 < 2 ^ LENGTH('w)" for x :: "'w word"
    using that by (simp add: unat_word_ariths)
  moreover have "w + 1 - r = (w - r) + 1" by simp
  ultimately show ?thesis using assms by metis
qed

lemma unat_diff_pred:
  fixes w r :: "'w::len word"
  assumes "w \<noteq> r"
  shows "unat (w - (r + 1)) = unat (w - r) - 1" and "0 < unat (w - r)"
proof -
  have "w - r \<noteq> 0" using assms by simp
  then show "0 < unat (w - r)" by (simp add: unat_gt_0)
  then have "1 \<le> unat (w - r)" by simp
  then have "unat (w - r - 1) = unat (w - r) - 1"
    using \<open>w - r \<noteq> 0\<close> by (simp add: unat_minus_one)
  then show "unat (w - (r + 1)) = unat (w - r) - 1" by (simp add: diff_diff_eq)
qed

lemma unat_add_of_nat: "unat (r + of_nat i) = (unat r + i) mod 2 ^ LENGTH('w)" for r :: "'w::len word"
  by (simp add: unat_word_ariths unat_of_nat take_bit_eq_mod mod_simps)

text \<open>The index of a counter advanced by \<open>i\<close>: the array size divides the range of the counter.\<close>

lemma unat_add_mod:
  fixes r :: "'w::len word"
  assumes "sz dvd 2 ^ LENGTH('w)"
  shows "unat (r + of_nat i) mod sz = (unat r + i) mod sz"
  using assms by (simp add: unat_add_of_nat mod_mod_cancel)

lemma slots_distinct_le:
  fixes a :: nat
  assumes "i \<le> j" "j < sz" "(a + i) mod sz = (a + j) mod sz"
  shows "i = j"
proof (rule ccontr)
  assume "i \<noteq> j"
  moreover have "sz dvd (a + j) - (a + i)"
    using assms(1,3) mod_eq_dvd_iff_nat [of "a + i" "a + j" sz] by simp
  ultimately show False
    using assms(1,2) by (auto dest: dvd_imp_le)
qed

lemma slots_distinct: "i < sz \<Longrightarrow> j < sz \<Longrightarrow> (a + i) mod sz = (a + j) mod sz \<longleftrightarrow> i = j" for a :: nat
  using slots_distinct_le [of i j sz a] slots_distinct_le [of j i sz a] by (metis nat_le_linear)

text \<open>A queue split at a counter between the two ends, and one that lost its last element.\<close>

lemma unat_diff_add:
  fixes r w e :: "'w::len word"
  assumes "unat (w - r) + unat (e - w) < 2 ^ LENGTH('w)"
  shows "unat (e - r) = unat (w - r) + unat (e - w)"
proof -
  have "e - r = (w - r) + (e - w)" by simp
  then have "unat (e - r) = (unat (w - r) + unat (e - w)) mod 2 ^ LENGTH('w)"
    by (metis unat_word_ariths(1))
  then show ?thesis using assms by simp
qed

lemma ring_contents_append:
  fixes r w e :: "'w::len word"
  assumes "unat (w - r) + unat (e - w) < 2 ^ LENGTH('w)" and "sz dvd 2 ^ LENGTH('w)"
  shows "ring_contents d r e sz = ring_contents d r w sz @ ring_contents d w e sz"
proof -
  have "unat w mod sz = (unat r + unat (w - r)) mod sz"
    using unat_add_mod [OF assms(2), of r "unat (w - r)"] by simp
  then have i: "(unat w + i) mod sz = (unat r + (unat (w - r) + i)) mod sz" for i
    using mod_add_cong [of "unat w" sz "unat r + unat (w - r)" i i] by (simp only: add.assoc)
  have "[0..<a + b] = [0..<a] @ map (\<lambda>i. a + i) [0..<b]" for a b :: nat
    by (induction b) simp_all
  then show ?thesis
    by (simp add: ring_contents_def unat_diff_add [OF assms(1)] i)
qed

lemma ring_contents_butlast:
  fixes w e :: "'w::len word"
  assumes "e \<noteq> w"
  shows "ring_contents d w (e - 1) sz = butlast (ring_contents d w e sz)"
proof -
  have "unat (e - 1 - w) = unat (e - w) - 1"
    using unat_diff_pred(1) [OF assms] by (simp add: algebra_simps)
  then show ?thesis
    by (simp add: ring_contents_def butlast_conv_take take_map)
qed

section \<open>The interface\<close>

locale ring =
  fixes rd wr :: "'r \<Rightarrow> 'w::len word" and dat :: "'r \<Rightarrow> bytes"
    and put :: "u8 \<Rightarrow> 'r \<Rightarrow> 'r" and get :: "'r \<Rightarrow> 'r" and sz :: nat
  assumes sz: "0 < sz" "sz dvd 2 ^ LENGTH('w)" "sz < 2 ^ LENGTH('w)"
    and put: "rd (put x r) = rd r" "wr (put x r) = wr r + 1"
      "dat (put x r) = (dat r)(unat (wr r) mod sz := x)"
    and get: "rd (get r) = rd r + 1" "wr (get r) = wr r" "dat (get r) = dat r"
begin

abbreviation (input) contents :: "'r \<Rightarrow> u8 list" where
  "contents r \<equiv> ring_contents (dat r) (rd r) (wr r) sz"

text \<open>The counters' difference is the number of bytes; equal counters mean empty, \<open>sz\<close> apart means full.\<close>

lemma empty_iff: "contents r = [] \<longleftrightarrow> rd r = wr r"
  by (auto simp: ring_contents_def unat_eq_0)

lemma full_iff:
  assumes "length (contents r) \<le> sz"
  shows "wr r = rd r + of_nat sz \<longleftrightarrow> length (contents r) = sz"
proof -
  have "unat (of_nat sz :: 'w word) = sz" using sz(3) by (rule unat_of_nat_less)
  moreover have "wr r = rd r + of_nat sz \<longleftrightarrow> wr r - rd r = of_nat sz" by (auto simp: algebra_simps)
  ultimately show ?thesis by (simp add: word_unat_eq_iff)
qed

lemma put_contents:
  assumes "length (contents r) < sz"
  shows "contents (put x r) = contents r @ [x]"
proof -
  let ?n = "unat (wr r - rd r)"
  have n: "?n < sz" using assms by simp
  then have len: "unat (wr r + 1 - rd r) = ?n + 1" using sz(3) by (intro unat_diff_Suc) simp
  have "wr r = rd r + of_nat ?n" by simp
  then have slot: "unat (wr r) mod sz = (unat (rd r) + ?n) mod sz"
    using unat_add_mod [OF sz(2), of "rd r" ?n] by simp
  have "(unat (rd r) + i) mod sz \<noteq> (unat (rd r) + ?n) mod sz" if "i < ?n" for i
    using that n by (simp add: slots_distinct)
  then show ?thesis
    by (simp add: ring_contents_def put len slot cong: map_cong)
qed

lemma get_contents:
  assumes "contents r \<noteq> []"
  shows "contents r = dat r (unat (rd r) mod sz) # contents (get r)"
proof -
  have ne: "wr r \<noteq> rd r" using assms empty_iff by metis
  obtain n where n: "unat (wr r - rd r) = Suc n" using unat_diff_pred(2) [OF ne] by (cases "unat (wr r - rd r)") auto
  have "unat (rd r + 1) mod sz = (unat (rd r) + 1) mod sz"
    using unat_add_mod [OF sz(2), of "rd r" 1] by simp
  then have "(unat (rd r + 1) + i) mod sz = (unat (rd r) + Suc i) mod sz" for i
    by (metis (no_types, lifting) add.assoc mod_add_left_eq plus_1_eq_Suc)
  moreover have "unat (wr r - (rd r + 1)) = n" using unat_diff_pred(1) [OF ne] n by simp
  ultimately show ?thesis
    by (simp add: ring_contents_def get n upt_conv_Cons map_Suc_upt [symmetric] del: upt_Suc)
qed

lemma get_length: "contents r \<noteq> [] \<Longrightarrow> length (contents (get r)) = length (contents r) - 1"
  using get_contents by (metis length_tl list.sel(3))

text \<open>Bytes put one after the other come out in the same order.\<close>

lemma puts_contents:
  "length (contents r) + length xs \<le> sz \<Longrightarrow> contents (fold put xs r) = contents r @ xs"
proof (induction xs arbitrary: r)
  case (Cons x xs)
  have p: "contents (put x r) = contents r @ [x]" using Cons.prems by (intro put_contents) simp
  then have "length (contents (put x r)) + length xs \<le> sz" using Cons.prems by (simp only: p) simp
  then have "contents (fold put xs (put x r)) = contents (put x r) @ xs" by (rule Cons.IH)
  then show ?case by (simp add: p)
qed simp

lemma gets_contents:
  "n \<le> length (contents r) \<Longrightarrow> contents ((get ^^ n) r) = drop n (contents r)"
proof (induction n arbitrary: r)
  case (Suc n)
  then have "length (contents r) \<noteq> 0" by linarith
  then have ne: "contents r \<noteq> []" by (simp only: length_0_conv) simp
  note g = get_contents [OF ne]
  have "n \<le> length (contents (get r))" using Suc.prems g by (metis Suc_le_length_iff list.inject)
  then show ?case
    using Suc.IH g by (metis comp_apply drop_Suc_Cons funpow_Suc_right)
qed simp

lemma gets_byte:
  "n < length (contents r) \<Longrightarrow> dat ((get ^^ n) r) (unat (rd ((get ^^ n) r)) mod sz) = contents r ! n"
proof -
  assume n: "n < length (contents r)"
  then have c: "contents ((get ^^ n) r) = drop n (contents r)" by (intro gets_contents) simp
  then have "contents ((get ^^ n) r) \<noteq> []" using n by simp
  then show ?thesis
    using get_contents c n by (metis hd_drop_conv_nth list.sel(1))
qed

end

end
