(* ===== verification/Pipe.thy ===== *)
theory Pipe
  imports Proc Ring
begin

text \<open>
  Pipes (\<open>kernel/pipe.c\<close>): a ring of 512 bytes with free-running 32-bit counters. \<open>pipealloc\<close> allocates
  files and is in theory File.
\<close>

definition get_pipe :: "u64 \<Rightarrow> (kernel, pipe) kmon" where
  "get_pipe a = kget (\<lambda>k. pipes k a)"

definition pipeclose :: "u64 \<Rightarrow> bool \<Rightarrow> (kernel, unit) kmon" where
  "pipeclose a writable =
     kbind (on_mach (acquire (PIPE_LOCK a))) (\<lambda>_.
     kbind (if writable then kseq [upd_pipe a (\<lambda>x. x\<lparr>pi_writeopen := False\<rparr>), wakeup (CH_PIPE_NREAD a)]
            else kseq [upd_pipe a (\<lambda>x. x\<lparr>pi_readopen := False\<rparr>), wakeup (CH_PIPE_NWRITE a)]) (\<lambda>_.
     kbind (get_pipe a) (\<lambda>x.
     if \<not> pi_readopen x \<and> \<not> pi_writeopen x then kseq [
       on_mach (release (PIPE_LOCK a)),
       kfree a]
     else on_mach (release (PIPE_LOCK a)))))"

text \<open>Storing a byte, \<open>pi->data[pi->nwrite++ % PIPESIZE] = ch\<close>, and stepping over the next one.\<close>

definition pipe_put :: "u8 \<Rightarrow> pipe \<Rightarrow> pipe" where
  "pipe_put ch x = x\<lparr>pi_data := (pi_data x)(unat (pi_nwrite x mod PIPESIZE) := ch), pi_nwrite := pi_nwrite x + 1\<rparr>"

definition pipe_get :: "pipe \<Rightarrow> pipe" where
  "pipe_get x = x\<lparr>pi_nread := pi_nread x + 1\<rparr>"

text \<open>Each round of the loop of \<open>pipewrite\<close> stores a byte, leaves the loop, or sleeps.\<close>

definition pipewrite_body :: "u64 \<Rightarrow> nat \<Rightarrow> u64 \<Rightarrow> int \<Rightarrow> int \<Rightarrow> (world, int + int option) kmon" where
  "pipewrite_body a p addr n i =
     (if i < n then
        kbind (atom (get_pipe a)) (\<lambda>x.
        kbind (atom (get_proc p)) (\<lambda>pr.
        if \<not> pi_readopen x \<or> p_killed pr then
          kbind (atom (on_mach (release (PIPE_LOCK a)))) (\<lambda>_. kret (Inr None))
        else if pi_nwrite x = pi_nread x + PIPESIZE then
          kbind (atom (wakeup (CH_PIPE_NREAD a))) (\<lambda>_.
          kbind (sleep (CH_PIPE_NWRITE a) (PIPE_LOCK a)) (\<lambda>_.
          kret (Inl i)))
        else
          kbind (atom (copyin (p_pagetable pr) (\<lambda>_. 0) 0 (addr + of_int i) 1)) (\<lambda>(r, ch).
          if r = -1 then kret (Inr (Some i))
          else
            kbind (atom (upd_pipe a (pipe_put (ch 0)))) (\<lambda>_.
            kret (Inl (i + 1))))))
      else kret (Inr (Some i)))"

definition pipewrite :: "u64 \<Rightarrow> u64 \<Rightarrow> int \<Rightarrow> (world, int) kmon" where
  "pipewrite a addr n =
     kbind (atom cur_proc) (\<lambda>p.
     kbind (atom (on_mach (acquire (PIPE_LOCK a)))) (\<lambda>_.
     kbind (kget resumptions) (\<lambda>m.
     kbind (kiter (nat n + m + 1) (pipewrite_body a p addr n) 0) (\<lambda>r.
     case r of
       None \<Rightarrow> kret (-1)
     | Some i \<Rightarrow>
         kbind (atom (wakeup (CH_PIPE_NREAD a))) (\<lambda>_.
         kbind (atom (on_mach (release (PIPE_LOCK a)))) (\<lambda>_.
         kret i))))))"

text \<open>The two loops of \<open>piperead\<close>: waiting for data (the result says whether to give up), and copying.\<close>

definition piperead_wait :: "u64 \<Rightarrow> nat \<Rightarrow> (world, bool) kmon" where
  "piperead_wait a p =
     kbind (kget resumptions) (\<lambda>m.
     kiter (m + 1) (\<lambda>_.
       kbind (atom (get_pipe a)) (\<lambda>x.
       if pi_nread x = pi_nwrite x \<and> pi_writeopen x then
         kbind (atom (get_proc p)) (\<lambda>pr.
         if p_killed pr then
           kbind (atom (on_mach (release (PIPE_LOCK a)))) (\<lambda>_. kret (Inr True))
         else
           kbind (sleep (CH_PIPE_NREAD a) (PIPE_LOCK a)) (\<lambda>_. kret (Inl ())))
       else kret (Inr False))) ())"

definition piperead_body :: "u64 \<Rightarrow> nat \<Rightarrow> u64 \<Rightarrow> int \<Rightarrow> int \<Rightarrow> (kernel, int + int) kmon" where
  "piperead_body a p addr n i =
     (if i < n then
        kbind (get_pipe a) (\<lambda>x.
        if pi_nread x = pi_nwrite x then kret (Inr i)
        else
        let ch = pi_data x (unat (pi_nread x mod PIPESIZE)) in
        kbind (upd_pipe a pipe_get) (\<lambda>_.
        kbind (get_proc p) (\<lambda>pr.
        kbind (copyout (p_pagetable pr) (addr + of_int i) (\<lambda>_. ch) 1) (\<lambda>r.
        if r = -1 then kret (Inr i)
        else kret (Inl (i + 1))))))
      else kret (Inr i))"

definition piperead_copy :: "u64 \<Rightarrow> nat \<Rightarrow> u64 \<Rightarrow> int \<Rightarrow> (kernel, int) kmon" where
  "piperead_copy a p addr n = kiter (nat n + 1) (piperead_body a p addr n) 0"

definition piperead :: "u64 \<Rightarrow> u64 \<Rightarrow> int \<Rightarrow> (world, int) kmon" where
  "piperead a addr n =
     kbind (atom cur_proc) (\<lambda>p.
     kbind (atom (on_mach (acquire (PIPE_LOCK a)))) (\<lambda>_.
     kbind (piperead_wait a p) (\<lambda>killed.
     if killed then kret (-1)
     else
     kbind (atom (piperead_copy a p addr n)) (\<lambda>i.
     kbind (atom (wakeup (CH_PIPE_NWRITE a))) (\<lambda>_.
     kbind (atom (on_mach (release (PIPE_LOCK a)))) (\<lambda>_.
     kret i))))))"

section \<open>The queue\<close>

definition pipe_contents :: "pipe \<Rightarrow> u8 list" where
  "pipe_contents x = ring_contents (pi_data x) (pi_nread x) (pi_nwrite x) PIPESIZE"

lemma unat_mod_PIPESIZE: "unat (x mod 512 :: u32) = unat x mod 512"
  by (simp add: unat_mod)

interpretation pipe_ring: ring pi_nread pi_nwrite pi_data pipe_put pipe_get PIPESIZE
  by unfold_locales (simp_all add: pipe_put_def pipe_get_def unat_mod_PIPESIZE)

lemmas pipe_ring_laws =
  pipe_ring.empty_iff [folded pipe_contents_def] pipe_ring.full_iff [folded pipe_contents_def]
  pipe_ring.put_contents [folded pipe_contents_def] pipe_ring.get_contents [folded pipe_contents_def]

lemma pipe_put_fields [simp]:
  "pi_readopen (pipe_put ch x) = pi_readopen x" "pi_writeopen (pipe_put ch x) = pi_writeopen x"
  "pi_readopen (pipe_get x) = pi_readopen x" "pi_writeopen (pipe_get x) = pi_writeopen x"
  by (simp_all add: pipe_put_def pipe_get_def)

text \<open>The counters in terms of the queue.\<close>

lemma pipe_full: "length (pipe_contents x) < PIPESIZE \<Longrightarrow> pi_nwrite x \<noteq> pi_nread x + PIPESIZE"
  using pipe_ring_laws(2) [of x] by simp

lemma pipe_nonempty: "pipe_contents x = ch # cs \<Longrightarrow>
    pi_nread x \<noteq> pi_nwrite x \<and> pi_data x (unat (pi_nread x mod PIPESIZE)) = ch \<and> pipe_contents (pipe_get x) = cs"
  using pipe_ring_laws(1,4) [of x] by (auto simp: unat_mod_PIPESIZE)

section \<open>Writing without waiting\<close>

text \<open>The bytes of process \<open>p\<close>'s memory from address \<open>x\<close> on.\<close>

definition ubytes :: "kernel \<Rightarrow> nat \<Rightarrow> nat \<Rightarrow> nat \<Rightarrow> u8 list" where
  "ubytes k p x n = map (\<lambda>i. mem k (the (upa (mem k) (p_pagetable (proc k p)) (x + i)))) [0..<n]"

text \<open>The user may access the \<open>n\<close> bytes at \<open>x\<close>.\<close>

definition uaccess :: "kernel \<Rightarrow> nat \<Rightarrow> nat \<Rightarrow> nat \<Rightarrow> bool" where
  "uaccess k p x n \<longleftrightarrow> (\<forall>i < n. upa (mem k) (p_pagetable (proc k p)) (x + i) \<noteq> None)"

lemma unat_user_addr:
  fixes addr :: u64
  assumes "upa m r (unat addr + i) \<noteq> None"
  shows "unat (addr + of_nat i) = unat addr + i"
proof -
  have "unat addr + i < 2 ^ 38" using assms by (auto simp: upa_def split: if_splits)
  then have "unat addr + i < 2 ^ 64" by (rule less_trans) simp
  then show ?thesis by (simp add: unat_add_of_nat)
qed

lemma copyin_byte:
  assumes "pt_wf k r ps" and "upa (mem k) r (unat addr + i) \<noteq> None"
  shows "\<exists>d. copyin r dst 0 (addr + of_nat i) 1 k = Ret (0, d) k \<and> d 0 = mem k (the (upa (mem k) r (unat addr + i)))"
proof -
  obtain res where res: "copyin r dst 0 (addr + of_nat i) 1 k = Ret res k"
    "copied_in (mem k) r (unat (addr + of_nat i)) (unat (1::u64)) dst 0 res"
    using copyin_loop [OF assms(1), of 1 "unat (1::u64) + 1" "addr + of_nat i" dst 0] by (auto simp: copyin_iter)
  then show ?thesis
    using assms(2) unat_user_addr [OF assms(2)] by (cases res) (simp add: copied_in_def)
qed

lemma pt_wf_pipes [simp]: "pt_wf (k\<lparr>pipes := x\<rparr>) r ps = pt_wf k r ps" "pt_wf (k\<lparr>proc := y\<rparr>) r ps = pt_wf k r ps"
  by (simp_all add: pt_wf_def kmem_ok_def kmem_inv_def page_ok_def)

lemma pipewrite_loop:
  assumes "pt_wf k (p_pagetable (proc k p)) ps" and "pi_readopen (pipes k a)" and "\<not> p_killed (proc k p)"
    and "uaccess k p (unat addr + i) j" and "length (pipe_contents (pipes k a)) + j \<le> PIPESIZE" and "j < f"
  shows "kiter f (pipewrite_body a p addr (int (i + j))) (int i) (k, rs) =
    Ret (Some (int (i + j)))
      (k\<lparr>pipes := (pipes k)(a := fold pipe_put (ubytes k p (unat addr + i) j) (pipes k a))\<rparr>, rs)"
  using assms
proof (induction j arbitrary: i k f)
  case 0
  then obtain f' where f: "f = Suc f'" by (cases f) auto
  show ?case by (simp add: f pipewrite_body_def ubytes_def run_simps)
next
  case (Suc j)
  then obtain f' where f: "f = Suc f'" by (cases f) auto
  let ?r = "p_pagetable (proc k p)" and ?b = "mem k (the (upa (mem k) (p_pagetable (proc k p)) (unat addr + i)))"
  let ?k = "k\<lparr>pipes := (pipes k)(a := pipe_put ?b (pipes k a))\<rparr>"
  have acc: "upa (mem k) ?r (unat addr + i) \<noteq> None" using Suc.prems(4) by (auto simp: uaccess_def)
  obtain d where d: "copyin ?r (\<lambda>_. 0) 0 (addr + of_nat i) 1 k = Ret (0, d) k" "d 0 = ?b"
    using copyin_byte [OF Suc.prems(1) acc] by blast
  have room: "length (pipe_contents (pipes k a)) < PIPESIZE" using Suc.prems(5) by simp
  have e: "int (i + Suc j) = int (Suc i + j)" by simp
  have step: "pipewrite_body a p addr (int (Suc i + j)) (int i) (k, rs) = Ret (Inl (int (Suc i))) (?k, rs)"
    using d Suc.prems(2,3) pipe_full [OF room] by (simp add: pipewrite_body_def get_pipe_def run_simps)
  have bytes: "ubytes k p (unat addr + i) (Suc j) = ?b # ubytes ?k p (unat addr + Suc i) j"
    by (simp add: ubytes_def upt_conv_Cons map_Suc_upt [symmetric] del: upt_Suc)
  have ih: "kiter f' (pipewrite_body a p addr (int (Suc i + j))) (int (Suc i)) (?k, rs) = Ret (Some (int (Suc i + j)))
      (?k\<lparr>pipes := (pipes ?k)(a := fold pipe_put (ubytes ?k p (unat addr + Suc i) j) (pipes ?k a))\<rparr>, rs)"
  proof (rule Suc.IH)
    show "uaccess ?k p (unat addr + Suc i) j"
      using Suc.prems(4) by (auto simp: uaccess_def dest: spec [where x = "Suc _"])
    show "length (pipe_contents (pipes ?k a)) + j \<le> PIPESIZE"
      using Suc.prems(5) pipe_ring_laws(3) [of "pipes k a" ?b] room by simp
  qed (use Suc.prems f in simp_all)
  show ?case
    unfolding f e kiter.simps kbind_run step outcome.case sum.case ih bytes by (simp add: fun_upd_def cong: if_cong)
qed

text \<open>
  The state in which a process may use the pipe: it runs, no one holds the pipe's lock or a process
  lock, and the page tables are well formed.
\<close>

definition pipe_user :: "kernel \<Rightarrow> nat \<Rightarrow> u64 \<Rightarrow> u64 list \<Rightarrow> bool" where
  "pipe_user k p a ps \<longleftrightarrow> curproc (mach k) = Some p \<and> free_lock (PIPE_LOCK a) (mach k) \<and>
     (\<forall>q < NPROC. q \<noteq> p \<longrightarrow> free_lock (PROC_LOCK q) (mach k)) \<and> user_ok k (p_pagetable (proc k p)) ps"

lemma user_ok_mach [simp]: "free_lock KMEM_LOCK m = free_lock KMEM_LOCK (mach k) \<Longrightarrow>
    user_ok (k\<lparr>mach := m\<rparr>) r ps = user_ok k r ps"
  by (simp add: user_ok_def pt_wf_def kmem_ok_def kmem_inv_def page_ok_def tables_def)

lemma user_ok_pipes [simp]: "user_ok (k\<lparr>pipes := x\<rparr>) r ps = user_ok k r ps"
  by (simp add: user_ok_def tables_def)

text \<open>
  C20: A \<open>write\<close> to a pipe with enough room appends the user's bytes, all of them and in order, to the
  pipe's queue and returns their number, without giving up the CPU; readers sleeping on the pipe are
  woken, the lock is free again, and nothing else changes. This holds for all values of the
  free-running 32-bit counters, the ones about to wrap around included.
\<close>

theorem pipewrite_appends:
  assumes "pipe_user k p a ps" and "pi_readopen (pipes k a)" and "\<not> p_killed (proc k p)"
    and "uaccess k p (unat addr) n" and "length (pipe_contents (pipes k a)) + n \<le> PIPESIZE"
  shows "\<exists>x. pipewrite a addr (int n) (k, rs) = Ret (int n) (k\<lparr>pipes := (pipes k)(a := x), 
      proc := wake_procs (Some p) (CH_PIPE_NREAD a) (proc k), mach := ppm (mach k)\<rparr>, rs) \<and>
    pipe_contents x = pipe_contents (pipes k a) @ ubytes k p (unat addr) n"
proof -
  let ?k = "k\<lparr>mach := acqm (PIPE_LOCK a) (mach k)\<rparr>" and ?x = "fold pipe_put (ubytes k p (unat addr) n) (pipes k a)"
  have u: "curproc (mach k) = Some p" "free_lock (PIPE_LOCK a) (mach k)"
    "\<forall>q < NPROC. q \<noteq> p \<longrightarrow> free_lock (PROC_LOCK q) (mach k)" "user_ok k (p_pagetable (proc k p)) ps"
    using assms(1) by (auto simp: pipe_user_def)
  have "user_ok ?k (p_pagetable (proc k p)) ps" using u(4) by simp
  then have wf: "pt_wf ?k (p_pagetable (proc ?k p)) ps" by (simp add: user_okD(1))
  have ub: "ubytes ?k p (unat addr) n = ubytes k p (unat addr) n" by (simp add: ubytes_def)
  have loop: "kiter (n + length rs + 1) (pipewrite_body a p addr (int n)) 0 (?k, rs) =
      Ret (Some (int n)) (?k\<lparr>pipes := (pipes k)(a := ?x)\<rparr>, rs)"
    using pipewrite_loop [OF wf, of a addr 0 n "n + length rs + 1" rs] assms(2-5)
    by (simp add: uaccess_def ub)
  have len: "length (ubytes k p (unat addr) n) = n" by (simp add: ubytes_def)
  have "pipewrite a addr (int n) (k, rs) = Ret (int n) (k\<lparr>pipes := (pipes k)(a := ?x), 
      proc := wake_procs (Some p) (CH_PIPE_NREAD a) (proc k), mach := ppm (mach k)\<rparr>, rs)"
    using u loop by (simp add: pipewrite_def run_simps resumptions_def)
  moreover have "pipe_contents ?x = pipe_contents (pipes k a) @ ubytes k p (unat addr) n"
    using pipe_ring.puts_contents [of "pipes k a" "ubytes k p (unat addr) n"] assms(5)
    by (simp add: pipe_contents_def len)
  ultimately show ?thesis by blast
qed

section \<open>Reading without waiting\<close>

lemma copyout_byte:
  assumes ok: "user_ok k r ps" and q: "upa (mem k) r (unat addr + i) = Some q"
  shows "copyout r (addr + of_nat i) (\<lambda>_. ch) 1 k = Ret 0 (k\<lparr>mem := (mem k)(q := ch)\<rparr>)"
    and "user_ok (k\<lparr>mem := (mem k)(q := ch)\<rparr>) r ps" and "upa ((mem k)(q := ch)) r = upa (mem k) r"
proof -
  obtain res m' where res: "copyout r (addr + of_nat i) (\<lambda>_. ch) 1 k = Ret res (k\<lparr>mem := m'\<rparr>)"
    "copied_out (mem k) r (unat (addr + of_nat i)) (unat (1::u64)) (\<lambda>_. ch) 0 res m'"
    using copyout_loop [OF ok, of 1 "unat (1::u64) + 1" "\<lambda>_. ch" "addr + of_nat i" 0] by (auto simp: copyout_iter)
  have "unat (addr + of_nat i) = unat addr + i" using q by (intro unat_user_addr [of "mem k" r]) simp
  then have "res = 0" "m' q = ch" "\<And>j. j \<noteq> q \<Longrightarrow> m' j = mem k j"
    using res(2) q by (auto simp: copied_out_def)
  moreover from this have "m' = (mem k)(q := ch)" by auto
  ultimately show "copyout r (addr + of_nat i) (\<lambda>_. ch) 1 k = Ret 0 (k\<lparr>mem := (mem k)(q := ch)\<rparr>)"
    using res(1) by simp
  have fr: "((mem k)(q := ch)) j = mem k j" if "t \<in> tables k r \<union> set ps" "j \<in> page_bytes t" for t j
    using user_okD(2) [OF ok q that(1)] that(2) by auto
  show "user_ok (k\<lparr>mem := (mem k)(q := ch)\<rparr>) r ps" by (rule user_ok_frame(1) [OF ok]) (rule fr)
  have "upa ((mem k)(q := ch)) r x = upa (mem k) r x" for x by (rule user_ok_frame(2) [OF ok]) (rule fr)
  then show "upa ((mem k)(q := ch)) r = upa (mem k) r" by (rule ext)
qed

lemma copyout_byte_fails:
  assumes ok: "user_ok k r ps" and q: "upa (mem k) r (unat addr) = None"
  shows "copyout r addr src 1 k = Ret (-1) k"
proof -
  obtain res m' where res: "copyout r addr src 1 k = Ret res (k\<lparr>mem := m'\<rparr>)"
    "copied_out (mem k) r (unat addr) (unat (1::u64)) src 0 res m'"
    using copyout_loop [OF ok, of 1 "unat (1::u64) + 1" src addr 0] by (auto simp: copyout_iter)
  then have "res = -1" "\<And>j. m' j = mem k j" using q by (auto simp: copied_out_def)
  moreover from this have "m' = mem k" by auto
  ultimately show ?thesis using res(1) by simp
qed

text \<open>Storing bytes at the addresses \<open>f 0\<close>, \<open>f 1\<close>, ...\<close>

fun scatter :: "bytes \<Rightarrow> (nat \<Rightarrow> nat) \<Rightarrow> u8 list \<Rightarrow> bytes" where
  "scatter m f [] = m"
| "scatter m f (b # bs) = scatter (m(f 0 := b)) (\<lambda>l. f (Suc l)) bs"

lemma scatter_other: "(\<And>l. l < length bs \<Longrightarrow> f l \<noteq> j) \<Longrightarrow> scatter m f bs j = m j"
proof (induction bs arbitrary: m f)
  case (Cons b bs)
  have "scatter (m(f 0 := b)) (\<lambda>l. f (Suc l)) bs j = (m(f 0 := b)) j"
    using Cons.prems by (intro Cons.IH) auto
  then show ?case using Cons.prems [of 0] by simp
qed simp

lemma scatter_at: "inj_on f {..<length bs} \<Longrightarrow> l < length bs \<Longrightarrow> scatter m f bs (f l) = bs ! l"
proof (induction bs arbitrary: m f l)
  case (Cons b bs)
  have inj: "inj_on (\<lambda>l. f (Suc l)) {..<length bs}"
    using Cons.prems(1) by (auto simp: inj_on_def)
  show ?case
  proof (cases l)
    case 0
    have "f (Suc i) \<noteq> f 0" if "i < length bs" for i
      using Cons.prems(1) that by (auto dest: inj_onD)
    then show ?thesis using 0 by (simp add: scatter_other)
  next
    case (Suc i)
    then show ?thesis using Cons.IH [OF inj, of i] Cons.prems(2) by simp
  qed
qed simp

text \<open>The physical addresses of the user's bytes at \<open>x\<close>, \<open>x + 1\<close>, ...\<close>

definition uaddrs :: "kernel \<Rightarrow> nat \<Rightarrow> nat \<Rightarrow> nat \<Rightarrow> nat" where
  "uaddrs k p x = (\<lambda>l. the (upa (mem k) (p_pagetable (proc k p)) (x + l)))"

lemma piperead_loop:
  assumes "user_ok k (p_pagetable (proc k p)) ps" and "pipe_contents (pipes k a) = cs"
    and "uaccess k p (unat addr + i) (min j (length cs))" and "j < f"
  shows "kiter f (piperead_body a p addr (int (i + j))) (int i) k =
    Ret (int (i + min j (length cs))) (k\<lparr>pipes := (pipes k)(a := (pipe_get ^^ min j (length cs)) (pipes k a)),
      mem := scatter (mem k) (uaddrs k p (unat addr + i)) (take j cs)\<rparr>)"
  using assms
proof (induction j arbitrary: i k cs f)
  case 0
  then obtain f' where f: "f = Suc f'" by (cases f) auto
  show ?case by (simp add: f piperead_body_def run_simps)
next
  case (Suc j)
  then obtain f' where f: "f = Suc f'" by (cases f) auto
  let ?r = "p_pagetable (proc k p)"
  show ?case
  proof (cases cs)
    case Nil
    then show ?thesis
      using Suc.prems(2) pipe_ring_laws(1) [of "pipes k a"] by (simp add: f piperead_body_def get_pipe_def run_simps)
  next
    case (Cons c cs')
    obtain q where q: "upa (mem k) ?r (unat addr + i) = Some q"
      using Suc.prems(3) Cons by (auto simp: uaccess_def)
    let ?h = "k\<lparr>pipes := (pipes k)(a := pipe_get (pipes k a))\<rparr>"
    let ?k = "?h\<lparr>mem := (mem k)(q := c)\<rparr>"
    have ok0: "user_ok ?h ?r ps" using Suc.prems(1) by simp
    have q0: "upa (mem ?h) ?r (unat addr + i) = Some q" using q by simp
    note cp = copyout_byte [OF ok0 q0, of c]
    have ne: "pi_nread (pipes k a) \<noteq> pi_nwrite (pipes k a)"
      "pi_data (pipes k a) (unat (pi_nread (pipes k a) mod 512)) = c" "pipe_contents (pipe_get (pipes k a)) = cs'"
      using pipe_nonempty [of "pipes k a"] Suc.prems(2) Cons by auto
    have e: "int (i + Suc j) = int (Suc i + j)" by simp
    have step: "piperead_body a p addr (int (Suc i + j)) (int i) k = Ret (Inl (int (Suc i))) ?k"
      using ne cp(1) by (simp add: piperead_body_def get_pipe_def run_simps)
    have ua: "uaddrs ?k p x = uaddrs k p x" for x using cp(3) by (simp add: uaddrs_def)
    have ih: "kiter f' (piperead_body a p addr (int (Suc i + j))) (int (Suc i)) ?k =
      Ret (int (Suc i + min j (length cs'))) (?k\<lparr>pipes := (pipes ?k)(a := (pipe_get ^^ min j (length cs')) (pipes ?k a)),
        mem := scatter (mem ?k) (uaddrs ?k p (unat addr + Suc i)) (take j cs')\<rparr>)"
    proof (rule Suc.IH)
      show "uaccess ?k p (unat addr + Suc i) (min j (length cs'))"
        using Suc.prems(3) cp(3) by (auto simp: uaccess_def Cons dest: spec [where x = "Suc _"])
    qed (use ne cp(2) Suc.prems(4) f in simp_all)
    have sc: "scatter (mem k) (uaddrs k p (unat addr + i)) (c # take j cs') =
        scatter ((mem k)(q := c)) (uaddrs k p (unat addr + Suc i)) (take j cs')"
      using q by (simp add: uaddrs_def)
    show ?thesis
      unfolding f e kiter.simps kbind_run step outcome.case sum.case ih ua
      using sc by (simp add: Cons funpow_swap1 fun_upd_def cong: if_cong)
  qed
qed

text \<open>
  C21: A \<open>read\<close> from a pipe that is not empty, or whose write end is closed, delivers the oldest bytes of
  the queue in order, as many as are there and were asked for, to the user's buffer, and returns their
  number, without giving up the CPU; with an empty queue that is 0, the end of file. The bytes leave
  the queue, writers sleeping on the pipe are woken, and no other memory changes.
\<close>

theorem piperead_delivers:
  assumes "pipe_user k p a ps" and "pipe_contents (pipes k a) \<noteq> [] \<or> \<not> pi_writeopen (pipes k a)"
    and "c = min n (length (pipe_contents (pipes k a)))" and "uaccess k p (unat addr) c"
  shows "\<exists>x m'. piperead a addr (int n) (k, rs) = Ret (int c) (k\<lparr>pipes := (pipes k)(a := x), mem := m',
      proc := wake_procs (Some p) (CH_PIPE_NWRITE a) (proc k), mach := ppm (mach k)\<rparr>, rs) \<and>
    pipe_contents x = drop c (pipe_contents (pipes k a)) \<and>
    (\<forall>l < c. m' (uaddrs k p (unat addr) l) = pipe_contents (pipes k a) ! l) \<and>
    (\<forall>j. j \<notin> uaddrs k p (unat addr) ` {..<c} \<longrightarrow> m' j = mem k j)"
proof -
  let ?k = "k\<lparr>mach := acqm (PIPE_LOCK a) (mach k)\<rparr>" and ?x = "(pipe_get ^^ c) (pipes k a)"
  let ?cs = "pipe_contents (pipes k a)" and ?ua = "uaddrs k p (unat addr)"
  let ?m = "scatter (mem k) ?ua (take n ?cs)"
  have u: "curproc (mach k) = Some p" "free_lock (PIPE_LOCK a) (mach k)"
    "\<forall>q < NPROC. q \<noteq> p \<longrightarrow> free_lock (PROC_LOCK q) (mach k)" "user_ok k (p_pagetable (proc k p)) ps"
    using assms(1) by (auto simp: pipe_user_def)
  have ok: "user_ok ?k (p_pagetable (proc ?k p)) ps" using u(4) by simp
  have ua: "uaddrs ?k p = uaddrs k p" by (simp add: uaddrs_def fun_eq_iff)
  have loop: "piperead_copy a p addr (int n) ?k = Ret (int c) (?k\<lparr>pipes := (pipes k)(a := ?x), mem := ?m\<rparr>)"
    using piperead_loop [OF ok refl, where a = a and addr = addr and i = 0 and j = n and f = "n + 1"] assms(3,4)
    by (simp add: uaccess_def piperead_copy_def ua)
  have wait: "piperead_wait a p (?k, rs) = Ret False (?k, rs)"
    using assms(2) pipe_ring_laws(1) [of "pipes k a"]
    by (auto simp: piperead_wait_def get_pipe_def run_simps)
  have "piperead a addr (int n) (k, rs) = Ret (int c) (k\<lparr>pipes := (pipes k)(a := ?x), mem := ?m,
      proc := wake_procs (Some p) (CH_PIPE_NWRITE a) (proc k), mach := ppm (mach k)\<rparr>, rs)"
    using u loop wait by (simp add: piperead_def run_simps)
  moreover have "pipe_contents ?x = drop c ?cs"
    using pipe_ring.gets_contents [of c "pipes k a"] assms(3) by (simp add: pipe_contents_def)
  moreover have len: "length (take n ?cs) = c" using assms(3) by simp
  have inj: "inj_on ?ua {..<c}"
  proof (rule inj_onI)
    fix l l' assume l: "l \<in> {..<c}" "l' \<in> {..<c}" "?ua l = ?ua l'"
    obtain q q' where "upa (mem k) (p_pagetable (proc k p)) (unat addr + l) = Some q"
      "upa (mem k) (p_pagetable (proc k p)) (unat addr + l') = Some q'"
      using assms(4) [unfolded uaccess_def, rule_format, of l] assms(4) [unfolded uaccess_def, rule_format, of l'] l(1,2)
      by auto
    then show "l = l'" using l(3) user_okD(3) [OF u(4), of "unat addr + l" q "unat addr + l'"] by (simp add: uaddrs_def)
  qed
  have "?m (?ua l) = ?cs ! l" if "l < c" for l
    using that scatter_at [of ?ua "take n ?cs" l "mem k", unfolded len, OF inj] assms(3) by simp
  moreover have "?m j = mem k j" if "j \<notin> ?ua ` {..<c}" for j
  proof (rule scatter_other)
    fix l assume "l < length (take n ?cs)"
    then have "l < c" by (simp only: len)
    then show "?ua l \<noteq> j" using that by blast
  qed
  ultimately show ?thesis by blast
qed

text \<open>
  A process whose address space has one page, at address \<open>0x4000\<close>, with an open pipe holding the bytes
  \<open>bs\<close>; the counters are about to wrap around.
\<close>

definition pipe_demo :: "u8 list \<Rightarrow> kernel" where
  "pipe_demo bs = user_page\<lparr>mach := thread_mach 3,
     proc := (\<lambda>_. zero_proc)(3 := zero_proc\<lparr>p_pagetable := 0x87ff0000\<rparr>),
     pipes := (\<lambda>_. fold pipe_put bs (zero_pipe\<lparr>pi_readopen := True, pi_writeopen := True, pi_nread := -1, pi_nwrite := -1\<rparr>))\<rparr>"

lemma user_ok_proc [simp]: "user_ok (k\<lparr>proc := x\<rparr>) r ps = user_ok k r ps"
  by (simp add: user_ok_def tables_def)

lemma pipe_demo_simps:
  shows "pipe_user (pipe_demo bs) 3 a []" "pi_readopen (pipes (pipe_demo bs) a)" "\<not> p_killed (proc (pipe_demo bs) 3)"
    and "length bs \<le> PIPESIZE \<Longrightarrow> pipe_contents (pipes (pipe_demo bs) a) = bs"
    and "uaccess (pipe_demo bs) 3 0x4000 4" "\<not> uaccess (pipe_demo bs) 3 0x9000 1"
proof -
  have "user_ok user_page 0x87ff0000 []" by (rule user_page_ok)
  then have "free_lock KMEM_LOCK (mach user_page)" by (simp add: user_ok_def pt_wf_def kmem_ok_def)
  then have "user_ok (user_page\<lparr>mach := thread_mach 3\<rparr>) 0x87ff0000 []" using user_page_ok by simp
  then show "pipe_user (pipe_demo bs) 3 a []"
    by (simp add: pipe_user_def pipe_demo_def)
  have ro: "pi_readopen (fold pipe_put bs x) = pi_readopen x" for x by (induction bs arbitrary: x) simp_all
  show "pi_readopen (pipes (pipe_demo bs) a)" "\<not> p_killed (proc (pipe_demo bs) 3)"
    by (simp_all add: pipe_demo_def ro zero_proc_def)
  show "pipe_contents (pipes (pipe_demo bs) a) = bs" if "length bs \<le> PIPESIZE"
    using pipe_ring.puts_contents [of "zero_pipe\<lparr>pi_readopen := True, pi_writeopen := True, pi_nread := -1, pi_nwrite := -1\<rparr>" bs] that
    by (simp add: pipe_demo_def pipe_contents_def)
  have "(0x4000 + i) div 4096 = 4" if "i < 4" for i :: nat
    using that by (intro div_nat_eqI) simp_all
  then show "uaccess (pipe_demo bs) 3 0x4000 4"
    by (simp add: uaccess_def pipe_demo_def user_page_upa)
  show "\<not> uaccess (pipe_demo bs) 3 0x9000 1"
    by (simp add: uaccess_def pipe_demo_def user_page_upa)
qed

theorem pipewrite_appends_witness:
  "\<exists>x k'. pipewrite 0x80100000 0x4000 4 (pipe_demo [1, 2], []) = Ret 4 (k', []) \<and> pipes k' 0x80100000 = x \<and>
     pipe_contents x = [1, 2] @ ubytes (pipe_demo [1, 2]) 3 0x4000 4"
proof -
  have "\<exists>x. pipewrite 0x80100000 0x4000 (int 4) (pipe_demo [1, 2], []) =
      Ret (int 4) ((pipe_demo [1, 2])\<lparr>pipes := (pipes (pipe_demo [1, 2]))(0x80100000 := x),
        proc := wake_procs (Some 3) (CH_PIPE_NREAD 0x80100000) (proc (pipe_demo [1, 2])), mach := ppm (mach (pipe_demo [1, 2]))\<rparr>, []) \<and>
    pipe_contents x = pipe_contents (pipes (pipe_demo [1, 2]) 0x80100000) @ ubytes (pipe_demo [1, 2]) 3 (unat (0x4000::u64)) 4"
    by (rule pipewrite_appends [OF pipe_demo_simps(1)]) (simp_all add: pipe_demo_simps)
  then show ?thesis by (auto simp: pipe_demo_simps(4))
qed

theorem piperead_delivers_witness:
  "\<exists>k'. piperead 0x80100000 0x4000 3 (pipe_demo [65, 66, 67, 68, 69], []) = Ret 3 (k', []) \<and>
     pipe_contents (pipes k' 0x80100000) = [68, 69] \<and> mem k' (uaddrs (pipe_demo [65, 66, 67, 68, 69]) 3 0x4000 2) = 67"
proof -
  let ?bs = "[65, 66, 67, 68, 69] :: u8 list"
  have acc: "uaccess (pipe_demo ?bs) 3 (unat (0x4000::u64)) 3"
    using pipe_demo_simps(5) [of ?bs] by (simp add: uaccess_def)
  have c: "pipe_contents (pipes (pipe_demo ?bs) 0x80100000) = ?bs" by (rule pipe_demo_simps(4)) simp
  obtain x m' where x: "piperead 0x80100000 0x4000 (int 3) (pipe_demo ?bs, []) = Ret (int 3)
      ((pipe_demo ?bs)\<lparr>pipes := (pipes (pipe_demo ?bs))(0x80100000 := x), mem := m',
        proc := wake_procs (Some 3) (CH_PIPE_NWRITE 0x80100000) (proc (pipe_demo ?bs)), mach := ppm (mach (pipe_demo ?bs))\<rparr>, [])"
    "pipe_contents x = drop 3 ?bs" "\<forall>l < 3. m' (uaddrs (pipe_demo ?bs) 3 (unat (0x4000::u64)) l) = ?bs ! l"
    using piperead_delivers [OF pipe_demo_simps(1) _ _ acc, of "0x80100000" 3 "[]"] unfolding c by auto
  have "m' (uaddrs (pipe_demo ?bs) 3 0x4000 2) = ?bs ! 2" using x(3) [rule_format, of 2] by simp
  then show ?thesis using x(1,2) by simp
qed

section \<open>A byte lost\<close>

text \<open>
  C39: \<open>piperead\<close> takes a byte out of the queue before it knows that it can deliver it. A \<open>read\<close> with an
  address the user may not access returns 0, as at the end of file, although the pipe is not empty,
  and the oldest byte is gone.
\<close>

theorem piperead_loses_byte:
  assumes "pipe_user k p a ps" and "pipe_contents (pipes k a) = ch # cs" and "0 < n"
    and "\<not> uaccess k p (unat addr) 1"
  shows "\<exists>k'. piperead a addr n (k, rs) = Ret 0 (k', rs) \<and> pipe_contents (pipes k' a) = cs \<and> mem k' = mem k"
proof -
  let ?k = "k\<lparr>mach := acqm (PIPE_LOCK a) (mach k)\<rparr>"
  let ?h = "?k\<lparr>pipes := (pipes k)(a := pipe_get (pipes k a))\<rparr>"
  have u: "curproc (mach k) = Some p" "free_lock (PIPE_LOCK a) (mach k)"
    "\<forall>q < NPROC. q \<noteq> p \<longrightarrow> free_lock (PROC_LOCK q) (mach k)" "user_ok k (p_pagetable (proc k p)) ps"
    using assms(1) by (auto simp: pipe_user_def)
  have "user_ok ?h (p_pagetable (proc k p)) ps" using u(4) by simp
  moreover have "upa (mem ?h) (p_pagetable (proc k p)) (unat addr) = None"
    using assms(4) by (simp add: uaccess_def)
  ultimately have fail: "copyout (p_pagetable (proc k p)) addr (\<lambda>_. ch) 1 ?h = Ret (-1) ?h"
    by (rule copyout_byte_fails)
  note ne = pipe_nonempty [OF assms(2)]
  have wait: "piperead_wait a p (?k, rs) = Ret False (?k, rs)"
    using ne by (simp add: piperead_wait_def get_pipe_def run_simps)
  have "piperead_body a p addr n 0 ?k = Ret (Inr 0) ?h"
    using ne fail assms(3) by (simp add: piperead_body_def get_pipe_def run_simps)
  then have "piperead_copy a p addr n ?k = Ret 0 ?h"
    by (simp add: piperead_copy_def run_simps)
  then have "piperead a addr n (k, rs) = Ret 0 (?h\<lparr>proc := wake_procs (Some p) (CH_PIPE_NWRITE a) (proc k), mach := ppm (mach k)\<rparr>, rs)"
    using u wait by (simp add: piperead_def run_simps)
  then show ?thesis using ne by simp
qed

theorem piperead_loses_byte_witness:
  "\<exists>k'. piperead 0x80100000 0x9000 5 (pipe_demo [1, 2, 3], []) = Ret 0 (k', []) \<and> pipe_contents (pipes k' 0x80100000) = [2, 3]"
  using piperead_loses_byte [OF pipe_demo_simps(1), of "[1, 2, 3]" "0x80100000" 1 "[2, 3]" 5 "0x9000" "[]"]
    pipe_demo_simps(4) [of "[1, 2, 3]" "0x80100000"] pipe_demo_simps(6) [of "[1, 2, 3]"] by auto

end
