(* ===== verification/Uart.thy ===== *)
theory Uart
  imports Proc
begin

text \<open>
  The 16550 UART driver (\<open>kernel/uart.c\<close>) and \<open>consputc\<close> of \<open>kernel/console.c\<close>. The transmit buffer is
  a ring of 32 bytes between the top half (\<open>uartputc\<close>) and the device. The interrupt handler
  \<open>uartintr\<close> is in theory Console, as it hands input to the console.
\<close>

section \<open>Registers\<close>

abbreviation (input) RHR :: u64 where "RHR \<equiv> 0"
abbreviation (input) THR :: u64 where "THR \<equiv> 0"
abbreviation (input) IER :: u64 where "IER \<equiv> 1"
abbreviation (input) IER_RX_ENABLE :: u8 where "IER_RX_ENABLE \<equiv> 1"
abbreviation (input) IER_TX_ENABLE :: u8 where "IER_TX_ENABLE \<equiv> 2"
abbreviation (input) FCR :: u64 where "FCR \<equiv> 2"
abbreviation (input) FCR_FIFO_ENABLE :: u8 where "FCR_FIFO_ENABLE \<equiv> 1"
abbreviation (input) FCR_FIFO_CLEAR :: u8 where "FCR_FIFO_CLEAR \<equiv> 6"
abbreviation (input) LCR :: u64 where "LCR \<equiv> 3"
abbreviation (input) LCR_EIGHT_BITS :: u8 where "LCR_EIGHT_BITS \<equiv> 3"
abbreviation (input) LCR_BAUD_LATCH :: u8 where "LCR_BAUD_LATCH \<equiv> 0x80"
abbreviation (input) LSR :: u64 where "LSR \<equiv> 5"
abbreviation (input) LSR_RX_READY :: u8 where "LSR_RX_READY \<equiv> 1"
abbreviation (input) LSR_TX_IDLE :: u8 where "LSR_TX_IDLE \<equiv> 0x20"

definition ReadReg :: "u64 \<Rightarrow> (kernel, u8) kmon" where
  "ReadReg reg = kbind (dev_read (UART0 + reg)) (\<lambda>v. kret (ucast v))"

definition WriteReg :: "u64 \<Rightarrow> u8 \<Rightarrow> (kernel, unit) kmon" where
  "WriteReg reg v = dev_write (UART0 + reg) (ucast v)"

section \<open>The driver\<close>

definition uartinit :: "(kernel, unit) kmon" where
  "uartinit = kseq [
     WriteReg IER 0x00,
     WriteReg LCR LCR_BAUD_LATCH,
     WriteReg 0 0x03,
     WriteReg 1 0x00,
     WriteReg LCR LCR_EIGHT_BITS,
     WriteReg FCR (FCR_FIFO_ENABLE OR FCR_FIFO_CLEAR),
     WriteReg IER (IER_TX_ENABLE OR IER_RX_ENABLE),
     on_mach (initlock UART_TX_LOCK ''uart'')]"

text \<open>
  Every round of the loop in \<open>uartstart\<close> that does not return reads the status register; the number of
  register loads still to be answered bounds it.
\<close>

definition uartstart :: "(kernel, unit) kmon" where
  "uartstart =
     kbind (kget (\<lambda>k. length (dev_in k))) (\<lambda>n.
     kiter (n + 1) (\<lambda>_.
       kbind (kget uart) (\<lambda>u.
       if uart_tx_w u = uart_tx_r u then kret (Inr ())
       else
       kbind (ReadReg LSR) (\<lambda>lsr.
       if lsr AND LSR_TX_IDLE = 0 then kret (Inr ())
       else
       let c = uart_tx_buf u (unat (uart_tx_r u mod UART_TX_BUF_SIZE)) in
       kbind (upd_uart (\<lambda>x. x\<lparr>uart_tx_r := uart_tx_r x + 1\<rparr>)) (\<lambda>_.
       kbind (wakeup CH_UART_TX_R) (\<lambda>_.
       kbind (WriteReg THR c) (\<lambda>_.
       kret (Inl ()))))))) ())"

definition uartputc :: "int \<Rightarrow> (world, unit) kmon" where
  "uartputc c =
     kbind (atom (on_mach (acquire UART_TX_LOCK))) (\<lambda>_.
     kbind (atom (kget panicked)) (\<lambda>pk.
     if pk then khang
     else
     kbind (kget resumptions) (\<lambda>n.
     kiter (n + 1) (\<lambda>_.
       kbind (atom (kget uart)) (\<lambda>u.
       if uart_tx_w u = uart_tx_r u + UART_TX_BUF_SIZE then
         kbind (sleep CH_UART_TX_R UART_TX_LOCK) (\<lambda>_. kret (Inl ()))
       else
         kbind (atom (upd_uart (\<lambda>x. x\<lparr>
           uart_tx_buf := (uart_tx_buf x)(unat (uart_tx_w x mod UART_TX_BUF_SIZE) := of_int c),
           uart_tx_w := uart_tx_w x + 1\<rparr>))) (\<lambda>_.
         kbind (atom uartstart) (\<lambda>_.
         kbind (atom (on_mach (release UART_TX_LOCK))) (\<lambda>_.
         kret (Inr ())))))) ())))"

definition uartputc_sync :: "int \<Rightarrow> (kernel, unit) kmon" where
  "uartputc_sync c =
     kbind (on_mach push_off) (\<lambda>_.
     kbind (kget panicked) (\<lambda>pk.
     if pk then khang
     else
     kbind (kget (\<lambda>k. length (dev_in k))) (\<lambda>n.
     kbind (kiter (n + 1) (\<lambda>_.
       kbind (ReadReg LSR) (\<lambda>lsr.
       kret (if lsr AND LSR_TX_IDLE = 0 then Inl () else Inr ()))) ()) (\<lambda>_.
     kbind (WriteReg THR (of_int c)) (\<lambda>_.
     on_mach pop_off)))))"

definition uartgetc :: "(kernel, int) kmon" where
  "uartgetc =
     kbind (ReadReg LSR) (\<lambda>lsr.
     if lsr AND 0x01 \<noteq> 0 then kbind (ReadReg RHR) (\<lambda>c. kret (uint c))
     else kret (-1))"

abbreviation (input) BACKSPACE :: int where "BACKSPACE \<equiv> 0x100"

definition consputc :: "int \<Rightarrow> (kernel, unit) kmon" where
  "consputc c =
     (if c = BACKSPACE then kseq [uartputc_sync 8, uartputc_sync 32, uartputc_sync 8]
      else uartputc_sync c)"

section \<open>Closed forms\<close>

text \<open>A value of the line status register that allows another byte to be sent.\<close>

definition tx_idle :: "u64 \<Rightarrow> bool" where
  "tx_idle v \<longleftrightarrow> (ucast v :: u8) AND LSR_TX_IDLE \<noteq> 0"

lemma ReadReg_run [run_simps]: "dev_in k = v # vs \<Longrightarrow> ReadReg reg k = Ret (ucast v) (k\<lparr>dev_in := vs\<rparr>)"
  by (simp add: ReadReg_def dev_read_def run_simps)

lemma WriteReg_run [run_simps]:
  "WriteReg reg v k = Ret () (k\<lparr>dev_out := dev_out k @ [(UART0 + reg, ucast v)]\<rparr>)"
  by (simp add: WriteReg_def run_simps)

definition spin_body :: "unit \<Rightarrow> (kernel, unit + unit) kmon" where
  "spin_body = (\<lambda>_. kbind (ReadReg LSR) (\<lambda>lsr. kret (if lsr AND LSR_TX_IDLE = 0 then Inl () else Inr ())))"

lemma spin_run:
  assumes "dev_in k = ws @ v # vs" and "\<forall>w \<in> set ws. \<not> tx_idle w" and "tx_idle v" and "length ws < n"
  shows "kiter n spin_body () k = Ret () (k\<lparr>dev_in := vs\<rparr>)"
  using assms
proof (induction ws arbitrary: k n)
  case Nil
  then show ?case by (cases n) (simp_all add: spin_body_def run_simps tx_idle_def)
next
  case (Cons w ws)
  then obtain n' where n: "n = Suc n'" by (cases n) auto
  have "spin_body () k = Ret (Inl ()) (k\<lparr>dev_in := ws @ v # vs\<rparr>)"
    using Cons.prems by (simp add: spin_body_def run_simps tx_idle_def)
  then show ?case
    using Cons.IH [of "k\<lparr>dev_in := ws @ v # vs\<rparr>" n'] Cons.prems by (simp add: n run_simps)
qed

text \<open>\<open>uartputc_sync\<close> waits for as long as the transmitter is busy and then sends the byte.\<close>

lemma uartputc_sync_run:
  assumes "\<not> panicked k" and "dev_in k = ws @ v # vs" and "\<forall>w \<in> set ws. \<not> tx_idle w" and "tx_idle v"
  shows "uartputc_sync c k = Ret () (k\<lparr>dev_in := vs, dev_out := dev_out k @ [(UART0, ucast (of_int c :: u8))],
    mach := ppm (mach k)\<rparr>)"
proof -
  have "kiter (length (dev_in k) + 1) spin_body () (k\<lparr>mach := pushm (mach k)\<rparr>) =
      Ret () (k\<lparr>mach := pushm (mach k)\<rparr>\<lparr>dev_in := vs\<rparr>)"
    using assms by (intro spin_run) (auto simp: less_Suc_eq_le)
  then show ?thesis
    using assms(1) by (simp add: uartputc_sync_def spin_body_def [symmetric] run_simps pop_off_run)
qed

text \<open>A device that is always ready answers each poll at once.\<close>

lemma uartputc_sync_ready:
  "\<not> panicked k \<Longrightarrow> dev_in k = v # vs \<Longrightarrow> tx_idle v \<Longrightarrow>
    uartputc_sync c k = Ret () (k\<lparr>dev_in := vs, dev_out := dev_out k @ [(UART0, ucast (of_int c :: u8))],
      mach := ppm (mach k)\<rparr>)"
  using uartputc_sync_run [of k "[]"] by simp

text \<open>The stores that send the bytes \<open>cs\<close>.\<close>

definition sent :: "int list \<Rightarrow> (u64 \<times> u64) list" where
  "sent cs = map (\<lambda>c. (UART0, ucast (of_int c :: u8))) cs"

lemma sent_simps [simp]:
  "sent [] = []" "sent (c # cs) = (UART0, ucast (of_int c :: u8)) # sent cs" "sent (cs @ ds) = sent cs @ sent ds"
  by (simp_all add: sent_def)

lemma consputc_char:
  "c \<noteq> BACKSPACE \<Longrightarrow> \<not> panicked k \<Longrightarrow> dev_in k = v # vs \<Longrightarrow> tx_idle v \<Longrightarrow>
    consputc c k = Ret () (k\<lparr>dev_in := vs, dev_out := dev_out k @ sent [c], mach := ppm (mach k)\<rparr>)"
  by (simp add: consputc_def uartputc_sync_ready)

lemma consputc_backspace:
  "\<not> panicked k \<Longrightarrow> dev_in k = v1 # v2 # v3 # vs \<Longrightarrow> tx_idle v1 \<Longrightarrow> tx_idle v2 \<Longrightarrow> tx_idle v3 \<Longrightarrow>
    consputc BACKSPACE k = Ret () (k\<lparr>dev_in := vs, dev_out := dev_out k @ sent [8, 32, 8], mach := ppm (mach k)\<rparr>)"
  by (simp add: consputc_def uartputc_sync_ready run_simps)

lemma consputc_all:
  assumes "\<forall>c \<in> set cs. c \<noteq> BACKSPACE" and "\<not> panicked k" and "dev_in k = vs @ rest"
    and "\<forall>v \<in> set vs. tx_idle v" and "length vs = length cs" and "cs \<noteq> []"
  shows "kfor cs consputc k = Ret () (k\<lparr>dev_in := rest, dev_out := dev_out k @ sent cs, mach := ppm (mach k)\<rparr>)"
  using assms
proof (induction cs arbitrary: k vs)
  case (Cons c cs)
  then obtain v vs' where vs: "vs = v # vs'" by (cases vs) auto
  let ?k = "k\<lparr>dev_in := vs' @ rest, dev_out := dev_out k @ sent [c], mach := ppm (mach k)\<rparr>"
  have 1: "consputc c k = Ret () ?k"
    using Cons.prems vs by (intro consputc_char) auto
  show ?case
  proof (cases "cs = []")
    case True
    then show ?thesis using 1 Cons.prems vs by (simp add: run_simps)
  next
    case False
    then have "kfor cs consputc ?k = Ret () (?k\<lparr>dev_in := rest, dev_out := dev_out ?k @ sent cs, mach := ppm (mach ?k)\<rparr>)"
      using Cons.prems vs by (intro Cons.IH) auto
    then show ?thesis using 1 by (simp add: run_simps)
  qed
qed simp

end
