(* ===== verification/Printf.thy ===== *)
theory Printf
  imports Uart
begin

text \<open>
  Formatted kernel output (\<open>kernel/printf.c\<close>) and the process listing \<open>procdump\<close> of \<open>kernel/proc.c\<close>.
  Elsewhere in the development a call of \<open>panic\<close> ends the run with the outcome \<open>Panic\<close> and its message;
  what the function itself does, printing the message and freezing the machine, is modelled here.
\<close>

section \<open>Numbers\<close>

definition digits :: "nat \<Rightarrow> char" where
  "digits d = ''0123456789abcdef'' ! (d mod 16)"

text \<open>
  The contents of \<open>buf\<close> after the \<open>do ... while\<close> loop of \<open>printint\<close>, least significant digit first. The
  kernel only uses the bases 10 and 16.
\<close>

function printint_loop :: "nat \<Rightarrow> nat \<Rightarrow> string" where
  "printint_loop base x =
     digits (x mod base) # (if x div base = 0 \<or> base \<le> 1 then [] else printint_loop base (x div base))"
  by pat_completeness auto
termination
  by (relation "measure snd") (auto intro!: div_less_dividend gr0I)

declare printint_loop.simps [simp del]

text \<open>The characters that \<open>printint\<close> leaves in \<open>buf\<close>, and their output from the last to the first.\<close>

definition printint_buf :: "int \<Rightarrow> nat \<Rightarrow> bool \<Rightarrow> string" where
  "printint_buf xx base sign =
     (let neg = sign \<and> xx < 0;
          x = (if neg then of_int (- xx) else of_int xx :: u32)
      in printint_loop base (unat x) @ (if neg then ''-'' else []))"

definition printint :: "int \<Rightarrow> nat \<Rightarrow> bool \<Rightarrow> (kernel, unit) kmon" where
  "printint xx base sign = kfor (rev (printint_buf xx base sign)) (\<lambda>c. consputc (of_char c))"

definition printptr :: "u64 \<Rightarrow> (kernel, unit) kmon" where
  "printptr x = kseq [
     consputc (of_char CHR ''0''),
     consputc (of_char CHR ''x''),
     kfor [0..<16] (\<lambda>i. consputc (of_char (digits (unat (drop_bit 60 (push_bit (4 * i) x))))))]"

section \<open>printf\<close>

text \<open>
  The variable arguments: an \<open>int\<close>, a \<open>uint64\<close>, or a \<open>char*\<close> to a string or null. Reading an argument of
  another type, or one more than were passed, is undefined in C; the model stops there.
\<close>

datatype vararg = VInt int | VPtr u64 | VStr "string option"

fun printf_loop :: "string \<Rightarrow> vararg list \<Rightarrow> (kernel, unit) kmon" where
  "printf_loop [] ap = kret ()"
| "printf_loop [c] ap = (if c \<noteq> CHR ''%'' then consputc (of_char c) else kret ())"
| "printf_loop (c # d # fmt) ap =
     (if c \<noteq> CHR ''%'' then kbind (consputc (of_char c)) (\<lambda>_. printf_loop (d # fmt) ap)
      else if d = CHR ''d'' then
        (case ap of VInt x # ap' \<Rightarrow> kbind (printint x 10 True) (\<lambda>_. printf_loop fmt ap') | _ \<Rightarrow> khang)
      else if d = CHR ''x'' then
        (case ap of VInt x # ap' \<Rightarrow> kbind (printint x 16 True) (\<lambda>_. printf_loop fmt ap') | _ \<Rightarrow> khang)
      else if d = CHR ''p'' then
        (case ap of VPtr x # ap' \<Rightarrow> kbind (printptr x) (\<lambda>_. printf_loop fmt ap') | _ \<Rightarrow> khang)
      else if d = CHR ''s'' then
        (case ap of
           VStr s # ap' \<Rightarrow>
             kbind (kfor (case s of None \<Rightarrow> ''(null)'' | Some t \<Rightarrow> t) (\<lambda>c. consputc (of_char c))) (\<lambda>_.
             printf_loop fmt ap')
         | _ \<Rightarrow> khang)
      else if d = CHR ''%'' then kbind (consputc (of_char CHR ''%'')) (\<lambda>_. printf_loop fmt ap)
      else kbind (consputc (of_char CHR ''%'')) (\<lambda>_.
           kbind (consputc (of_char d)) (\<lambda>_. printf_loop fmt ap)))"

definition printf :: "string option \<Rightarrow> vararg list \<Rightarrow> (kernel, unit) kmon" where
  "printf fmt ap =
     kbind (kget pr_locking) (\<lambda>locking.
     kbind (kwhen locking (on_mach (acquire PR_LOCK))) (\<lambda>_.
     case fmt of
       None \<Rightarrow> kpanic ''null fmt''
     | Some f \<Rightarrow>
         kbind (printf_loop f ap) (\<lambda>_.
         kwhen locking (on_mach (release PR_LOCK)))))"

definition panic :: "string \<Rightarrow> (kernel, unit) kmon" where
  "panic s = kseq [
     kmod (\<lambda>k. k\<lparr>pr_locking := False\<rparr>),
     printf (Some ''panic: '') [],
     printf (Some s) [],
     printf (Some [CHR 0x0A]) [],
     kmod (\<lambda>k. k\<lparr>panicked := True\<rparr>),
     khang]"

definition printfinit :: "(kernel, unit) kmon" where
  "printfinit = kseq [
     on_mach (initlock PR_LOCK ''pr''),
     kmod (\<lambda>k. k\<lparr>pr_locking := True\<rparr>)]"

section \<open>The process listing\<close>

text \<open>The names in \<open>states\<close>; \<open>USED\<close> has none, so that \<open>???\<close> is printed for it.\<close>

definition states :: "procstate \<Rightarrow> string option" where
  "states s = (case s of UNUSED \<Rightarrow> Some ''unused'' | USED \<Rightarrow> None | SLEEPING \<Rightarrow> Some ''sleep ''
     | RUNNABLE \<Rightarrow> Some ''runble'' | RUNNING \<Rightarrow> Some ''run   '' | ZOMBIE \<Rightarrow> Some ''zombie'')"

text \<open>The C string in the first \<open>n\<close> bytes of an array.\<close>

definition cstring :: "nat \<Rightarrow> bytes \<Rightarrow> string" where
  "cstring n s = takeWhile (\<lambda>c. c \<noteq> CHR 0x00) (map (\<lambda>i. char_of (unat (s i))) [0..<n])"

definition procdump :: "(kernel, unit) kmon" where
  "procdump =
     kbind (printf (Some [CHR 0x0A]) []) (\<lambda>_.
     kfor [0..<NPROC] (\<lambda>p.
       kbind (get_proc p) (\<lambda>pr.
       if p_state pr = UNUSED then kret ()
       else
       let state = (case states (p_state pr) of Some s \<Rightarrow> s | None \<Rightarrow> ''???'') in
       kbind (printf (Some ''%d %s %s'') [VInt (p_pid pr), VStr (Some state), VStr (Some (cstring 16 (p_name pr)))]) (\<lambda>_.
       printf (Some [CHR 0x0A]) []))))"

section \<open>What printint prints\<close>

text \<open>Reading a number: the value of a digit, of a string of digits, and of one with an optional sign.\<close>

definition digit_val :: "char \<Rightarrow> int" where
  "digit_val c = (if of_char c < (58::int) then of_char c - 48 else of_char c - 87)"

definition parse_digits :: "int \<Rightarrow> string \<Rightarrow> int" where
  "parse_digits base s = foldl (\<lambda>n c. n * base + digit_val c) 0 s"

definition parse_int :: "int \<Rightarrow> string \<Rightarrow> int" where
  "parse_int base s = (case s of
       [] \<Rightarrow> 0
     | c # cs \<Rightarrow> if c = CHR ''-'' then - parse_digits base cs else parse_digits base s)"

lemma digit_val_digits: "d < 16 \<Longrightarrow> digit_val (digits d) = int d \<and> digits d \<noteq> CHR ''-'' \<and> (digits d = CHR ''0'' \<longleftrightarrow> d = 0)"
proof -
  have "\<forall>d \<in> {0..<16}. digit_val (digits d) = int d \<and> digits d \<noteq> CHR ''-'' \<and> (digits d = CHR ''0'' \<longleftrightarrow> d = 0)"
    by code_simp
  then show "d < 16 \<Longrightarrow> ?thesis" by simp
qed

lemma digit_mod:
  assumes "2 \<le> base" "base \<le> 16"
  shows "digit_val (digits (x mod base)) = int (x mod base)" "digits (x mod base) \<noteq> CHR ''-''"
proof -
  have "x mod base < 16" using assms by (intro less_le_trans [OF mod_less_divisor]) auto
  then show "digit_val (digits (x mod base)) = int (x mod base)" "digits (x mod base) \<noteq> CHR ''-''"
    using digit_val_digits by blast+
qed

lemma printint_loop_value:
  assumes "2 \<le> base" "base \<le> 16"
  shows "foldr (\<lambda>c n. n * int base + digit_val c) (printint_loop base x) 0 = int x"
  using assms
proof (induction base x rule: printint_loop.induct)
  case (1 base x)
  have d: "digit_val (digits (x mod base)) = int (x mod base)"
    using 1(2,3) by (rule digit_mod)
  show ?case
  proof (cases "x div base = 0")
    case True
    then have "x mod base = x" using 1(2) div_mult_mod_eq [of x base] by simp
    then show ?thesis using True d by (subst printint_loop.simps) simp
  next
    case False
    have "int x = int (x div base) * int base + int (x mod base)"
      by (metis div_mult_mod_eq of_nat_add of_nat_mult)
    then show ?thesis
      using False 1 d by (subst printint_loop.simps) simp
  qed
qed

lemma printint_loop_length: "2 \<le> base \<Longrightarrow> 0 < n \<Longrightarrow> x < base ^ n \<Longrightarrow> length (printint_loop base x) \<le> n"
proof (induction base x arbitrary: n rule: printint_loop.induct)
  case (1 base x)
  show ?case
  proof (cases "x div base = 0")
    case True
    then show ?thesis using 1(3) by (subst printint_loop.simps) simp
  next
    case False
    obtain m where n: "n = Suc m" using 1(3) by (cases n) auto
    have "m \<noteq> 0" using False 1(4) n by (cases m) (auto simp: div_less)
    moreover have "x div base < base ^ m"
      using 1(4) n by (simp add: less_mult_imp_div_less mult.commute)
    ultimately have "length (printint_loop base (x div base)) \<le> m"
      using False 1(1,2) by simp
    then show ?thesis using False n by (subst printint_loop.simps) simp
  qed
qed

lemma printint_loop_chars: "2 \<le> base \<Longrightarrow> base \<le> 16 \<Longrightarrow> CHR ''-'' \<notin> set (printint_loop base x)"
proof (induction base x rule: printint_loop.induct)
  case (1 base x)
  have "digits (x mod base) \<noteq> CHR ''-''"
    using 1(2,3) by (rule digit_mod)
  then show ?case using 1 by (subst printint_loop.simps) simp
qed

lemma printint_loop_not_Nil [simp]: "printint_loop base x \<noteq> []"
  by (subst printint_loop.simps) simp

text \<open>No leading zero: the last character, which is printed first, is not \<open>0\<close> unless it is alone.\<close>

lemma printint_loop_canonical:
  "2 \<le> base \<Longrightarrow> base \<le> 16 \<Longrightarrow> 0 < x \<Longrightarrow> last (printint_loop base x) \<noteq> CHR ''0''"
proof (induction base x rule: printint_loop.induct)
  case (1 base x)
  show ?case
  proof (cases "x div base = 0")
    case True
    then have "x < base" using 1(2) by (simp add: div_eq_0_iff)
    then have x: "x mod base = x" "x < 16" using 1(3) by simp_all
    then have "digits x \<noteq> CHR ''0''" using 1(4) digit_val_digits by blast
    then show ?thesis using True x by (subst printint_loop.simps) simp
  next
    case False
    then show ?thesis using 1 by (subst printint_loop.simps) simp
  qed
qed

text \<open>The magnitude that \<open>printint\<close> computes in a \<open>uint\<close>.\<close>

lemma printint_abs:
  assumes "- (2 ^ 31) \<le> xx" "xx < 2 ^ 31"
  shows "unat (if xx < 0 then of_int (- xx) else of_int xx :: u32) = nat \<bar>xx\<bar>"
  using assms unat_of_int_less [of "- xx", where 'a = 32] unat_of_int_less [of xx, where 'a = 32]
  by (cases "xx < 0") simp_all

lemma parse_digits_rev: "parse_digits base (rev s) = foldr (\<lambda>c n. n * base + digit_val c) s 0"
  by (simp add: parse_digits_def foldl_conv_foldr)

lemma printint_buf_parse:
  assumes "- (2 ^ 31) \<le> xx" "xx < 2 ^ 31" "base = 10 \<or> base = 16"
  shows "parse_int (int base) (rev (printint_buf xx base True)) = xx"
    and "length (printint_buf xx base True) \<le> 11"
    and "xx \<noteq> 0 \<Longrightarrow> last (filter (\<lambda>c. c \<noteq> CHR ''-'') (printint_buf xx base True)) \<noteq> CHR ''0''"
proof -
  let ?l = "printint_loop base (nat \<bar>xx\<bar>)"
  have b: "2 \<le> base" "base \<le> 16" using assms(3) by auto
  have buf: "printint_buf xx base True = ?l @ (if xx < 0 then ''-'' else [])"
    using printint_abs [OF assms(1,2)] by (simp add: printint_buf_def Let_def split: if_splits)
  have val: "parse_digits (int base) (rev ?l) = \<bar>xx\<bar>"
    using printint_loop_value [OF b] by (simp add: parse_digits_rev)
  have minus: "CHR ''-'' \<notin> set (rev ?l)" using printint_loop_chars [OF b] by simp
  show "parse_int (int base) (rev (printint_buf xx base True)) = xx"
  proof (cases "xx < 0")
    case False
    then have "parse_int (int base) (rev ?l) = parse_digits (int base) (rev ?l)"
      using minus by (auto simp: parse_int_def split: list.splits)
    then show ?thesis using False val by (simp add: buf)
  next
    case True
    then show ?thesis using val by (simp add: buf parse_int_def)
  qed
  have "nat \<bar>xx\<bar> < base ^ 10" using assms by auto
  then show "length (printint_buf xx base True) \<le> 11"
    using printint_loop_length [OF b(1), of 10 "nat \<bar>xx\<bar>"] by (cases "xx < 0") (simp_all add: buf)
  have "filter (\<lambda>c. c \<noteq> CHR ''-'') (printint_buf xx base True) = ?l"
    using minus by (auto simp: buf filter_id_conv)
  then show "last (filter (\<lambda>c. c \<noteq> CHR ''-'') (printint_buf xx base True)) \<noteq> CHR ''0''" if "xx \<noteq> 0"
    using that printint_loop_canonical [OF b, of "nat \<bar>xx\<bar>"] by simp
qed

lemma kfor_map: "kfor (map g xs) f = kfor xs (\<lambda>x. f (g x))"
  by (induction xs) auto

lemma of_char_int: "(of_char c :: int) \<noteq> BACKSPACE"
proof -
  have "(of_char c :: nat) < 256" by (rule nat_of_char_less_256)
  then have "int (of_char c) < 256" by linarith
  then show ?thesis by (simp add: of_nat_of_char)
qed

text \<open>
  C30: \<open>printint\<close> prints the number. For every \<open>int\<close>, the most negative one included, and for both bases
  that \<open>printf\<close> uses, the characters sent to the UART, read as a number in that base with an optional
  minus sign, have the value of the argument; there is no leading zero, and the digits fit in the
  sixteen bytes of \<open>buf\<close>.
\<close>

theorem printint_prints:
  assumes "- (2 ^ 31) \<le> xx" "xx < 2 ^ 31" and "base = 10 \<or> base = 16"
    and "\<not> panicked k" and "dev_in k = vs @ rest" and "\<forall>v \<in> set vs. tx_idle v"
    and "length vs = length (printint_buf xx base True)"
  shows "\<exists>s. printint xx base True k =
      Ret () (k\<lparr>dev_in := rest, dev_out := dev_out k @ sent (map of_char s), mach := ppm (mach k)\<rparr>) \<and>
    parse_int (int base) s = xx \<and> length s \<le> 11 \<and>
    (xx \<noteq> 0 \<longrightarrow> hd (filter (\<lambda>c. c \<noteq> CHR ''-'') s) \<noteq> CHR ''0'')"
proof -
  let ?s = "rev (printint_buf xx base True)"
  have ne: "?s \<noteq> []" by (simp add: printint_buf_def Let_def)
  have "printint xx base True k = kfor (map of_char ?s) consputc k"
    by (simp add: printint_def kfor_map)
  also have "\<dots> = Ret () (k\<lparr>dev_in := rest, dev_out := dev_out k @ sent (map of_char ?s), mach := ppm (mach k)\<rparr>)"
    using assms(4-) ne of_char_int by (intro consputc_all [where vs = vs]) auto
  finally have run: "printint xx base True k = \<dots>" .
  have "hd (filter (\<lambda>c. c \<noteq> CHR ''-'') ?s) = last (filter (\<lambda>c. c \<noteq> CHR ''-'') (printint_buf xx base True))"
    by (simp add: rev_filter [symmetric] hd_rev)
  then show ?thesis
    using run printint_buf_parse [OF assms(1-3)] by (intro exI [of _ ?s]) simp
qed

theorem printint_prints_witness:
  "\<exists>s. parse_int 10 s = - 2147483648 \<and> length s \<le> 11 \<and>
    (\<exists>k'. printint (- 2147483648) 10 True
       ((boot_kernel (syms_at 0x80022000) (\<lambda>_. 0))\<lparr>dev_in := replicate 11 0x60\<rparr>) = Ret () k' \<and>
     dev_out k' = sent (map of_char s))"
proof -
  let ?k = "(boot_kernel (syms_at 0x80022000) (\<lambda>_. 0))\<lparr>dev_in := replicate 11 0x60\<rparr>"
  have len: "length (printint_buf (- 2147483648) 10 True) = 11"
    by (simp add: printint_buf_def printint_loop.simps [of 10 "numeral n" for n])
  have idle: "\<forall>v \<in> set (replicate 11 0x60). tx_idle v" by (simp add: tx_idle_def)
  have k: "\<not> panicked ?k" "dev_in ?k = replicate 11 0x60 @ []" "dev_out ?k = []"
    by (simp_all add: boot_kernel_def)
  have len': "length (replicate 11 (0x60::u64)) = length (printint_buf (- 2147483648) 10 True)"
    unfolding len by simp
  have range: "- (2 ^ 31) \<le> (- 2147483648 :: int)" "(- 2147483648 :: int) < 2 ^ 31" by simp_all
  note run = printint_prints [OF range disjI1 [OF refl] k(1,2) idle len']
  show ?thesis
    using run unfolding k(3) append_Nil by (elim exE conjE, intro exI conjI) (assumption | simp)+
qed

end
