(* ===== verification/Console.thy ===== *)
theory Console
  imports Printf Ring
begin

text \<open>
  The console (\<open>kernel/console.c\<close>): line-edited input in a ring of 128 characters, between the
  interrupt handler \<open>consoleintr\<close> and \<open>consoleread\<close>, output by \<open>consolewrite\<close>, and the UART's interrupt
  handler \<open>uartintr\<close> of \<open>kernel/uart.c\<close>, which feeds the console.
\<close>

section \<open>Reading and writing\<close>

text \<open>\<open>cons.buf[cons.e++ % INPUT_BUF] = c\<close> and \<open>cons.r++\<close>.\<close>

definition cons_put :: "u8 \<Rightarrow> cons \<Rightarrow> cons" where
  "cons_put c x = x\<lparr>c_buf := (c_buf x)(unat (c_e x mod INPUT_BUF) := c), c_e := c_e x + 1\<rparr>"

definition cons_get :: "cons \<Rightarrow> cons" where
  "cons_get x = x\<lparr>c_r := c_r x + 1\<rparr>"

definition consolewrite :: "kptr \<Rightarrow> bytes \<Rightarrow> int \<Rightarrow> (world, int) kmon" where
  "consolewrite src lbuf n =
     kiter (nat n + 1) (\<lambda>i.
       if i < n then
         kbind (atom (either_copyin (\<lambda>_. 0) 0 (kptr_add src (of_int i)) lbuf 1)) (\<lambda>(r, c).
         if r = -1 then kret (Inr i)
         else kbind (uartputc (uint (c 0))) (\<lambda>_. kret (Inl (i + 1))))
       else kret (Inr i)) 0"

text \<open>Waiting for input: the result says whether the process was killed meanwhile.\<close>

definition consoleread_wait :: "(world, bool) kmon" where
  "consoleread_wait =
     kbind (kget resumptions) (\<lambda>m.
     kiter (m + 1) (\<lambda>_.
       kbind (atom (kget cons)) (\<lambda>c.
       if c_r c = c_w c then
         kbind (atom cur_proc) (\<lambda>p.
         kbind (atom (get_proc p)) (\<lambda>pr.
         if p_killed pr then
           kbind (atom (on_mach (release CONS_LOCK))) (\<lambda>_. kret (Inr True))
         else
           kbind (sleep CH_CONS_R CONS_LOCK) (\<lambda>_. kret (Inl ()))))
       else kret (Inr False))) ())"

definition consoleread :: "kptr \<Rightarrow> bytes \<Rightarrow> int \<Rightarrow> (world, int \<times> bytes) kmon" where
  "consoleread dst lbuf n =
     (let target = (of_int n :: u32) in
     kbind (atom (on_mach (acquire CONS_LOCK))) (\<lambda>_.
     kbind (kiter (nat n + 1) (\<lambda>(dst, n, lbuf).
       if n > 0 then
         kbind consoleread_wait (\<lambda>killed.
         if killed then kret (Inr (None, lbuf))
         else
         kbind (atom (kget cons)) (\<lambda>cs.
         let c = c_buf cs (unat (c_r cs mod INPUT_BUF)) in
         kbind (atom (upd_cons cons_get)) (\<lambda>_.
         if c = 4 then
           kbind (kwhen ((of_int n :: u32) < target) (atom (upd_cons (\<lambda>x. x\<lparr>c_r := c_r x - 1\<rparr>)))) (\<lambda>_.
           kret (Inr (Some n, lbuf)))
         else
         kbind (atom (either_copyout dst lbuf (\<lambda>_. c) 1)) (\<lambda>(r, lbuf).
         if r = -1 then kret (Inr (Some n, lbuf))
         else if c = 10 then kret (Inr (Some (n - 1), lbuf))
         else kret (Inl (kptr_add dst 1, n - 1, lbuf))))))
       else kret (Inr (Some n, lbuf))) (dst, n, lbuf)) (\<lambda>(res, lbuf).
     case res of
       None \<Rightarrow> kret (-1, lbuf)
     | Some n \<Rightarrow>
         kbind (atom (on_mach (release CONS_LOCK))) (\<lambda>_.
         kret (sint (target - of_int n), lbuf)))))"

section \<open>Input interrupts\<close>

text \<open>The line-kill loop ends after at most \<open>e - w\<close> rounds, since each decrements \<open>e\<close>.\<close>

definition consoleintr_erase :: "(kernel, unit + unit) kmon" where
  "consoleintr_erase =
     kbind (kget cons) (\<lambda>c.
     if c_e c \<noteq> c_w c \<and> c_buf c (unat ((c_e c - 1) mod INPUT_BUF)) \<noteq> 10 then
       kbind (upd_cons (\<lambda>x. x\<lparr>c_e := c_e x - 1\<rparr>)) (\<lambda>_.
       kbind (consputc BACKSPACE) (\<lambda>_.
       kret (Inl ())))
     else kret (Inr ()))"

definition consoleintr_kill :: "(kernel, unit) kmon" where
  "consoleintr_kill =
     kbind (kget cons) (\<lambda>c.
     kiter (unat (c_e c - c_w c) + 1) (\<lambda>_. consoleintr_erase) ())"

definition consoleintr :: "int \<Rightarrow> (kernel, unit) kmon" where
  "consoleintr c =
     kbind (on_mach (acquire CONS_LOCK)) (\<lambda>_.
     kbind (
       if c = 0x10 then procdump
       else if c = 0x15 then consoleintr_kill
       else if c = 0x08 \<or> c = 0x7f then
         kbind (kget cons) (\<lambda>cs.
         kwhen (c_e cs \<noteq> c_w cs) (kseq [
           upd_cons (\<lambda>x. x\<lparr>c_e := c_e x - 1\<rparr>),
           consputc BACKSPACE]))
       else
         kbind (kget cons) (\<lambda>cs.
         kwhen (c \<noteq> 0 \<and> c_e cs - c_r cs < INPUT_BUF)
           (let c = (if c = 13 then 10 else c) in
           kbind (consputc c) (\<lambda>_.
           kbind (upd_cons (cons_put (of_int c))) (\<lambda>_.
           kbind (kget cons) (\<lambda>cs.
           kwhen (c = 10 \<or> c = 4 \<or> c_e cs = c_r cs + INPUT_BUF) (kseq [
             upd_cons (\<lambda>x. x\<lparr>c_w := c_e x\<rparr>),
             wakeup CH_CONS_R]))))))) (\<lambda>_.
     on_mach (release CONS_LOCK)))"

definition consoleinit :: "(kernel, unit) kmon" where
  "consoleinit = kseq [
     on_mach (initlock CONS_LOCK ''cons''),
     uartinit,
     kmod (\<lambda>k. k\<lparr>devsw := (devsw k)(CONSOLE := (devsw k CONSOLE)\<lparr>d_read := Some CONSOLEREAD\<rparr>)\<rparr>),
     kmod (\<lambda>k. k\<lparr>devsw := (devsw k)(CONSOLE := (devsw k CONSOLE)\<lparr>d_write := Some CONSOLEWRITE\<rparr>)\<rparr>)]"

definition uartintr :: "(kernel, unit) kmon" where
  "uartintr =
     kbind (kget (\<lambda>k. length (dev_in k))) (\<lambda>n.
     kbind (kiter (n + 1) (\<lambda>_.
       kbind uartgetc (\<lambda>c.
       if c = -1 then kret (Inr ())
       else kbind (consoleintr c) (\<lambda>_. kret (Inl ())))) ()) (\<lambda>_.
     kseq [
       on_mach (acquire UART_TX_LOCK),
       uartstart,
       on_mach (release UART_TX_LOCK)]))"

section \<open>The line editor\<close>

text \<open>The lines that \<open>consoleread\<close> may take, and the line that is being edited.\<close>

definition cons_lines :: "cons \<Rightarrow> u8 list" where
  "cons_lines x = ring_contents (c_buf x) (c_r x) (c_w x) INPUT_BUF"

definition cons_edit :: "cons \<Rightarrow> u8 list" where
  "cons_edit x = ring_contents (c_buf x) (c_w x) (c_e x) INPUT_BUF"

lemma unat_mod_INPUT_BUF: "unat (x mod 128 :: u32) = unat x mod 128"
  by (simp add: unat_mod)

interpretation cons_ring: ring c_r c_e c_buf cons_put cons_get INPUT_BUF
  by unfold_locales (simp_all add: cons_put_def cons_get_def unat_mod_INPUT_BUF)

text \<open>The invariant: both parts fit in the buffer together, and the line being edited has no newline yet.\<close>

definition cons_ok :: "cons \<Rightarrow> bool" where
  "cons_ok x \<longleftrightarrow> length (cons_lines x) + length (cons_edit x) \<le> INPUT_BUF \<and> 10 \<notin> set (cons_edit x)"

lemma cons_lengths: "length (cons_lines x) = unat (c_w x - c_r x)" "length (cons_edit x) = unat (c_e x - c_w x)"
  by (simp_all add: cons_lines_def cons_edit_def)

lemma cons_split:
  assumes "length (cons_lines x) + length (cons_edit x) \<le> INPUT_BUF"
  shows "ring_contents (c_buf x) (c_r x) (c_e x) INPUT_BUF = cons_lines x @ cons_edit x"
    and "unat (c_e x - c_r x) = length (cons_lines x) + length (cons_edit x)"
  using assms ring_contents_append [of "c_w x" "c_r x" "c_e x" 128 "c_buf x"]
    unat_diff_add [of "c_w x" "c_r x" "c_e x"]
  by (simp_all add: cons_lines_def cons_edit_def)

text \<open>What one input character does to the two parts, and what is echoed.\<close>

definition line_edit :: "int \<Rightarrow> u8 list \<times> u8 list \<Rightarrow> u8 list \<times> u8 list" where
  "line_edit c = (\<lambda>(q, l).
     if c = 0x10 then (q, l)
     else if c = 0x15 then (q, [])
     else if c = 0x08 \<or> c = 0x7f then (q, butlast l)
     else if c \<noteq> 0 \<and> length q + length l < INPUT_BUF then
       (let d = (if c = 13 then 10 else c); l' = l @ [of_int d] in
        if d = 10 \<or> d = 4 \<or> length q + length l' = INPUT_BUF then (q @ l', []) else (q, l'))
     else (q, l))"

definition line_echo :: "int \<Rightarrow> u8 list \<times> u8 list \<Rightarrow> int list" where
  "line_echo c = (\<lambda>(q, l).
     if c = 0x15 then concat (replicate (length l) [8, 32, 8])
     else if c = 0x08 \<or> c = 0x7f then (if l = [] then [] else [8, 32, 8])
     else if c \<noteq> 0 \<and> length q + length l < INPUT_BUF then [if c = 13 then 10 else c]
     else [])"

text \<open>Erasing the last character.\<close>

lemma erase_parts:
  assumes "c_e x \<noteq> c_w x"
  shows "cons_lines (x\<lparr>c_e := c_e x - 1\<rparr>) = cons_lines x"
    and "cons_edit (x\<lparr>c_e := c_e x - 1\<rparr>) = butlast (cons_edit x)"
    and "c_buf x (unat ((c_e x - 1) mod INPUT_BUF)) = last (cons_edit x)"
proof -
  show "cons_lines (x\<lparr>c_e := c_e x - 1\<rparr>) = cons_lines x" by (simp add: cons_lines_def)
  show "cons_edit (x\<lparr>c_e := c_e x - 1\<rparr>) = butlast (cons_edit x)"
    using assms by (simp add: cons_edit_def ring_contents_butlast)
  obtain n where n: "unat (c_e x - c_w x) = Suc n"
    using unat_diff_pred(2) [OF assms] by (cases "unat (c_e x - c_w x)") auto
  have e: "unat (c_e x - 1 - c_w x) = n"
    using unat_diff_pred(1) [OF assms] n by (simp add: algebra_simps)
  have "unat (c_w x + of_nat (unat (c_e x - 1 - c_w x))) mod 128 = (unat (c_w x) + n) mod 128"
    unfolding e by (rule unat_add_mod) simp
  then have "unat (c_e x - 1) mod 128 = (unat (c_w x) + n) mod 128" by simp
  then show "c_buf x (unat ((c_e x - 1) mod INPUT_BUF)) = last (cons_edit x)"
    by (simp add: cons_edit_def ring_contents_def n unat_mod_INPUT_BUF)
qed

lemma edit_empty: "cons_edit x = [] \<longleftrightarrow> c_e x = c_w x"
  by (auto simp: cons_edit_def ring_contents_def unat_eq_0)

lemma put_parts:
  assumes "length (cons_lines x) + length (cons_edit x) < INPUT_BUF"
  shows "cons_lines (cons_put b x) = cons_lines x" and "cons_edit (cons_put b x) = cons_edit x @ [b]"
proof -
  have f: "c_r (cons_put b x) = c_r x" "c_w (cons_put b x) = c_w x" "c_e (cons_put b x) = c_e x + 1"
    by (simp_all add: cons_put_def)
  have len: "length (cons_lines (cons_put b x)) = length (cons_lines x)" by (simp add: cons_lengths f)
  have "length (cons_edit (cons_put b x)) = length (cons_edit x) + 1"
    using assms unfolding cons_lengths f by (intro unat_diff_Suc) simp
  then have "length (cons_lines (cons_put b x)) + length (cons_edit (cons_put b x)) \<le> INPUT_BUF"
    using assms len by simp
  note new = cons_split(1) [OF this] and old = cons_split [of x]
  have "cons_lines (cons_put b x) @ cons_edit (cons_put b x) = (cons_lines x @ cons_edit x) @ [b]"
    using cons_ring.put_contents [of x b] old new assms by simp
  then have "cons_lines (cons_put b x) = cons_lines x \<and> cons_edit (cons_put b x) = cons_edit x @ [b]"
    using len by (simp add: append_eq_append_conv)
  then show "cons_lines (cons_put b x) = cons_lines x" "cons_edit (cons_put b x) = cons_edit x @ [b]" by simp_all
qed

lemma commit_parts:
  assumes "length (cons_lines x) + length (cons_edit x) \<le> INPUT_BUF"
  shows "cons_lines (x\<lparr>c_w := c_e x\<rparr>) = cons_lines x @ cons_edit x" and "cons_edit (x\<lparr>c_w := c_e x\<rparr>) = []"
  using cons_split(1) [OF assms] by (simp_all add: cons_lines_def cons_edit_def)

text \<open>The transmitter answers the next \<open>n\<close> polls that it is idle.\<close>

definition tx_ready :: "kernel \<Rightarrow> nat \<Rightarrow> u64 list \<Rightarrow> bool" where
  "tx_ready k n rest \<longleftrightarrow> (\<exists>vs. dev_in k = vs @ rest \<and> length vs = n \<and> (\<forall>v \<in> set vs. tx_idle v))"

lemma tx_ready_0 [simp]: "tx_ready k 0 rest \<longleftrightarrow> dev_in k = rest"
  by (simp add: tx_ready_def)

lemma tx_ready_Suc: "tx_ready k (Suc n) rest \<longleftrightarrow> (\<exists>v vs. dev_in k = v # vs \<and> tx_idle v \<and> tx_ready (k\<lparr>dev_in := vs\<rparr>) n rest)"
proof
  assume "tx_ready k (Suc n) rest"
  then obtain vs where vs: "dev_in k = vs @ rest" "length vs = Suc n" "\<forall>v \<in> set vs. tx_idle v" by (auto simp: tx_ready_def)
  then obtain v ws where "vs = v # ws" by (cases vs) auto
  then show "\<exists>v vs. dev_in k = v # vs \<and> tx_idle v \<and> tx_ready (k\<lparr>dev_in := vs\<rparr>) n rest"
    using vs by (auto simp: tx_ready_def)
next
  assume "\<exists>v vs. dev_in k = v # vs \<and> tx_idle v \<and> tx_ready (k\<lparr>dev_in := vs\<rparr>) n rest"
  then obtain v vs ws where "dev_in k = v # vs" "tx_idle v" "vs = ws @ rest" "length ws = n" "\<forall>v \<in> set ws. tx_idle v"
    by (auto simp: tx_ready_def)
  then show "tx_ready k (Suc n) rest" unfolding tx_ready_def by (intro exI [of _ "v # ws"]) auto
qed

lemma tx_ready_cong: "dev_in k = dev_in k' \<Longrightarrow> tx_ready k n rest = tx_ready k' n rest"
  by (simp add: tx_ready_def)

text \<open>Echoing, with interrupts off.\<close>

lemma echo_char:
  assumes "tx_ready k 1 rest" and "\<not> panicked k" and "c \<noteq> BACKSPACE" and "ppm (mach k) = mach k"
  shows "consputc c k = Ret () (k\<lparr>dev_in := rest, dev_out := dev_out k @ sent [c]\<rparr>)"
proof -
  obtain v where "dev_in k = v # rest" "tx_idle v" using assms(1) by (auto simp: tx_ready_Suc [of k 0, simplified])
  then show ?thesis using consputc_char [OF assms(3,2)] assms(4) by simp
qed

lemma echo_backspace:
  assumes "tx_ready k (Suc (Suc (Suc n))) rest" and "\<not> panicked k" and "ppm (mach k) = mach k"
  shows "\<exists>vs. consputc BACKSPACE k = Ret () (k\<lparr>dev_in := vs, dev_out := dev_out k @ sent [8, 32, 8]\<rparr>) \<and>
    tx_ready (k\<lparr>dev_in := vs\<rparr>) n rest"
proof -
  obtain v1 v2 v3 vs where "dev_in k = v1 # v2 # v3 # vs" "tx_idle v1" "tx_idle v2" "tx_idle v3"
    "tx_ready (k\<lparr>dev_in := vs\<rparr>) n rest"
    using assms(1) by (auto simp: tx_ready_Suc)
  then show ?thesis using consputc_backspace [OF assms(2)] assms(3) by fastforce
qed

lemma cons_kill_loop:
  assumes "length (cons_edit (cons k)) = n" and "n < f" and "10 \<notin> set (cons_edit (cons k))"
    and "tx_ready k (3 * n) rest" and "\<not> panicked k" and "ppm (mach k) = mach k"
  shows "\<exists>x. kiter f (\<lambda>_. consoleintr_erase) () k =
      Ret () (k\<lparr>cons := x, dev_in := rest, dev_out := dev_out k @ sent (concat (replicate n [8, 32, 8]))\<rparr>) \<and>
    cons_lines x = cons_lines (cons k) \<and> cons_edit x = []"
  using assms
proof (induction n arbitrary: k f)
  case 0
  then obtain f' where f: "f = Suc f'" by (cases f) auto
  have "k = k\<lparr>cons := cons k, dev_in := rest, dev_out := dev_out k @ sent (concat (replicate 0 [8, 32, 8]))\<rparr>"
    using 0 by (cases k) simp
  moreover have "kiter f (\<lambda>_. consoleintr_erase) () k = Ret () k"
    using 0 edit_empty [of "cons k"] by (simp add: f consoleintr_erase_def run_simps)
  ultimately show ?case using 0 by (intro exI [of _ "cons k"]) auto
next
  case (Suc n)
  then obtain f' where f: "f = Suc f'" by (cases f) auto
  have ne: "c_e (cons k) \<noteq> c_w (cons k)" using Suc.prems(1) edit_empty [of "cons k"] by auto
  note er = erase_parts [OF ne]
  have "cons_edit (cons k) \<noteq> []" using Suc.prems(1) by auto
  then have last: "last (cons_edit (cons k)) \<noteq> 10" using Suc.prems(3) last_in_set by metis
  let ?k = "k\<lparr>cons := (cons k)\<lparr>c_e := c_e (cons k) - 1\<rparr>\<rparr>"
  have "tx_ready ?k (Suc (Suc (Suc (3 * n)))) rest"
    using Suc.prems(4) by (simp add: tx_ready_cong [of ?k k] eval_nat_numeral)
  then obtain vs where vs: "consputc BACKSPACE ?k = Ret () (?k\<lparr>dev_in := vs, dev_out := dev_out ?k @ sent [8, 32, 8]\<rparr>)"
    "tx_ready (?k\<lparr>dev_in := vs\<rparr>) (3 * n) rest"
    using echo_backspace [of ?k "3 * n" rest] Suc.prems(5,6) by auto
  let ?h = "?k\<lparr>dev_in := vs, dev_out := dev_out ?k @ sent [8, 32, 8]\<rparr>"
  have step: "consoleintr_erase k = Ret (Inl ()) ?h"
    using ne er(3) last vs(1) by (simp add: consoleintr_erase_def run_simps)
  have "\<exists>x. kiter f' (\<lambda>_. consoleintr_erase) () ?h =
      Ret () (?h\<lparr>cons := x, dev_in := rest, dev_out := dev_out ?h @ sent (concat (replicate n [8, 32, 8]))\<rparr>) \<and>
    cons_lines x = cons_lines (cons ?h) \<and> cons_edit x = []"
  proof (rule Suc.IH)
    show "10 \<notin> set (cons_edit (cons ?h))" using Suc.prems(3) er(2) by (auto dest: in_set_butlastD)
    show "tx_ready ?h (3 * n) rest" using vs(2) by (simp add: tx_ready_def)
  qed (use Suc.prems f er(2) in simp_all)
  then show ?case using step er(1) by (auto simp: f run_simps)
qed

text \<open>Nothing but the console, the device trace, the process table and the machine's bookkeeping changed.\<close>

definition only_console :: "kernel \<Rightarrow> kernel \<Rightarrow> bool" where
  "only_console k k' \<longleftrightarrow>
     k'\<lparr>cons := cons k, dev_in := dev_in k, dev_out := dev_out k, proc := proc k, mach := mach k\<rparr> = k"

definition cons_parts :: "cons \<Rightarrow> u8 list \<times> u8 list" where
  "cons_parts x = (cons_lines x, cons_edit x)"

text \<open>The conclusion about one input character \<open>c\<close>.\<close>

definition edited :: "int \<Rightarrow> kernel \<Rightarrow> u64 list \<Rightarrow> kernel \<Rightarrow> bool" where
  "edited c k rest k' \<longleftrightarrow>
     cons_parts (cons k') = line_edit c (cons_parts (cons k)) \<and> cons_ok (cons k') \<and>
     dev_in k' = rest \<and> dev_out k' = dev_out k @ sent (line_echo c (cons_parts (cons k))) \<and>
     proc k' = (if cons_lines (cons k') = cons_lines (cons k) then proc k
                else wake_procs (curproc (mach k)) CH_CONS_R (proc k)) \<and>
     mach k' = ppm (mach k) \<and> only_console k k'"

lemma kernel_eqI: "k\<lparr>cons := cons k, dev_in := dev_in k, dev_out := dev_out k, proc := proc k, mach := mach k\<rparr> = k"
  by (cases k) simp

lemma consoleintr_kill_case:
  assumes "cons_ok (cons k)" and "free_lock CONS_LOCK (mach k)" and "\<not> panicked k"
    and "tx_ready k (length (line_echo 0x15 (cons_parts (cons k)))) rest"
  shows "\<exists>k'. consoleintr 0x15 k = Ret () k' \<and> edited 0x15 k rest k'"
proof -
  let ?k = "k\<lparr>mach := acqm CONS_LOCK (mach k)\<rparr>" and ?n = "length (cons_edit (cons k))"
  have "length (concat (replicate n [8, 32, 8 :: int])) = 3 * n" for n by (induction n) simp_all
  then have "tx_ready ?k (3 * ?n) rest"
    using assms(4) by (simp add: line_echo_def cons_parts_def tx_ready_def)
  then obtain x where x: "kiter (?n + 1) (\<lambda>_. consoleintr_erase) () ?k =
      Ret () (?k\<lparr>cons := x, dev_in := rest, dev_out := dev_out k @ sent (concat (replicate ?n [8, 32, 8]))\<rparr>)"
    "cons_lines x = cons_lines (cons k)" "cons_edit x = []"
    using cons_kill_loop [of ?k ?n "?n + 1" rest] assms(1,3) by (auto simp: cons_ok_def)
  have "consoleintr 0x15 k = Ret () (k\<lparr>cons := x, dev_in := rest,
      dev_out := dev_out k @ sent (concat (replicate ?n [8, 32, 8])), mach := ppm (mach k)\<rparr>)"
    using assms(2) x(1) by (simp add: consoleintr_def consoleintr_kill_def cons_lengths(2) [symmetric] run_simps del: kiter.simps)
  then show ?thesis
    using x(2,3) assms(1) kernel_eqI [of k]
    by (simp add: edited_def cons_parts_def line_edit_def line_echo_def cons_ok_def only_console_def)
qed

lemma consoleintr_erase_case:
  assumes "c = 0x08 \<or> c = 0x7f" and "cons_ok (cons k)" and "free_lock CONS_LOCK (mach k)" and "\<not> panicked k"
    and "tx_ready k (length (line_echo c (cons_parts (cons k)))) rest"
  shows "\<exists>k'. consoleintr c k = Ret () k' \<and> edited c k rest k'"
proof (cases "cons_edit (cons k) = []")
  case True
  then have "consoleintr c k = Ret () (k\<lparr>mach := ppm (mach k)\<rparr>)"
    using assms(1,3) edit_empty [of "cons k"] by (auto simp: consoleintr_def run_simps)
  then show ?thesis
    using True assms kernel_eqI [of k]
    by (auto simp: edited_def cons_parts_def line_edit_def line_echo_def only_console_def)
next
  case False
  then have ne: "c_e (cons k) \<noteq> c_w (cons k)" using edit_empty by simp
  note er = erase_parts [OF ne]
  let ?x = "(cons k)\<lparr>c_e := c_e (cons k) - 1\<rparr>"
  let ?k = "k\<lparr>mach := acqm CONS_LOCK (mach k), cons := ?x\<rparr>"
  have "tx_ready ?k (Suc (Suc (Suc 0))) rest"
    using assms(1,5) False by (auto simp: line_echo_def cons_parts_def tx_ready_def numeral_3_eq_3)
  then have "consputc BACKSPACE ?k = Ret () (?k\<lparr>dev_in := rest, dev_out := dev_out k @ sent [8, 32, 8]\<rparr>)"
    using echo_backspace [of ?k 0 rest] assms(4) by auto
  then have "consoleintr c k = Ret () (k\<lparr>cons := ?x, dev_in := rest, dev_out := dev_out k @ sent [8, 32, 8], mach := ppm (mach k)\<rparr>)"
    using assms(1,3) ne by (auto simp: consoleintr_def run_simps)
  then show ?thesis
    using er assms(1,2) False kernel_eqI [of k]
    by (auto simp: edited_def cons_parts_def line_edit_def line_echo_def cons_ok_def only_console_def dest: in_set_butlastD)
qed

lemma cons_room:
  assumes "cons_ok x"
  shows "c_e x - c_r x < INPUT_BUF \<longleftrightarrow> length (cons_lines x) + length (cons_edit x) < INPUT_BUF"
    and "c_e x = c_r x + INPUT_BUF \<longleftrightarrow> length (cons_lines x) + length (cons_edit x) = INPUT_BUF"
  using assms cons_split [of x] cons_ring.full_iff [of x] by (simp_all add: cons_ok_def word_less_nat_alt)

lemma char_of_int:
  assumes "0 \<le> c" and "c < 256"
  shows "(of_int c :: u8) = 10 \<longleftrightarrow> c = 10"
  using assms by (auto simp: word_unat_eq_iff unat_of_int_less)

lemma consoleintr_char_run:
  assumes "cons_ok (cons k)" and "0 < c" and "c < 256" and "c \<notin> {0x10, 0x15, 0x08, 0x7f}"
    and "length (cons_lines (cons k)) + length (cons_edit (cons k)) < INPUT_BUF"
    and "free_lock CONS_LOCK (mach k)" and "\<not> panicked k" and "tx_ready k 1 rest"
    and "\<forall>p < NPROC. Some p \<noteq> curproc (mach k) \<longrightarrow> free_lock (PROC_LOCK p) (mach k)"
    and "d = (if c = 13 then 10 else c)" and "x = cons_put (of_int d) (cons k)"
  shows "consoleintr c k = Ret () (
    if d = 10 \<or> d = 4 \<or> c_e x = c_r x + INPUT_BUF
    then k\<lparr>cons := x\<lparr>c_w := c_e x\<rparr>, dev_in := rest, dev_out := dev_out k @ sent [d],
      proc := wake_procs (curproc (mach k)) CH_CONS_R (proc k), mach := ppm (mach k)\<rparr>
    else k\<lparr>cons := x, dev_in := rest, dev_out := dev_out k @ sent [d], mach := ppm (mach k)\<rparr>)"
proof -
  let ?k = "k\<lparr>mach := acqm CONS_LOCK (mach k)\<rparr>"
  have "consputc d ?k = Ret () (?k\<lparr>dev_in := rest, dev_out := dev_out k @ sent [d]\<rparr>)"
    using echo_char [of ?k rest d] assms(2,3,7,8,10) by (auto simp: tx_ready_def)
  then show ?thesis
    using assms(2,4,6,9,11) cons_room(1) [OF assms(1)] assms(5)
    by (simp add: consoleintr_def run_simps Let_def assms(10) [symmetric])
qed

lemma consoleintr_char_case:
  assumes "cons_ok (cons k)" and "0 < c" and "c < 256" and "c \<notin> {0x10, 0x15, 0x08, 0x7f}"
    and "free_lock CONS_LOCK (mach k)" and "\<not> panicked k"
    and "\<forall>p < NPROC. Some p \<noteq> curproc (mach k) \<longrightarrow> free_lock (PROC_LOCK p) (mach k)"
    and "tx_ready k (length (line_echo c (cons_parts (cons k)))) rest"
  shows "\<exists>k'. consoleintr c k = Ret () k' \<and> edited c k rest k'"
proof (cases "length (cons_lines (cons k)) + length (cons_edit (cons k)) < INPUT_BUF")
  case False
  then have "consoleintr c k = Ret () (k\<lparr>mach := ppm (mach k)\<rparr>)"
    using assms(2,4,5) cons_room(1) [OF assms(1)] by (simp add: consoleintr_def run_simps)
  then show ?thesis
    using False assms kernel_eqI [of k]
    by (auto simp: edited_def cons_parts_def line_edit_def line_echo_def only_console_def)
next
  case True
  define d where "d = (if c = 13 then 10 else c)"
  define x where "x = cons_put (of_int d) (cons k)"
  have parts: "cons_lines x = cons_lines (cons k)" "cons_edit x = cons_edit (cons k) @ [of_int d]"
    using put_parts [OF True] by (simp_all add: x_def)
  have le: "length (cons_lines x) + length (cons_edit x) \<le> INPUT_BUF" using True parts by simp
  have "tx_ready k 1 rest" using assms(2,4,8) True by (simp add: line_echo_def cons_parts_def)
  note run = consoleintr_char_run [OF assms(1-4) True assms(5,6) this assms(7) d_def x_def]
  have full: "c_e x = c_r x + INPUT_BUF \<longleftrightarrow> length (cons_lines x) + length (cons_edit x) = INPUT_BUF"
    using cons_split [OF le] cons_ring.full_iff [of x] le by simp
  have ech: "line_echo c (cons_parts (cons k)) = [d]"
    and edit: "line_edit c (cons_parts (cons k)) =
      (if d = 10 \<or> d = 4 \<or> length (cons_lines x) + length (cons_edit x) = INPUT_BUF
       then (cons_lines x @ cons_edit x, []) else (cons_lines x, cons_edit x))"
    using assms(2,4) True by (simp_all add: line_echo_def line_edit_def cons_parts_def d_def parts Let_def)
  have "d \<noteq> 10 \<Longrightarrow> (of_int d :: u8) \<noteq> 10" using char_of_int [of d] assms(2,3) by (simp add: d_def split: if_splits)
  then show ?thesis
    using run assms(1) le kernel_eqI [of k] commit_parts [OF le]
    by (auto simp: edited_def cons_parts_def ech [unfolded cons_parts_def] edit [unfolded cons_parts_def] full cons_ok_def
        only_console_def parts split: if_splits)
qed

text \<open>
  C19: the console is a line editor. For every input character but control-P, \<open>consoleintr\<close> changes the committed
  and the edited part of the input exactly as \<open>line_edit\<close> says (control-U empties the line, backspace and delete drop
  its last character, carriage return becomes newline, a newline, an end-of-file character or a full buffer commits the
  line, a character that does not fit is dropped), echoes exactly \<open>line_echo\<close>, wakes the readers exactly when bytes
  were committed, keeps the buffer's invariant, releases \<open>cons.lock\<close>, and changes nothing else.
\<close>

theorem consoleintr_edits:
  assumes "cons_ok (cons k)" and "0 \<le> c" and "c < 256" and "c \<noteq> 0x10"
    and "free_lock CONS_LOCK (mach k)" and "\<not> panicked k"
    and "\<forall>p < NPROC. Some p \<noteq> curproc (mach k) \<longrightarrow> free_lock (PROC_LOCK p) (mach k)"
    and "tx_ready k (length (line_echo c (cons_parts (cons k)))) rest"
  shows "\<exists>k'. consoleintr c k = Ret () k' \<and> edited c k rest k'"
proof -
  consider "c = 0" | "c = 0x15" | "c = 0x08 \<or> c = 0x7f" | "0 < c" "c \<notin> {0x10, 0x15, 0x08, 0x7f}"
    using assms(2,4) by fastforce
  then show ?thesis
  proof cases
    case 1
    then have "consoleintr c k = Ret () (k\<lparr>mach := ppm (mach k)\<rparr>)"
      using assms(5) by (simp add: consoleintr_def run_simps)
    then show ?thesis
      using 1 assms(1,8) kernel_eqI [of k]
      by (simp add: edited_def cons_parts_def line_edit_def line_echo_def only_console_def)
  next
    case 2
    then show ?thesis using consoleintr_kill_case assms(1,5,6,8) by simp
  next
    case 3
    then show ?thesis using consoleintr_erase_case assms(1,5,6,8) by simp
  next
    case 4
    then show ?thesis using consoleintr_char_case assms by simp
  qed
qed

text \<open>A console with the two bytes \<open>ab\<close> typed, whose counters are about to wrap around.\<close>

definition cons_demo :: kernel where
  "cons_demo = (boot_kernel (syms_at 0x80022000) (\<lambda>_. 0))\<lparr>mach := thread_mach 3, dev_in := [0x20],
     cons := cons_put 98 (cons_put 97 ((cons (boot_kernel (syms_at 0x80022000) (\<lambda>_. 0)))\<lparr>c_r := -1, c_w := -1, c_e := -1\<rparr>))\<rparr>"

lemma cons_demo_parts: "cons_lines (cons cons_demo) = []" "cons_edit (cons cons_demo) = [97, 98]"
proof -
  define x where "x = (cons (boot_kernel (syms_at 0x80022000) (\<lambda>_. 0)))\<lparr>c_r := -1, c_w := -1, c_e := -1\<rparr>"
  have "cons_lines x = []" "cons_edit x = []" by (simp_all add: x_def cons_lines_def cons_edit_def)
  then show "cons_lines (cons cons_demo) = []" "cons_edit (cons cons_demo) = [97, 98]"
    using put_parts [of x 97] put_parts [of "cons_put 97 x" 98] by (simp_all add: cons_demo_def x_def [symmetric])
qed

lemma cons_demo_fields: "mach cons_demo = thread_mach 3" "dev_in cons_demo = [0x20]" "\<not> panicked cons_demo"
  by (simp_all add: cons_demo_def boot_kernel_def)

theorem consoleintr_edits_witness:
  "\<exists>k'. consoleintr 13 cons_demo = Ret () k' \<and> cons_lines (cons k') = [97, 98, 10] \<and> cons_edit (cons k') = [] \<and>
    dev_out k' = dev_out cons_demo @ sent [10]"
proof -
  have ech: "line_echo 13 (cons_parts (cons cons_demo)) = [10]" "line_edit 13 (cons_parts (cons cons_demo)) = ([97, 98, 10], [])"
    by (simp_all add: cons_demo_parts cons_parts_def line_echo_def line_edit_def Let_def)
  have "\<exists>k'. consoleintr 13 cons_demo = Ret () k' \<and> edited 13 cons_demo [] k'"
    by (rule consoleintr_edits) (simp_all add: ech cons_ok_def cons_demo_parts cons_demo_fields tx_ready_def tx_idle_def)
  then show ?thesis by (auto simp: edited_def ech cons_parts_def ech [unfolded cons_parts_def])
qed

end
