(* ===== verification/File.thy ===== *)
theory File
  imports Dir Pipe Console
begin

text \<open>
  The table of open files (\<open>kernel/file.c\<close>), with reference counts, and \<open>pipealloc\<close> of
  \<open>kernel/pipe.c\<close>, which allocates two of its entries.
\<close>

definition get_file :: "nat \<Rightarrow> (kernel, kfile) kmon" where
  "get_file f = kget (\<lambda>k. files k f)"

definition fileinit :: "(kernel, unit) kmon" where
  "fileinit = on_mach (initlock FTABLE_LOCK ''ftable'')"

definition filealloc :: "(kernel, nat option) kmon" where
  "filealloc =
     kbind (on_mach (acquire FTABLE_LOCK)) (\<lambda>_.
     kbind (kfind [0..<NFILE] (\<lambda>f.
       kbind (get_file f) (\<lambda>x.
       if f_ref x = 0 then
         kbind (upd_file f (\<lambda>x. x\<lparr>f_ref := 1\<rparr>)) (\<lambda>_.
         kbind (on_mach (release FTABLE_LOCK)) (\<lambda>_.
         kret (Some f)))
       else kret None))) (\<lambda>r.
     case r of
       Some f \<Rightarrow> kret (Some f)
     | None \<Rightarrow> kbind (on_mach (release FTABLE_LOCK)) (\<lambda>_. kret None)))"

definition filedup :: "nat \<Rightarrow> (kernel, nat) kmon" where
  "filedup f =
     kbind (on_mach (acquire FTABLE_LOCK)) (\<lambda>_.
     kbind (get_file f) (\<lambda>x.
     if f_ref x < 1 then kpanic ''filedup''
     else
     kbind (upd_file f (\<lambda>x. x\<lparr>f_ref := f_ref x + 1\<rparr>)) (\<lambda>_.
     kbind (on_mach (release FTABLE_LOCK)) (\<lambda>_.
     kret f))))"

text \<open>A pointer to an inode is null in a file that never had one; using it is a page fault.\<close>

definition the_ip :: "kfile \<Rightarrow> (kernel, nat) kmon" where
  "the_ip x = (case f_ip x of None \<Rightarrow> kpanic ''kerneltrap'' | Some ip \<Rightarrow> kret ip)"

definition fileclose :: "nat \<Rightarrow> (world, unit) kmon" where
  "fileclose f =
     kbind (atom (on_mach (acquire FTABLE_LOCK))) (\<lambda>_.
     kbind (atom (get_file f)) (\<lambda>x.
     if f_ref x < 1 then kpanic ''fileclose''
     else
     kbind (atom (upd_file f (\<lambda>x. x\<lparr>f_ref := f_ref x - 1\<rparr>))) (\<lambda>_.
     kbind (atom (get_file f)) (\<lambda>ff.
     if f_ref ff > 0 then atom (on_mach (release FTABLE_LOCK))
     else
     kbind (atom (upd_file f (\<lambda>x. x\<lparr>f_ref := 0, f_type := FD_NONE\<rparr>))) (\<lambda>_.
     kbind (atom (on_mach (release FTABLE_LOCK))) (\<lambda>_.
     if f_type ff = FD_PIPE then atom (pipeclose (f_pipe ff) (f_writable ff))
     else if f_type ff = FD_INODE \<or> f_type ff = FD_DEVICE then kseq [
       begin_op,
       kbind (atom (the_ip ff)) iput,
       end_op]
     else kret ()))))))"

definition filestat :: "nat \<Rightarrow> u64 \<Rightarrow> (world, int) kmon" where
  "filestat f addr =
     kbind (atom cur_proc) (\<lambda>p.
     kbind (atom (get_file f)) (\<lambda>x.
     if f_type x = FD_INODE \<or> f_type x = FD_DEVICE then
       kbind (ilock (f_ip x)) (\<lambda>_.
       kbind (atom (the_ip x)) (\<lambda>ip.
       kbind (atom (stati ip (\<lambda>_. 0))) (\<lambda>st.
       kbind (atom (iunlock (f_ip x))) (\<lambda>_.
       kbind (atom (get_proc p)) (\<lambda>pr.
       kbind (atom (copyout (p_pagetable pr) addr st 24)) (\<lambda>r.
       kret (if r < 0 then -1 else 0)))))))
     else kret (-1)))"

definition devread :: "devfn \<Rightarrow> u64 \<Rightarrow> int \<Rightarrow> (world, int) kmon" where
  "devread fn addr n = (case fn of
       CONSOLEREAD \<Rightarrow> kbind (consoleread (UserP addr) (\<lambda>_. 0) n) (\<lambda>(r, _). kret r)
     | CONSOLEWRITE \<Rightarrow> consolewrite (UserP addr) (\<lambda>_. 0) n)"

definition fileread :: "nat \<Rightarrow> u64 \<Rightarrow> int \<Rightarrow> (world, int) kmon" where
  "fileread f addr n =
     kbind (atom (get_file f)) (\<lambda>x.
     if \<not> f_readable x then kret (-1)
     else if f_type x = FD_PIPE then piperead (f_pipe x) addr n
     else if f_type x = FD_DEVICE then
       (if sint (f_major x) < 0 \<or> sint (f_major x) \<ge> int NDEV then kret (-1)
        else
        kbind (atom (kget (\<lambda>k. d_read (devsw k (unat (f_major x)))))) (\<lambda>d.
        case d of None \<Rightarrow> kret (-1) | Some fn \<Rightarrow> devread fn addr n))
     else if f_type x = FD_INODE then
       kbind (ilock (f_ip x)) (\<lambda>_.
       kbind (atom (the_ip x)) (\<lambda>ip.
       kbind (atom (get_file f)) (\<lambda>x.
       kbind (readi ip (UserP addr) (\<lambda>_. 0) (f_off x) (of_int n)) (\<lambda>(r, _).
       kbind (kwhen (r > 0) (atom (upd_file f (\<lambda>x. x\<lparr>f_off := f_off x + of_int r\<rparr>)))) (\<lambda>_.
       kbind (atom (iunlock (Some ip))) (\<lambda>_.
       kret r))))))
     else kpanic ''fileread'')"

text \<open>\<open>max\<close>: three blocks.\<close>

definition filewrite_max :: int where
  "filewrite_max = ((int MAXOPBLOCKS - 1 - 1 - 2) div 2) * BSIZE"

text \<open>Each round of the loop of \<open>filewrite\<close> adds \<open>n1 > 0\<close> to \<open>i\<close>, or leaves the loop.\<close>

definition filewrite :: "nat \<Rightarrow> u64 \<Rightarrow> int \<Rightarrow> (world, int) kmon" where
  "filewrite f addr n =
     kbind (atom (get_file f)) (\<lambda>x.
     if \<not> f_writable x then kret (-1)
     else if f_type x = FD_PIPE then pipewrite (f_pipe x) addr n
     else if f_type x = FD_DEVICE then
       (if sint (f_major x) < 0 \<or> sint (f_major x) \<ge> int NDEV then kret (-1)
        else
        kbind (atom (kget (\<lambda>k. d_write (devsw k (unat (f_major x)))))) (\<lambda>d.
        case d of None \<Rightarrow> kret (-1) | Some fn \<Rightarrow> devread fn addr n))
     else if f_type x = FD_INODE then
       kbind (kiter (nat n + 1) (\<lambda>i.
         if i < n then
           let n1 = (if n - i > filewrite_max then filewrite_max else n - i) in
           kbind begin_op (\<lambda>_.
           kbind (ilock (f_ip x)) (\<lambda>_.
           kbind (atom (the_ip x)) (\<lambda>ip.
           kbind (atom (get_file f)) (\<lambda>x.
           kbind (writei ip (UserP (addr + of_int i)) (\<lambda>_. 0) (f_off x) (of_int n1)) (\<lambda>r.
           kbind (kwhen (r > 0) (atom (upd_file f (\<lambda>x. x\<lparr>f_off := f_off x + of_int r\<rparr>)))) (\<lambda>_.
           kbind (atom (iunlock (Some ip))) (\<lambda>_.
           kbind end_op (\<lambda>_.
           kret (if r \<noteq> n1 then Inr i else Inl (i + r))))))))))
         else kret (Inr i)) 0) (\<lambda>i.
       kret (if i = n then n else -1))
     else kpanic ''filewrite'')"

section \<open>Pipe allocation\<close>

definition pipealloc :: "(world, (nat \<times> nat) option) kmon" where
  "pipealloc =
     kbind (atom filealloc) (\<lambda>f0.
     case f0 of
       None \<Rightarrow> kret None
     | Some f0 \<Rightarrow>
         kbind (atom filealloc) (\<lambda>f1.
         case f1 of
           None \<Rightarrow> kbind (fileclose f0) (\<lambda>_. kret None)
         | Some f1 \<Rightarrow>
             kbind (atom kalloc) (\<lambda>a.
             if a = 0 then
               kbind (fileclose f0) (\<lambda>_.
               kbind (fileclose f1) (\<lambda>_.
               kret None))
             else
             kbind (atom (kseq [
               upd_pipe a (\<lambda>x. x\<lparr>pi_readopen := True, pi_writeopen := True, pi_nwrite := 0, pi_nread := 0\<rparr>),
               on_mach (initlock (PIPE_LOCK a) ''pipe''),
               upd_file f0 (\<lambda>x. x\<lparr>f_type := FD_PIPE, f_readable := True, f_writable := False, f_pipe := a\<rparr>),
               upd_file f1 (\<lambda>x. x\<lparr>f_type := FD_PIPE, f_readable := False, f_writable := True, f_pipe := a\<rparr>)])) (\<lambda>_.
             kret (Some (f0, f1))))))"

end
