(* ===== verification/Exec.thy ===== *)
theory Exec
  imports File
begin

text \<open>
  Program loading (\<open>kernel/exec.c\<close>): segments of an ELF file into a fresh page table, the argument
  strings and the argument array on the new stack, and the commit to the new image. The structures
  of \<open>kernel/elf.h\<close> are read from byte arrays at the offsets of their fields. \<open>argv\<close> is the list of the
  addresses of the argument strings in kernel memory, without the terminating null pointer.
\<close>

section \<open>ELF (kernel/elf.h)\<close>

abbreviation (input) ELF_MAGIC :: u32 where "ELF_MAGIC \<equiv> 0x464C457F"
abbreviation (input) ELF_PROG_LOAD :: u32 where "ELF_PROG_LOAD \<equiv> 1"

record elfhdr =
  elf_magic :: u32
  elf_entry :: u64
  elf_phoff :: u64
  elf_phnum :: u16

definition decode_elfhdr :: "bytes \<Rightarrow> elfhdr" where
  "decode_elfhdr d = \<lparr>elf_magic = ld32 d 0, elf_entry = ld64 d 24, elf_phoff = ld64 d 32, elf_phnum = ld16 d 56\<rparr>"

record proghdr =
  ph_type :: u32
  ph_off :: u64
  ph_vaddr :: u64
  ph_filesz :: u64
  ph_memsz :: u64

definition decode_proghdr :: "bytes \<Rightarrow> proghdr" where
  "decode_proghdr d = \<lparr>ph_type = ld32 d 0, ph_off = ld64 d 8, ph_vaddr = ld64 d 16, ph_filesz = ld64 d 32,
     ph_memsz = ld64 d 40\<rparr>"

abbreviation (input) SIZEOF_ELFHDR :: "'a::numeral" where "SIZEOF_ELFHDR \<equiv> 64"
abbreviation (input) SIZEOF_PROGHDR :: "'a::numeral" where "SIZEOF_PROGHDR \<equiv> 56"

section \<open>Segments\<close>

text \<open>
  The counter \<open>i\<close> is a 32-bit number advanced by \<open>PGSIZE\<close>: after \<open>2^20\<close> rounds it is back at 0, so a loop
  that is still running then runs forever.
\<close>

definition loadseg :: "u64 \<Rightarrow> u64 \<Rightarrow> nat \<Rightarrow> u32 \<Rightarrow> u32 \<Rightarrow> (world, int) kmon" where
  "loadseg pagetable va ip offset sz =
     kiter (1048576 + 1) (\<lambda>i.
       if i < sz then
         kbind (atom (walkaddr pagetable (va + ucast i))) (\<lambda>pa.
         if pa = 0 then kpanic ''loadseg: address should exist''
         else
         let n = (if sz - i < PGSIZE then sz - i else PGSIZE) in
         kbind (readi ip (KernP pa) (\<lambda>_. 0) (offset + i) n) (\<lambda>(r, _).
         if of_int r \<noteq> n then kret (Inr (-1))
         else kret (Inl (i + PGSIZE))))
       else kret (Inr 0)) 0"

text \<open>The loop over the program headers: whether it succeeded, and \<open>sz\<close> when it ended.\<close>

definition exec_load :: "u64 \<Rightarrow> nat \<Rightarrow> elfhdr \<Rightarrow> (world, bool \<times> u64) kmon" where
  "exec_load pagetable ip elf =
     kiter (unat (elf_phnum elf) + 1) (\<lambda>(i, off, sz).
       if i < uint (elf_phnum elf) then
         kbind (readi ip (LocalP 0) (\<lambda>_. 0) off SIZEOF_PROGHDR) (\<lambda>(r, d).
         let ph = decode_proghdr d; nxt = off + SIZEOF_PROGHDR in
         if r \<noteq> SIZEOF_PROGHDR then kret (Inr (False, sz))
         else if ph_type ph \<noteq> ELF_PROG_LOAD then kret (Inl (i + 1, nxt, sz))
         else if ph_memsz ph < ph_filesz ph then kret (Inr (False, sz))
         else if ph_vaddr ph + ph_memsz ph < ph_vaddr ph then kret (Inr (False, sz))
         else
         kbind (atom (uvmalloc pagetable sz (ph_vaddr ph + ph_memsz ph))) (\<lambda>sz1.
         if sz1 = 0 then kret (Inr (False, sz))
         else if ph_vaddr ph mod PGSIZE \<noteq> 0 then kret (Inr (False, sz1))
         else
         kbind (loadseg pagetable (ph_vaddr ph) ip (ucast (ph_off ph)) (ucast (ph_filesz ph))) (\<lambda>r.
         if r < 0 then kret (Inr (False, sz1))
         else kret (Inl (i + 1, nxt, sz1)))))
       else kret (Inr (True, sz))) (0, ucast (elf_phoff elf), 0)"

section \<open>Arguments\<close>

text \<open>A string in kernel memory, and its length; an unterminated string makes \<open>strlen\<close> run away.\<close>

definition kstring :: "u64 \<Rightarrow> kernel \<Rightarrow> bytes" where
  "kstring a k = (\<lambda>j. mem k (unat a + j))"

definition kstrlen :: "u64 \<Rightarrow> (kernel, u64) kmon" where
  "kstrlen a = kbind (kget (kstring a)) (\<lambda>s.
     case strlen s of None \<Rightarrow> khang | Some n \<Rightarrow> kret (of_nat n))"

text \<open>\<open>sp -= sp % 16\<close>\<close>

definition align16 :: "u64 \<Rightarrow> u64" where
  "align16 sp = sp - sp mod 16"

text \<open>The loop that pushes the argument strings: \<open>argc\<close>, \<open>sp\<close> and \<open>ustack\<close>, or failure.\<close>

fun exec_push :: "u64 \<Rightarrow> u64 \<Rightarrow> u64 list \<Rightarrow> nat \<Rightarrow> u64 \<Rightarrow> bytes \<Rightarrow> (kernel, (nat \<times> u64 \<times> bytes) option) kmon" where
  "exec_push pagetable stackbase [] argc sp ustack = kret (Some (argc, sp, ustack))"
| "exec_push pagetable stackbase (a # argv) argc sp ustack =
     (if argc \<ge> MAXARG then kret None
      else
      kbind (kstrlen a) (\<lambda>n.
      let sp = align16 (sp - (n + 1)) in
      if sp < stackbase then kret None
      else
      kbind (kget (kstring a)) (\<lambda>s.
      kbind (copyout pagetable sp s (n + 1)) (\<lambda>r.
      if r < 0 then kret None
      else exec_push pagetable stackbase argv (argc + 1) sp (st64 ustack (8 * argc) sp)))))"

text \<open>The stack of the new image: two pages above \<open>sz\<close>, the lower one inaccessible to the user.\<close>

definition exec_stack :: "u64 \<Rightarrow> u64 \<Rightarrow> u64 list \<Rightarrow> (kernel, (nat \<times> u64) option) kmon" where
  "exec_stack pagetable sz argv =
     kbind (uvmclear pagetable (sz - 2 * PGSIZE)) (\<lambda>_.
     let stackbase = sz - PGSIZE in
     kbind (exec_push pagetable stackbase argv 0 sz (\<lambda>_. 0)) (\<lambda>r.
     case r of
       None \<Rightarrow> kret None
     | Some (argc, sp, ustack) \<Rightarrow>
         let ustack = st64 ustack (8 * argc) 0;
             sp = align16 (sp - of_nat ((argc + 1) * 8))
         in
         if sp < stackbase then kret None
         else
         kbind (copyout pagetable sp ustack (of_nat ((argc + 1) * 8))) (\<lambda>r.
         if r < 0 then kret None
         else kret (Some (argc, sp)))))"

section \<open>exec\<close>

text \<open>The part of the path after its last slash.\<close>

fun exec_last :: "u8 list \<Rightarrow> u8 list \<Rightarrow> u8 list" where
  "exec_last [] lst = lst"
| "exec_last (c # s) lst = exec_last s (if c = SLASH then s else lst)"

text \<open>The code at label \<open>bad\<close>.\<close>

definition exec_bad :: "u64 \<Rightarrow> u64 \<Rightarrow> nat option \<Rightarrow> (world, int) kmon" where
  "exec_bad pagetable sz ipo =
     kbind (kwhen (pagetable \<noteq> 0) (atom (proc_freepagetable pagetable sz))) (\<lambda>_.
     kbind (case ipo of
         None \<Rightarrow> kret ()
       | Some ip \<Rightarrow> kseq [iunlockput ip, end_op]) (\<lambda>_.
     kret (-1)))"

definition exec :: "u8 list \<Rightarrow> u64 list \<Rightarrow> (world, int) kmon" where
  "exec path argv =
     kbind (atom cur_proc) (\<lambda>p.
     kbind begin_op (\<lambda>_.
     kbind (namei path) (\<lambda>ipo.
     case ipo of
       None \<Rightarrow> kbind end_op (\<lambda>_. kret (-1))
     | Some ip \<Rightarrow>
     kbind (ilock (Some ip)) (\<lambda>_.
     kbind (readi ip (LocalP 0) (\<lambda>_. 0) 0 SIZEOF_ELFHDR) (\<lambda>(r, d).
     let elf = decode_elfhdr d in
     if r \<noteq> SIZEOF_ELFHDR then exec_bad 0 0 (Some ip)
     else if elf_magic elf \<noteq> ELF_MAGIC then exec_bad 0 0 (Some ip)
     else
     kbind (atom (proc_pagetable p)) (\<lambda>pagetable.
     if pagetable = 0 then exec_bad 0 0 (Some ip)
     else
     kbind (exec_load pagetable ip elf) (\<lambda>(ok, sz).
     if \<not> ok then exec_bad pagetable sz (Some ip)
     else
     kbind (iunlockput ip) (\<lambda>_.
     kbind end_op (\<lambda>_.
     kbind (atom cur_proc) (\<lambda>p.
     kbind (atom (get_proc p)) (\<lambda>pr.
     let oldsz = p_sz pr; sz = PGROUNDUP sz in
     kbind (atom (uvmalloc pagetable sz (sz + 2 * PGSIZE))) (\<lambda>sz1.
     if sz1 = 0 then exec_bad pagetable sz None
     else
     kbind (atom (exec_stack pagetable sz1 argv)) (\<lambda>r.
     case r of
       None \<Rightarrow> exec_bad pagetable sz1 None
     | Some (argc, sp) \<Rightarrow>
     kbind (atom (set_tf p TF_A1 sp)) (\<lambda>_.
     kbind (atom (upd_proc p (\<lambda>x. x\<lparr>p_name := safestrcpy (p_name x) (array_of (exec_last path path)) 16\<rparr>))) (\<lambda>_.
     kbind (atom (get_proc p)) (\<lambda>pr.
     let oldpagetable = p_pagetable pr in
     kbind (atom (upd_proc p (\<lambda>x. x\<lparr>p_pagetable := pagetable, p_sz := sz1\<rparr>))) (\<lambda>_.
     kbind (atom (set_tf p TF_EPC (elf_entry elf))) (\<lambda>_.
     kbind (atom (set_tf p TF_SP sp)) (\<lambda>_.
     kbind (atom (proc_freepagetable oldpagetable oldsz)) (\<lambda>_.
     kret (int argc)))))))))))))))))))))"

end
