(* ===== verification/Process.thy ===== *)
theory Process
  imports File
begin

text \<open>
  The part of \<open>kernel/proc.c\<close> that needs the file system: the first process, \<open>fork\<close> and \<open>exit\<close>.
\<close>

definition initcode :: "u8 list" where
  "initcode = [
     0x17, 0x05, 0x00, 0x00, 0x13, 0x05, 0x45, 0x02,
     0x97, 0x05, 0x00, 0x00, 0x93, 0x85, 0x35, 0x02,
     0x93, 0x08, 0x70, 0x00, 0x73, 0x00, 0x00, 0x00,
     0x93, 0x08, 0x20, 0x00, 0x73, 0x00, 0x00, 0x00,
     0xef, 0xf0, 0x9f, 0xff, 0x2f, 0x69, 0x6e, 0x69,
     0x74, 0x00, 0x00, 0x24, 0x00, 0x00, 0x00, 0x00,
     0x00, 0x00, 0x00, 0x00]"

definition bytes_of_string :: "string \<Rightarrow> u8 list" where
  "bytes_of_string s = map of_char s"

definition userinit :: "(world, unit) kmon" where
  "userinit =
     kbind (atom allocproc) (\<lambda>po.
     kbind (atom (kmod (\<lambda>k. k\<lparr>initproc := po\<rparr>))) (\<lambda>_.
     case po of
       None \<Rightarrow> kpanic ''kerneltrap''
     | Some p \<Rightarrow>
         kbind (atom (get_proc p)) (\<lambda>pr.
         kbind (atom (uvminit (p_pagetable pr) (array_of initcode) (of_nat (length initcode)))) (\<lambda>_.
         kbind (atom (upd_proc p (\<lambda>x. x\<lparr>p_sz := PGSIZE\<rparr>))) (\<lambda>_.
         kbind (atom (set_tf p TF_EPC 0)) (\<lambda>_.
         kbind (atom (set_tf p TF_SP PGSIZE)) (\<lambda>_.
         kbind (atom (upd_proc p (\<lambda>x. x\<lparr>p_name :=
           safestrcpy (p_name x) (array_of (bytes_of_string ''initcode'')) 16\<rparr>))) (\<lambda>_.
         kbind (namei [SLASH]) (\<lambda>ip.
         kbind (atom (upd_proc p (\<lambda>x. x\<lparr>p_cwd := ip\<rparr>))) (\<lambda>_.
         kbind (atom (upd_proc p (\<lambda>x. x\<lparr>p_state := RUNNABLE\<rparr>))) (\<lambda>_.
         atom (on_mach (release (PROC_LOCK p))))))))))))))"

text \<open>Duplicating the references of the parent: open files and current directory.\<close>

definition fork_files :: "nat \<Rightarrow> nat \<Rightarrow> (kernel, unit) kmon" where
  "fork_files p np =
     kbind (kfor [0..<NOFILE] (\<lambda>i.
       kbind (get_proc p) (\<lambda>pr.
       case p_ofile pr i of
         None \<Rightarrow> kret ()
       | Some f \<Rightarrow>
           kbind (filedup f) (\<lambda>f.
           upd_proc np (\<lambda>x. x\<lparr>p_ofile := (p_ofile x)(i := Some f)\<rparr>))))) (\<lambda>_.
     kbind (get_proc p) (\<lambda>pr.
     case p_cwd pr of
       None \<Rightarrow> kpanic ''kerneltrap''
     | Some d \<Rightarrow>
         kbind (idup d) (\<lambda>d.
         upd_proc np (\<lambda>x. x\<lparr>p_cwd := Some d\<rparr>))))"

definition fork :: "(kernel, int) kmon" where
  "fork =
     kbind cur_proc (\<lambda>p.
     kbind allocproc (\<lambda>npo.
     case npo of
       None \<Rightarrow> kret (-1)
     | Some np \<Rightarrow>
         kbind (get_proc p) (\<lambda>pr.
         kbind (get_proc np) (\<lambda>npr.
         kbind (uvmcopy (p_pagetable pr) (p_pagetable npr) (p_sz pr)) (\<lambda>r.
         if r < 0 then
           kbind (freeproc np) (\<lambda>_.
           kbind (on_mach (release (PROC_LOCK np))) (\<lambda>_.
           kret (-1)))
         else
         kbind (upd_proc np (\<lambda>x. x\<lparr>p_sz := p_sz pr\<rparr>)) (\<lambda>_.
         kbind (upd_mem (\<lambda>m. memmove_from m (unat (p_trapframe npr)) m (unat (p_trapframe pr)) (of_nat TF_SIZE))) (\<lambda>_.
         kbind (set_tf np TF_A0 0) (\<lambda>_.
         kbind (fork_files p np) (\<lambda>_.
         kbind (upd_proc np (\<lambda>x. x\<lparr>p_name := safestrcpy (p_name x) (p_name pr) 16\<rparr>)) (\<lambda>_.
         kbind (kseq [
           on_mach (release (PROC_LOCK np)),
           on_mach (acquire WAIT_LOCK),
           upd_proc np (\<lambda>x. x\<lparr>p_parent := Some p\<rparr>),
           on_mach (release WAIT_LOCK),
           on_mach (acquire (PROC_LOCK np)),
           upd_proc np (\<lambda>x. x\<lparr>p_state := RUNNABLE\<rparr>),
           on_mach (release (PROC_LOCK np))]) (\<lambda>_.
         kret (p_pid npr))))))))))))"

definition exit_files :: "nat \<Rightarrow> (world, unit) kmon" where
  "exit_files p =
     kfor [0..<NOFILE] (\<lambda>fd.
       kbind (atom (get_proc p)) (\<lambda>pr.
       case p_ofile pr fd of
         None \<Rightarrow> kret ()
       | Some f \<Rightarrow>
           kbind (fileclose f) (\<lambda>_.
           atom (upd_proc p (\<lambda>x. x\<lparr>p_ofile := (p_ofile x)(fd := None)\<rparr>)))))"

definition exit :: "int \<Rightarrow> (world, unit) kmon" where
  "exit status =
     kbind (atom cur_proc) (\<lambda>p.
     kbind (atom (kget initproc)) (\<lambda>ip.
     if ip = Some p then kpanic ''init exiting''
     else
     kbind (exit_files p) (\<lambda>_.
     kbind begin_op (\<lambda>_.
     kbind (atom (get_proc p)) (\<lambda>pr.
     kbind (case p_cwd pr of None \<Rightarrow> kpanic ''kerneltrap'' | Some d \<Rightarrow> iput d) (\<lambda>_.
     kbind end_op (\<lambda>_.
     kbind (atom (upd_proc p (\<lambda>x. x\<lparr>p_cwd := None\<rparr>))) (\<lambda>_.
     kbind (atom (on_mach (acquire WAIT_LOCK))) (\<lambda>_.
     kbind (atom (reparent p)) (\<lambda>_.
     kbind (atom (get_proc p)) (\<lambda>pr.
     kbind (case p_parent pr of None \<Rightarrow> kret () | Some q \<Rightarrow> atom (wakeup (CH_PROC q))) (\<lambda>_. kseq [
       atom (on_mach (acquire (PROC_LOCK p))),
       atom (upd_proc p (\<lambda>x. x\<lparr>p_xstate := status\<rparr>)),
       atom (upd_proc p (\<lambda>x. x\<lparr>p_state := ZOMBIE\<rparr>)),
       atom (on_mach (release WAIT_LOCK)),
       sched,
       kpanic ''zombie exit'']))))))))))))"

end
