(* ===== verification/Sysfile.thy ===== *)
theory Sysfile
  imports Exec Process
begin

text \<open>
  System call arguments (\<open>kernel/syscall.c\<close>), the process system calls (\<open>kernel/sysproc.c\<close>) and the file
  system calls (\<open>kernel/sysfile.c\<close>). Strings are fetched into arrays of \<open>MAXPATH\<close> bytes.
\<close>

section \<open>Arguments (kernel/syscall.c)\<close>

definition fetchaddr :: "u64 \<Rightarrow> (kernel, u64 option) kmon" where
  "fetchaddr addr =
     kbind cur_proc (\<lambda>p.
     kbind (get_proc p) (\<lambda>pr.
     if addr \<ge> p_sz pr \<or> addr + 8 > p_sz pr then kret None
     else
     kbind (copyin (p_pagetable pr) (\<lambda>_. 0) 0 addr 8) (\<lambda>(r, d).
     if r \<noteq> 0 then kret None else kret (Some (ld64 d 0)))))"

text \<open>The return value, and the bytes of the destination.\<close>

definition fetchstr :: "u64 \<Rightarrow> bytes \<Rightarrow> int \<Rightarrow> (kernel, int \<times> bytes) kmon" where
  "fetchstr addr buf maxlen =
     kbind cur_proc (\<lambda>p.
     kbind (get_proc p) (\<lambda>pr.
     kbind (copyinstr (p_pagetable pr) buf addr (of_int maxlen)) (\<lambda>(err, buf).
     if err < 0 then kret (err, buf)
     else case strlen buf of None \<Rightarrow> khang | Some n \<Rightarrow> kret (int n, buf))))"

definition argraw :: "int \<Rightarrow> (kernel, u64) kmon" where
  "argraw n =
     kbind cur_proc (\<lambda>p.
     if n = 0 then get_tf p TF_A0
     else if n = 1 then get_tf p TF_A1
     else if n = 2 then get_tf p TF_A2
     else if n = 3 then get_tf p TF_A3
     else if n = 4 then get_tf p TF_A4
     else if n = 5 then get_tf p TF_A5
     else kpanic ''argraw'')"

definition argint :: "int \<Rightarrow> (kernel, int) kmon" where
  "argint n = kbind (argraw n) (\<lambda>v. kret (sint (ucast v :: u32)))"

definition argaddr :: "int \<Rightarrow> (kernel, u64) kmon" where
  "argaddr n = argraw n"

definition argstr :: "int \<Rightarrow> bytes \<Rightarrow> int \<Rightarrow> (kernel, int \<times> bytes) kmon" where
  "argstr n buf maxlen = kbind (argaddr n) (\<lambda>addr. fetchstr addr buf maxlen)"

text \<open>The bytes of the string in an array of \<open>n\<close> bytes.\<close>

definition cstr_bytes :: "nat \<Rightarrow> bytes \<Rightarrow> u8 list" where
  "cstr_bytes n s = takeWhile (\<lambda>c. c \<noteq> 0) (map s [0..<n])"

text \<open>A path argument: \<open>None\<close> when \<open>argstr\<close> fails.\<close>

definition argpath :: "int \<Rightarrow> (kernel, u8 list option) kmon" where
  "argpath n =
     kbind (argstr n (\<lambda>_. 0) (int MAXPATH)) (\<lambda>(r, buf).
     kret (if r < 0 then None else Some (cstr_bytes MAXPATH buf)))"

section \<open>Processes (kernel/sysproc.c)\<close>

definition sys_exit :: "(world, u64) kmon" where
  "sys_exit = kbind (atom (argint 0)) (\<lambda>n. kbind (exit n) (\<lambda>_. kret 0))"

definition sys_getpid :: "(kernel, u64) kmon" where
  "sys_getpid = kbind cur_proc (\<lambda>p. kbind (get_proc p) (\<lambda>pr. kret (of_int (p_pid pr))))"

definition sys_fork :: "(kernel, u64) kmon" where
  "sys_fork = kbind fork (\<lambda>r. kret (of_int r))"

definition sys_wait :: "(world, u64) kmon" where
  "sys_wait = kbind (atom (argaddr 0)) (\<lambda>p. kbind (wait p) (\<lambda>r. kret (of_int r)))"

definition sys_sbrk :: "(kernel, u64) kmon" where
  "sys_sbrk =
     kbind (argint 0) (\<lambda>n.
     kbind cur_proc (\<lambda>p.
     kbind (get_proc p) (\<lambda>pr.
     let addr = sint (ucast (p_sz pr) :: u32) in
     kbind (growproc n) (\<lambda>r.
     if r < 0 then kret (-1) else kret (of_int addr)))))"

text \<open>The comparison \<open>ticks - ticks0 < n\<close> is unsigned, so that a negative \<open>n\<close> counts as a large one.\<close>

definition sys_sleep :: "(world, u64) kmon" where
  "sys_sleep =
     kbind (atom (argint 0)) (\<lambda>n.
     kbind (atom (on_mach (acquire TICKS_LOCK))) (\<lambda>_.
     kbind (atom (kget ticks)) (\<lambda>ticks0.
     kbind (kget resumptions) (\<lambda>m.
     kiter (m + 1) (\<lambda>_.
       kbind (atom (kget ticks)) (\<lambda>t.
       if t - ticks0 < of_int n then
         kbind (atom cur_proc) (\<lambda>p.
         kbind (atom (get_proc p)) (\<lambda>pr.
         if p_killed pr then
           kbind (atom (on_mach (release TICKS_LOCK))) (\<lambda>_. kret (Inr (-1)))
         else
           kbind (sleep CH_TICKS TICKS_LOCK) (\<lambda>_. kret (Inl ()))))
       else
         kbind (atom (on_mach (release TICKS_LOCK))) (\<lambda>_. kret (Inr 0)))) ()))))"

definition sys_kill :: "(kernel, u64) kmon" where
  "sys_kill = kbind (argint 0) (\<lambda>pid. kbind (kill pid) (\<lambda>r. kret (of_int r)))"

definition sys_uptime :: "(kernel, u64) kmon" where
  "sys_uptime =
     kbind (on_mach (acquire TICKS_LOCK)) (\<lambda>_.
     kbind (kget ticks) (\<lambda>xticks.
     kbind (on_mach (release TICKS_LOCK)) (\<lambda>_.
     kret (ucast xticks))))"

section \<open>Files (kernel/sysfile.c)\<close>

text \<open>The descriptor and its file, or \<open>None\<close> for \<open>-1\<close>.\<close>

definition argfd :: "int \<Rightarrow> (kernel, (nat \<times> nat) option) kmon" where
  "argfd n =
     kbind (argint n) (\<lambda>fd.
     if fd < 0 \<or> fd \<ge> int NOFILE then kret None
     else
     kbind cur_proc (\<lambda>p.
     kbind (get_proc p) (\<lambda>pr.
     case p_ofile pr (nat fd) of
       None \<Rightarrow> kret None
     | Some f \<Rightarrow> kret (Some (nat fd, f)))))"

definition fdalloc :: "nat \<Rightarrow> (kernel, int) kmon" where
  "fdalloc f =
     kbind cur_proc (\<lambda>p.
     kbind (kfind [0..<NOFILE] (\<lambda>fd.
       kbind (get_proc p) (\<lambda>pr.
       if p_ofile pr fd = None then
         kbind (upd_proc p (\<lambda>x. x\<lparr>p_ofile := (p_ofile x)(fd := Some f)\<rparr>)) (\<lambda>_. kret (Some (int fd)))
       else kret None))) (\<lambda>r.
     case r of Some fd \<Rightarrow> kret fd | None \<Rightarrow> kret (-1)))"

definition sys_dup :: "(kernel, u64) kmon" where
  "sys_dup =
     kbind (argfd 0) (\<lambda>r.
     case r of
       None \<Rightarrow> kret (-1)
     | Some (_, f) \<Rightarrow>
         kbind (fdalloc f) (\<lambda>fd.
         if fd < 0 then kret (-1)
         else kbind (filedup f) (\<lambda>_. kret (of_int fd))))"

definition sys_read :: "(world, u64) kmon" where
  "sys_read =
     kbind (atom (argfd 0)) (\<lambda>r.
     case r of
       None \<Rightarrow> kret (-1)
     | Some (_, f) \<Rightarrow>
         kbind (atom (argint 2)) (\<lambda>n.
         kbind (atom (argaddr 1)) (\<lambda>p.
         kbind (fileread f p n) (\<lambda>r. kret (of_int r)))))"

definition sys_write :: "(world, u64) kmon" where
  "sys_write =
     kbind (atom (argfd 0)) (\<lambda>r.
     case r of
       None \<Rightarrow> kret (-1)
     | Some (_, f) \<Rightarrow>
         kbind (atom (argint 2)) (\<lambda>n.
         kbind (atom (argaddr 1)) (\<lambda>p.
         kbind (filewrite f p n) (\<lambda>r. kret (of_int r)))))"

definition sys_close :: "(world, u64) kmon" where
  "sys_close =
     kbind (atom (argfd 0)) (\<lambda>r.
     case r of
       None \<Rightarrow> kret (-1)
     | Some (fd, f) \<Rightarrow>
         kbind (atom cur_proc) (\<lambda>p.
         kbind (atom (upd_proc p (\<lambda>x. x\<lparr>p_ofile := (p_ofile x)(fd := None)\<rparr>))) (\<lambda>_.
         kbind (fileclose f) (\<lambda>_. kret 0))))"

definition sys_fstat :: "(world, u64) kmon" where
  "sys_fstat =
     kbind (atom (argfd 0)) (\<lambda>r.
     case r of
       None \<Rightarrow> kret (-1)
     | Some (_, f) \<Rightarrow>
         kbind (atom (argaddr 1)) (\<lambda>st.
         kbind (filestat f st) (\<lambda>r. kret (of_int r))))"

section \<open>Links\<close>

text \<open>The code of \<open>sys_link\<close> at label \<open>bad\<close>.\<close>

definition sys_link_bad :: "nat \<Rightarrow> (world, u64) kmon" where
  "sys_link_bad ip =
     kbind (ilock (Some ip)) (\<lambda>_.
     kbind (atom (upd_inode ip (\<lambda>i. i\<lparr>i_nlink := i_nlink i - 1\<rparr>))) (\<lambda>_.
     kbind (iupdate ip) (\<lambda>_.
     kbind (iunlockput ip) (\<lambda>_.
     kbind end_op (\<lambda>_.
     kret (-1))))))"

definition sys_link :: "(world, u64) kmon" where
  "sys_link =
     kbind (atom (argpath 0)) (\<lambda>oldo.
     case oldo of
       None \<Rightarrow> kret (-1)
     | Some old \<Rightarrow>
     kbind (atom (argpath 1)) (\<lambda>newo.
     case newo of
       None \<Rightarrow> kret (-1)
     | Some new \<Rightarrow>
     kbind begin_op (\<lambda>_.
     kbind (namei old) (\<lambda>ipo.
     case ipo of
       None \<Rightarrow> kbind end_op (\<lambda>_. kret (-1))
     | Some ip \<Rightarrow>
     kbind (ilock (Some ip)) (\<lambda>_.
     kbind (atom (get_inode ip)) (\<lambda>i.
     if i_type i = T_DIR then
       kbind (iunlockput ip) (\<lambda>_.
       kbind end_op (\<lambda>_.
       kret (-1)))
     else
     kbind (atom (upd_inode ip (\<lambda>i. i\<lparr>i_nlink := i_nlink i + 1\<rparr>))) (\<lambda>_.
     kbind (iupdate ip) (\<lambda>_.
     kbind (atom (iunlock (Some ip))) (\<lambda>_.
     kbind (nameiparent new (\<lambda>_. 0)) (\<lambda>(dpo, name).
     case dpo of
       None \<Rightarrow> sys_link_bad ip
     | Some dp \<Rightarrow>
     kbind (ilock (Some dp)) (\<lambda>_.
     kbind (atom (get_inode dp)) (\<lambda>d.
     kbind (atom (get_inode ip)) (\<lambda>i.
     kbind (if i_dev d \<noteq> i_dev i then kret (-1) else dirlink dp name (i_inum i)) (\<lambda>r.
     if r < 0 then
       kbind (iunlockput dp) (\<lambda>_. sys_link_bad ip)
     else
     kbind (iunlockput dp) (\<lambda>_.
     kbind (iput ip) (\<lambda>_.
     kbind end_op (\<lambda>_.
     kret 0)))))))))))))))))"

definition isdirempty :: "nat \<Rightarrow> (world, bool) kmon" where
  "isdirempty dp =
     kiter INT_ROUNDS (\<lambda>off.
       kbind (atom (get_inode dp)) (\<lambda>d.
       if (of_int off :: u32) < i_size d then
         kbind (readi dp (LocalP 0) (\<lambda>_. 0) (of_int off) SIZEOF_DIRENT) (\<lambda>(r, de).
         if r \<noteq> SIZEOF_DIRENT then kpanic ''isdirempty: readi''
         else if de_inum de \<noteq> 0 then kret (Inr False)
         else kret (Inl (off + SIZEOF_DIRENT)))
       else kret (Inr True))) (2 * SIZEOF_DIRENT :: int)"

definition sys_unlink_bad :: "nat \<Rightarrow> (world, u64) kmon" where
  "sys_unlink_bad dp =
     kbind (iunlockput dp) (\<lambda>_.
     kbind end_op (\<lambda>_.
     kret (-1)))"

definition sys_unlink :: "(world, u64) kmon" where
  "sys_unlink =
     kbind (atom (argpath 0)) (\<lambda>patho.
     case patho of
       None \<Rightarrow> kret (-1)
     | Some path \<Rightarrow>
     kbind begin_op (\<lambda>_.
     kbind (nameiparent path (\<lambda>_. 0)) (\<lambda>(dpo, name).
     case dpo of
       None \<Rightarrow> kbind end_op (\<lambda>_. kret (-1))
     | Some dp \<Rightarrow>
     kbind (ilock (Some dp)) (\<lambda>_.
     if namecmp name (array_of [46]) = 0 \<or> namecmp name (array_of [46, 46]) = 0 then sys_unlink_bad dp
     else
     kbind (dirlookup dp name) (\<lambda>ipo.
     case ipo of
       None \<Rightarrow> sys_unlink_bad dp
     | Some (ip, off) \<Rightarrow>
     kbind (ilock (Some ip)) (\<lambda>_.
     kbind (atom (get_inode ip)) (\<lambda>i.
     if sint (i_nlink i) < 1 then kpanic ''unlink: nlink < 1''
     else
     kbind (if i_type i = T_DIR then isdirempty ip else kret True) (\<lambda>emp.
     if \<not> emp then kbind (iunlockput ip) (\<lambda>_. sys_unlink_bad dp)
     else
     kbind (writei dp (LocalP 0) (\<lambda>_. 0) off SIZEOF_DIRENT) (\<lambda>r.
     if r \<noteq> SIZEOF_DIRENT then kpanic ''unlink: writei''
     else
     kbind (atom (get_inode ip)) (\<lambda>i.
     kbind (kwhen (i_type i = T_DIR) (kseq [
       atom (upd_inode dp (\<lambda>d. d\<lparr>i_nlink := i_nlink d - 1\<rparr>)),
       iupdate dp])) (\<lambda>_.
     kbind (iunlockput dp) (\<lambda>_.
     kbind (atom (upd_inode ip (\<lambda>i. i\<lparr>i_nlink := i_nlink i - 1\<rparr>))) (\<lambda>_.
     kbind (iupdate ip) (\<lambda>_.
     kbind (iunlockput ip) (\<lambda>_.
     kbind end_op (\<lambda>_.
     kret 0))))))))))))))))"

section \<open>Creating and opening\<close>

definition create :: "u8 list \<Rightarrow> u16 \<Rightarrow> u16 \<Rightarrow> u16 \<Rightarrow> (world, nat option) kmon" where
  "create path type major minor =
     kbind (nameiparent path (\<lambda>_. 0)) (\<lambda>(dpo, name).
     case dpo of
       None \<Rightarrow> kret None
     | Some dp \<Rightarrow>
     kbind (ilock (Some dp)) (\<lambda>_.
     kbind (dirlookup dp name) (\<lambda>ipo.
     case ipo of
       Some (ip, _) \<Rightarrow>
         kbind (iunlockput dp) (\<lambda>_.
         kbind (ilock (Some ip)) (\<lambda>_.
         kbind (atom (get_inode ip)) (\<lambda>i.
         if type = T_FILE \<and> (i_type i = T_FILE \<or> i_type i = T_DEVICE) then kret (Some ip)
         else kbind (iunlockput ip) (\<lambda>_. kret None))))
     | None \<Rightarrow>
         kbind (atom (get_inode dp)) (\<lambda>d.
         kbind (ialloc (i_dev d) type) (\<lambda>ip.
         kbind (ilock (Some ip)) (\<lambda>_.
         kbind (atom (upd_inode ip (\<lambda>i. i\<lparr>i_major := major, i_minor := minor, i_nlink := 1\<rparr>))) (\<lambda>_.
         kbind (iupdate ip) (\<lambda>_.
         kbind (kwhen (type = T_DIR) (
           kbind (atom (upd_inode dp (\<lambda>d. d\<lparr>i_nlink := i_nlink d + 1\<rparr>))) (\<lambda>_.
           kbind (iupdate dp) (\<lambda>_.
           kbind (atom (get_inode ip)) (\<lambda>i.
           kbind (dirlink ip (array_of [46]) (i_inum i)) (\<lambda>r.
           if r < 0 then kpanic ''create dots''
           else
           kbind (atom (get_inode dp)) (\<lambda>d.
           kbind (dirlink ip (array_of [46, 46]) (i_inum d)) (\<lambda>r.
           if r < 0 then kpanic ''create dots'' else kret ())))))))) (\<lambda>_.
         kbind (atom (get_inode ip)) (\<lambda>i.
         kbind (dirlink dp name (i_inum i)) (\<lambda>r.
         if r < 0 then kpanic ''create: dirlink''
         else
         kbind (iunlockput dp) (\<lambda>_.
         kret (Some ip)))))))))))))"

abbreviation (input) O_RDONLY :: u32 where "O_RDONLY \<equiv> 0x000"
abbreviation (input) O_WRONLY :: u32 where "O_WRONLY \<equiv> 0x001"
abbreviation (input) O_RDWR :: u32 where "O_RDWR \<equiv> 0x002"
abbreviation (input) O_CREATE :: u32 where "O_CREATE \<equiv> 0x200"
abbreviation (input) O_TRUNC :: u32 where "O_TRUNC \<equiv> 0x400"

text \<open>The locked inode that \<open>sys_open\<close> works on, or \<open>None\<close> where it ends the operation and returns \<open>-1\<close>.\<close>

definition open_inode :: "u8 list \<Rightarrow> u32 \<Rightarrow> (world, nat option) kmon" where
  "open_inode path omode =
     (if omode AND O_CREATE \<noteq> 0 then create path T_FILE 0 0
      else
      kbind (namei path) (\<lambda>ipo.
      case ipo of
        None \<Rightarrow> kret None
      | Some ip \<Rightarrow>
          kbind (ilock (Some ip)) (\<lambda>_.
          kbind (atom (get_inode ip)) (\<lambda>i.
          if i_type i = T_DIR \<and> omode \<noteq> O_RDONLY then
            kbind (iunlockput ip) (\<lambda>_. kret None)
          else kret (Some ip)))))"

definition sys_open :: "(world, u64) kmon" where
  "sys_open =
     kbind (atom (argpath 0)) (\<lambda>patho.
     case patho of
       None \<Rightarrow> kret (-1)
     | Some path \<Rightarrow>
     kbind (atom (argint 1)) (\<lambda>om.
     let omode = (of_int om :: u32) in
     kbind begin_op (\<lambda>_.
     kbind (open_inode path omode) (\<lambda>ipo.
     case ipo of
       None \<Rightarrow> kbind end_op (\<lambda>_. kret (-1))
     | Some ip \<Rightarrow>
     kbind (atom (get_inode ip)) (\<lambda>i.
     if i_type i = T_DEVICE \<and> (sint (i_major i) < 0 \<or> sint (i_major i) \<ge> int NDEV) then
       kbind (iunlockput ip) (\<lambda>_.
       kbind end_op (\<lambda>_.
       kret (-1)))
     else
     kbind (atom filealloc) (\<lambda>fo.
     kbind (case fo of None \<Rightarrow> kret (-1) | Some f \<Rightarrow> atom (fdalloc f)) (\<lambda>fd.
     if fd < 0 then
       kbind (case fo of None \<Rightarrow> kret () | Some f \<Rightarrow> fileclose f) (\<lambda>_.
       kbind (iunlockput ip) (\<lambda>_.
       kbind end_op (\<lambda>_.
       kret (-1))))
     else
     let f = the fo in
     kbind (atom (if i_type i = T_DEVICE
         then upd_file f (\<lambda>x. x\<lparr>f_type := FD_DEVICE, f_major := i_major i\<rparr>)
         else upd_file f (\<lambda>x. x\<lparr>f_type := FD_INODE, f_off := 0\<rparr>))) (\<lambda>_.
     kbind (atom (upd_file f (\<lambda>x. x\<lparr>f_ip := Some ip,
       f_readable := (omode AND O_WRONLY = 0),
       f_writable := (omode AND O_WRONLY \<noteq> 0 \<or> omode AND O_RDWR \<noteq> 0)\<rparr>))) (\<lambda>_.
     kbind (kwhen (omode AND O_TRUNC \<noteq> 0 \<and> i_type i = T_FILE) (itrunc ip)) (\<lambda>_.
     kbind (atom (iunlock (Some ip))) (\<lambda>_.
     kbind end_op (\<lambda>_.
     kret (of_int fd)))))))))))))"

definition sys_mkdir :: "(world, u64) kmon" where
  "sys_mkdir =
     kbind begin_op (\<lambda>_.
     kbind (atom (argpath 0)) (\<lambda>patho.
     kbind (case patho of None \<Rightarrow> kret None | Some path \<Rightarrow> create path T_DIR 0 0) (\<lambda>ipo.
     case ipo of
       None \<Rightarrow> kbind end_op (\<lambda>_. kret (-1))
     | Some ip \<Rightarrow>
         kbind (iunlockput ip) (\<lambda>_.
         kbind end_op (\<lambda>_.
         kret 0)))))"

definition sys_mknod :: "(world, u64) kmon" where
  "sys_mknod =
     kbind begin_op (\<lambda>_.
     kbind (atom (argpath 0)) (\<lambda>patho.
     kbind (case patho of
         None \<Rightarrow> kret None
       | Some path \<Rightarrow>
           kbind (atom (argint 1)) (\<lambda>major.
           kbind (atom (argint 2)) (\<lambda>minor.
           create path T_DEVICE (of_int major) (of_int minor)))) (\<lambda>ipo.
     case ipo of
       None \<Rightarrow> kbind end_op (\<lambda>_. kret (-1))
     | Some ip \<Rightarrow>
         kbind (iunlockput ip) (\<lambda>_.
         kbind end_op (\<lambda>_.
         kret 0)))))"

definition sys_chdir :: "(world, u64) kmon" where
  "sys_chdir =
     kbind (atom cur_proc) (\<lambda>p.
     kbind begin_op (\<lambda>_.
     kbind (atom (argpath 0)) (\<lambda>patho.
     kbind (case patho of None \<Rightarrow> kret None | Some path \<Rightarrow> namei path) (\<lambda>ipo.
     case ipo of
       None \<Rightarrow> kbind end_op (\<lambda>_. kret (-1))
     | Some ip \<Rightarrow>
         kbind (ilock (Some ip)) (\<lambda>_.
         kbind (atom (get_inode ip)) (\<lambda>i.
         if i_type i \<noteq> T_DIR then
           kbind (iunlockput ip) (\<lambda>_.
           kbind end_op (\<lambda>_.
           kret (-1)))
         else
           kbind (atom (iunlock (Some ip))) (\<lambda>_.
           kbind (atom (get_proc p)) (\<lambda>pr.
           kbind (case p_cwd pr of None \<Rightarrow> kpanic ''kerneltrap'' | Some d \<Rightarrow> iput d) (\<lambda>_.
           kbind end_op (\<lambda>_.
           kbind (atom (upd_proc p (\<lambda>x. x\<lparr>p_cwd := Some ip\<rparr>))) (\<lambda>_.
           kret 0)))))))))))"

section \<open>exec and pipe\<close>

text \<open>A string fetched into the page at kernel address \<open>a\<close>.\<close>

definition fetchstr_page :: "u64 \<Rightarrow> u64 \<Rightarrow> (kernel, int) kmon" where
  "fetchstr_page addr a =
     kbind (kget (kstring a)) (\<lambda>s.
     kbind (fetchstr addr s PGSIZE) (\<lambda>(r, buf).
     kbind (upd_mem (\<lambda>m. memmove_from m (unat a) buf 0 PGSIZE)) (\<lambda>_.
     kret r)))"

text \<open>
  The loop that fetches the arguments: the pages allocated so far, and whether it succeeded.
\<close>

definition sys_exec_args :: "u64 \<Rightarrow> (kernel, u64 list \<times> bool) kmon" where
  "sys_exec_args uargv =
     kiter (MAXARG + 1) (\<lambda>argv.
       if length argv \<ge> MAXARG then kret (Inr (argv, False))
       else
       kbind (fetchaddr (uargv + of_nat (8 * length argv))) (\<lambda>r.
       case r of
         None \<Rightarrow> kret (Inr (argv, False))
       | Some uarg \<Rightarrow>
           if uarg = 0 then kret (Inr (argv, True))
           else
           kbind kalloc (\<lambda>a.
           if a = 0 then kret (Inr (argv, False))
           else
           kbind (fetchstr_page uarg a) (\<lambda>r.
           if r < 0 then kret (Inr (argv @ [a], False))
           else kret (Inl (argv @ [a])))))) []"

definition sys_exec :: "(world, u64) kmon" where
  "sys_exec =
     kbind (atom (argpath 0)) (\<lambda>patho.
     case patho of
       None \<Rightarrow> kret (-1)
     | Some path \<Rightarrow>
         kbind (atom (argaddr 1)) (\<lambda>uargv.
         kbind (atom (sys_exec_args uargv)) (\<lambda>(argv, ok).
         if ok then
           kbind (exec path argv) (\<lambda>ret.
           kbind (atom (kfor argv kfree)) (\<lambda>_.
           kret (of_int ret)))
         else
           kbind (atom (kfor argv kfree)) (\<lambda>_.
           kret (-1)))))"

definition sys_pipe :: "(world, u64) kmon" where
  "sys_pipe =
     kbind (atom cur_proc) (\<lambda>p.
     kbind (atom (argaddr 0)) (\<lambda>fdarray.
     kbind pipealloc (\<lambda>r.
     case r of
       None \<Rightarrow> kret (-1)
     | Some (rfl, wfl) \<Rightarrow>
     kbind (atom (fdalloc rfl)) (\<lambda>fd0.
     kbind (if fd0 < 0 then kret (-1) else atom (fdalloc wfl)) (\<lambda>fd1.
     if fd0 < 0 \<or> fd1 < 0 then
       kbind (kwhen (fd0 \<ge> 0) (atom (upd_proc p (\<lambda>x. x\<lparr>p_ofile := (p_ofile x)(nat fd0 := None)\<rparr>)))) (\<lambda>_.
       kbind (fileclose rfl) (\<lambda>_.
       kbind (fileclose wfl) (\<lambda>_.
       kret (-1))))
     else
     kbind (atom (get_proc p)) (\<lambda>pr.
     kbind (atom (copyout (p_pagetable pr) fdarray (st32 (\<lambda>_. 0) 0 (of_int fd0)) 4)) (\<lambda>r0.
     kbind (if r0 < 0 then kret r0
            else atom (copyout (p_pagetable pr) (fdarray + 4) (st32 (\<lambda>_. 0) 0 (of_int fd1)) 4)) (\<lambda>r1.
     if r0 < 0 \<or> r1 < 0 then
       kbind (atom (upd_proc p (\<lambda>x. x\<lparr>p_ofile := (p_ofile x)(nat fd0 := None)\<rparr>))) (\<lambda>_.
       kbind (atom (upd_proc p (\<lambda>x. x\<lparr>p_ofile := (p_ofile x)(nat fd1 := None)\<rparr>))) (\<lambda>_.
       kbind (fileclose rfl) (\<lambda>_.
       kbind (fileclose wfl) (\<lambda>_.
       kret (-1)))))
     else kret 0))))))))"

end
