(* ===== verification/Trap.thy ===== *)
theory Trap
  imports Sysfile
begin

text \<open>
  System call dispatch (\<open>kernel/syscall.c\<close>), traps and interrupts (\<open>kernel/trap.c\<close>), the interrupt
  controller (\<open>kernel/plic.c\<close>), \<open>forkret\<close> of \<open>kernel/proc.c\<close>, and the start of the machine
  (\<open>kernel/start.c\<close>, \<open>kernel/main.c\<close>).
\<close>

section \<open>Dispatch (kernel/syscall.c, kernel/syscall.h)\<close>

definition syscalls :: "int \<Rightarrow> (world, u64) kmon option" where
  "syscalls n =
     (if n = 1 then Some (atom sys_fork)
      else if n = 2 then Some sys_exit
      else if n = 3 then Some sys_wait
      else if n = 4 then Some sys_pipe
      else if n = 5 then Some sys_read
      else if n = 6 then Some (atom sys_kill)
      else if n = 7 then Some sys_exec
      else if n = 8 then Some sys_fstat
      else if n = 9 then Some sys_chdir
      else if n = 10 then Some (atom sys_dup)
      else if n = 11 then Some (atom sys_getpid)
      else if n = 12 then Some (atom sys_sbrk)
      else if n = 13 then Some sys_sleep
      else if n = 14 then Some (atom sys_uptime)
      else if n = 15 then Some sys_open
      else if n = 16 then Some sys_write
      else if n = 17 then Some sys_mknod
      else if n = 18 then Some sys_unlink
      else if n = 19 then Some sys_link
      else if n = 20 then Some sys_mkdir
      else if n = 21 then Some sys_close
      else None)"

definition syscall :: "(world, unit) kmon" where
  "syscall =
     kbind (atom cur_proc) (\<lambda>p.
     kbind (atom (get_tf p TF_A7)) (\<lambda>a7.
     let num = sint (ucast a7 :: u32) in
     case (if num > 0 \<and> num < 22 then syscalls num else None) of
       Some f \<Rightarrow> kbind f (\<lambda>r. atom (set_tf p TF_A0 r))
     | None \<Rightarrow>
         kbind (atom (get_proc p)) (\<lambda>pr.
         kbind (atom (printf (Some (''%d %s: unknown sys call %d'' @ [CHR 0x0A]))
           [VInt (p_pid pr), VStr (Some (cstring 16 (p_name pr))), VInt num])) (\<lambda>_.
         atom (set_tf p TF_A0 (-1))))))"

section \<open>The interrupt controller (kernel/plic.c)\<close>

definition plicinit :: "(kernel, unit) kmon" where
  "plicinit = kseq [
     dev_write (PLIC + of_nat (UART0_IRQ * 4)) 1,
     dev_write (PLIC + of_nat (VIRTIO0_IRQ * 4)) 1]"

definition plicinithart :: "(kernel, unit) kmon" where
  "plicinithart =
     kbind (on_mach cpuid) (\<lambda>hart. kseq [
       dev_write (PLIC_SENABLE (of_nat hart)) (push_bit UART0_IRQ 1 OR push_bit VIRTIO0_IRQ 1),
       dev_write (PLIC_SPRIORITY (of_nat hart)) 0])"

definition plic_claim :: "(kernel, int) kmon" where
  "plic_claim =
     kbind (on_mach cpuid) (\<lambda>hart.
     kbind (dev_read (PLIC_SCLAIM (of_nat hart))) (\<lambda>v.
     kret (sint (ucast v :: u32))))"

definition plic_complete :: "int \<Rightarrow> (kernel, unit) kmon" where
  "plic_complete irq =
     kbind (on_mach cpuid) (\<lambda>hart.
     dev_write (PLIC_SCLAIM (of_nat hart)) (ucast (of_int irq :: u32)))"

section \<open>Interrupts (kernel/trap.c)\<close>

definition trapinit :: "(kernel, unit) kmon" where
  "trapinit = on_mach (initlock TICKS_LOCK ''time'')"

definition trapinithart :: "(kernel, unit) kmon" where
  "trapinithart = kbind (kget (\<lambda>k. sym_kernelvec (syms k))) (\<lambda>a. on_mach (w_stvec a))"

definition clockintr :: "(kernel, unit) kmon" where
  "clockintr = kseq [
     on_mach (acquire TICKS_LOCK),
     kmod (\<lambda>k. k\<lparr>ticks := ticks k + 1\<rparr>),
     wakeup CH_TICKS,
     on_mach (release TICKS_LOCK)]"

definition devintr :: "(kernel, int) kmon" where
  "devintr =
     kbind (on_mach r_scause) (\<lambda>scause.
     if scause AND 0x8000000000000000 \<noteq> 0 \<and> scause AND 0xff = 9 then
       kbind plic_claim (\<lambda>irq.
       kbind (if irq = int UART0_IRQ then uartintr
              else if irq = int VIRTIO0_IRQ then virtio_disk_intr
              else if irq \<noteq> 0 then
                printf (Some (''unexpected interrupt irq=%d'' @ [CHR 0x0A])) [VInt irq]
              else kret ()) (\<lambda>_.
       kbind (kwhen (irq \<noteq> 0) (plic_complete irq)) (\<lambda>_.
       kret 1)))
     else if scause = 0x8000000000000001 then
       kbind (on_mach cpuid) (\<lambda>id.
       kbind (kwhen (id = 0) clockintr) (\<lambda>_.
       kbind (on_mach (kbind r_sip (\<lambda>x. w_sip (x AND NOT 2)))) (\<lambda>_.
       kret 2)))
     else kret 0)"

section \<open>Returning to user space\<close>

text \<open>
  The last step of \<open>usertrapret\<close> jumps to \<open>userret\<close> in the trampoline page; its result is the address
  of the jump and the second argument, the page table to switch to.
\<close>

definition usertrapret :: "(kernel, u64 \<times> u64) kmon" where
  "usertrapret =
     kbind cur_proc (\<lambda>p.
     kbind (on_mach intr_off) (\<lambda>_.
     kbind (kget syms) (\<lambda>sy.
     kbind (on_mach (w_stvec (TRAMPOLINE + (sym_uservec sy - sym_trampoline sy)))) (\<lambda>_.
     kbind (get_proc p) (\<lambda>pr.
     kbind (on_mach r_satp) (\<lambda>satp.
     kbind (set_tf p TF_KERNEL_SATP satp) (\<lambda>_.
     kbind (set_tf p TF_KERNEL_SP (p_kstack pr + PGSIZE)) (\<lambda>_.
     kbind (set_tf p TF_KERNEL_TRAP (sym_usertrap sy)) (\<lambda>_.
     kbind (on_mach r_tp) (\<lambda>tp.
     kbind (set_tf p TF_KERNEL_HARTID tp) (\<lambda>_.
     kbind (on_mach r_sstatus) (\<lambda>x.
     kbind (on_mach (w_sstatus ((x AND NOT SSTATUS_SPP) OR SSTATUS_SPIE))) (\<lambda>_.
     kbind (get_tf p TF_EPC) (\<lambda>epc.
     kbind (on_mach (w_sepc epc)) (\<lambda>_.
     let satp = MAKE_SATP (p_pagetable pr);
         fn = TRAMPOLINE + (sym_userret sy - sym_trampoline sy)
     in kret (fn, satp))))))))))))))))"

definition forkret :: "(world, u64 \<times> u64) kmon" where
  "forkret =
     kbind (atom cur_proc) (\<lambda>p.
     kbind (atom (on_mach (release (PROC_LOCK p)))) (\<lambda>_.
     kbind (atom (kget first)) (\<lambda>fst.
     kbind (kwhen fst (kseq [
       atom (kmod (\<lambda>k. k\<lparr>first := False\<rparr>)),
       fsinit (uint ROOTDEV)])) (\<lambda>_.
     atom usertrapret))))"

section \<open>Traps\<close>

definition usertrap :: "(world, u64 \<times> u64) kmon" where
  "usertrap =
     kbind (atom (on_mach r_sstatus)) (\<lambda>st.
     if st AND SSTATUS_SPP \<noteq> 0 then kpanic ''usertrap: not from user mode''
     else
     kbind (atom trapinithart) (\<lambda>_.
     kbind (atom cur_proc) (\<lambda>p.
     kbind (atom (on_mach r_sepc)) (\<lambda>sepc.
     kbind (atom (set_tf p TF_EPC sepc)) (\<lambda>_.
     kbind (atom (on_mach r_scause)) (\<lambda>scause.
     kbind (if scause = 8 then
         kbind (atom (get_proc p)) (\<lambda>pr.
         kbind (kwhen (p_killed pr) (exit (-1))) (\<lambda>_.
         kbind (atom (get_tf p TF_EPC)) (\<lambda>epc.
         kbind (atom (set_tf p TF_EPC (epc + 4))) (\<lambda>_.
         kbind (atom (on_mach intr_on)) (\<lambda>_.
         kbind syscall (\<lambda>_.
         kret 0))))))
       else
         kbind (atom devintr) (\<lambda>which_dev.
         if which_dev \<noteq> 0 then kret which_dev
         else
         kbind (atom (get_proc p)) (\<lambda>pr.
         kbind (atom (on_mach r_scause)) (\<lambda>scause.
         kbind (atom (printf (Some (''usertrap(): unexpected scause %p pid=%d'' @ [CHR 0x0A]))
           [VPtr scause, VInt (p_pid pr)])) (\<lambda>_.
         kbind (atom (on_mach r_sepc)) (\<lambda>sepc.
         kbind (atom (on_mach r_stval)) (\<lambda>stval.
         kbind (atom (printf (Some (''            sepc=%p stval=%p'' @ [CHR 0x0A])) [VPtr sepc, VPtr stval])) (\<lambda>_.
         kbind (atom (upd_proc p (\<lambda>x. x\<lparr>p_killed := True\<rparr>))) (\<lambda>_.
         kret 0))))))))) (\<lambda>which_dev.
     kbind (atom (get_proc p)) (\<lambda>pr.
     kbind (kwhen (p_killed pr) (exit (-1))) (\<lambda>_.
     kbind (kwhen (which_dev = 2) yield) (\<lambda>_.
     atom usertrapret))))))))))"

definition kerneltrap :: "(world, unit) kmon" where
  "kerneltrap =
     kbind (atom (on_mach r_sepc)) (\<lambda>sepc.
     kbind (atom (on_mach r_sstatus)) (\<lambda>sstatus.
     kbind (atom (on_mach r_scause)) (\<lambda>scause.
     if sstatus AND SSTATUS_SPP = 0 then kpanic ''kerneltrap: not from supervisor mode''
     else
     kbind (atom (on_mach intr_get)) (\<lambda>on.
     if on then kpanic ''kerneltrap: interrupts enabled''
     else
     kbind (atom devintr) (\<lambda>which_dev.
     if which_dev = 0 then
       kbind (atom (printf (Some (''scause %p'' @ [CHR 0x0A])) [VPtr scause])) (\<lambda>_.
       kbind (atom (on_mach r_sepc)) (\<lambda>sepc.
       kbind (atom (on_mach r_stval)) (\<lambda>stval.
       kbind (atom (printf (Some (''sepc=%p stval=%p'' @ [CHR 0x0A])) [VPtr sepc, VPtr stval])) (\<lambda>_.
       kpanic ''kerneltrap''))))
     else
     kbind (atom (on_mach myproc)) (\<lambda>me.
     kbind (case me of
         None \<Rightarrow> kret ()
       | Some p \<Rightarrow>
           kbind (atom (get_proc p)) (\<lambda>pr.
           kwhen (which_dev = 2 \<and> p_state pr = RUNNING) yield)) (\<lambda>_. kseq [
     atom (on_mach (w_sepc sepc)),
     atom (on_mach (w_sstatus sstatus))])))))))"

section \<open>Booting (kernel/start.c, kernel/main.c)\<close>

text \<open>\<open>timer_scratch[id]\<close> is an array of five 64-bit words.\<close>

definition timerinit :: "(kernel, unit) kmon" where
  "timerinit =
     kbind (on_mach r_mhartid) (\<lambda>hid.
     let id = (ucast (ucast hid :: u32) :: u64); interval = 1000000 in
     kbind (dev_read CLINT_MTIME) (\<lambda>now.
     kbind (dev_write (CLINT_MTIMECMP id) (now + interval)) (\<lambda>_.
     kbind (kmod (\<lambda>k. k\<lparr>timer_scratch := (timer_scratch k)(unat id :=
       (timer_scratch k (unat id))(3 := CLINT_MTIMECMP id, 4 := interval))\<rparr>)) (\<lambda>_.
     kbind (kget (\<lambda>k. sym_timer_scratch (syms k))) (\<lambda>base.
     kbind (on_mach (w_mscratch (base + 40 * id))) (\<lambda>_.
     kbind (kget (\<lambda>k. sym_timervec (syms k))) (\<lambda>vec. kseq [
       on_mach (w_mtvec vec),
       on_mach (kbind r_mstatus (\<lambda>x. w_mstatus (x OR MSTATUS_MIE))),
       on_mach (kbind r_mie (\<lambda>x. w_mie (x OR MIE_MTIE)))])))))))"

text \<open>Up to the \<open>mret\<close> instruction, which goes to \<open>main\<close> in supervisor mode.\<close>

definition start :: "(kernel, unit) kmon" where
  "start =
     kbind (on_mach r_mstatus) (\<lambda>x.
     kbind (on_mach (w_mstatus ((x AND NOT MSTATUS_MPP_MASK) OR MSTATUS_MPP_S))) (\<lambda>_.
     kbind (kget (\<lambda>k. sym_main (syms k))) (\<lambda>main. kseq [
       on_mach (w_mepc main),
       on_mach (w_satp 0),
       on_mach (w_medeleg 0xffff),
       on_mach (w_mideleg 0xffff),
       on_mach (kbind r_sie (\<lambda>x. w_sie (x OR SIE_SEIE OR SIE_STIE OR SIE_SSIE))),
       on_mach (w_pmpaddr0 0x3fffffffffffff),
       on_mach (w_pmpcfg0 0xf),
       timerinit,
       on_mach (kbind r_mhartid (\<lambda>id. w_tp (scast (ucast id :: u32))))])))"

text \<open>
  \<open>main\<close>, with a bound \<open>n\<close> on the rounds of the endless scheduler loop. On a hart other than 0 the loop
  that waits for \<open>started\<close> spins for as long as hart 0 has not set it.
\<close>

definition main :: "nat \<Rightarrow> (world, unit) kmon" where
  "main n =
     kbind (atom (on_mach cpuid)) (\<lambda>id.
     kbind (if id = 0 then kseq [
         atom consoleinit,
         atom printfinit,
         atom (printf (Some [CHR 0x0A]) []),
         atom (printf (Some (''xv6 kernel is booting'' @ [CHR 0x0A])) []),
         atom (printf (Some [CHR 0x0A]) []),
         atom kinit,
         atom kvminit,
         atom kvminithart,
         atom procinit,
         atom trapinit,
         atom trapinithart,
         atom plicinit,
         atom plicinithart,
         atom binit,
         atom iinit,
         atom fileinit,
         atom virtio_disk_init,
         userinit,
         atom (kmod (\<lambda>k. k\<lparr>started := True\<rparr>))]
       else
         kbind (atom (kget started)) (\<lambda>st.
         if \<not> st then khang
         else kseq [
           kbind (atom (on_mach cpuid)) (\<lambda>id. atom (printf (Some (''hart %d starting'' @ [CHR 0x0A])) [VInt (int id)])),
           atom kvminithart,
           atom trapinithart,
           atom plicinithart])) (\<lambda>_.
     scheduler n))"

end
