(* ===== verification/Trampoline.thy ===== *)
theory Trampoline
  imports Machine
begin

text \<open>
  The assembly code that switches between user and kernel space (\<open>kernel/trampoline.S\<close>): \<open>uservec\<close> saves
  the user's registers in the trap frame, \<open>userret\<close> restores them.
\<close>

section \<open>Saving and restoring registers\<close>

text \<open>
  The general registers of the hart by their number. In user space \<open>sscratch\<close> holds the address of
  the trap frame.
\<close>

type_synonym regs = "nat \<Rightarrow> u64"

text \<open>The registers other than \<open>a0\<close> that \<open>uservec\<close> saves, with their offsets in the trap frame.\<close>

definition tf_regs :: "(nat \<times> nat) list" where
  "tf_regs = [(1, 40), (2, 48), (3, 56), (4, 64), (5, 72), (6, 80), (7, 88), (8, 96), (9, 104),
     (11, 120), (12, 128), (13, 136), (14, 144), (15, 152), (16, 160), (17, 168), (18, 176), (19, 184),
     (20, 192), (21, 200), (22, 208), (23, 216), (24, 224), (25, 232), (26, 240), (27, 248), (28, 256),
     (29, 264), (30, 272), (31, 280)]"

fun save_regs :: "regs \<Rightarrow> nat \<Rightarrow> (nat \<times> nat) list \<Rightarrow> bytes \<Rightarrow> bytes" where
  "save_regs r tf [] m = m"
| "save_regs r tf ((x, off) # ps) m = save_regs r tf ps (st64 m (tf + off) (r x))"

fun load_regs :: "regs \<Rightarrow> nat \<Rightarrow> (nat \<times> nat) list \<Rightarrow> bytes \<Rightarrow> regs" where
  "load_regs r tf [] m = r"
| "load_regs r tf ((x, off) # ps) m = load_regs (r(x := ld64 m (tf + off))) tf ps m"

text \<open>
  \<open>uservec\<close>: registers, \<open>sscratch\<close>, memory (with the trap frame at physical address \<open>tf\<close>) and \<open>satp\<close> on
  entry; on exit the same, and the address of the jump to \<open>usertrap\<close>.
\<close>

definition uservec :: "regs \<Rightarrow> u64 \<Rightarrow> nat \<Rightarrow> bytes \<Rightarrow> regs \<times> u64 \<times> bytes \<times> u64 \<times> u64" where
  "uservec r sscratch tf m =
     (let a0 = r 10;
          r = r(10 := sscratch); sscratch = a0;
          m = save_regs r tf tf_regs m;
          r = r(5 := sscratch);
          m = st64 m (tf + 112) (r 5);
          r = r(2 := ld64 m (tf + 8));
          r = r(4 := ld64 m (tf + 32));
          r = r(5 := ld64 m (tf + 16));
          r = r(6 := ld64 m (tf + 0))
      in (r, sscratch, m, r 6, r 5))"

text \<open>\<open>userret(TRAPFRAME, satp)\<close>: registers, \<open>sscratch\<close> and \<open>satp\<close> at the \<open>sret\<close>.\<close>

definition userret :: "regs \<Rightarrow> nat \<Rightarrow> bytes \<Rightarrow> regs \<times> u64 \<times> u64" where
  "userret r tf m =
     (let satp = r 11;
          r = r(5 := ld64 m (tf + 112));
          sscratch = r 5;
          r = load_regs r tf tf_regs m;
          a0 = r 10;
          r = r(10 := sscratch); sscratch = a0
      in (r, sscratch, satp))"

section \<open>Lemmas\<close>

lemma aligned_slots_apart:
  "a mod 8 = 0 \<Longrightarrow> b mod 8 = 0 \<Longrightarrow> a \<noteq> b \<Longrightarrow> tf + a + 8 \<le> tf + b \<or> tf + b + 8 \<le> tf + a" for a b tf :: nat
  using aligned_apart [of a 8 b] by auto

lemma ld64_save_other:
  assumes "off mod 8 = 0" and "\<forall>(y, o1) \<in> set ps. o1 mod 8 = 0 \<and> o1 \<noteq> off"
  shows "ld64 (save_regs r tf ps m) (tf + off) = ld64 m (tf + off)"
  using assms(2)
proof (induction ps arbitrary: m)
  case (Cons p ps)
  obtain y o1 where p: "p = (y, o1)" by (cases p)
  then have "tf + off + 8 \<le> tf + o1 \<or> tf + o1 + 8 \<le> tf + off"
    using Cons.prems assms(1) by (intro aligned_slots_apart) auto
  then show ?case using Cons.IH Cons.prems p by (simp add: ld64_st64_other)
qed simp

lemma ld64_save_same:
  assumes "(x, off) \<in> set ps" and "distinct (map snd ps)" and "\<forall>(y, o1) \<in> set ps. o1 mod 8 = 0"
  shows "ld64 (save_regs r tf ps m) (tf + off) = r x"
  using assms
proof (induction ps arbitrary: m)
  case (Cons p ps)
  obtain y o1 where p: "p = (y, o1)" by (cases p)
  show ?case
  proof (cases "(x, off) = p")
    case True
    have "\<forall>(y, o2) \<in> set ps. o2 mod 8 = 0 \<and> o2 \<noteq> off"
      using True Cons.prems by (force simp: p)
    then show ?thesis
      using True Cons.prems p by (simp add: ld64_save_other ld64_st64)
  next
    case False
    then show ?thesis using Cons p by auto
  qed
qed simp

lemma load_regs_at:
  "distinct (map fst ps) \<Longrightarrow>
    load_regs r tf ps m x = (case map_of ps x of None \<Rightarrow> r x | Some off \<Rightarrow> ld64 m (tf + off))"
proof (induction ps arbitrary: r)
  case (Cons p ps)
  then show ?case
    by (cases p) (auto split: option.splits dest!: map_of_SomeD dest: image_eqI [of x fst "(x, _)" "set ps", OF fst_conv [symmetric]])
qed simp

lemma tf_regs_ok:
  "distinct (map fst tf_regs)" "distinct (map snd tf_regs)" "\<forall>(y, o1) \<in> set tf_regs. o1 mod 8 = 0"
  "\<forall>(y, o1) \<in> set tf_regs. o1 mod 8 = 0 \<and> o1 \<noteq> 112" "\<forall>(y, o1) \<in> set tf_regs. 40 \<le> o1 \<and> o1 + 8 \<le> 288"
  by (simp_all add: tf_regs_def)

lemma tf_regs_other: "off mod 8 = 0 \<Longrightarrow> off < 40 \<Longrightarrow> \<forall>(y, o1) \<in> set tf_regs. o1 mod 8 = 0 \<and> o1 \<noteq> off"
  using tf_regs_ok(3,5) by fastforce

lemma set_upto_tf: "{1..31} = insert 10 (fst ` set tf_regs)"
  by code_simp

lemma tf_regs_cover:
  assumes "1 \<le> x" "x \<le> 31" "x \<noteq> 10"
  obtains off where "(x, off) \<in> set tf_regs"
proof -
  have "x \<in> {1..31}" using assms by simp
  then have "x \<in> fst ` set tf_regs" using assms(3) unfolding set_upto_tf by simp
  then show thesis using that by auto
qed

text \<open>The contents of the frame after \<open>uservec\<close>.\<close>

lemma uservec_frame:
  fixes r :: regs and T :: u64 and tf :: nat and m :: bytes
  defines "m' \<equiv> st64 (save_regs (r(10 := T)) tf tf_regs m) (tf + 112) (r 10)"
  shows "ld64 m' (tf + 112) = r 10"
    and "(x, off) \<in> set tf_regs \<Longrightarrow> ld64 m' (tf + off) = r x"
    and "off mod 8 = 0 \<Longrightarrow> off < 40 \<Longrightarrow> ld64 m' (tf + off) = ld64 m (tf + off)"
proof -
  show "ld64 m' (tf + 112) = r 10" by (simp add: m'_def ld64_st64)
  show "ld64 m' (tf + off) = r x" if a: "(x, off) \<in> set tf_regs"
  proof -
    have "off mod 8 = 0" "off \<noteq> 112" using tf_regs_ok(4) a by auto
    then have "tf + off + 8 \<le> tf + 112 \<or> tf + 112 + 8 \<le> tf + off"
      by (intro aligned_slots_apart) simp_all
    moreover have "x \<noteq> 10" using a by (auto simp: tf_regs_def)
    ultimately show ?thesis
      unfolding m'_def using ld64_save_same [OF a tf_regs_ok(2,3), of "r(10 := T)" tf m] by (simp add: ld64_st64_other)
  qed
  show "ld64 m' (tf + off) = ld64 m (tf + off)" if a: "off mod 8 = 0" "off < 40"
    unfolding m'_def using a ld64_save_other [OF a(1) tf_regs_other [OF a]] by (simp add: ld64_st64_other)
qed

section \<open>The round trip\<close>

text \<open>
  C18: A trap into the kernel and back is invisible to the user program. \<open>uservec\<close>, entered with the user
  registers \<open>r\<close>, takes the kernel's stack pointer, hart number, page table and the address of \<open>usertrap\<close>
  from the trap frame; and if the kernel later runs \<open>userret\<close> with the frame's register area unchanged
  (whatever it did to its own registers and to the rest of memory), all of the registers \<open>x1\<close> to \<open>x31\<close>
  have the user's values again, \<open>sscratch\<close> points to the trap frame as before, and \<open>satp\<close> is the page
  table that \<open>usertrapret\<close> passed.
\<close>

theorem trap_preserves_registers:
  assumes "uservec r T tf m = (r1, s1, m1, satp1, jump)"
    and "\<forall>i. 40 \<le> i \<longrightarrow> i < 288 \<longrightarrow> m2 (tf + i) = m1 (tf + i)"
    and "r2 10 = T" and "userret r2 tf m2 = (r3, s3, satp3)"
  shows "r1 2 = ld64 m (tf + 8) \<and> r1 4 = ld64 m (tf + 32) \<and> satp1 = ld64 m tf \<and> jump = ld64 m (tf + 16) \<and>
    (\<forall>x. 1 \<le> x \<longrightarrow> x \<le> 31 \<longrightarrow> r3 x = r x) \<and> s3 = T \<and> satp3 = r2 11"
proof -
  let ?m = "st64 (save_regs (r(10 := T)) tf tf_regs m) (tf + 112) (r 10)"
  have m1: "m1 = ?m"
    using assms(1) by (auto simp: uservec_def Let_def)
  have kernel: "r1 2 = ld64 m (tf + 8)" "r1 4 = ld64 m (tf + 32)" "satp1 = ld64 m tf" "jump = ld64 m (tf + 16)"
    using assms(1) uservec_frame(3) [of 8 r T tf m] uservec_frame(3) [of 32 r T tf m]
      uservec_frame(3) [of 16 r T tf m] uservec_frame(3) [of 0 r T tf m]
    by (auto simp: uservec_def Let_def)
  have slot: "ld64 m2 (tf + off) = ld64 m1 (tf + off)" if "40 \<le> off" "off + 8 \<le> 288" for off
    using that assms(2) by (intro ld64_cong) (simp add: add.assoc)
  have a0: "ld64 m2 (tf + 112) = r 10"
    using slot [of 112] uservec_frame(1) by (simp add: m1)
  let ?r = "load_regs (r2(5 := ld64 m2 (tf + 112))) tf tf_regs m2"
  have r3: "r3 = ?r(10 := ld64 m2 (tf + 112))" "s3 = ?r 10" "satp3 = r2 11"
    using assms(4) by (auto simp: userret_def Let_def)
  have none: "map_of tf_regs 10 = None" by (simp add: tf_regs_def)
  have "r3 x = r x" if x: "1 \<le> x" "x \<le> 31" for x
  proof (cases "x = 10")
    case False
    obtain off where off: "(x, off) \<in> set tf_regs" using tf_regs_cover [OF x False] .
    then have "map_of tf_regs x = Some off" using tf_regs_ok(1) by simp
    then have "r3 x = ld64 m2 (tf + off)"
      using False by (simp add: r3 load_regs_at [OF tf_regs_ok(1)])
    also have "\<dots> = r x"
      using slot [of off] tf_regs_ok(5) off uservec_frame(2) [OF off] by (auto simp: m1)
    finally show ?thesis .
  qed (simp add: r3 a0)
  moreover have "s3 = T"
    using none assms(3) by (simp add: r3 load_regs_at [OF tf_regs_ok(1)])
  ultimately show ?thesis using kernel r3 by simp
qed

theorem trap_preserves_registers_witness:
  "fst (userret (\<lambda>x. if x = 10 then 0x3fffffe000 else 7) 4096
     (fst (snd (snd (uservec (\<lambda>x. of_nat (x * x)) 0x3fffffe000 4096 (\<lambda>_. 0)))))) 31 = 961"
  using trap_preserves_registers [of "\<lambda>x. of_nat (x * x)" "0x3fffffe000" 4096 "\<lambda>_. 0" _ _ _ _ _
      "fst (snd (snd (uservec (\<lambda>x. of_nat (x * x)) 0x3fffffe000 4096 (\<lambda>_. 0))))"
      "\<lambda>x. if x = 10 then 0x3fffffe000 else 7"]
  by (cases "uservec (\<lambda>x. of_nat (x * x)) 0x3fffffe000 4096 (\<lambda>_. 0)",
      cases "userret (\<lambda>x. if x = 10 then 0x3fffffe000 else 7) 4096
        (fst (snd (snd (uservec (\<lambda>x. of_nat (x * x)) 0x3fffffe000 4096 (\<lambda>_. 0)))))") fastforce

end
