(* ===== verification/Disk.thy ===== *)
theory Disk
  imports Virtio
begin

text \<open>
  The disk as the kernel sees it through its driver: \<open>virtio_disk_rw\<close> composed with the device, with the
  interrupt handler \<open>virtio_disk_intr\<close>, and with sleeping and waking up. The device is not part of the
  sources. It is a function \<open>dev\<close> on the kernel state, and \<open>virtio_device dev\<close> states what the
  virtio specification (1.1, legacy block device) documents: a well-formed request on the available ring
  is carried out on the medium, its status byte becomes 0, it is entered into the used ring, and an
  interrupt is raised.
\<close>

section \<open>The device\<close>

record blk_request =
  rq_head :: nat
  rq_write :: bool
  rq_sector :: nat
  rq_buf :: nat
  rq_status :: nat

text \<open>The request that the device finds next: a chain of a command header, a data area and a status byte.\<close>

definition next_request :: "vdisk \<Rightarrow> blk_request option" where
  "next_request d =
     (let head = unat (avail_ring d (unat (used_idx_dev d mod NUM)));
          d0 = vd_desc d head; d1 = vd_desc d (unat (vd_next d0)); d2 = vd_desc d (unat (vd_next d1)) in
      case vd_addr d0 of V_OPS c \<Rightarrow>
        (case vd_addr d1 of V_DATA b \<Rightarrow>
          (case vd_addr d2 of V_STATUS s \<Rightarrow>
             if used_idx_dev d \<noteq> avail_idx d \<and> vd_len d0 = 16 \<and> vd_len d1 = BSIZE \<and> vd_len d2 = 1 \<and>
                vd_flags d0 = VRING_DESC_F_NEXT \<and> vd_flags d2 = VRING_DESC_F_WRITE \<and>
                (vr_type (vd_ops d c) = VIRTIO_BLK_T_OUT \<and> vd_flags d1 = VRING_DESC_F_NEXT \<or>
                 vr_type (vd_ops d c) = VIRTIO_BLK_T_IN \<and> vd_flags d1 = VRING_DESC_F_WRITE OR VRING_DESC_F_NEXT)
             then Some \<lparr>rq_head = head, rq_write = (vr_type (vd_ops d c) = VIRTIO_BLK_T_OUT),
               rq_sector = unat (vr_sector (vd_ops d c)), rq_buf = b, rq_status = s\<rparr>
             else None
           | _ \<Rightarrow> None)
         | _ \<Rightarrow> None)
      | _ \<Rightarrow> None)"

definition transfer :: "blk_request \<Rightarrow> kernel \<Rightarrow> kernel" where
  "transfer r k =
     (let b = bufs k (rq_buf r); o1 = 512 * rq_sector r in
      if rq_write r then k\<lparr>disk := (\<lambda>j. if o1 \<le> j \<and> j < o1 + BSIZE then b_data b (j - o1) else disk k j)\<rparr>
      else k\<lparr>bufs := (bufs k)(rq_buf r := b\<lparr>b_data := (\<lambda>j. if j < BSIZE then disk k (o1 + j) else b_data b j)\<rparr>)\<rparr>)"

definition served :: "blk_request \<Rightarrow> kernel \<Rightarrow> kernel" where
  "served r k = (transfer r k)\<lparr>dev_in := 1 # dev_in k,
     vdisk := (vdisk k)\<lparr>info_status := (info_status (vdisk k))(rq_status r := 0),
       used_ring_id := (used_ring_id (vdisk k))(unat (used_idx_dev (vdisk k) mod NUM) := of_nat (rq_head r)),
       used_idx_dev := used_idx_dev (vdisk k) + 1\<rparr>\<rparr>"

definition virtio_device :: "(kernel \<Rightarrow> kernel) \<Rightarrow> bool" where
  "virtio_device dev \<longleftrightarrow> (\<forall>k r. next_request (vdisk k) = Some r \<longrightarrow> dev k = served r k)"

text \<open>
  While process \<open>p\<close> waits for the disk: the device serves the request, the completion interrupt is taken
  on a machine \<open>mi\<close> that does not run \<open>p\<close>, and the scheduler resumes \<open>p\<close> on a machine \<open>m\<close> if it is runnable.
\<close>

definition disk_turn :: "(kernel \<Rightarrow> kernel) \<Rightarrow> nat \<Rightarrow> mach \<Rightarrow> mach \<Rightarrow> kernel \<Rightarrow> kernel" where
  "disk_turn dev p mi m h = (case virtio_disk_intr (dev (h\<lparr>mach := mi\<rparr>)) of
       Ret _ k \<Rightarrow>
         if p_state (proc k p) = RUNNABLE
         then k\<lparr>proc := (proc k)(p := (proc k p)\<lparr>p_state := RUNNING\<rparr>), mach := acqm (PROC_LOCK p) m\<rparr>
         else h
     | _ \<Rightarrow> h)"

definition turn_ok :: "(kernel \<Rightarrow> kernel) \<Rightarrow> nat \<Rightarrow> mach \<Rightarrow> mach \<Rightarrow> bool" where
  "turn_ok dev p mi m \<longleftrightarrow> virtio_device dev \<and> p < NPROC \<and> quiet p m \<and> (\<forall>lk. free_lock lk mi) \<and> curproc mi \<noteq> Some p"

section \<open>Blocks of the disk\<close>

definition put_blk :: "bytes \<Rightarrow> nat \<Rightarrow> bytes \<Rightarrow> bytes" where
  "put_blk D n f = (\<lambda>j. if j div BSIZE = n then f (j mod BSIZE) else D j)"

definition blk :: "bytes \<Rightarrow> nat \<Rightarrow> u8 list" where
  "blk D n = map (\<lambda>j. D (BSIZE * n + j)) [0..<BSIZE]"

definition bdata :: "buf \<Rightarrow> u8 list" where
  "bdata x = map (b_data x) [0..<BSIZE]"

lemma blk_put: "blk (put_blk D n f) m = (if m = n then map f [0..<BSIZE] else blk D m)"
  by (auto simp: blk_def put_blk_def intro!: map_cong)

lemma blk_length [simp]: "length (blk D n) = BSIZE" "length (bdata x) = BSIZE"
  by (simp_all add: blk_def bdata_def)

text \<open>A request for the two sectors of a block moves that block.\<close>

lemma block_sectors: "1024 * n \<le> j \<and> j < 1024 * n + 1024 \<longleftrightarrow> j div 1024 = (n::nat)"
  by auto

lemma transfer_block:
  assumes "rq_sector r = 2 * n"
  shows "transfer r k = (if rq_write r then k\<lparr>disk := put_blk (disk k) n (b_data (bufs k (rq_buf r)))\<rparr>
     else k\<lparr>bufs := (bufs k)(rq_buf r := (bufs k (rq_buf r))\<lparr>b_data :=
       (\<lambda>j. if j < BSIZE then disk k (BSIZE * n + j) else b_data (bufs k (rq_buf r)) j)\<rparr>)\<rparr>)"
proof -
  have "(\<lambda>j. if 1024 * n \<le> j \<and> j < 1024 * n + 1024 then f (j - 1024 * n) else g j) = put_blk g n f" for f g :: bytes
    unfolding put_blk_def block_sectors by (auto simp: fun_eq_iff minus_div_mult_eq_mod [symmetric] mult.commute)
  then show ?thesis by (simp add: transfer_def assms Let_def)
qed

section \<open>One request\<close>

text \<open>No request is outstanding: every descriptor is free and driver and device agree on the rings.\<close>

definition vd_ready :: "vdisk \<Rightarrow> bool" where
  "vd_ready d \<longleftrightarrow> (\<forall>i < NUM. vd_free d i) \<and> avail_idx d = used_idx_dev d \<and> vd_used_idx d = used_idx_dev d"

lemma free_descs_ready: "vd_ready (vdisk k) \<Longrightarrow> free_descs k = [0..<NUM]"
  by (simp add: free_descs_def vd_ready_def)

text \<open>The state in which the driver starts to wait for the request on buffer \<open>b\<close>.\<close>

definition posted_vdisk :: "nat \<Rightarrow> bool \<Rightarrow> u64 \<Rightarrow> vdisk \<Rightarrow> vdisk" where
  "posted_vdisk b wr sector d = d\<lparr>
     vd_free := (\<lambda>i. vd_free d i \<and> i \<notin> {0, 1, 2}),
     vd_ops := (vd_ops d)(0 := \<lparr>vr_type = (if wr then VIRTIO_BLK_T_OUT else VIRTIO_BLK_T_IN), vr_reserved = 0, vr_sector = sector\<rparr>),
     info_status := (info_status d)(0 := 0xff),
     vd_desc := (vd_desc d)(
       0 := \<lparr>vd_addr = V_OPS 0, vd_len = 16, vd_flags = VRING_DESC_F_NEXT, vd_next = 1\<rparr>,
       1 := \<lparr>vd_addr = V_DATA b, vd_len = BSIZE, vd_flags = (if wr then 0 else VRING_DESC_F_WRITE) OR VRING_DESC_F_NEXT, vd_next = 2\<rparr>,
       2 := \<lparr>vd_addr = V_STATUS 0, vd_len = 1, vd_flags = VRING_DESC_F_WRITE, vd_next = 0\<rparr>),
     info_b := (info_b d)(0 := Some b),
     avail_ring := (avail_ring d)(unat (avail_idx d mod NUM) := 0),
     avail_idx := avail_idx d + 1\<rparr>"

definition posted :: "nat \<Rightarrow> bool \<Rightarrow> kernel \<Rightarrow> kernel" where
  "posted b wr k = k\<lparr>vdisk := posted_vdisk b wr (ucast (b_blockno (bufs k b) * 2 :: u32)) (vdisk k),
     bufs := (bufs k)(b := (bufs k b)\<lparr>b_disk := True\<rparr>),
     dev_out := dev_out k @ [(VIRTIO0 + VIRTIO_MMIO_QUEUE_NOTIFY, 0)]\<rparr>"

definition rw_post :: "nat \<Rightarrow> bool \<Rightarrow> u64 \<Rightarrow> nat \<Rightarrow> nat \<Rightarrow> nat \<Rightarrow> (kernel, unit) kmon" where
  "rw_post b wr sector i0 i1 i2 = kseq [
       virtio_format b wr sector i0 i1 i2,
       upd_buf b (\<lambda>x. x\<lparr>b_disk := True\<rparr>),
       upd_vdisk (\<lambda>d. d\<lparr>info_b := (info_b d)(i0 := Some b)\<rparr>),
       upd_vdisk (\<lambda>d. d\<lparr>avail_ring := (avail_ring d)(unat (avail_idx d mod NUM) := of_nat i0)\<rparr>),
       upd_vdisk (\<lambda>d. d\<lparr>avail_idx := avail_idx d + 1\<rparr>),
       write_R VIRTIO_MMIO_QUEUE_NOTIFY 0]"

lemma rw_post_run:
  "rw_post b wr (ucast (b_blockno (bufs k b) * 2 :: u32)) 0 1 2 (take_descs {0, 1, 2} k) = Ret () (posted b wr k)"
  by (simp add: rw_post_def virtio_format_def upd_desc_def write_R_def run_simps take_descs_def posted_def posted_vdisk_def
      fun_upd_twist)

text \<open>The device finds exactly this request.\<close>

lemma next_request_posted:
  assumes "vd_ready d"
  shows "next_request (posted_vdisk b wr sector d) =
    Some \<lparr>rq_head = 0, rq_write = wr, rq_sector = unat sector, rq_buf = b, rq_status = 0\<rparr>"
  using assms by (simp add: next_request_def posted_vdisk_def vd_ready_def Let_def)

text \<open>The interrupt handler completes one finished request.\<close>

definition completed :: "nat \<Rightarrow> kernel \<Rightarrow> kernel" where
  "completed b k = k\<lparr>bufs := (bufs k)(b := (bufs k b)\<lparr>b_disk := False\<rparr>),
     proc := wake_procs (curproc (mach k)) (CH_BUF b) (proc k),
     vdisk := (vdisk k)\<lparr>vd_used_idx := vd_used_idx (vdisk k) + 1\<rparr>\<rparr>"

definition intr_body :: "unit \<Rightarrow> (kernel, unit + unit) kmon" where
  "intr_body = (\<lambda>_.
       kbind (kget vdisk) (\<lambda>d.
       if vd_used_idx d \<noteq> used_idx_dev d then
         let id = unat (used_ring_id d (unat (vd_used_idx d mod NUM))) in
         if info_status d id \<noteq> 0 then kpanic ''virtio_disk_intr status''
         else
         (case info_b d id of
            None \<Rightarrow> kpanic ''kerneltrap''
          | Some b \<Rightarrow>
              kbind (upd_buf b (\<lambda>x. x\<lparr>b_disk := False\<rparr>)) (\<lambda>_.
              kbind (wakeup (CH_BUF b)) (\<lambda>_.
              kbind (upd_vdisk (\<lambda>d. d\<lparr>vd_used_idx := vd_used_idx d + 1\<rparr>)) (\<lambda>_.
              kret (Inl ())))))
       else kret (Inr ())))"

lemma virtio_disk_intr_eq: "virtio_disk_intr =
     kbind (on_mach (acquire VDISK_LOCK)) (\<lambda>_.
     kbind (read_R VIRTIO_MMIO_INTERRUPT_STATUS) (\<lambda>st.
     kbind (write_R VIRTIO_MMIO_INTERRUPT_ACK (st AND 0x3)) (\<lambda>_.
     kbind (kget vdisk) (\<lambda>d.
     kbind (kiter (unat (used_idx_dev d - vd_used_idx d) + 1) intr_body ()) (\<lambda>_.
     on_mach (release VDISK_LOCK))))))"
  by (simp only: virtio_disk_intr_def intr_body_def)

lemma intr_body_run:
  assumes "procs_free (mach k)" and "ppm (mach k) = mach k" and "vd_used_idx (vdisk k) \<noteq> used_idx_dev (vdisk k)"
    and "i = unat (used_ring_id (vdisk k) (unat (vd_used_idx (vdisk k) mod NUM)))"
    and "info_status (vdisk k) i = 0" and "info_b (vdisk k) i = Some b"
  shows "intr_body () k = Ret (Inl ()) (completed b k)"
  using assms by (simp add: intr_body_def run_simps Let_def completed_def procs_free_def)

lemma intr_body_end: "vd_used_idx (vdisk k) = used_idx_dev (vdisk k) \<Longrightarrow> intr_body () k = Ret (Inr ()) k"
  by (simp add: intr_body_def run_simps)

text \<open>The completion of the buffers \<open>bs\<close>, in order.\<close>

lemma completed_fields [simp]:
  "mach (completed b k) = mach k" "used_idx_dev (vdisk (completed b k)) = used_idx_dev (vdisk k)"
  "vd_used_idx (vdisk (completed b k)) = vd_used_idx (vdisk k) + 1"
  "used_ring_id (vdisk (completed b k)) = used_ring_id (vdisk k)" "info_status (vdisk (completed b k)) = info_status (vdisk k)"
  "info_b (vdisk (completed b k)) = info_b (vdisk k)" "dev_in (completed b k) = dev_in k" "dev_out (completed b k) = dev_out k"
  by (simp_all add: completed_def)

definition finished :: "vdisk \<Rightarrow> nat list \<Rightarrow> bool" where
  "finished d bs \<longleftrightarrow> used_idx_dev d = vd_used_idx d + of_nat (length bs) \<and> length bs < 2 ^ 16 \<and>
     (\<forall>i < length bs. let id = unat (used_ring_id d (unat ((vd_used_idx d + of_nat i) mod NUM))) in
        info_status d id = 0 \<and> info_b d id = Some (bs ! i))"

lemma finished_Cons:
  assumes "finished (vdisk k) (b # bs)"
  shows "vd_used_idx (vdisk k) \<noteq> used_idx_dev (vdisk k)" and "finished (vdisk (completed b k)) bs"
    and "info_status (vdisk k) (unat (used_ring_id (vdisk k) (unat (vd_used_idx (vdisk k) mod NUM)))) = 0"
    and "info_b (vdisk k) (unat (used_ring_id (vdisk k) (unat (vd_used_idx (vdisk k) mod NUM)))) = Some b"
proof -
  have "unat (1 + of_nat (length bs) :: u16) = 1 + length bs"
    using assms unat_of_nat_less [of "Suc (length bs)", where 'a = 16] by (simp add: finished_def)
  then have "(1 + of_nat (length bs) :: u16) \<noteq> 0" by (metis add_is_0 unat_0 zero_neq_one)
  then show "vd_used_idx (vdisk k) \<noteq> used_idx_dev (vdisk k)" using assms by (simp add: finished_def)
  show "info_status (vdisk k) (unat (used_ring_id (vdisk k) (unat (vd_used_idx (vdisk k) mod NUM)))) = 0"
    "info_b (vdisk k) (unat (used_ring_id (vdisk k) (unat (vd_used_idx (vdisk k) mod NUM)))) = Some b"
    using assms by (auto simp: finished_def Let_def dest: spec [of _ 0])
  show "finished (vdisk (completed b k)) bs"
    using assms by (auto simp: finished_def Let_def algebra_simps dest: spec [of _ "Suc i" for i])
qed

lemma intr_loop:
  assumes "procs_free (mach k)" and "ppm (mach k) = mach k" and "finished (vdisk k) bs" and "length bs < f"
  shows "kiter f intr_body () k = Ret () (fold completed bs k)"
  using assms
proof (induction bs arbitrary: k f)
  case Nil
  then show ?case by (cases f) (simp_all add: run_simps intr_body_end finished_def)
next
  case (Cons b bs)
  then obtain g where "f = Suc g" by (cases f) auto
  then show ?case
    using Cons finished_Cons [OF Cons.prems(3)] intr_body_run [OF Cons.prems(1,2) _ refl, of b] by (simp add: run_simps)
qed

lemma fold_completed_fields [simp]: "mach (fold completed bs k) = mach k" "dev_in (fold completed bs k) = dev_in k"
  by (induction bs arbitrary: k) simp_all

lemma virtio_disk_intr_run:
  assumes "\<forall>lk. free_lock lk (mach k)" and "dev_in k = v # vs" and "finished (vdisk k) bs"
  shows "virtio_disk_intr k = Ret () ((fold completed bs (k\<lparr>mach := acqm VDISK_LOCK (mach k), dev_in := vs,
     dev_out := dev_out k @ [(VIRTIO0 + VIRTIO_MMIO_INTERRUPT_ACK, ucast (ucast v AND 3 :: u32))]\<rparr>))\<lparr>mach := ppm (mach k)\<rparr>)"
proof -
  let ?k = "k\<lparr>mach := acqm VDISK_LOCK (mach k), dev_in := vs,
     dev_out := dev_out k @ [(VIRTIO0 + VIRTIO_MMIO_INTERRUPT_ACK, ucast (ucast v AND 3 :: u32))]\<rparr>"
  have n: "unat (used_idx_dev (vdisk k) - vd_used_idx (vdisk k)) = length bs"
    using assms(3) unat_of_nat_less [of "length bs", where 'a = 16] by (simp add: finished_def)
  have "kiter (length bs + 1) intr_body () ?k = Ret () (fold completed bs ?k)"
    using assms by (intro intr_loop) (simp_all add: procs_free_def)
  then show ?thesis
    using assms(1,2) n by (simp add: virtio_disk_intr_eq run_simps read_R_def write_R_def dev_read_def del: kiter.simps)
qed

text \<open>Giving the three descriptors back.\<close>

definition chain_body :: "int \<Rightarrow> (kernel, int + unit) kmon" where
  "chain_body = (\<lambda>i.
       kbind (kget (\<lambda>k. vd_desc (vdisk k) (nat i))) (\<lambda>d.
       kbind (free_desc i) (\<lambda>_.
       kret (if vd_flags d AND VRING_DESC_F_NEXT \<noteq> 0 then Inl (uint (vd_next d)) else Inr ()))))"

lemma free_chain_eq: "free_chain i = kiter (NUM + 1) chain_body i"
  by (simp only: free_chain_def chain_body_def)

text \<open>A chain of descriptors starting at \<open>i\<close>.\<close>

fun is_chain :: "vdisk \<Rightarrow> nat list \<Rightarrow> bool" where
  "is_chain d [] = False"
| "is_chain d [i] = (vd_flags (vd_desc d i) AND VRING_DESC_F_NEXT = 0)"
| "is_chain d (i # j # is) = (vd_flags (vd_desc d i) AND VRING_DESC_F_NEXT \<noteq> 0 \<and> unat (vd_next (vd_desc d i)) = j \<and> is_chain d (j # is))"

lemma is_chain_give: "i \<notin> set is \<Longrightarrow> is_chain (give_desc i d) is = is_chain d is"
  by (induction d "is" rule: is_chain.induct) (auto simp: give_desc_def)

lemma chain_loop:
  assumes "is_chain (vdisk k) (i # is)" and "distinct (i # is)" and "\<forall>j \<in> set (i # is). j < NUM \<and> \<not> vd_free (vdisk k) j"
    and "procs_free (mach k)" and "length (i # is) \<le> f"
  shows "kiter f chain_body (int i) k = Ret () (k\<lparr>vdisk := fold give_desc (i # is) (vdisk k),
     proc := wake_procs (curproc (mach k)) CH_DISK_FREE (proc k), mach := ppm (mach k)\<rparr>)"
  using assms
proof (induction "is" arbitrary: k i f)
  case Nil
  then obtain g where f: "f = Suc g" by (cases f) auto
  then show ?case using Nil by (simp add: chain_body_def run_simps free_desc_run)
next
  case (Cons j js)
  then obtain g where f: "f = Suc g" by (cases f) auto
  let ?k = "k\<lparr>vdisk := give_desc i (vdisk k), proc := wake_procs (curproc (mach k)) CH_DISK_FREE (proc k), mach := ppm (mach k)\<rparr>"
  have 1: "free_desc (int i) k = Ret () ?k" using Cons.prems by (intro free_desc_run) simp_all
  have "kiter g chain_body (int j) ?k = Ret () (?k\<lparr>vdisk := fold give_desc (j # js) (vdisk ?k),
     proc := wake_procs (curproc (mach ?k)) CH_DISK_FREE (proc ?k), mach := ppm (mach ?k)\<rparr>)"
  proof (rule Cons.IH)
    show "is_chain (vdisk ?k) (j # js)" using Cons.prems(1,2) by (simp add: is_chain_give)
    show "\<forall>l \<in> set (j # js). l < NUM \<and> \<not> vd_free (vdisk ?k) l" using Cons.prems(2,3) by (auto simp: give_desc_def)
  qed (use Cons.prems f in auto)
  moreover have "uint (vd_next (vd_desc (vdisk k) i)) = int j" using Cons.prems(1) by (auto simp: uint_nat)
  then have "chain_body (int i) k = Ret (Inl (int j)) ?k" using 1 Cons.prems(1) by (simp add: chain_body_def run_simps)
  ultimately show ?case by (simp add: f run_simps)
qed

text \<open>The state after the whole request, up to the fields listed in \<open>rw_done\<close>.\<close>

definition same_procs :: "(nat \<Rightarrow> proc) \<Rightarrow> (nat \<Rightarrow> proc) \<Rightarrow> bool" where
  "same_procs t t' \<longleftrightarrow> (\<forall>q. (t' q)\<lparr>p_state := UNUSED, p_chan := None\<rparr> = (t q)\<lparr>p_state := UNUSED, p_chan := None\<rparr>)"

lemma same_procs_refl [simp]: "same_procs t t"
  by (simp add: same_procs_def)

lemma same_procs_trans: "same_procs t t' \<Longrightarrow> same_procs t' t'' \<Longrightarrow> same_procs t t''"
  by (simp add: same_procs_def)

lemma same_procs_upd [simp]:
  "same_procs t (wake_procs me ch t') = same_procs t t'" "same_procs t (t'(p := (t' p)\<lparr>p_chan := c\<rparr>)) = same_procs t t'"
  "same_procs t (t'(p := (t' p)\<lparr>p_state := s\<rparr>)) = same_procs t t'"
  "same_procs t (t'(p := (t' p)\<lparr>p_chan := c, p_state := s\<rparr>)) = same_procs t t'"
  by (auto simp: same_procs_def wake_procs_def wake_def)

lemma same_procs_pid:
  assumes "same_procs t t'"
  shows "p_pid (t' q) = p_pid (t q)"
proof -
  have "p_pid ((t' q)\<lparr>p_state := UNUSED, p_chan := None\<rparr>) = p_pid ((t q)\<lparr>p_state := UNUSED, p_chan := None\<rparr>)"
    using assms by (simp only: same_procs_def)
  then show ?thesis by simp
qed

section \<open>The request and its completion\<close>

definition io_data :: "nat \<Rightarrow> kernel \<Rightarrow> bytes" where
  "io_data b k = (\<lambda>j. if j < BSIZE then disk k (BSIZE * unat (b_blockno (bufs k b)) + j) else b_data (bufs k b) j)"

definition io_disk :: "nat \<Rightarrow> bool \<Rightarrow> kernel \<Rightarrow> bytes" where
  "io_disk b wr k = (if wr then put_blk (disk k) (unat (b_blockno (bufs k b))) (b_data (bufs k b)) else disk k)"

definition io_bufs :: "nat \<Rightarrow> bool \<Rightarrow> kernel \<Rightarrow> nat \<Rightarrow> buf" where
  "io_bufs b wr k = (bufs k)(b := if wr then (bufs k b)\<lparr>b_disk := False\<rparr>
     else (bufs k b)\<lparr>b_data := io_data b k, b_disk := False\<rparr>)"

text \<open>The disk structure when the interrupt handler is done with the request.\<close>

definition done_vdisk :: "nat \<Rightarrow> bool \<Rightarrow> u64 \<Rightarrow> vdisk \<Rightarrow> vdisk" where
  "done_vdisk b wr sector d = (let v = posted_vdisk b wr sector d in
     v\<lparr>info_status := (info_status v)(0 := 0), used_ring_id := (used_ring_id v)(unat (used_idx_dev v mod NUM) := 0),
       used_idx_dev := used_idx_dev v + 1, vd_used_idx := vd_used_idx v + 1\<rparr>)"

lemma sector_of: "unat (n::u32) < 2 ^ 31 \<Longrightarrow> unat (ucast (n * 2 :: u32) :: u64) = 2 * unat n"
  by (simp add: unsigned_ucast_eq unat_word_ariths take_bit_nat_eq_self)

lemma turn_run:
  assumes "turn_ok dev p mi m" and "vd_ready (vdisk k)" and "unat (b_blockno (bufs k b)) < 2 ^ 31"
  shows "\<exists>pr tr. disk_turn dev p mi m (asleep p (CH_BUF b) m0 (posted b wr k)) = k\<lparr>
     vdisk := done_vdisk b wr (ucast (b_blockno (bufs k b) * 2 :: u32)) (vdisk k), bufs := io_bufs b wr k, disk := io_disk b wr k,
     dev_out := tr, proc := pr, mach := acqm (PROC_LOCK p) m\<rparr> \<and> same_procs (proc k) pr"
proof -
  let ?s = "ucast (b_blockno (bufs k b) * 2 :: u32) :: u64" and ?h = "(asleep p (CH_BUF b) m0 (posted b wr k))\<lparr>mach := mi\<rparr>"
  let ?rq = "\<lparr>rq_head = 0, rq_write = wr, rq_sector = unat ?s, rq_buf = b, rq_status = 0\<rparr>"
  have vh: "vdisk ?h = posted_vdisk b wr ?s (vdisk k)" by (simp add: asleep_def posted_def)
  have dev: "dev ?h = served ?rq ?h"
    using assms(1) next_request_posted [OF assms(2)] by (simp add: turn_ok_def virtio_device_def vh)
  have fin: "finished (vdisk (served ?rq ?h)) [b]"
    using assms(2) by (simp add: finished_def served_def vh posted_vdisk_def vd_ready_def)
  have mach: "mach (served ?rq ?h) = mi" "dev_in (served ?rq ?h) = 1 # dev_in k"
    by (simp_all add: served_def transfer_def Let_def asleep_def posted_def)
  have "\<forall>lk. free_lock lk (mach (served ?rq ?h))" using assms(1) by (simp add: mach turn_ok_def)
  note intr = virtio_disk_intr_run [OF this mach(2) fin]
  let ?pr = "wake_procs (curproc mi) (CH_BUF b) ((proc k)(p := (proc k p)\<lparr>p_chan := Some (CH_BUF b), p_state := SLEEPING\<rparr>))"
  let ?tr = "dev_out k @ [(VIRTIO0 + VIRTIO_MMIO_QUEUE_NOTIFY, 0), (VIRTIO0 + VIRTIO_MMIO_INTERRUPT_ACK, 1)]"
  have run: "virtio_disk_intr (served ?rq ?h) = Ret () (k\<lparr>vdisk := done_vdisk b wr ?s (vdisk k), bufs := io_bufs b wr k,
      disk := io_disk b wr k, dev_out := ?tr, proc := ?pr, mach := ppm mi\<rparr>)"
    unfolding intr mach(1)
    by (cases k; cases wr)
       (simp_all add: completed_def served_def transfer_block [OF trans [OF _ sector_of [OF assms(3)]]] asleep_def posted_def
        io_bufs_def io_data_def io_disk_def done_vdisk_def Let_def cong: if_cong)
  have "p_state (?pr p) = RUNNABLE"
    using assms(1) by (auto simp: turn_ok_def wake_procs_def wake_def)
  then show ?thesis
    using run unfolding disk_turn_def dev by auto
qed

definition rw_alloc :: "unit \<Rightarrow> (world, unit + int list) kmon" where
  "rw_alloc = (\<lambda>_.
       kbind (atom alloc3_desc) (\<lambda>r.
       case r of
         Some idx \<Rightarrow> kret (Inr idx)
       | None \<Rightarrow> kbind (sleep CH_DISK_FREE VDISK_LOCK) (\<lambda>_. kret (Inl ()))))"

definition rw_wait :: "nat \<Rightarrow> unit \<Rightarrow> (world, unit + unit) kmon" where
  "rw_wait b = (\<lambda>_.
       kbind (atom (kget (\<lambda>k. b_disk (bufs k b)))) (\<lambda>busy.
       if busy then kbind (sleep (CH_BUF b) VDISK_LOCK) (\<lambda>_. kret (Inl ()))
       else kret (Inr ())))"

definition rw_finish :: "nat \<Rightarrow> (kernel, unit) kmon" where
  "rw_finish i0 = kseq [
       upd_vdisk (\<lambda>d. d\<lparr>info_b := (info_b d)(i0 := None)\<rparr>),
       free_chain (int i0),
       on_mach (release VDISK_LOCK)]"

lemma virtio_disk_rw_eq: "virtio_disk_rw b wr =
     kbind (atom (kget (\<lambda>k. ucast (b_blockno (bufs k b) * 2 :: u32)))) (\<lambda>sector.
     kbind (atom (on_mach (acquire VDISK_LOCK))) (\<lambda>_.
     kbind (kget resumptions) (\<lambda>n.
     kbind (kiter (n + 1) rw_alloc ()) (\<lambda>idx.
     let i0 = nat (idx ! 0); i1 = nat (idx ! 1); i2 = nat (idx ! 2) in
     kbind (atom (rw_post b wr sector i0 i1 i2)) (\<lambda>_.
     kbind (kget resumptions) (\<lambda>n.
     kbind (kiter (n + 1) (rw_wait b) ()) (\<lambda>_. atom (rw_finish i0))))))))"
  by (simp only: virtio_disk_rw_def rw_alloc_def rw_post_def rw_wait_def rw_finish_def)

lemma rw_alloc_run:
  assumes "vd_ready (vdisk k)"
  shows "rw_alloc () (k, rs) = Ret (Inr [0, 1, 2]) (take_descs {0, 1, 2} k, rs)"
proof -
  have f: "free_descs k = [0, 1, 2, 3, 4, 5, 6, 7]" using free_descs_ready [OF assms] by (simp add: upt_conv_Cons)
  then have "alloc3_desc k = Ret (Some [0, 1, 2]) (take_descs {0, 1, 2} k)"
    using alloc3_loop_run [of 3 k "[]"] by (simp add: alloc3_desc_def insert_commute)
  then show ?thesis by (simp add: rw_alloc_def run_simps)
qed

lemma rw_wait_run:
  assumes "quiet p (mach k)" and "turn_ok dev p mi m" and "vd_ready (vdisk k)" and "unat (b_blockno (bufs k b)) < 2 ^ 31"
  shows "\<exists>pr tr m3. same_procs (proc k) pr \<and> quiet p m3 \<and>
    kiter (Suc (Suc n)) (rw_wait b) () ((posted b wr k)\<lparr>mach := acqm VDISK_LOCK (mach k)\<rparr>, disk_turn dev p mi m # rs) =
    Ret () (k\<lparr>vdisk := done_vdisk b wr (ucast (b_blockno (bufs k b) * 2 :: u32)) (vdisk k), bufs := io_bufs b wr k,
      disk := io_disk b wr k, dev_out := tr, proc := pr, mach := acqm VDISK_LOCK m3\<rparr>, rs)"
proof -
  let ?r = "disk_turn dev p mi m" and ?h = "asleep p (CH_BUF b) (mach k) (posted b wr k)"
  obtain pr tr where t: "?r ?h = k\<lparr>vdisk := done_vdisk b wr (ucast (b_blockno (bufs k b) * 2 :: u32)) (vdisk k),
      bufs := io_bufs b wr k, disk := io_disk b wr k, dev_out := tr, proc := pr, mach := acqm (PROC_LOCK p) m\<rparr>"
    "same_procs (proc k) pr"
    using turn_run [OF assms(2-4)] by blast
  have m: "mach (posted b wr k) = mach k" by (simp add: posted_def)
  have "resumes p (?r ?h) m" using assms(2) by (simp add: resumes_def t turn_ok_def)
  then obtain m3 where m3: "quiet p m3" "sleep (CH_BUF b) VDISK_LOCK ((posted b wr k)\<lparr>mach := acqm VDISK_LOCK (mach k)\<rparr>, ?r # rs) =
      Ret () ((woken p m3 (?r ?h))\<lparr>mach := acqm VDISK_LOCK m3\<rparr>, rs)"
    using sleep_quiet [of p "posted b wr k" VDISK_LOCK ?r "CH_BUF b" m rs] assms(1) by (auto simp: m)
  have "b_disk (bufs (posted b wr k) b)" "\<not> b_disk (io_bufs b wr k b)" by (simp_all add: posted_def io_bufs_def)
  then show ?thesis
    using m3 t(2)
    by (intro exI [of _ "pr(p := (pr p)\<lparr>p_chan := None\<rparr>)"] exI [of _ tr] exI [of _ m3])
       (simp add: rw_wait_def run_simps t(1) woken_def)
qed

text \<open>Everything that a request leaves alone.\<close>

definition io_frame :: "kernel \<Rightarrow> kernel \<Rightarrow> bool" where
  "io_frame k k' \<longleftrightarrow> same_procs (proc k) (proc k') \<and>
     k'\<lparr>mach := mach k, proc := proc k, vdisk := vdisk k, bufs := bufs k, disk := disk k, dev_out := dev_out k\<rparr> = k"

lemma rw_finish_run:
  assumes "vd_ready d" and "mach k = acqm VDISK_LOCK m" and "quiet p m" and "vdisk k = done_vdisk b wr sector d"
  shows "\<exists>v. rw_finish 0 k = Ret () (k\<lparr>vdisk := v, proc := wake_procs (Some p) CH_DISK_FREE (proc k), mach := ppm m\<rparr>) \<and> vd_ready v"
proof -
  let ?v = "(done_vdisk b wr sector d)\<lparr>info_b := (info_b (done_vdisk b wr sector d))(0 := None)\<rparr>"
  have ch: "is_chain ?v [0, 1, 2]"
    by (simp add: done_vdisk_def posted_vdisk_def Let_def)
  have nf: "\<forall>j \<in> set [0, 1, 2]. j < NUM \<and> \<not> vd_free ?v j"
    by (simp add: done_vdisk_def posted_vdisk_def Let_def)
  have "free_chain 0 (k\<lparr>vdisk := ?v\<rparr>) = Ret () (k\<lparr>vdisk := fold give_desc [0, 1, 2] ?v,
      proc := wake_procs (Some p) CH_DISK_FREE (proc k), mach := mach k\<rparr>)"
    using chain_loop [of "k\<lparr>vdisk := ?v\<rparr>" 0 "[1, 2]" "NUM + 1"] ch nf assms(2,3)
    by (simp add: free_chain_eq procs_free_def quietD del: kiter.simps)
  then have "rw_finish 0 k = Ret () (k\<lparr>vdisk := fold give_desc [0, 1, 2] ?v,
      proc := wake_procs (Some p) CH_DISK_FREE (proc k), mach := ppm m\<rparr>)"
    using assms(2-4) by (simp add: rw_finish_def run_simps quietD)
  moreover have "vd_ready (fold give_desc [0, 1, 2] ?v)"
    using assms(1) by (auto simp: vd_ready_def give_desc_def done_vdisk_def posted_vdisk_def Let_def)
  ultimately show ?thesis by blast
qed

lemma virtio_disk_rw_run:
  assumes "quiet p (mach k)" and "turn_ok dev p mi m" and "vd_ready (vdisk k)" and "unat (b_blockno (bufs k b)) < 2 ^ 31"
  shows "\<exists>k'. virtio_disk_rw b wr (k, disk_turn dev p mi m # rs) = Ret () (k', rs) \<and>
    bufs k' = io_bufs b wr k \<and> disk k' = io_disk b wr k \<and> quiet p (mach k') \<and> vd_ready (vdisk k') \<and> io_frame k k'"
proof -
  let ?s = "ucast (b_blockno (bufs k b) * 2 :: u32) :: u64"
  obtain pr tr m3 where w: "same_procs (proc k) pr" "quiet p m3"
    "kiter (Suc (Suc (length rs))) (rw_wait b) () ((posted b wr k)\<lparr>mach := acqm VDISK_LOCK (mach k)\<rparr>, disk_turn dev p mi m # rs) =
    Ret () (k\<lparr>vdisk := done_vdisk b wr ?s (vdisk k), bufs := io_bufs b wr k,
      disk := io_disk b wr k, dev_out := tr, proc := pr, mach := acqm VDISK_LOCK m3\<rparr>, rs)" (is "_ = Ret () (?k, rs)")
    using rw_wait_run [OF assms] by blast
  obtain v where v: "rw_finish 0 ?k = Ret () (?k\<lparr>vdisk := v, proc := wake_procs (Some p) CH_DISK_FREE (proc ?k), mach := ppm m3\<rparr>)"
    "vd_ready v"
    using rw_finish_run [of "vdisk k" ?k m3 p b wr ?s] assms(3) w(2) by auto
  let ?a = "k\<lparr>mach := acqm VDISK_LOCK (mach k)\<rparr>"
  have a: "kiter (Suc n) rw_alloc () (?a, rs') = Ret [0, 1, 2] (take_descs {0, 1, 2} ?a, rs')" for n rs'
    using rw_alloc_run [of ?a] assms(3) by (simp add: run_simps)
  have post: "rw_post b wr ?s 0 1 2 (take_descs {0, 1, 2} ?a) = Ret () ((posted b wr k)\<lparr>mach := acqm VDISK_LOCK (mach k)\<rparr>)"
    using rw_post_run [of b wr ?a] by (simp add: posted_def)
  have "virtio_disk_rw b wr (k, disk_turn dev p mi m # rs) =
      Ret () (?k\<lparr>vdisk := v, proc := wake_procs (Some p) CH_DISK_FREE (proc ?k), mach := ppm m3\<rparr>, rs)"
    using quietD(1) [OF assms(1)] a post w(3) v(1)
    by (simp add: virtio_disk_rw_eq run_simps resumptions_def Let_def del: kiter.simps)
  moreover have "k\<lparr>bufs := bufs k, disk := disk k, dev_out := dev_out k, vdisk := vdisk k, proc := proc k, mach := mach k\<rparr> = k"
    by (cases k) simp
  ultimately show ?thesis
    using w(1,2) v(2) by (auto simp: io_frame_def)
qed

text \<open>Without a turn the thread stays asleep and the medium is untouched.\<close>

lemma virtio_disk_rw_stops:
  assumes "quiet p (mach k)" and "vd_ready (vdisk k)"
  shows "virtio_disk_rw b wr (k, []) = Switch (asleep p (CH_BUF b) (mach k) (posted b wr k), [])"
proof -
  let ?a = "k\<lparr>mach := acqm VDISK_LOCK (mach k)\<rparr>" and ?s = "ucast (b_blockno (bufs k b) * 2 :: u32) :: u64"
  let ?w = "(posted b wr k)\<lparr>mach := acqm VDISK_LOCK (mach k)\<rparr>"
  have a: "kiter (Suc n) rw_alloc () (?a, rs') = Ret [0, 1, 2] (take_descs {0, 1, 2} ?a, rs')" for n rs'
    using rw_alloc_run [of ?a] assms(2) by (simp add: run_simps)
  have post: "rw_post b wr ?s 0 1 2 (take_descs {0, 1, 2} ?a) = Ret () ?w"
    using rw_post_run [of b wr ?a] by (simp add: posted_def)
  have "in_section p VDISK_LOCK (mach k) ?w" using quietD [OF assms(1)] by (simp add: in_section_def)
  from sleep_switch [OF this quietD(1) [OF assms(1)], of "CH_BUF b"]
  have "sleep (CH_BUF b) VDISK_LOCK (?w, []) = Switch (asleep p (CH_BUF b) (mach k) (posted b wr k), [])"
    by (simp add: asleep_def)
  moreover have "b_disk (bufs (posted b wr k) b)" by (simp add: posted_def)
  ultimately have "kiter (Suc n) (rw_wait b) () (?w, []) = Switch (asleep p (CH_BUF b) (mach k) (posted b wr k), [])" for n
    by (simp add: rw_wait_def run_simps)
  then show ?thesis
    using quietD(1) [OF assms(1)] a post
    by (simp add: virtio_disk_rw_eq run_simps resumptions_def Let_def del: kiter.simps)
qed

lemma disk_asleep_posted [simp]: "disk (asleep p ch m0 (posted b wr k)) = disk k"
  by (simp add: asleep_def posted_def)

text \<open>
  C13: the driver, the device, the interrupt handler and the scheduler together move exactly one block. With
  no request outstanding, \<open>virtio_disk_rw\<close> posts a request that the device accepts, sleeps, is woken by
  the completion interrupt, and returns: after a read the buffer holds the block of the medium that its
  block number names, after a write the medium holds the buffer's bytes in that block and the other
  blocks are unchanged. No other buffer changes, all descriptors are free again and the rings agree, so
  that the next request finds the same situation. While the device has not acted the medium is untouched.
\<close>

theorem virtio_disk_rw_transfers:
  assumes "quiet p (mach k)" and "turn_ok dev p mi m" and "vd_ready (vdisk k)" and "unat (b_blockno (bufs k b)) < 2 ^ 31"
  shows "\<exists>k'. virtio_disk_rw b wr (k, disk_turn dev p mi m # rs) = Ret () (k', rs) \<and>
    (if wr then bdata (bufs k' b) = bdata (bufs k b) \<and> blk (disk k') (unat (b_blockno (bufs k b))) = bdata (bufs k b)
     else bdata (bufs k' b) = blk (disk k) (unat (b_blockno (bufs k b))) \<and>
       blk (disk k') (unat (b_blockno (bufs k b))) = blk (disk k) (unat (b_blockno (bufs k b)))) \<and>
    (\<forall>n. n \<noteq> unat (b_blockno (bufs k b)) \<longrightarrow> blk (disk k') n = blk (disk k) n) \<and>
    (\<forall>c. c \<noteq> b \<longrightarrow> bufs k' c = bufs k c) \<and> \<not> b_disk (bufs k' b) \<and>
    quiet p (mach k') \<and> vd_ready (vdisk k') \<and> io_frame k k' \<and>
    (\<exists>k1. virtio_disk_rw b wr (k, []) = Switch (k1, []) \<and> disk k1 = disk k)"
proof -
  obtain k' where k': "virtio_disk_rw b wr (k, disk_turn dev p mi m # rs) = Ret () (k', rs)"
    "bufs k' = io_bufs b wr k" "disk k' = io_disk b wr k" "quiet p (mach k')" "vd_ready (vdisk k')" "io_frame k k'"
    using virtio_disk_rw_run [OF assms] by blast
  have d: "bdata (x\<lparr>b_disk := v\<rparr>) = bdata x" for x v by (simp add: bdata_def)
  have "bdata ((bufs k b)\<lparr>b_data := io_data b k, b_disk := False\<rparr>) = blk (disk k) (unat (b_blockno (bufs k b)))"
    by (simp add: bdata_def blk_def io_data_def)
  then show ?thesis
    using k' virtio_disk_rw_stops [OF assms(1,3), of b wr]
    by (intro exI [of _ k']) (auto simp: io_bufs_def io_disk_def blk_put d simp flip: bdata_def)
qed

text \<open>A device that does what the specification documents.\<close>

definition demo_device :: "kernel \<Rightarrow> kernel" where
  "demo_device k = (case next_request (vdisk k) of None \<Rightarrow> k | Some r \<Rightarrow> served r k)"

lemma demo_turn_ok [simp]: "p < NPROC \<Longrightarrow> turn_ok demo_device p boot_mach (thread_mach p)"
  by (simp add: turn_ok_def virtio_device_def demo_device_def quiet_thread_mach boot_mach_def curproc_def free_lock_def)

theorem virtio_disk_rw_transfers_witness:
  "\<exists>k'. virtio_disk_rw 4 False ((boot_kernel (syms_at 0x80022000) (\<lambda>_. 0))\<lparr>mach := thread_mach 3,
      vdisk := zero_vdisk\<lparr>vd_free := (\<lambda>_. True)\<rparr>, bufs := (\<lambda>_. zero_buf\<lparr>b_blockno := 46\<rparr>), disk := (\<lambda>j. of_nat (j div 1024))\<rparr>,
      [disk_turn demo_device 3 boot_mach (thread_mach 3)]) = Ret () (k', []) \<and>
    bdata (bufs k' 4) = replicate 1024 46"
proof -
  let ?k = "(boot_kernel (syms_at 0x80022000) (\<lambda>_. 0))\<lparr>mach := thread_mach 3,
      vdisk := zero_vdisk\<lparr>vd_free := (\<lambda>_. True)\<rparr>, bufs := (\<lambda>_. zero_buf\<lparr>b_blockno := 46\<rparr>), disk := (\<lambda>j. of_nat (j div 1024))\<rparr>"
  have "(47104 + i) div 1024 = 46" if "i < 1024" for i :: nat using that by simp
  then have "blk (disk ?k) 46 = replicate 1024 46" by (simp add: blk_def list_eq_iff_nth_eq)
  then show ?thesis
    using virtio_disk_rw_transfers [of 3 ?k demo_device boot_mach "thread_mach 3" 4 False "[]"]
    by (auto simp: vd_ready_def zero_vdisk_def)
qed

end
