(* ===== verification/Cache.thy ===== *)
theory Cache
  imports Disk Bio
begin

text \<open>
  The buffer cache refines a list of buffers in order of use, and, together with the driver and the
  device, a view of the disk through cached blocks. The first part treats the doubly linked list, the
  second \<open>bget\<close> and \<open>brelse\<close> on it, the third the reads and writes of blocks.
\<close>

section \<open>Doubly linked lists\<close>

text \<open>Following \<open>f\<close> from \<open>x\<close> passes the nodes \<open>l\<close> and then reaches \<open>y\<close>.\<close>

fun seg :: "(nat \<Rightarrow> nat) \<Rightarrow> nat \<Rightarrow> nat list \<Rightarrow> nat \<Rightarrow> bool" where
  "seg f x [] y = (f x = y)"
| "seg f x (a # l) y = (f x = a \<and> seg f a l y)"

lemma seg_append: "seg f x (l @ a # m) y \<longleftrightarrow> seg f x l a \<and> seg f a m y"
  by (induction l arbitrary: x) auto

lemma seg_cong: "(\<And>z. z \<in> insert x (set l) \<Longrightarrow> f z = g z) \<Longrightarrow> seg f x l y = seg g x l y"
  by (induction l arbitrary: x) auto

lemma seg_other: "z \<notin> insert x (set l) \<Longrightarrow> seg (f(z := v)) x l y = seg f x l y"
  by (rule seg_cong) auto

lemma seg_last: "seg f x l y \<Longrightarrow> distinct (x # l) \<Longrightarrow> seg (f(last (x # l) := z)) x l z"
proof (induction l arbitrary: x)
  case (Cons a l)
  then have "x \<noteq> last (a # l)" using last_in_set [of "a # l"] by auto
  then show ?case using Cons by simp
qed simp

lemma seg_end: "seg f x l y \<Longrightarrow> f (last (x # l)) = y"
  by (induction l arbitrary: x) auto

lemma seg_remove:
  assumes "seg f h (l @ b # m) h" and "distinct (h # l @ b # m)"
  shows "f b = hd (m @ [h])" and "seg (f(last (h # l) := hd (m @ [h]))) h (l @ m) h"
proof -
  have s: "seg f h l b" "seg f b m h" using assms(1) by (simp_all add: seg_append)
  show "f b = hd (m @ [h])" using s(2) by (cases m) auto
  have l: "seg (f(last (h # l) := z)) h l z" for z using seg_last [OF s(1)] assms(2) by simp
  show "seg (f(last (h # l) := hd (m @ [h]))) h (l @ m) h"
  proof (cases m)
    case (Cons c m')
    have "last (h # l) \<in> set (h # l)" by (rule last_in_set) simp
    then have "last (h # l) \<notin> insert c (set m')" using assms(2) Cons by auto
    then show ?thesis using l [of c] s(2) Cons by (simp add: seg_append seg_other)
  qed (use l [of h] in simp)
qed

lemma seg_insert_front:
  assumes "seg f h l h" and "distinct (h # b # l)"
  shows "seg (f(b := f h, h := b)) h (b # l) h"
  using assms by (cases l) (auto simp: seg_other)

lemma seg_insert_back:
  assumes "seg f h l h" and "distinct (h # b # l)"
  shows "seg (f(b := h, last (h # l) := b)) h (l @ [b]) h"
proof -
  have "last (h # l) \<in> set (h # l)" by (rule last_in_set) simp
  then have ne: "last (h # l) \<noteq> b" using assms(2) by auto
  have "seg (f(last (h # l) := b)) h l b" using seg_last [OF assms(1)] assms(2) by simp
  then have "seg (f(last (h # l) := b, b := h)) h l b" using assms(2) by (subst seg_other) auto
  then show ?thesis using ne by (simp add: seg_append fun_upd_twist)
qed

text \<open>The buffers \<open>l\<close>, the most recently used first, linked in both directions behind the head.\<close>

definition linked :: "(nat \<Rightarrow> buf) \<Rightarrow> nat list \<Rightarrow> bool" where
  "linked bs l \<longleftrightarrow> distinct (BHEAD # l) \<and> seg (b_next \<circ> bs) BHEAD l BHEAD \<and> seg (b_prev \<circ> bs) BHEAD (rev l) BHEAD"

lemma linked_cong:
  assumes "\<And>b. b \<in> insert BHEAD (set l) \<Longrightarrow> b_next (bs' b) = b_next (bs b) \<and> b_prev (bs' b) = b_prev (bs b)"
  shows "linked bs' l = linked bs l"
proof -
  have "seg (b_next \<circ> bs') BHEAD l BHEAD = seg (b_next \<circ> bs) BHEAD l BHEAD"
    "seg (b_prev \<circ> bs') BHEAD (rev l) BHEAD = seg (b_prev \<circ> bs) BHEAD (rev l) BHEAD"
    using assms by (auto intro!: seg_cong)
  then show ?thesis by (simp add: linked_def)
qed

text \<open>The effect of \<open>brelse_move\<close>.\<close>

definition move_front :: "nat \<Rightarrow> (nat \<Rightarrow> buf) \<Rightarrow> nat \<Rightarrow> buf" where
  "move_front b bs =
     (let s = b_next (bs b); q = b_prev (bs b);
          bs1 = bs(s := (bs s)\<lparr>b_prev := q\<rparr>);
          bs2 = bs1(b_prev (bs1 b) := (bs1 (b_prev (bs1 b)))\<lparr>b_next := b_next (bs1 b)\<rparr>);
          n = b_next (bs2 BHEAD);
          bs4 = bs2(b := (bs2 b)\<lparr>b_next := n, b_prev := BHEAD\<rparr>);
          bs5 = bs4(n := (bs4 n)\<lparr>b_prev := b\<rparr>) in
      bs5(BHEAD := (bs5 BHEAD)\<lparr>b_next := b\<rparr>))"

lemma brelse_move_run: "brelse_move b k = Ret () (k\<lparr>bufs := move_front b (bufs k)\<rparr>)"
  by (simp add: brelse_move_def get_buf_def run_simps move_front_def Let_def)

lemma move_front_ptrs:
  assumes "b_next (bs b) = s" and "b_prev (bs b) = q" and "s \<noteq> b" and "q \<noteq> b" and "b \<noteq> BHEAD"
    and "N1 = (b_next \<circ> bs)(q := s)" and "P1 = (b_prev \<circ> bs)(s := q)"
  shows "b_next \<circ> move_front b bs = N1(b := N1 BHEAD, BHEAD := b)"
    and "b_prev \<circ> move_front b bs = P1(b := BHEAD, N1 BHEAD := b)"
proof -
  have 1: "(bs(s := (bs s)\<lparr>b_prev := q\<rparr>)) b = bs b" using assms(3) by simp
  let ?bs2 = "(bs(s := (bs s)\<lparr>b_prev := q\<rparr>))(q := ((bs(s := (bs s)\<lparr>b_prev := q\<rparr>)) q)\<lparr>b_next := s\<rparr>)"
  have N: "b_next \<circ> ?bs2 = N1" and P: "b_prev \<circ> ?bs2 = P1" unfolding assms(6,7) by (simp_all add: fun_eq_iff)
  have n: "b_next (?bs2 x) = N1 x" "b_prev (?bs2 x) = P1 x" for x using fun_cong [OF N, of x] fun_cong [OF P, of x] by simp_all
  define bs2 where "bs2 = ?bs2"
  define n2 where "n2 = N1 BHEAD"
  have e: "move_front b bs = (let bs4 = bs2(b := (bs2 b)\<lparr>b_next := n2, b_prev := BHEAD\<rparr>);
      bs5 = bs4(n2 := (bs4 n2)\<lparr>b_prev := b\<rparr>) in bs5(BHEAD := (bs5 BHEAD)\<lparr>b_next := b\<rparr>))"
    unfolding move_front_def assms(1,2) Let_def 1 n2_def n(1) [symmetric] bs2_def ..
  note n' = n [folded bs2_def]
  show "b_next \<circ> move_front b bs = N1(b := N1 BHEAD, BHEAD := b)" "b_prev \<circ> move_front b bs = P1(b := BHEAD, N1 BHEAD := b)"
    unfolding e n2_def [symmetric] using assms(5) by (auto simp: fun_eq_iff Let_def n')
qed

lemma move_front_linked:
  assumes "linked bs (l @ b # m)"
  shows "linked (move_front b bs) (b # l @ m)"
proof -
  let ?N = "b_next \<circ> bs" and ?P = "b_prev \<circ> bs" and ?s = "hd (m @ [BHEAD])" and ?q = "last (BHEAD # l)"
  have d: "distinct (BHEAD # l @ b # m)" and n: "seg ?N BHEAD (l @ b # m) BHEAD"
    and p: "seg ?P BHEAD (rev m @ b # rev l) BHEAD"
    using assms by (simp_all add: linked_def)
  have d': "distinct (BHEAD # rev m @ b # rev l)" using d by auto
  have lr: "last (BHEAD # rev xs) = hd (xs @ [BHEAD])" "hd (rev xs @ [BHEAD]) = last (BHEAD # xs)" for xs
    by (cases xs; simp add: hd_append last_rev hd_rev)+
  note rn = seg_remove [OF n d] and rp = seg_remove [OF p d', unfolded lr]
  let ?N1 = "?N(?q := ?s)" and ?P1 = "?P(?s := ?q)"
  have sb: "?s \<noteq> b" "?q \<noteq> b" using d last_in_set [of "BHEAD # l"] by (cases m; auto)+
  have n2: "?N1 BHEAD = hd ((l @ m) @ [BHEAD])" using rn(2) by (cases "l @ m") auto
  have dl: "distinct (BHEAD # b # l @ m)" "distinct (BHEAD # b # rev (l @ m))" using d by auto
  have N: "seg (?N1(b := ?N1 BHEAD, BHEAD := b)) BHEAD (b # l @ m) BHEAD" by (rule seg_insert_front [OF rn(2) dl(1)])
  have rp2: "seg ?P1 BHEAD (rev (l @ m)) BHEAD" using rp(2) by simp
  have P: "seg (?P1(b := BHEAD, ?N1 BHEAD := b)) BHEAD (rev (b # l @ m)) BHEAD"
    using seg_insert_back [OF rp2 dl(2)] unfolding lr n2 by simp
  have bn: "b_next (bs b) = ?s" "b_prev (bs b) = ?q" using rn(1) rp(1) by simp_all
  have bh: "b \<noteq> BHEAD" using d by auto
  show ?thesis
    using N P dl(1) unfolding linked_def move_front_ptrs [of bs b, OF bn sb bh refl refl] by simp
qed

section \<open>Looking up and recycling\<close>

definition holds_block :: "u32 \<Rightarrow> u32 \<Rightarrow> buf \<Rightarrow> bool" where
  "holds_block dev n x \<longleftrightarrow> b_dev x = dev \<and> b_blockno x = n"

definition cached_body :: "u32 \<Rightarrow> u32 \<Rightarrow> nat \<Rightarrow> (kernel, nat + nat option) kmon" where
  "cached_body dev blockno = (\<lambda>b.
       if b = BHEAD then kret (Inr None)
       else
       kbind (get_buf b) (\<lambda>x.
       if b_dev x = dev \<and> b_blockno x = blockno then
         kbind (upd_buf b (\<lambda>x. x\<lparr>b_refcnt := b_refcnt x + 1\<rparr>)) (\<lambda>_.
         kbind (on_mach (release BCACHE_LOCK)) (\<lambda>_.
         kret (Inr (Some b))))
       else kret (Inl (b_next x))))"

definition recycle_body :: "u32 \<Rightarrow> u32 \<Rightarrow> nat \<Rightarrow> (kernel, nat + nat) kmon" where
  "recycle_body dev blockno = (\<lambda>b.
       if b = BHEAD then kpanic ''bget: no buffers''
       else
       kbind (get_buf b) (\<lambda>x.
       if b_refcnt x = 0 then
         kbind (upd_buf b (\<lambda>x. x\<lparr>b_dev := dev, b_blockno := blockno, b_valid := False, b_refcnt := 1\<rparr>)) (\<lambda>_.
         kbind (on_mach (release BCACHE_LOCK)) (\<lambda>_.
         kret (Inr b)))
       else kret (Inl (b_prev x))))"

lemma bget_loops:
  "bget_cached dev n = kbind (get_buf BHEAD) (\<lambda>head. kiter (NBUF + 1) (cached_body dev n) (b_next head))"
  "bget_recycle dev n = kbind (get_buf BHEAD) (\<lambda>head. kiter (NBUF + 1) (recycle_body dev n) (b_prev head))"
  by (simp_all only: bget_cached_def bget_recycle_def cached_body_def recycle_body_def)

definition upd_bufs :: "nat \<Rightarrow> (buf \<Rightarrow> buf) \<Rightarrow> kernel \<Rightarrow> kernel" where
  "upd_bufs b f k = k\<lparr>bufs := (bufs k)(b := f (bufs k b))\<rparr>"

lemma upd_bufs_fields [simp]: "mach (upd_bufs b f k) = mach k" "bufs (upd_bufs b f k) = (bufs k)(b := f (bufs k b))"
  "proc (upd_bufs b f k) = proc k" "disk (upd_bufs b f k) = disk k" "vdisk (upd_bufs b f k) = vdisk k" "klog (upd_bufs b f k) = klog k"
  by (simp_all add: upd_bufs_def)

definition ref_more :: "buf \<Rightarrow> buf" where
  "ref_more x = x\<lparr>b_refcnt := b_refcnt x + 1\<rparr>"

definition recycled :: "u32 \<Rightarrow> u32 \<Rightarrow> buf \<Rightarrow> buf" where
  "recycled dev n x = x\<lparr>b_dev := dev, b_blockno := n, b_valid := False, b_refcnt := 1\<rparr>"

lemma cached_loop:
  assumes "seg (b_next \<circ> bufs k) x r BHEAD" and "c = b_next (bufs k x)" and "BHEAD \<notin> set r" and "length r < f"
    and "mach k = acqm BCACHE_LOCK m" and "free_lock BCACHE_LOCK m"
  shows "kiter f (cached_body dev n) c k = (case find (\<lambda>b. holds_block dev n (bufs k b)) r of
      None \<Rightarrow> Ret None k | Some b \<Rightarrow> Ret (Some b) ((upd_bufs b ref_more k)\<lparr>mach := ppm m\<rparr>))"
  using assms(1-4)
proof (induction r arbitrary: x c f)
  case Nil
  then show ?case by (cases f) (auto simp: cached_body_def run_simps)
next
  case (Cons a r)
  then obtain g where f: "f = Suc g" by (cases f) auto
  have c: "c = a" "a \<noteq> BHEAD" using Cons.prems by auto
  show ?case
  proof (cases "holds_block dev n (bufs k a)")
    case True
    then show ?thesis
      using assms(5,6) c by (simp add: f cached_body_def get_buf_def run_simps holds_block_def upd_bufs_def ref_more_def)
  next
    case False
    have step: "cached_body dev n c k = Ret (Inl (b_next (bufs k a))) k"
      using False c by (auto simp: cached_body_def get_buf_def run_simps holds_block_def)
    have "kiter g (cached_body dev n) (b_next (bufs k a)) k = (case find (\<lambda>b. holds_block dev n (bufs k b)) r of
        None \<Rightarrow> Ret None k | Some b \<Rightarrow> Ret (Some b) ((upd_bufs b ref_more k)\<lparr>mach := ppm m\<rparr>))"
      using Cons.prems f by (intro Cons.IH [where x = a]) auto
    then show ?thesis using False step by (simp add: f run_simps)
  qed
qed

lemma recycle_loop:
  assumes "seg (b_prev \<circ> bufs k) x r BHEAD" and "c = b_prev (bufs k x)" and "BHEAD \<notin> set r" and "length r < f"
    and "mach k = acqm BCACHE_LOCK m" and "free_lock BCACHE_LOCK m"
  shows "kiter f (recycle_body dev n) c k = (case find (\<lambda>b. b_refcnt (bufs k b) = 0) r of
      None \<Rightarrow> Panic ''bget: no buffers'' k | Some b \<Rightarrow> Ret b ((upd_bufs b (recycled dev n) k)\<lparr>mach := ppm m\<rparr>))"
  using assms(1-4)
proof (induction r arbitrary: x c f)
  case Nil
  then show ?case by (cases f) (auto simp: recycle_body_def run_simps)
next
  case (Cons a r)
  then obtain g where f: "f = Suc g" by (cases f) auto
  have c: "c = a" "a \<noteq> BHEAD" using Cons.prems by auto
  show ?case
  proof (cases "b_refcnt (bufs k a) = 0")
    case True
    then show ?thesis
      using assms(5,6) c by (simp add: f recycle_body_def get_buf_def run_simps upd_bufs_def recycled_def)
  next
    case False
    have step: "recycle_body dev n c k = Ret (Inl (b_prev (bufs k a))) k"
      using False c by (simp add: recycle_body_def get_buf_def run_simps)
    have "kiter g (recycle_body dev n) (b_prev (bufs k a)) k = (case find (\<lambda>b. b_refcnt (bufs k b) = 0) r of
        None \<Rightarrow> Panic ''bget: no buffers'' k | Some b \<Rightarrow> Ret b ((upd_bufs b (recycled dev n) k)\<lparr>mach := ppm m\<rparr>))"
      using Cons.prems f by (intro Cons.IH [where x = a]) auto
    then show ?thesis using False step by (simp add: f run_simps)
  qed
qed

text \<open>The cache's list holds all buffers.\<close>

definition bcache_list :: "kernel \<Rightarrow> nat list \<Rightarrow> bool" where
  "bcache_list k l \<longleftrightarrow> linked (bufs k) l \<and> set l = {..<NBUF}"

lemma bcache_listD:
  assumes "bcache_list k l"
  shows "BHEAD \<notin> set l" "length l = NBUF" "seg (b_next \<circ> bufs k) BHEAD l BHEAD" "seg (b_prev \<circ> bufs k) BHEAD (rev l) BHEAD"
    "distinct l"
proof -
  show "BHEAD \<notin> set l" "seg (b_next \<circ> bufs k) BHEAD l BHEAD" "seg (b_prev \<circ> bufs k) BHEAD (rev l) BHEAD" "distinct l"
    using assms by (simp_all add: bcache_list_def linked_def)
  then show "length l = NBUF" using distinct_card [of l] assms by (simp add: bcache_list_def)
qed

lemma bget_lookup:
  assumes "bcache_list k l" and "mach k = acqm BCACHE_LOCK m" and "free_lock BCACHE_LOCK m"
  shows "bget_cached dev n k = (case find (\<lambda>b. holds_block dev n (bufs k b)) l of
      None \<Rightarrow> Ret None k | Some b \<Rightarrow> Ret (Some b) ((upd_bufs b ref_more k)\<lparr>mach := ppm m\<rparr>))"
    and "bget_recycle dev n k = (case find (\<lambda>b. b_refcnt (bufs k b) = 0) (rev l) of
      None \<Rightarrow> Panic ''bget: no buffers'' k | Some b \<Rightarrow> Ret b ((upd_bufs b (recycled dev n) k)\<lparr>mach := ppm m\<rparr>))"
proof -
  note l = bcache_listD [OF assms(1)]
  show "bget_cached dev n k = (case find (\<lambda>b. holds_block dev n (bufs k b)) l of
      None \<Rightarrow> Ret None k | Some b \<Rightarrow> Ret (Some b) ((upd_bufs b ref_more k)\<lparr>mach := ppm m\<rparr>))"
    using cached_loop [OF l(3) refl l(1) _ assms(2,3), of "NBUF + 1"] l(2)
    by (simp add: bget_loops get_buf_def run_simps del: kiter.simps)
  show "bget_recycle dev n k = (case find (\<lambda>b. b_refcnt (bufs k b) = 0) (rev l) of
      None \<Rightarrow> Panic ''bget: no buffers'' k | Some b \<Rightarrow> Ret b ((upd_bufs b (recycled dev n) k)\<lparr>mach := ppm m\<rparr>))"
    using recycle_loop [OF l(4) refl _ _ assms(2,3), of "NBUF + 1"] l(1,2)
    by (simp add: bget_loops get_buf_def run_simps del: kiter.simps)
qed

definition lock_buf :: "int \<Rightarrow> buf \<Rightarrow> buf" where
  "lock_buf pid x = x\<lparr>b_lock := taken pid (b_lock x)\<rparr>"

definition free_buf :: "buf \<Rightarrow> buf" where
  "free_buf x = x\<lparr>b_lock := released (b_lock x), b_refcnt := b_refcnt x - 1\<rparr>"

lemma bufs_sl: "get_sl (SL_BUF b) k = b_lock (bufs k b)"
  "put_sl (SL_BUF b) v k = k\<lparr>bufs := (bufs k)(b := (bufs k b)\<lparr>b_lock := v\<rparr>)\<rparr>"
  by (simp_all add: get_sl_def put_sl_def)

lemma bget_hit:
  assumes "bcache_list k l" and "quiet p (mach k)" and "find (\<lambda>b. holds_block dev n (bufs k b)) l = Some b"
    and "\<not> sl_locked (b_lock (bufs k b))"
  shows "bget dev n (k, rs) = Ret b ((upd_bufs b (\<lambda>x. lock_buf (p_pid (proc k p)) (ref_more x)) k)\<lparr>mach := ppm (mach k)\<rparr>, rs)"
proof -
  note q = quietD [OF assms(2)]
  let ?a = "k\<lparr>mach := acqm BCACHE_LOCK (mach k)\<rparr>" and ?k = "(upd_bufs b ref_more k)\<lparr>mach := ppm (mach k)\<rparr>"
  have "bcache_list ?a l" using assms(1) by (simp add: bcache_list_def)
  from bget_lookup(1) [OF this, of "mach k"] have c: "bget_cached dev n ?a = Ret (Some b) ?k"
    using q assms(3) by (simp add: upd_bufs_def)
  have "acquiresleep (SL_BUF b) (?k, rs) = Ret () (put_sl (SL_BUF b) (taken (p_pid (proc ?k p)) (get_sl (SL_BUF b) ?k)) ?k\<lparr>mach := ppm (mach ?k)\<rparr>, rs)"
    using q assms(4) by (intro acquiresleep_free) (simp_all add: bufs_sl ref_more_def)
  then have "acquiresleep (SL_BUF b) (?k, rs) =
      Ret () ((upd_bufs b (\<lambda>x. lock_buf (p_pid (proc k p)) (ref_more x)) k)\<lparr>mach := ppm (mach k)\<rparr>, rs)"
    by (simp add: bufs_sl upd_bufs_def lock_buf_def ref_more_def)
  then show ?thesis using c q by (simp add: bget_def run_simps)
qed

lemma bget_miss:
  assumes "bcache_list k l" and "quiet p (mach k)" and "find (\<lambda>b. holds_block dev n (bufs k b)) l = None"
    and "find (\<lambda>b. b_refcnt (bufs k b) = 0) (rev l) = Some b" and "\<not> sl_locked (b_lock (bufs k b))"
  shows "bget dev n (k, rs) = Ret b ((upd_bufs b (\<lambda>x. lock_buf (p_pid (proc k p)) (recycled dev n x)) k)\<lparr>mach := ppm (mach k)\<rparr>, rs)"
proof -
  note q = quietD [OF assms(2)]
  let ?a = "k\<lparr>mach := acqm BCACHE_LOCK (mach k)\<rparr>" and ?k = "(upd_bufs b (recycled dev n) k)\<lparr>mach := ppm (mach k)\<rparr>"
  have l: "bcache_list ?a l" using assms(1) by (simp add: bcache_list_def)
  have c: "bget_cached dev n ?a = Ret None ?a" "bget_recycle dev n ?a = Ret b ?k"
    using bget_lookup [OF l, of "mach k"] q assms(3,4) by (simp_all add: upd_bufs_def)
  have "acquiresleep (SL_BUF b) (?k, rs) = Ret () (put_sl (SL_BUF b) (taken (p_pid (proc ?k p)) (get_sl (SL_BUF b) ?k)) ?k\<lparr>mach := ppm (mach ?k)\<rparr>, rs)"
    using q assms(5) by (intro acquiresleep_free) (simp_all add: bufs_sl recycled_def)
  then have "acquiresleep (SL_BUF b) (?k, rs) =
      Ret () ((upd_bufs b (\<lambda>x. lock_buf (p_pid (proc k p)) (recycled dev n x)) k)\<lparr>mach := ppm (mach k)\<rparr>, rs)"
    by (simp add: bufs_sl upd_bufs_def lock_buf_def recycled_def)
  then show ?thesis using c q by (simp add: bget_def run_simps)
qed

lemma bget_none:
  assumes "bcache_list k l" and "quiet p (mach k)" and "find (\<lambda>b. holds_block dev n (bufs k b)) l = None"
    and "find (\<lambda>b. b_refcnt (bufs k b) = 0) (rev l) = None"
  shows "\<exists>w. bget dev n (k, rs) = Panic ''bget: no buffers'' w"
proof -
  note q = quietD [OF assms(2)]
  let ?a = "k\<lparr>mach := acqm BCACHE_LOCK (mach k)\<rparr>"
  have l: "bcache_list ?a l" using assms(1) by (simp add: bcache_list_def)
  show ?thesis using bget_lookup [OF l, of "mach k"] q assms(3,4) by (simp add: bget_def run_simps)
qed

text \<open>Releasing a buffer: the last reference makes it the most recently used.\<close>

definition brelse_bufs :: "nat \<Rightarrow> (nat \<Rightarrow> buf) \<Rightarrow> nat \<Rightarrow> buf" where
  "brelse_bufs b bs = (let bs' = bs(b := free_buf (bs b)) in if b_refcnt (bs' b) = 0 then move_front b bs' else bs')"

lemma brelse_run:
  assumes "quiet p (mach k)" and "sl_locked (b_lock (bufs k b))" and "sl_pid (b_lock (bufs k b)) = p_pid (proc k p)"
  shows "brelse b k = Ret () (k\<lparr>bufs := brelse_bufs b (bufs k), proc := wake_procs (Some p) (CH_BUF_LOCK b) (proc k), mach := ppm (mach k)\<rparr>)"
proof -
  note q = quietD [OF assms(1)]
  have h: "holdingsleep (SL_BUF b) k = Ret True (k\<lparr>mach := ppm (mach k)\<rparr>)"
    using holdingsleep_run [of "SL_BUF b" k p] q assms(2,3) by (simp add: bufs_sl)
  have r: "releasesleep (SL_BUF b) (k\<lparr>mach := ppm (mach k)\<rparr>) = Ret () (k\<lparr>bufs := (bufs k)(b := (bufs k b)\<lparr>b_lock := released (b_lock (bufs k b))\<rparr>),
      proc := wake_procs (Some p) (CH_BUF_LOCK b) (proc k), mach := ppm (mach k)\<rparr>)"
    using releasesleep_run [of "SL_BUF b" "k\<lparr>mach := ppm (mach k)\<rparr>"] q by (simp add: bufs_sl sl_chan_def)
  show ?thesis
    using h r q by (simp add: brelse_def get_buf_def run_simps brelse_move_run brelse_bufs_def Let_def free_buf_def)
qed

lemma bunpin_run: "free_lock BCACHE_LOCK (mach k) \<Longrightarrow>
   bunpin b k = Ret () ((upd_bufs b (\<lambda>x. x\<lparr>b_refcnt := b_refcnt x - 1\<rparr>) k)\<lparr>mach := ppm (mach k)\<rparr>)"
  "free_lock BCACHE_LOCK (mach k) \<Longrightarrow> bpin b k = Ret () ((upd_bufs b ref_more k)\<lparr>mach := ppm (mach k)\<rparr>)"
  by (simp_all add: bunpin_def bpin_def run_simps upd_bufs_def ref_more_def)

section \<open>The order of use\<close>

text \<open>A buffer without its links.\<close>

definition core :: "buf \<Rightarrow> buf" where
  "core x = x\<lparr>b_prev := 0, b_next := 0\<rparr>"

lemma core_fields: assumes "core x = core y"
  shows "b_valid x = b_valid y" "b_disk x = b_disk y" "b_dev x = b_dev y" "b_blockno x = b_blockno y" "b_lock x = b_lock y"
    "b_refcnt x = b_refcnt y" "b_data x = b_data y"
  using arg_cong [OF assms, of b_valid] arg_cong [OF assms, of b_disk] arg_cong [OF assms, of b_dev] arg_cong [OF assms, of b_blockno]
    arg_cong [OF assms, of b_lock] arg_cong [OF assms, of b_refcnt] arg_cong [OF assms, of b_data]
  by (simp_all add: core_def)

lemma core_upd [simp]: "core (x\<lparr>b_prev := v\<rparr>) = core x" "core (x\<lparr>b_next := v\<rparr>) = core x"
  by (simp_all add: core_def)

lemma core_fun_upd: "core ((bs(z := (bs z)\<lparr>b_prev := v\<rparr>)) c) = core (bs c)" "core ((bs(z := (bs z)\<lparr>b_next := v\<rparr>)) c) = core (bs c)"
  "core ((bs(z := (bs z)\<lparr>b_next := v, b_prev := w\<rparr>)) c) = core (bs c)"
  by simp_all

lemma core_move_front [simp]: "core (move_front b bs c) = core (bs c)"
  unfolding move_front_def Let_def by (simp only: core_fun_upd)

lemma linked_upd: "b_next (f (bs b)) = b_next (bs b) \<Longrightarrow> b_prev (f (bs b)) = b_prev (bs b) \<Longrightarrow> linked (bs(b := f (bs b))) l = linked bs l"
  by (rule linked_cong) auto

lemma bcache_list_upd:
  assumes "\<And>x. b_next (f x) = b_next x \<and> b_prev (f x) = b_prev x"
  shows "bcache_list ((upd_bufs b f k)\<lparr>mach := m\<rparr>) l = bcache_list k l"
  using assms linked_upd [of f "bufs k" b l] by (simp add: bcache_list_def)

lemma buf_ops_links [simp]:
  "b_next (lock_buf pid x) = b_next x" "b_prev (lock_buf pid x) = b_prev x" "b_next (ref_more x) = b_next x" "b_prev (ref_more x) = b_prev x"
  "b_next (recycled dev n x) = b_next x" "b_prev (recycled dev n x) = b_prev x" "b_next (free_buf x) = b_next x" "b_prev (free_buf x) = b_prev x"
  by (simp_all add: lock_buf_def ref_more_def recycled_def free_buf_def)

lemma brelse_list:
  assumes "linked bs l" and "b \<in> set l"
  shows "linked (brelse_bufs b bs) (if b_refcnt (bs b) = 1 then b # remove1 b l else l)"
proof -
  let ?bs = "bs(b := free_buf (bs b))"
  have l: "linked ?bs l" using assms(1) by (simp add: linked_upd)
  obtain l1 l2 where s: "l = l1 @ b # l2" "b \<notin> set l1" using split_list_first [OF assms(2)] by blast
  then have "remove1 b l = l1 @ l2" by (simp add: remove1_append)
  then have m: "linked (move_front b ?bs) (b # remove1 b l)" using move_front_linked [of ?bs l1 b l2] l s(1) by simp
  have "b_refcnt (?bs b) = 0 \<longleftrightarrow> b_refcnt (bs b) = 1" by (simp add: free_buf_def)
  then show ?thesis using l m by (simp add: brelse_bufs_def Let_def)
qed

text \<open>Initialisation links every buffer.\<close>

definition binit_body :: "nat \<Rightarrow> (kernel, unit) kmon" where
  "binit_body b = kbind (get_buf BHEAD) (\<lambda>head. kseq [
       upd_buf b (\<lambda>x. x\<lparr>b_next := b_next head\<rparr>),
       upd_buf b (\<lambda>x. x\<lparr>b_prev := BHEAD\<rparr>),
       initsleeplock (SL_BUF b) ''buffer'',
       upd_buf (b_next head) (\<lambda>x. x\<lparr>b_prev := b\<rparr>),
       upd_buf BHEAD (\<lambda>x. x\<lparr>b_next := b\<rparr>)])"

lemma binit_eq: "binit = kseq [
     on_mach (initlock BCACHE_LOCK ''bcache''),
     upd_buf BHEAD (\<lambda>x. x\<lparr>b_prev := BHEAD\<rparr>),
     upd_buf BHEAD (\<lambda>x. x\<lparr>b_next := BHEAD\<rparr>),
     kfor [0..<NBUF] binit_body]"
  by (simp only: binit_def binit_body_def [abs_def])

definition insert_front :: "nat \<Rightarrow> (nat \<Rightarrow> buf) \<Rightarrow> nat \<Rightarrow> buf" where
  "insert_front b bs =
     (let n = b_next (bs BHEAD);
          bs1 = bs(b := (bs b)\<lparr>b_next := n, b_prev := BHEAD, b_lock := (b_lock (bs b))\<lparr>sl_name := ''buffer'', sl_locked := False, sl_pid := 0\<rparr>\<rparr>);
          bs2 = bs1(n := (bs1 n)\<lparr>b_prev := b\<rparr>) in
      bs2(BHEAD := (bs2 BHEAD)\<lparr>b_next := b\<rparr>))"

lemma binit_body_run: "\<exists>m. binit_body b k = Ret () (k\<lparr>mach := m, bufs := insert_front b (bufs k)\<rparr>)"
  by (intro exI [of _ "(mach k)\<lparr>locks := (locks (mach k))(sl_spin (SL_BUF b) := \<lparr>locked = 0, lk_name = ''sleep lock'', lk_cpu = None\<rparr>)\<rparr>"])
     (simp add: binit_body_def get_buf_def initsleeplock_def run_simps bufs_sl insert_front_def Let_def)

lemma insert_front_linked:
  assumes "linked bs l" and "b \<notin> set (BHEAD # l)"
  shows "linked (insert_front b bs) (b # l)"
proof -
  let ?N = "b_next \<circ> bs" and ?P = "b_prev \<circ> bs"
  have n: "seg ?N BHEAD l BHEAD" and p: "seg ?P BHEAD (rev l) BHEAD" and d: "distinct (BHEAD # b # l)" "distinct (BHEAD # b # rev l)"
    using assms by (auto simp: linked_def)
  have "last (BHEAD # rev l) = b_next (bs BHEAD)" using n by (cases l) (auto simp: last_rev)
  then have P: "seg (?P(b := BHEAD, b_next (bs BHEAD) := b)) BHEAD (rev (b # l)) BHEAD"
    using seg_insert_back [OF p d(2)] by simp
  have N: "seg (?N(b := b_next (bs BHEAD), BHEAD := b)) BHEAD (b # l) BHEAD" using seg_insert_front [OF n d(1)] by simp
  have "b_next \<circ> insert_front b bs = ?N(b := b_next (bs BHEAD), BHEAD := b)"
    "b_prev \<circ> insert_front b bs = ?P(b := BHEAD, b_next (bs BHEAD) := b)"
    using d(1) by (auto simp: fun_eq_iff insert_front_def Let_def)
  then show ?thesis using N P d(1) by (simp only: linked_def)
qed

lemma insert_front_fields:
  "b_refcnt (insert_front b bs c) = b_refcnt (bs c)" "b_valid (insert_front b bs c) = b_valid (bs c)"
  "b_dev (insert_front b bs c) = b_dev (bs c)" "b \<noteq> BHEAD \<Longrightarrow> \<not> sl_locked (b_lock (insert_front b bs b))"
  "c \<noteq> b \<Longrightarrow> b_lock (insert_front b bs c) = b_lock (bs c)"
  by (simp_all add: insert_front_def Let_def)

lemma binit_run:
  shows "\<exists>k'. binit k = Ret () k' \<and> bcache_list k' (rev [0..<NBUF]) \<and>
    (\<forall>b < NBUF. \<not> sl_locked (b_lock (bufs k' b)) \<and> b_refcnt (bufs k' b) = b_refcnt (bufs k b) \<and>
       b_dev (bufs k' b) = b_dev (bufs k b) \<and> b_valid (bufs k' b) = b_valid (bufs k b))"
proof -
  let ?k = "k\<lparr>mach := (mach k)\<lparr>locks := (locks (mach k))(BCACHE_LOCK := \<lparr>locked = 0, lk_name = ''bcache'', lk_cpu = None\<rparr>)\<rparr>,
      bufs := (bufs k)(BHEAD := (bufs k BHEAD)\<lparr>b_prev := BHEAD, b_next := BHEAD\<rparr>)\<rparr>"
  let ?I = "\<lambda>j (h :: kernel). linked (bufs h) (rev [0..<j]) \<and> (\<forall>b < j. \<not> sl_locked (b_lock (bufs h b))) \<and>
      (\<forall>b < NBUF. b_refcnt (bufs h b) = b_refcnt (bufs k b) \<and> b_dev (bufs h b) = b_dev (bufs k b) \<and> b_valid (bufs h b) = b_valid (bufs k b))"
  have "returns ?k (kfor [0..<NBUF] binit_body) (\<lambda>_. ?I (length [0..<NBUF]))"
  proof (rule returns_kfor)
    show "?I 0 ?k" by (simp add: linked_def)
    fix j h assume "j < length [0..<NBUF]" and I: "?I j h"
    then have j: "j < NBUF" "[0..<NBUF] ! j = j" by simp_all
    obtain m where run: "binit_body j h = Ret () (h\<lparr>mach := m, bufs := insert_front j (bufs h)\<rparr>)" using binit_body_run by blast
    have "linked (insert_front j (bufs h)) (j # rev [0..<j])" using I j(1) by (intro insert_front_linked) auto
    moreover have "\<not> sl_locked (b_lock (insert_front j (bufs h) b))" if "b < Suc j" for b
      using insert_front_fields(4) [of j "bufs h"] insert_front_fields(5) [of b j "bufs h"] I j(1) that by (cases "b = j") auto
    ultimately show "returns h (binit_body ([0..<NBUF] ! j)) (\<lambda>_. ?I (Suc j))"
      unfolding j(2) returns_def run using I by (simp add: insert_front_fields)
  qed
  then obtain h where h: "kfor [0..<NBUF] binit_body ?k = Ret () h" "?I NBUF h"
    by (auto elim!: returnsE simp del: kfor.simps)
  have "binit k = Ret () h" using h(1) by (simp add: binit_eq run_simps del: kfor.simps)
  then show ?thesis using h by (intro exI [of _ h]) (auto simp: bcache_list_def)
qed

text \<open>
  C40: \<open>binit\<close> links all the buffers into the list, the last one of the array first; each is unlocked, and
  keeps its (initially zero) reference count, device and valid flag.
\<close>

theorem binit_links_all:
  shows "\<exists>k'. binit k = Ret () k' \<and> bcache_list k' (rev [0..<NBUF]) \<and>
    (\<forall>b < NBUF. \<not> sl_locked (b_lock (bufs k' b)) \<and> b_refcnt (bufs k' b) = b_refcnt (bufs k b) \<and>
       b_dev (bufs k' b) = b_dev (bufs k b) \<and> b_valid (bufs k' b) = b_valid (bufs k b))"
  by (rule binit_run)

theorem binit_links_all_witness:
  "\<exists>k'. binit (boot_kernel (syms_at 0x80022000) (\<lambda>_. 0)) = Ret () k' \<and> bcache_list k' (rev [0..<NBUF]) \<and>
    \<not> sl_locked (b_lock (bufs k' 29)) \<and> b_refcnt (bufs k' 29) = 0"
proof -
  have "b_refcnt (bufs (boot_kernel (syms_at 0x80022000) (\<lambda>_. 0)) 29) = 0" by (simp add: boot_kernel_def zero_buf_def)
  then show ?thesis using binit_links_all [of "boot_kernel (syms_at 0x80022000) (\<lambda>_. 0)"] by auto
qed

text \<open>
  C14: the cache is a list in order of use. \<open>bget\<close> returns the buffer that holds the block if there is
  one, with one more reference; otherwise it recycles the buffer that is used least recently among
  those without references; and it panics only when every buffer is referenced. \<open>brelse\<close> drops a
  reference, and with the last one moves the buffer to the front. The doubly linked list is intact
  after each operation: it still holds every buffer exactly once.
\<close>

theorem bcache_lru:
  assumes "bcache_list k l" and "quiet p (mach k)" and "\<forall>b < NBUF. \<not> sl_locked (b_lock (bufs k b))"
  shows "case find (\<lambda>b. holds_block dev n (bufs k b)) l of
      Some b \<Rightarrow> b < NBUF \<and> (\<exists>k'. bget dev n (k, rs) = Ret b (k', rs) \<and> bcache_list k' l \<and>
        bufs k' = (bufs k)(b := lock_buf (p_pid (proc k p)) (ref_more (bufs k b))) \<and>
        (\<exists>k2. brelse b k' = Ret () k2 \<and> bcache_list k2 (if b_refcnt (bufs k b) = 0 then b # remove1 b l else l) \<and>
           core (bufs k2 b) = core (free_buf (bufs k' b))))
    | None \<Rightarrow> (case find (\<lambda>b. b_refcnt (bufs k b) = 0) (rev l) of
        Some b \<Rightarrow> b < NBUF \<and> (\<exists>k'. bget dev n (k, rs) = Ret b (k', rs) \<and> bcache_list k' l \<and>
          bufs k' = (bufs k)(b := lock_buf (p_pid (proc k p)) (recycled dev n (bufs k b))) \<and>
          (\<exists>k2. brelse b k' = Ret () k2 \<and> bcache_list k2 (b # remove1 b l) \<and> core (bufs k2 b) = core (free_buf (bufs k' b))))
      | None \<Rightarrow> \<exists>w. bget dev n (k, rs) = Panic ''bget: no buffers'' w)"
proof -
  have rel: "\<exists>k2. brelse b k' = Ret () k2 \<and> bcache_list k2 (if b_refcnt (bufs k' b) = 1 then b # remove1 b l else l) \<and>
      core (bufs k2 b) = core (free_buf (bufs k' b))"
    if "b < NBUF" "k' = (upd_bufs b (\<lambda>x. lock_buf (p_pid (proc k p)) (f x)) k)\<lparr>mach := ppm (mach k)\<rparr>" "bcache_list k' l" for b f k'
  proof -
    have "b \<in> set l" using assms(1) that(1) by (simp add: bcache_list_def)
    moreover have "brelse b k' = Ret () (k'\<lparr>bufs := brelse_bufs b (bufs k'), proc := wake_procs (Some p) (CH_BUF_LOCK b) (proc k'), mach := ppm (mach k')\<rparr>)"
      using assms(2) by (intro brelse_run) (simp_all add: that(2) lock_buf_def)
    moreover have "set (if b_refcnt (bufs k' b) = 1 then b # remove1 b l else l) = set l"
      using \<open>b \<in> set l\<close> bcache_listD(5) [OF assms(1)] by (auto simp: set_remove1_eq)
    ultimately show ?thesis
      using brelse_list [of "bufs k'" l b] that(3) by (auto simp: bcache_list_def brelse_bufs_def Let_def)
  qed
  have in_l: "b < NBUF" if "b \<in> set l" for b using assms(1) that by (simp add: bcache_list_def)
  show ?thesis
  proof (cases "find (\<lambda>b. holds_block dev n (bufs k b)) l")
    case (Some b)
    then have b: "b < NBUF" using in_l by (auto simp: find_Some_iff)
    have run: "bget dev n (k, rs) = Ret b ((upd_bufs b (\<lambda>x. lock_buf (p_pid (proc k p)) (ref_more x)) k)\<lparr>mach := ppm (mach k)\<rparr>, rs)"
      (is "_ = Ret b (?k, rs)")
      using bget_hit [OF assms(1,2) Some] assms(3) b by blast
    have "bcache_list ?k l" using assms(1) by (subst bcache_list_upd) simp_all
    then show ?thesis using run b rel [OF b refl, of ref_more] Some by (simp add: lock_buf_def ref_more_def)
  next
    case None
    show ?thesis
    proof (cases "find (\<lambda>b. b_refcnt (bufs k b) = 0) (rev l)")
      case (Some b)
      then have "b \<in> set (rev l)" by (metis find_Some_iff nth_mem)
      then have b: "b < NBUF" using in_l by simp
      have run: "bget dev n (k, rs) = Ret b ((upd_bufs b (\<lambda>x. lock_buf (p_pid (proc k p)) (recycled dev n x)) k)\<lparr>mach := ppm (mach k)\<rparr>, rs)"
        (is "_ = Ret b (?k, rs)")
        using bget_miss [OF assms(1,2) None Some] assms(3) b by blast
      have "bcache_list ?k l" using assms(1) by (subst bcache_list_upd) simp_all
      then show ?thesis using run b rel [OF b refl, of "recycled dev n"] None Some by (simp add: lock_buf_def recycled_def)
    qed (use bget_none [OF assms(1,2) None] None in simp)
  qed
qed

text \<open>The cache of a machine that has just booted.\<close>

lemma booted_cache:
  obtains k where "quiet 3 (mach k)" and "bcache_list k (rev [0..<NBUF])" and "\<And>b. b < NBUF \<Longrightarrow> \<not> sl_locked (b_lock (bufs k b))"
    and "\<And>b. b < NBUF \<Longrightarrow> b_refcnt (bufs k b) = 0" and "\<And>b. b < NBUF \<Longrightarrow> b_dev (bufs k b) = 0" and "\<And>b. b < NBUF \<Longrightarrow> \<not> b_valid (bufs k b)"
    and "vd_ready (vdisk k)"
proof -
  let ?k = "boot_kernel (syms_at 0x80022000) (\<lambda>_. 0)"
  obtain k' where k': "bcache_list k' (rev [0..<NBUF])" "\<forall>b < NBUF. \<not> sl_locked (b_lock (bufs k' b)) \<and> b_refcnt (bufs k' b) = b_refcnt (bufs ?k b) \<and>
       b_dev (bufs k' b) = b_dev (bufs ?k b) \<and> b_valid (bufs k' b) = b_valid (bufs ?k b)"
    using binit_run [of ?k] by blast
  have z: "b_refcnt (bufs ?k b) = 0" "b_dev (bufs ?k b) = 0" "\<not> b_valid (bufs ?k b)" for b by (simp_all add: boot_kernel_def zero_buf_def)
  show ?thesis
    by (rule that [of "k'\<lparr>mach := thread_mach 3, vdisk := zero_vdisk\<lparr>vd_free := (\<lambda>_. True)\<rparr>\<rparr>"])
       (use k' z in \<open>simp_all add: bcache_list_def vd_ready_def zero_vdisk_def\<close>)
qed

theorem bcache_lru_witness:
  "\<exists>k k'. bget 1 46 (k, []) = Ret 0 (k', []) \<and> bcache_list k' (rev [0..<NBUF]) \<and> b_blockno (bufs k' 0) = 46 \<and> b_refcnt (bufs k' 0) = 1"
proof -
  obtain k where k: "quiet 3 (mach k)" "bcache_list k (rev [0..<NBUF])" "\<And>b. b < NBUF \<Longrightarrow> \<not> sl_locked (b_lock (bufs k b))"
    "\<And>b. b < NBUF \<Longrightarrow> b_refcnt (bufs k b) = 0" "\<And>b. b < NBUF \<Longrightarrow> b_dev (bufs k b) = 0"
    using booted_cache by metis
  have n: "find (\<lambda>b. holds_block 1 46 (bufs k b)) (rev [0..<NBUF]) = None"
    using k(5) by (auto simp: find_None_iff holds_block_def)
  have s: "find (\<lambda>b. b_refcnt (bufs k b) = 0) (rev (rev [0..<NBUF])) = Some 0"
    using k(4) [of 0] by (simp add: upt_conv_Cons)
  obtain k' where k': "bget 1 46 (k, []) = Ret 0 (k', [])" "bcache_list k' (rev [0..<NBUF])"
    "bufs k' = (bufs k)(0 := lock_buf (p_pid (proc k 3)) (recycled 1 46 (bufs k 0)))"
    using bcache_lru [OF k(2,1), of 1 46 "[]"] k(3) unfolding n s option.case by blast
  then show ?thesis by (intro exI [of _ k] exI [of _ k']) (simp add: lock_buf_def recycled_def)
qed

end
