(* ===== verification/Crash.thy ===== *)
theory Crash
  imports Cache Log
begin

text \<open>
  Reasoning about code that does disk requests and may be stopped by a crash at any of them. The only
  points at which the medium changes are the turns of the disk, so that the states in which a run with
  fewer turns than it needs is suspended are exactly the states in which a crash can find the medium.

  The second part lifts the buffer cache to an abstract state of blocks: their contents on the medium,
  their contents as seen through the cache, their references, and the buffers of the locked ones.
\<close>

section \<open>Triples with crash conditions\<close>

text \<open>
  \<open>crash_ok t c P f Q C\<close>: from a state satisfying \<open>P\<close>, with any number of turns \<open>t\<close> available, \<open>f\<close> returns in
  a state satisfying \<open>Q\<close> after at most \<open>c\<close> turns, or, when there are fewer than \<open>c\<close>, may be suspended in a
  state satisfying \<open>C\<close>; it neither panics nor hangs.
\<close>

definition crash_ok :: "(kernel \<Rightarrow> kernel) \<Rightarrow> nat \<Rightarrow> (kernel \<Rightarrow> bool) \<Rightarrow> (world, 'a) kmon \<Rightarrow> ('a \<Rightarrow> kernel \<Rightarrow> bool) \<Rightarrow> (kernel \<Rightarrow> bool) \<Rightarrow> bool" where
  "crash_ok t c P f Q C \<longleftrightarrow> (\<forall>k n. P k \<longrightarrow> (case f (k, replicate n t) of
      Ret x w \<Rightarrow> Q x (fst w) \<and> (\<exists>n'. snd w = replicate n' t \<and> n \<le> n' + c)
    | Switch w \<Rightarrow> n < c \<and> C (fst w)
    | _ \<Rightarrow> False))"

lemma crash_okD:
  assumes "crash_ok t c P f Q C" and "P k"
  shows "(\<exists>x k' n'. f (k, replicate n t) = Ret x (k', replicate n' t) \<and> Q x k' \<and> n \<le> n' + c) \<or>
    (\<exists>k' rs. f (k, replicate n t) = Switch (k', rs) \<and> C k' \<and> n < c)"
proof -
  have "case f (k, replicate n t) of
      Ret x w \<Rightarrow> Q x (fst w) \<and> (\<exists>n'. snd w = replicate n' t \<and> n \<le> n' + c)
    | Switch w \<Rightarrow> n < c \<and> C (fst w)
    | _ \<Rightarrow> False"
    using assms by (simp only: crash_ok_def)
  then show ?thesis
    by (cases "f (k, replicate n t)") (auto simp: prod_eq_iff)
qed

lemma crash_okI:
  assumes "\<And>k n. P k \<Longrightarrow> (\<exists>x k' n'. f (k, replicate n t) = Ret x (k', replicate n' t) \<and> Q x k' \<and> n \<le> n' + c) \<or>
    (\<exists>k' rs. f (k, replicate n t) = Switch (k', rs) \<and> C k' \<and> n < c)"
  shows "crash_ok t c P f Q C"
  unfolding crash_ok_def
proof (intro allI impI)
  fix k n assume "P k"
  from assms [OF this, of n] show "case f (k, replicate n t) of
      Ret x w \<Rightarrow> Q x (fst w) \<and> (\<exists>n'. snd w = replicate n' t \<and> n \<le> n' + c)
    | Switch w \<Rightarrow> n < c \<and> C (fst w)
    | _ \<Rightarrow> False"
    by auto
qed

lemma crash_bind:
  assumes "crash_ok t c P f R C" and "\<And>x. crash_ok t d (R x) (g x) Q C"
  shows "crash_ok t (c + d) P (kbind f g) Q C"
proof (rule crash_okI)
  fix k n assume "P k"
  from crash_okD [OF assms(1) this, of n]
  show "(\<exists>x k' n'. kbind f g (k, replicate n t) = Ret x (k', replicate n' t) \<and> Q x k' \<and> n \<le> n' + (c + d)) \<or>
    (\<exists>k' rs. kbind f g (k, replicate n t) = Switch (k', rs) \<and> C k' \<and> n < c + d)"
  proof (elim disjE exE conjE)
    fix x k' n' assume f: "f (k, replicate n t) = Ret x (k', replicate n' t)" "R x k'" "n \<le> n' + c"
    from crash_okD [OF assms(2) f(2), of n'] show ?thesis using f by (fastforce simp: kbind_run)
  qed (auto simp: kbind_run)
qed

lemma crash_conseq:
  assumes "crash_ok t c P f Q C" and "\<And>k. P' k \<Longrightarrow> P k" and "\<And>x k. Q x k \<Longrightarrow> Q' x k" and "\<And>k. C k \<Longrightarrow> C' k" and "c \<le> c'"
  shows "crash_ok t c' P' f Q' C'"
proof (rule crash_okI)
  fix k n assume "P' k"
  from crash_okD [OF assms(1) assms(2) [OF this], of n] show
    "(\<exists>x k' n'. f (k, replicate n t) = Ret x (k', replicate n' t) \<and> Q' x k' \<and> n \<le> n' + c') \<or>
     (\<exists>k' rs. f (k, replicate n t) = Switch (k', rs) \<and> C' k' \<and> n < c')"
    using assms(3-5) by fastforce
qed

lemma crash_ret: "(\<And>k. P k \<Longrightarrow> Q x k) \<Longrightarrow> crash_ok t 0 P (kret x) Q C"
  by (rule crash_okI) (auto simp: kret_run)

lemma crash_atom: "(\<And>k. P k \<Longrightarrow> \<exists>x k'. f k = Ret x k' \<and> Q x k') \<Longrightarrow> crash_ok t 0 P (atom f) Q C"
proof (rule crash_okI, rule disjI1)
  fix k n assume a: "\<And>k. P k \<Longrightarrow> \<exists>x k'. f k = Ret x k' \<and> Q x k'" "P k"
  then obtain x k' where "f k = Ret x k'" "Q x k'" by blast
  then show "\<exists>x k' n'. atom f (k, replicate n t) = Ret x (k', replicate n' t) \<and> Q x k' \<and> n \<le> n' + 0"
    by (auto simp: atom_run)
qed

lemma crash_pre: "(\<And>k. P k \<Longrightarrow> A) \<Longrightarrow> (A \<Longrightarrow> crash_ok t c P f Q C) \<Longrightarrow> crash_ok t c P f Q C"
  unfolding crash_ok_def by blast

lemma crash_seq:
  assumes "crash_ok t c P f (\<lambda>_. R) C" and "crash_ok t d R (kseq fs) Q C"
  shows "crash_ok t (c + d) P (kseq (f # fs)) Q C"
proof -
  have "kseq (f # fs) = kbind f (\<lambda>_. kseq fs)" by (rule ext) (simp add: kseq_Cons_run)
  then show ?thesis using crash_bind [OF assms(1), of d "\<lambda>_. kseq fs" Q] assms(2) by simp
qed

lemma crash_seq_Nil: "(\<And>k. P k \<Longrightarrow> Q () k) \<Longrightarrow> crash_ok t 0 P (kseq []) Q C"
  by (rule crash_okI) (auto simp: kseq_Nil_run)

text \<open>A counting loop.\<close>

lemma crash_iter:
  assumes "\<And>i. i < m \<Longrightarrow> crash_ok t c (I i) (body (int i)) (\<lambda>r k. r = Inl (int (Suc i)) \<and> I (Suc i) k) C"
    and "crash_ok t 0 (I m) (body (int m)) (\<lambda>r k. r = Inr () \<and> I m k) C" and "i \<le> m" and "m - i < f"
  shows "crash_ok t (c * (m - i)) (I i) (kiter f body (int i)) (\<lambda>_. I m) C"
  using assms(3,4)
proof (induction "m - i" arbitrary: i f)
  case 0
  then obtain g where f: "f = Suc g" and i: "i = m" by (cases f) auto
  have "crash_ok t (0 + 0) (I m) (kiter (Suc g) body (int m)) (\<lambda>_. I m) C"
    unfolding kiter.simps by (rule crash_bind [OF assms(2)]) (auto simp: crash_ok_def kret_run split: sum.split)
  then show ?case by (simp add: f i)
next
  case (Suc d)
  then obtain g where f: "f = Suc g" by (cases f) auto
  have i: "i < m" using Suc.hyps(2) by simp
  have ih: "crash_ok t (c * (m - Suc i)) (I (Suc i)) (kiter g body (int (Suc i))) (\<lambda>_. I m) C"
    using Suc f by (intro Suc.hyps(1)) auto
  have "crash_ok t (c + c * (m - Suc i)) (I i) (kiter (Suc g) body (int i)) (\<lambda>_. I m) C"
    unfolding kiter.simps
  proof (rule crash_bind [OF assms(1) [OF i]])
    fix r :: "int + unit"
    show "crash_ok t (c * (m - Suc i)) (\<lambda>k. r = Inl (int (Suc i)) \<and> I (Suc i) k) (case r of Inl j \<Rightarrow> kiter g body j | Inr x \<Rightarrow> kret x) (\<lambda>_. I m) C"
      by (rule crash_pre [where A = "r = Inl (int (Suc i))"], simp) (simp only: sum.case, rule crash_conseq [OF ih], simp_all)
  qed
  moreover have "c + c * (m - Suc i) = c * (m - i)" using i by (simp add: Suc_diff_Suc [symmetric])
  ultimately show ?case by (simp add: f)
qed

section \<open>Blocks seen through the cache\<close>

text \<open>
  Per block number: contents of the medium, contents through the cache, number of references, and the
  buffer of a locked block; the log's state in memory; and the super block and inode table in memory.
\<close>

definition fsv :: "kernel \<Rightarrow> superblock \<times> (nat \<Rightarrow> inode)" where
  "fsv k = (sb k, inodes k)"

lemma fsv_upd [simp]:
  "fsv (k\<lparr>mach := m\<rparr>) = fsv k" "fsv (k\<lparr>proc := P\<rparr>) = fsv k" "fsv (k\<lparr>bufs := B\<rparr>) = fsv k" "fsv (k\<lparr>klog := g\<rparr>) = fsv k" "fsv (k\<lparr>disk := D\<rparr>) = fsv k"
  "fsv (upd_bufs b f k) = fsv k"
  by (simp_all add: fsv_def upd_bufs_def)

record cst =
  cD :: "nat \<Rightarrow> u8 list"
  cV :: "nat \<Rightarrow> u8 list"
  cR :: "nat \<Rightarrow> nat"
  cL :: "nat \<Rightarrow> nat option"
  cG :: klog
  cF :: "superblock \<times> (nat \<Rightarrow> inode)"

definition cbuf :: "int \<Rightarrow> u32 \<Rightarrow> cst \<Rightarrow> buf \<Rightarrow> bool" where
  "cbuf pid dev s x = (let n = unat (b_blockno x) in
     if b_dev x = dev then
       unat (b_refcnt x) = cR s n \<and> (b_valid x \<longrightarrow> bdata x = cV s n) \<and> (cR s n \<noteq> 0 \<longrightarrow> b_valid x) \<and>
       (sl_locked (b_lock x) \<longleftrightarrow> cL s n \<noteq> None) \<and> (sl_locked (b_lock x) \<longrightarrow> sl_pid (b_lock x) = pid)
     else b_refcnt x = 0 \<and> \<not> b_valid x \<and> \<not> sl_locked (b_lock x))"

definition at_block :: "u32 \<Rightarrow> nat \<Rightarrow> buf \<Rightarrow> bool" where
  "at_block dev n x \<longleftrightarrow> b_dev x = dev \<and> unat (b_blockno x) = n"

text \<open>
  A thread of process \<open>p\<close> runs, no disk request is outstanding, and the buffers of device \<open>dev\<close>, the only
  one in use, are as \<open>s\<close> says: no block has two buffers, a referenced block has a buffer, and only
  referenced blocks may differ from the medium.
\<close>

definition cv :: "nat \<Rightarrow> u32 \<Rightarrow> cst \<Rightarrow> kernel \<Rightarrow> bool" where
  "cv p dev s k \<longleftrightarrow> quiet p (mach k) \<and> vd_ready (vdisk k) \<and> (\<exists>l. bcache_list k l) \<and> klog k = cG s \<and> cD s = blk (disk k) \<and> fsv k = cF s \<and>
     (\<forall>b < NBUF. cbuf (p_pid (proc k p)) dev s (bufs k b)) \<and>
     (\<forall>n. \<forall>a < NBUF. \<forall>b < NBUF. at_block dev n (bufs k a) \<longrightarrow> at_block dev n (bufs k b) \<longrightarrow> a = b) \<and>
     (\<forall>n. cR s n \<noteq> 0 \<longrightarrow> (\<exists>b < NBUF. at_block dev n (bufs k b))) \<and>
     (\<forall>n. cR s n = 0 \<longrightarrow> cV s n = cD s n \<and> cL s n = None) \<and>
     (\<forall>n b. cL s n = Some b \<longrightarrow> b < NBUF \<and> at_block dev n (bufs k b))"

lemma cvD:
  assumes "cv p dev s k"
  shows "quiet p (mach k)" "vd_ready (vdisk k)" "\<exists>l. bcache_list k l" "klog k = cG s" "cD s = blk (disk k)"
    "b < NBUF \<Longrightarrow> cbuf (p_pid (proc k p)) dev s (bufs k b)"
    "a < NBUF \<Longrightarrow> b < NBUF \<Longrightarrow> at_block dev n (bufs k a) \<Longrightarrow> at_block dev n (bufs k b) \<Longrightarrow> a = b"
    "cR s n \<noteq> 0 \<Longrightarrow> \<exists>b < NBUF. at_block dev n (bufs k b)" "cR s n = 0 \<Longrightarrow> cV s n = cD s n" "cR s n = 0 \<Longrightarrow> cL s n = None"
    "cL s n = Some b \<Longrightarrow> b < NBUF" "cL s n = Some b \<Longrightarrow> at_block dev n (bufs k b)" "fsv k = cF s"
proof -
  show "quiet p (mach k)" "vd_ready (vdisk k)" "\<exists>l. bcache_list k l" "klog k = cG s" "cD s = blk (disk k)" "fsv k = cF s"
    using assms unfolding cv_def by - (elim conjE, assumption)+
  have 6: "\<forall>b < NBUF. cbuf (p_pid (proc k p)) dev s (bufs k b)"
    and 7: "\<forall>n. \<forall>a < NBUF. \<forall>b < NBUF. at_block dev n (bufs k a) \<longrightarrow> at_block dev n (bufs k b) \<longrightarrow> a = b"
    and 8: "\<forall>n. cR s n \<noteq> 0 \<longrightarrow> (\<exists>b < NBUF. at_block dev n (bufs k b))"
    and 9: "\<forall>n. cR s n = 0 \<longrightarrow> cV s n = cD s n \<and> cL s n = None"
    and 10: "\<forall>n b. cL s n = Some b \<longrightarrow> b < NBUF \<and> at_block dev n (bufs k b)"
    using assms unfolding cv_def by - (elim conjE, assumption)+
  show "b < NBUF \<Longrightarrow> cbuf (p_pid (proc k p)) dev s (bufs k b)" using 6 [rule_format, of b] by simp
  show "a < NBUF \<Longrightarrow> b < NBUF \<Longrightarrow> at_block dev n (bufs k a) \<Longrightarrow> at_block dev n (bufs k b) \<Longrightarrow> a = b" using 7 [rule_format, of a b n] by simp
  show "cR s n \<noteq> 0 \<Longrightarrow> \<exists>b < NBUF. at_block dev n (bufs k b)" using 8 [rule_format, of n] by simp
  show "cR s n = 0 \<Longrightarrow> cV s n = cD s n" "cR s n = 0 \<Longrightarrow> cL s n = None" using 9 [rule_format, of n] by simp_all
  show "cL s n = Some b \<Longrightarrow> b < NBUF" "cL s n = Some b \<Longrightarrow> at_block dev n (bufs k b)" using 10 [rule_format, of n b] by simp_all
qed

lemma core_bdata:
  assumes "core x = core y"
  shows "bdata x = bdata y"
  by (simp add: bdata_def core_fields [OF assms])

lemma cbuf_core:
  assumes "core x = core y"
  shows "cbuf pid dev s x = cbuf pid dev s y"
  unfolding cbuf_def core_fields [OF assms] core_bdata [OF assms] ..

lemma at_block_core:
  assumes "core x = core y"
  shows "at_block dev n x = at_block dev n y"
  unfolding at_block_def core_fields [OF assms] ..

lemma cbuf_other:
  assumes "cbuf pid dev s x" and "\<not> at_block dev n x"
    and "\<And>m. m \<noteq> n \<Longrightarrow> cR s' m = cR s m \<and> cV s' m = cV s m \<and> cL s' m = cL s m"
  shows "cbuf pid dev s' x"
  using assms by (auto simp: cbuf_def at_block_def Let_def)

text \<open>One buffer \<open>b\<close> is given new contents \<open>x\<close> for the block \<open>n\<close>.\<close>

lemma cv_upd:
  assumes s: "cv p dev s k" and b: "b < NBUF" "at_block dev n x" "at_block dev n (bufs k b) \<or> b_refcnt (bufs k b) = 0"
    and other: "\<And>a. a < NBUF \<Longrightarrow> a \<noteq> b \<Longrightarrow> \<not> at_block dev n (bufs k a)"
    and k': "quiet p (mach k')" "vd_ready (vdisk k')" "bcache_list k' l" "klog k' = cG s'" "cD s' = blk (disk k')"
      "p_pid (proc k' p) = p_pid (proc k p)" "\<And>a. core (bufs k' a) = core (if a = b then x else bufs k a)" "fsv k' = cF s'"
    and s': "\<And>m. m \<noteq> n \<Longrightarrow> cR s' m = cR s m \<and> cV s' m = cV s m \<and> cL s' m = cL s m \<and> cD s' m = cD s m"
      "cbuf (p_pid (proc k p)) dev s' x" "cR s' n = 0 \<Longrightarrow> cV s' n = cD s' n \<and> cL s' n = None" "cL s' n = None \<or> cL s' n = Some b"
  shows "cv p dev s' k'"
proof -
  note c = cvD [OF s]
  have ab: "at_block dev m (bufs k' a) = at_block dev m (if a = b then x else bufs k a)" for m a
    by (rule at_block_core [OF k'(7)])
  have x: "at_block dev m x \<longleftrightarrow> m = n" for m using b(2) by (auto simp: at_block_def)
  have old: "\<not> at_block dev m (bufs k b)" if "m \<noteq> n" "cR s m \<noteq> 0" for m
    using b(1,3) c(6) [OF b(1)] that by (auto simp: at_block_def cbuf_def Let_def)
  have "\<exists>a < NBUF. at_block dev m (bufs k' a)" if r: "cR s' m \<noteq> 0" for m
  proof (cases "m = n")
    case False
    then have R: "cR s m \<noteq> 0" using s'(1) [of m] r by simp
    obtain a where "a < NBUF" "at_block dev m (bufs k a)" using c(8) [OF R] by blast
    then show ?thesis using old [OF False R] by (auto simp: ab)
  qed (use b x in \<open>auto simp: ab\<close>)
  moreover have "a < NBUF \<and> at_block dev m (bufs k' a)" if "cL s' m = Some a" for m a
  proof (cases "m = n")
    case False
    then have l: "cL s m = Some a" using that s'(1) by simp
    then have "cR s m \<noteq> 0" using c(10) [of m] by auto
    then show ?thesis using c(11,12) [OF l] old [of m] False by (auto simp: ab)
  qed (use s'(4) b x that in \<open>auto simp: ab\<close>)
  moreover have "cbuf (p_pid (proc k' p)) dev s' (bufs k' a)" if "a < NBUF" for a
  proof (cases "a = b")
    case True
    then show ?thesis using s'(2) k'(6) cbuf_core [OF k'(7), of _ _ _ a] by simp
  next
    case False
    then show ?thesis using cbuf_other [OF c(6) [OF that] other [OF that]] s'(1) k'(6) cbuf_core [OF k'(7), of _ _ _ a] by simp
  qed
  moreover have "a = c" if "a < NBUF" "c < NBUF" "at_block dev m (bufs k' a)" "at_block dev m (bufs k' c)" for m a c
    using that other x c(7) [of a c m] by (auto simp: ab split: if_splits)
  moreover have "cV s' m = cD s' m \<and> cL s' m = None" if "cR s' m = 0" for m
    using c(9,10) [of m] s'(1,3) that by (cases "m = n") auto
  ultimately show ?thesis using k'(1-5,8) unfolding cv_def by (intro conjI allI impI exI [of _ l]) auto
qed

text \<open>The buffer of a block is found, and a free buffer is found while not all are referenced.\<close>

lemma find_block:
  assumes "bcache_list k l" and "\<And>a b. a < NBUF \<Longrightarrow> b < NBUF \<Longrightarrow> at_block dev n (bufs k a) \<Longrightarrow> at_block dev n (bufs k b) \<Longrightarrow> a = b"
    and "n = unat nb"
  shows "find (\<lambda>b. holds_block dev nb (bufs k b)) l = Some b \<longleftrightarrow> b < NBUF \<and> at_block dev n (bufs k b)"
proof -
  have h: "holds_block dev nb x = at_block dev n x" for x by (simp add: holds_block_def at_block_def assms(3) word_unat_eq_iff)
  have l: "set l = {..<NBUF}" using assms(1) by (simp add: bcache_list_def)
  show ?thesis
  proof (cases "find (\<lambda>b. holds_block dev nb (bufs k b)) l")
    case None
    then have "\<forall>x < NBUF. \<not> at_block dev n (bufs k x)" using l by (auto simp: find_None_iff h)
    then show ?thesis unfolding None by auto
  next
    case (Some c)
    then have "c \<in> set l" "at_block dev n (bufs k c)" by (auto simp: find_Some_iff h)
    then show ?thesis using Some l assms(2) by auto
  qed
qed

lemma free_buffer:
  assumes "cv p dev s k" and "bcache_list k l" and "finite {n. cR s n \<noteq> 0}" and "card {n. cR s n \<noteq> 0} < NBUF"
  shows "\<exists>b. find (\<lambda>b. b_refcnt (bufs k b) = 0) (rev l) = Some b \<and> b < NBUF \<and> b_refcnt (bufs k b) = 0"
proof (cases "find (\<lambda>b. b_refcnt (bufs k b) = 0) (rev l)")
  case None
  have l: "set l = {..<NBUF}" using assms(2) by (simp add: bcache_list_def)
  have r: "b_refcnt (bufs k b) \<noteq> 0" if "b < NBUF" for b using None l that by (auto simp: find_None_iff)
  have c: "at_block dev (unat (b_blockno (bufs k b))) (bufs k b) \<and> cR s (unat (b_blockno (bufs k b))) \<noteq> 0" if "b < NBUF" for b
    using cvD(6) [OF assms(1) that] r [OF that] unat_eq_0 [of "b_refcnt (bufs k b)"]
    by (simp add: cbuf_def at_block_def Let_def split: if_splits)
  have "inj_on (\<lambda>b. unat (b_blockno (bufs k b))) {..<NBUF}"
  proof (rule inj_onI)
    fix a b assume ab: "a \<in> {..<NBUF}" "b \<in> {..<NBUF}" "unat (b_blockno (bufs k a)) = unat (b_blockno (bufs k b))"
    then have "at_block dev (unat (b_blockno (bufs k b))) (bufs k a)" "at_block dev (unat (b_blockno (bufs k b))) (bufs k b)"
      using c [of a] c [of b] by simp_all
    then show "a = b" using cvD(7) [OF assms(1), of a b] ab(1,2) by simp
  qed
  moreover have "(\<lambda>b. unat (b_blockno (bufs k b))) ` {..<NBUF} \<subseteq> {n. cR s n \<noteq> 0}"
  proof (rule image_subsetI)
    fix b assume "b \<in> {..<NBUF :: nat}"
    then show "unat (b_blockno (bufs k b)) \<in> {n. cR s n \<noteq> 0}" using c [of b] by simp
  qed
  ultimately have "card {..<NBUF} \<le> card {n. cR s n \<noteq> 0}" using assms(3) by (rule card_inj_on_le)
  then have False using assms(4) unfolding card_lessThan by linarith
  then show ?thesis ..
next
  case (Some b)
  obtain i where i: "i < length (rev l)" "b_refcnt (bufs k (rev l ! i)) = 0" "b = rev l ! i" using Some [unfolded find_Some_iff] by metis
  have "b \<in> set l" using nth_mem [OF i(1)] i(3) by simp
  then show ?thesis using Some i(2,3) assms(2) by (simp add: bcache_list_def)
qed

section \<open>Operations on blocks\<close>

definition c_read :: "nat \<Rightarrow> nat \<Rightarrow> cst \<Rightarrow> cst" where
  "c_read n b s = s\<lparr>cR := (cR s)(n := cR s n + 1), cL := (cL s)(n := Some b)\<rparr>"

definition c_set :: "nat \<Rightarrow> u8 list \<Rightarrow> cst \<Rightarrow> cst" where
  "c_set n d s = s\<lparr>cV := (cV s)(n := d)\<rparr>"

definition c_write :: "nat \<Rightarrow> cst \<Rightarrow> cst" where
  "c_write n s = s\<lparr>cD := (cD s)(n := cV s n)\<rparr>"

definition c_unpin :: "nat \<Rightarrow> cst \<Rightarrow> cst" where
  "c_unpin n s = s\<lparr>cR := (cR s)(n := cR s n - 1)\<rparr>"

definition c_release :: "nat \<Rightarrow> cst \<Rightarrow> cst" where
  "c_release n s = s\<lparr>cR := (cR s)(n := cR s n - 1), cL := (cL s)(n := None)\<rparr>"

lemmas c_defs = c_read_def c_set_def c_write_def c_unpin_def c_release_def

text \<open>The buffer of a locked block.\<close>

lemma cv_locked:
  assumes "cv p dev s k" and "cL s n = Some b"
  shows "b < NBUF" "at_block dev n (bufs k b)" "unat (b_refcnt (bufs k b)) = cR s n" "cR s n \<noteq> 0" "b_valid (bufs k b)"
    "bdata (bufs k b) = cV s n" "sl_locked (b_lock (bufs k b))" "sl_pid (b_lock (bufs k b)) = p_pid (proc k p)"
    "a < NBUF \<Longrightarrow> a \<noteq> b \<Longrightarrow> \<not> at_block dev n (bufs k a)"
proof -
  note c = cvD [OF assms(1)]
  show b: "b < NBUF" "at_block dev n (bufs k b)" using c(11,12) [OF assms(2)] .
  show R: "cR s n \<noteq> 0" using c(10) [of n] assms(2) by auto
  have n: "unat (b_blockno (bufs k b)) = n" "b_dev (bufs k b) = dev" using b(2) by (simp_all add: at_block_def)
  show "unat (b_refcnt (bufs k b)) = cR s n" "b_valid (bufs k b)" "bdata (bufs k b) = cV s n" "sl_locked (b_lock (bufs k b))"
    "sl_pid (b_lock (bufs k b)) = p_pid (proc k p)"
    using c(6) [OF b(1)] R assms(2) by (simp_all add: cbuf_def Let_def n)
  show "a < NBUF \<Longrightarrow> a \<noteq> b \<Longrightarrow> \<not> at_block dev n (bufs k a)" using c(7) [of a b n] b by auto
qed

lemma bcache_list_bufs: "bcache_list k l \<Longrightarrow> (\<And>c. b_next (bufs k' c) = b_next (bufs k c) \<and> b_prev (bufs k' c) = b_prev (bufs k c)) \<Longrightarrow> bcache_list k' l"
  using linked_cong [of l "bufs k'" "bufs k"] by (simp add: bcache_list_def)

text \<open>Changing the contents of a locked buffer.\<close>

lemma cv_set:
  assumes "cv p dev s k" and "cL s n = Some b" and "\<And>x. bdata x = cV s n \<Longrightarrow> bdata (f x) = d"
    and "\<And>x. core (f x) = core (x\<lparr>b_data := b_data (f x)\<rparr>)" and "\<And>x. b_next (f x) = b_next x \<and> b_prev (f x) = b_prev x"
  shows "cv p dev (c_set n d s) (upd_bufs b f k)"
proof -
  note c = cvD [OF assms(1)] and b = cv_locked [OF assms(1,2)]
  obtain l where l: "bcache_list k l" using c(3) by blast
  note cf = core_fields [OF assms(4) [of "bufs k b"]]
  have n: "unat (b_blockno (bufs k b)) = n" "b_dev (bufs k b) = dev" using b(2) by (simp_all add: at_block_def)
  show ?thesis
  proof (rule cv_upd [OF assms(1) b(1), where x = "f (bufs k b)" and n = n])
    show "at_block dev n (f (bufs k b))" using n cf by (simp add: at_block_def)
    show "bcache_list (upd_bufs b f k) l" using l by (rule bcache_list_bufs) (simp add: assms(5))
    show "cbuf (p_pid (proc k p)) dev (c_set n d s) (f (bufs k b))"
      using b(3-8) n cf assms(2,3) by (simp add: cbuf_def Let_def c_set_def)
    show "\<not> at_block dev n (bufs k a)" if "a < NBUF" "a \<noteq> b" for a using b(9) that .
    show "cD (c_set n d s) = blk (disk (upd_bufs b f k))" using c(5) by (simp add: c_set_def)
  qed (use b(2,4) c(1,2,4,13) assms(2) in \<open>simp_all add: c_set_def\<close>)
qed

lemma crash_set:
  assumes "cL s n = Some b" and "\<And>x. bdata x = cV s n \<Longrightarrow> bdata (f x) = d"
    and "\<And>x. core (f x) = core (x\<lparr>b_data := b_data (f x)\<rparr>)" and "\<And>x. b_next (f x) = b_next x \<and> b_prev (f x) = b_prev x"
  shows "crash_ok t 0 (cv p dev s) (atom (upd_buf b f)) (\<lambda>_. cv p dev (c_set n d s)) C"
  by (rule crash_atom) (use cv_set [OF _ assms] in \<open>auto simp: upd_buf_def kmod_run upd_bufs_def\<close>)

text \<open>Releasing a locked buffer.\<close>

lemma cv_release:
  assumes "cv p dev s k" and "cL s n = Some b" and "cR s n = 1 \<Longrightarrow> cV s n = cD s n"
  shows "\<exists>k'. brelse b k = Ret () k' \<and> cv p dev (c_release n s) k'"
proof -
  note c = cvD [OF assms(1)] and b = cv_locked [OF assms(1,2)]
  obtain l where l: "bcache_list k l" using c(3) by blast
  let ?k = "k\<lparr>bufs := brelse_bufs b (bufs k), proc := wake_procs (Some p) (CH_BUF_LOCK b) (proc k), mach := ppm (mach k)\<rparr>"
  have n: "unat (b_blockno (bufs k b)) = n" "b_dev (bufs k b) = dev" using b(2) by (simp_all add: at_block_def)
  have "b \<in> set l" using l b(1) by (simp add: bcache_list_def)
  then obtain l' where l': "bcache_list ?k l'"
    using brelse_list [of "bufs k" l b] l bcache_listD(5) [OF l] by (fastforce simp: bcache_list_def set_remove1_eq split: if_splits)
  have "b_refcnt (bufs k b) \<noteq> 0" using b(3,4) unat_eq_0 [of "b_refcnt (bufs k b)"] by simp
  then have r: "unat (b_refcnt (bufs k b) - 1) = cR s n - 1" using b(3) by (simp add: unat_minus_one)
  have "cv p dev (c_release n s) ?k"
  proof (rule cv_upd [OF assms(1) b(1), where x = "free_buf (bufs k b)" and n = n])
    show "bcache_list ?k l'" by (rule l')
    show "cbuf (p_pid (proc k p)) dev (c_release n s) (free_buf (bufs k b))"
      using b(5-8) n r by (simp add: cbuf_def Let_def c_release_def free_buf_def bdata_def)
    show "core (bufs ?k a) = core (if a = b then free_buf (bufs k b) else bufs k a)" for a
      by (simp add: brelse_bufs_def Let_def)
    show "cV (c_release n s) n = cD (c_release n s) n \<and> cL (c_release n s) n = None" if "cR (c_release n s) n = 0"
      using that assms(3) b(4) by (simp add: c_release_def)
    show "p_pid (proc ?k p) = p_pid (proc k p)"
      using same_procs_pid [of "proc k" "wake_procs (Some p) (CH_BUF_LOCK b) (proc k)"] by simp
    show "\<not> at_block dev n (bufs k a)" if "a < NBUF" "a \<noteq> b" for a using b(9) that .
    show "cD (c_release n s) = blk (disk ?k)" using c(5) by (simp add: c_release_def)
  qed (use b(2) c(1,2,4,13) n in \<open>simp_all add: c_release_def free_buf_def at_block_def\<close>)
  then show ?thesis using brelse_run [OF c(1) b(7,8)] by blast
qed

lemma crash_release:
  assumes "cL s n = Some b" and "cR s n = 1 \<Longrightarrow> cV s n = cD s n"
  shows "crash_ok t 0 (cv p dev s) (atom (brelse b)) (\<lambda>_. cv p dev (c_release n s)) C"
  by (rule crash_atom) (use cv_release [OF _ assms] in blast)

lemma crash_unpin:
  assumes "cL s n = Some b" and "1 < cR s n"
  shows "crash_ok t 0 (cv p dev s) (atom (bunpin b)) (\<lambda>_. cv p dev (c_unpin n s)) C"
proof (rule crash_atom)
  fix k assume k: "cv p dev s k"
  note c = cvD [OF k] and b = cv_locked [OF k assms(1)]
  obtain l where l: "bcache_list k l" using c(3) by blast
  have n: "unat (b_blockno (bufs k b)) = n" "b_dev (bufs k b) = dev" using b(2) by (simp_all add: at_block_def)
  let ?f = "\<lambda>x. x\<lparr>b_refcnt := b_refcnt x - 1\<rparr>"
  have "b_refcnt (bufs k b) \<noteq> 0" using b(3,4) unat_eq_0 [of "b_refcnt (bufs k b)"] by simp
  then have r: "unat (b_refcnt (bufs k b) - 1) = cR s n - 1" using b(3) by (simp add: unat_minus_one)
  have "cv p dev (c_unpin n s) ((upd_bufs b ?f k)\<lparr>mach := ppm (mach k)\<rparr>)"
  proof (rule cv_upd [OF k b(1), where x = "?f (bufs k b)" and n = n])
    show "bcache_list ((upd_bufs b ?f k)\<lparr>mach := ppm (mach k)\<rparr>) l" using l by (subst bcache_list_upd) simp_all
    show "cbuf (p_pid (proc k p)) dev (c_unpin n s) (?f (bufs k b))"
      using b(5-8) n r assms by (simp add: cbuf_def Let_def c_unpin_def bdata_def)
    show "\<not> at_block dev n (bufs k a)" if "a < NBUF" "a \<noteq> b" for a using b(9) that .
    show "cD (c_unpin n s) = blk (disk ((upd_bufs b ?f k)\<lparr>mach := ppm (mach k)\<rparr>))" using c(5) by (simp add: c_unpin_def)
  qed (use b(2) c(1,2,4,13) n assms in \<open>simp_all add: c_unpin_def at_block_def\<close>)
  then show "\<exists>x k'. bunpin b k = Ret x k' \<and> cv p dev (c_unpin n s) k'" using bunpin_run(1) [OF quietD(1) [OF c(1)]] by blast
qed

text \<open>Requests to the disk.\<close>

lemma io_frameD:
  assumes "io_frame k k'"
  shows "klog k' = klog k" and "p_pid (proc k' q) = p_pid (proc k q)" and "fsv k' = fsv k"
proof -
  have "fsv (k'\<lparr>mach := mach k, proc := proc k, vdisk := vdisk k, bufs := bufs k, disk := disk k, dev_out := dev_out k\<rparr>) = fsv k"
    using assms by (simp only: io_frame_def)
  then show "fsv k' = fsv k" by (simp add: fsv_def)
  have "klog (k'\<lparr>mach := mach k, proc := proc k, vdisk := vdisk k, bufs := bufs k, disk := disk k, dev_out := dev_out k\<rparr>) = klog k"
    using assms by (simp only: io_frame_def)
  then show "klog k' = klog k" by simp
  show "p_pid (proc k' q) = p_pid (proc k q)" using assms by (intro same_procs_pid) (simp add: io_frame_def)
qed

lemma crash_rw:
  assumes "turn_ok vd p mi m" and "t = disk_turn vd p mi m"
    and "\<And>k. P k \<Longrightarrow> quiet p (mach k) \<and> vd_ready (vdisk k) \<and> unat (b_blockno (bufs k b)) < 2 ^ 31 \<and> Z (blk (disk k))"
    and "\<And>k k'. P k \<Longrightarrow> bufs k' = io_bufs b wr k \<Longrightarrow> disk k' = io_disk b wr k \<Longrightarrow> quiet p (mach k') \<Longrightarrow> vd_ready (vdisk k') \<Longrightarrow>
      klog k' = klog k \<Longrightarrow> (\<And>q. p_pid (proc k' q) = p_pid (proc k q)) \<Longrightarrow> fsv k' = fsv k \<Longrightarrow> Q k'"
  shows "crash_ok t 1 P (virtio_disk_rw b wr) (\<lambda>_. Q) (\<lambda>k. Z (blk (disk k)))"
proof (rule crash_okI)
  fix k n assume k: "P k"
  note q = assms(3) [OF k]
  show "(\<exists>x k' n'. virtio_disk_rw b wr (k, replicate n t) = Ret x (k', replicate n' t) \<and> Q k' \<and> n \<le> n' + 1) \<or>
    (\<exists>k' rs. virtio_disk_rw b wr (k, replicate n t) = Switch (k', rs) \<and> Z (blk (disk k')) \<and> n < 1)"
  proof (cases n)
    case 0
    then show ?thesis using virtio_disk_rw_stops [of p k b wr] q by simp
  next
    case (Suc n')
    obtain k' where k': "virtio_disk_rw b wr (k, t # replicate n' t) = Ret () (k', replicate n' t)"
      "bufs k' = io_bufs b wr k" "disk k' = io_disk b wr k" "quiet p (mach k')" "vd_ready (vdisk k')" "io_frame k k'"
      using virtio_disk_rw_run [of p k vd mi m b wr] assms(1,2) q by blast
    then have "Q k'" using assms(4) [OF k k'(2-5)] io_frameD [OF k'(6)] by blast
    then show ?thesis using k'(1) Suc by auto
  qed
qed

lemma blk_put_upd: "blk (put_blk D n (b_data x)) = (blk D)(n := bdata x)"
  by (auto simp: fun_eq_iff blk_put bdata_def)

lemma crash_write:
  assumes "turn_ok vd p mi m" and "t = disk_turn vd p mi m" and "cL s n = Some b" and "n < 2 ^ 31" and "Z (cD s)"
  shows "crash_ok t 1 (cv p dev s) (bwrite b) (\<lambda>_. cv p dev (c_write n s)) (\<lambda>k. Z (blk (disk k)))"
proof -
  have h: "crash_ok t 0 (cv p dev s) (atom (holdingsleep (SL_BUF b))) (\<lambda>r k. r \<and> cv p dev s k) (\<lambda>k. Z (blk (disk k)))"
  proof (rule crash_atom)
    fix k assume k: "cv p dev s k"
    note c = cvD [OF k] and b = cv_locked [OF k assms(3)]
    have "holdingsleep (SL_BUF b) k = Ret True (k\<lparr>mach := ppm (mach k)\<rparr>)"
      using holdingsleep_run [of "SL_BUF b" k p] quietD [OF c(1)] b(7,8) by (simp add: bufs_sl)
    moreover have "cv p dev s (k\<lparr>mach := ppm (mach k)\<rparr>)" using k by (simp add: cv_def bcache_list_def)
    ultimately show "\<exists>r k'. holdingsleep (SL_BUF b) k = Ret r k' \<and> r \<and> cv p dev s k'" by blast
  qed
  have w: "crash_ok t 1 (cv p dev s) (virtio_disk_rw b True) (\<lambda>_. cv p dev (c_write n s)) (\<lambda>k. Z (blk (disk k)))"
  proof (rule crash_rw [OF assms(1,2)])
    fix k assume k: "cv p dev s k"
    note c = cvD [OF k] and b = cv_locked [OF k assms(3)]
    have n: "unat (b_blockno (bufs k b)) = n" using b(2) by (simp add: at_block_def)
    show "quiet p (mach k) \<and> vd_ready (vdisk k) \<and> unat (b_blockno (bufs k b)) < 2 ^ 31 \<and> Z (blk (disk k))"
      using c(1,2,5) n assms(4,5) by simp
    fix k' :: kernel assume k': "bufs k' = io_bufs b True k" "disk k' = io_disk b True k" "quiet p (mach k')" "vd_ready (vdisk k')"
      "klog k' = klog k" "\<And>q. p_pid (proc k' q) = p_pid (proc k q)" "fsv k' = fsv k"
    obtain l where l: "bcache_list k l" using c(3) by blast
    show "cv p dev (c_write n s) k'"
    proof (rule cv_upd [OF k b(1), where x = "(bufs k b)\<lparr>b_disk := False\<rparr>" and n = n])
      show "bcache_list k' l" using l by (rule bcache_list_bufs) (simp add: k'(1) io_bufs_def)
      show "cbuf (p_pid (proc k p)) dev (c_write n s) ((bufs k b)\<lparr>b_disk := False\<rparr>)"
        using b(2-8) n assms(3) by (simp add: cbuf_def Let_def c_write_def bdata_def at_block_def)
      show "\<not> at_block dev n (bufs k a)" if "a < NBUF" "a \<noteq> b" for a using b(9) that .
      show "cD (c_write n s) = blk (disk k')" using b(6) by (simp add: c_write_def k'(2) io_disk_def n blk_put_upd c(5))
      show "core (bufs k' a) = core (if a = b then (bufs k b)\<lparr>b_disk := False\<rparr> else bufs k a)" for a
        by (simp add: k'(1) io_bufs_def)
    qed (use b(2,4) c(4,13) k'(3-7) assms(3) in \<open>simp_all add: c_write_def at_block_def\<close>)
  qed
  have "crash_ok t (0 + 1) (cv p dev s) (bwrite b) (\<lambda>_. cv p dev (c_write n s)) (\<lambda>k. Z (blk (disk k)))"
    unfolding bwrite_def
  proof (rule crash_bind [OF h])
    fix r show "crash_ok t 1 (\<lambda>k. r \<and> cv p dev s k) (if \<not> r then kpanic ''bwrite'' else virtio_disk_rw b True)
        (\<lambda>_. cv p dev (c_write n s)) (\<lambda>k. Z (blk (disk k)))"
      by (rule crash_pre [of _ r], blast) (use w in simp)
  qed
  then show ?thesis by simp
qed

text \<open>
  Between \<open>bget\<close> and the end of \<open>bread\<close>: the buffer is locked and counted for block \<open>n\<close>, but its contents may
  still have to be read (\<open>v\<close> says that they have been).
\<close>

definition got :: "nat \<Rightarrow> u32 \<Rightarrow> cst \<Rightarrow> nat \<Rightarrow> bool \<Rightarrow> nat \<Rightarrow> kernel \<Rightarrow> bool" where
  "got p dev s n v b k1 \<longleftrightarrow> (\<exists>k x. cv p dev s k \<and> b < NBUF \<and> at_block dev n x \<and>
     (at_block dev n (bufs k b) \<or> b_refcnt (bufs k b) = 0) \<and> (\<forall>a < NBUF. a \<noteq> b \<longrightarrow> \<not> at_block dev n (bufs k a)) \<and>
     bufs k1 = (bufs k)(b := x) \<and> b_next x = b_next (bufs k b) \<and> b_prev x = b_prev (bufs k b) \<and>
     unat (b_refcnt x) = cR s n + 1 \<and> sl_locked (b_lock x) \<and> sl_pid (b_lock x) = p_pid (proc k p) \<and>
     (v \<or> b_valid x \<longrightarrow> bdata x = cV s n) \<and> (\<not> b_valid x \<longrightarrow> cR s n = 0) \<and>
     quiet p (mach k1) \<and> vd_ready (vdisk k1) \<and> klog k1 = klog k \<and> disk k1 = disk k \<and> (\<forall>q. p_pid (proc k1 q) = p_pid (proc k q)) \<and> fsv k1 = fsv k)"

lemma gotE:
  assumes "got p dev s n v b k1"
  obtains k x where "cv p dev s k" "b < NBUF" "at_block dev n x" "at_block dev n (bufs k b) \<or> b_refcnt (bufs k b) = 0"
    "\<And>a. a < NBUF \<Longrightarrow> a \<noteq> b \<Longrightarrow> \<not> at_block dev n (bufs k a)" "bufs k1 = (bufs k)(b := x)"
    "b_next x = b_next (bufs k b)" "b_prev x = b_prev (bufs k b)" "unat (b_refcnt x) = cR s n + 1" "sl_locked (b_lock x)"
    "sl_pid (b_lock x) = p_pid (proc k p)" "v \<or> b_valid x \<Longrightarrow> bdata x = cV s n" "\<not> b_valid x \<Longrightarrow> cR s n = 0"
    "quiet p (mach k1)" "vd_ready (vdisk k1)" "klog k1 = klog k" "disk k1 = disk k" "\<And>q. p_pid (proc k1 q) = p_pid (proc k q)" "fsv k1 = fsv k"
proof -
  obtain k x where "cv p dev s k \<and> b < NBUF \<and> at_block dev n x \<and>
     (at_block dev n (bufs k b) \<or> b_refcnt (bufs k b) = 0) \<and> (\<forall>a < NBUF. a \<noteq> b \<longrightarrow> \<not> at_block dev n (bufs k a)) \<and>
     bufs k1 = (bufs k)(b := x) \<and> b_next x = b_next (bufs k b) \<and> b_prev x = b_prev (bufs k b) \<and>
     unat (b_refcnt x) = cR s n + 1 \<and> sl_locked (b_lock x) \<and> sl_pid (b_lock x) = p_pid (proc k p) \<and>
     (v \<or> b_valid x \<longrightarrow> bdata x = cV s n) \<and> (\<not> b_valid x \<longrightarrow> cR s n = 0) \<and>
     quiet p (mach k1) \<and> vd_ready (vdisk k1) \<and> klog k1 = klog k \<and> disk k1 = disk k \<and> (\<forall>q. p_pid (proc k1 q) = p_pid (proc k q)) \<and> fsv k1 = fsv k"
    using assms unfolding got_def by (elim exE)
  then show thesis by (intro that [of k x]) simp_all
qed

lemma got_read:
  assumes "got p dev s n v b k1" and "v \<or> b_valid (bufs k1 b)"
  shows "cv p dev (c_read n b s) (upd_bufs b (\<lambda>x. x\<lparr>b_valid := True\<rparr>) k1)"
proof -
  obtain k x where k: "cv p dev s k" and b: "b < NBUF" "at_block dev n x" "at_block dev n (bufs k b) \<or> b_refcnt (bufs k b) = 0"
    and other: "\<And>a. a < NBUF \<Longrightarrow> a \<noteq> b \<Longrightarrow> \<not> at_block dev n (bufs k a)"
    and x: "bufs k1 = (bufs k)(b := x)" "b_next x = b_next (bufs k b)" "b_prev x = b_prev (bufs k b)" "unat (b_refcnt x) = cR s n + 1"
      "sl_locked (b_lock x)" "sl_pid (b_lock x) = p_pid (proc k p)" "v \<or> b_valid x \<Longrightarrow> bdata x = cV s n" "\<not> b_valid x \<Longrightarrow> cR s n = 0"
    and k1: "quiet p (mach k1)" "vd_ready (vdisk k1)" "klog k1 = klog k" "disk k1 = disk k" "\<And>q. p_pid (proc k1 q) = p_pid (proc k q)" "fsv k1 = fsv k"
    by (rule gotE [OF assms(1)]) blast
  have d: "bdata x = cV s n" using assms(2) x(1,7) by simp
  note c = cvD [OF k]
  obtain l where l: "bcache_list k l" using c(3) by blast
  show ?thesis
  proof (rule cv_upd [OF k b(1) _ b(3), where x = "x\<lparr>b_valid := True\<rparr>"])
    show "at_block dev n (x\<lparr>b_valid := True\<rparr>)" using b(2) by (simp add: at_block_def)
    show "bcache_list (upd_bufs b (\<lambda>x. x\<lparr>b_valid := True\<rparr>) k1) l" using l by (rule bcache_list_bufs) (simp add: x(1-3))
    show "cbuf (p_pid (proc k p)) dev (c_read n b s) (x\<lparr>b_valid := True\<rparr>)"
      using b(2) x(4-6) d by (simp add: cbuf_def Let_def c_read_def bdata_def at_block_def)
    show "\<not> at_block dev n (bufs k a)" if "a < NBUF" "a \<noteq> b" for a using other that .
    show "core (bufs (upd_bufs b (\<lambda>x. x\<lparr>b_valid := True\<rparr>) k1) a) = core (if a = b then x\<lparr>b_valid := True\<rparr> else bufs k a)" for a
      by (simp add: x(1))
    show "cD (c_read n b s) = blk (disk (upd_bufs b (\<lambda>x. x\<lparr>b_valid := True\<rparr>) k1))" using c(5) k1(4) by (simp add: c_read_def)
  qed (use c(4,13) k1 in \<open>simp_all add: c_read_def\<close>)
qed

lemma got_fetch:
  assumes "got p dev s n v b k1" and "\<not> b_valid (bufs k1 b)" and "bufs k2 = io_bufs b False k1" and "disk k2 = io_disk b False k1"
    and "quiet p (mach k2)" "vd_ready (vdisk k2)" "klog k2 = klog k1" "\<And>q. p_pid (proc k2 q) = p_pid (proc k1 q)" "fsv k2 = fsv k1"
  shows "got p dev s n True b k2"
proof -
  obtain k x where k: "cv p dev s k" and b: "b < NBUF" "at_block dev n x" "at_block dev n (bufs k b) \<or> b_refcnt (bufs k b) = 0"
    and other: "\<And>a. a < NBUF \<Longrightarrow> a \<noteq> b \<Longrightarrow> \<not> at_block dev n (bufs k a)"
    and x: "bufs k1 = (bufs k)(b := x)" "b_next x = b_next (bufs k b)" "b_prev x = b_prev (bufs k b)" "unat (b_refcnt x) = cR s n + 1"
      "sl_locked (b_lock x)" "sl_pid (b_lock x) = p_pid (proc k p)" "v \<or> b_valid x \<Longrightarrow> bdata x = cV s n" "\<not> b_valid x \<Longrightarrow> cR s n = 0"
    and k1: "quiet p (mach k1)" "vd_ready (vdisk k1)" "klog k1 = klog k" "disk k1 = disk k" "\<And>q. p_pid (proc k1 q) = p_pid (proc k q)" "fsv k1 = fsv k"
    by (rule gotE [OF assms(1)]) blast
  let ?x = "x\<lparr>b_data := io_data b k1, b_disk := False\<rparr>"
  have R: "cR s n = 0" using assms(2) x(1,8) by simp
  have n: "unat (b_blockno x) = n" using b(2) by (simp add: at_block_def)
  have "bdata ?x = blk (disk k) n" by (simp add: bdata_def blk_def io_data_def x(1) n k1(4))
  then have d: "bdata ?x = cV s n" using cvD(9) [OF k R] cvD(5) [OF k] by simp
  have "bufs k2 = (bufs k)(b := ?x)" by (simp add: assms(3) io_bufs_def x(1))
  then show ?thesis
    unfolding got_def using k b other x k1 assms(4-9) d
    by (intro exI [of _ k] exI [of _ ?x]) (auto simp: at_block_def io_disk_def R)
qed

lemma bget_got:
  assumes k: "cv p dev s k" and n: "n = unat nb" and free: "cL s n = None"
    and room: "cR s n \<noteq> 0 \<or> finite {n. cR s n \<noteq> 0} \<and> card {n. cR s n \<noteq> 0} < NBUF" and R: "cR s n + 1 < 2 ^ 32"
  shows "\<exists>b k'. (\<forall>rs. bget dev nb (k, rs) = Ret b (k', rs)) \<and> got p dev s n False b k'"
proof -
  note c = cvD [OF k] and q = quietD [OF c(1)]
  obtain l where l: "bcache_list k l" using c(3) by blast
  have fb: "find (\<lambda>b. holds_block dev nb (bufs k b)) l = Some b \<longleftrightarrow> b < NBUF \<and> at_block dev n (bufs k b)" for b
    by (rule find_block [OF l _ n]) (rule c(7))
  let ?pid = "p_pid (proc k p)"
  show ?thesis
  proof (cases "find (\<lambda>b. holds_block dev nb (bufs k b)) l")
    case (Some b)
    then have b: "b < NBUF" "at_block dev n (bufs k b)" using fb by simp_all
    have bn: "unat (b_blockno (bufs k b)) = n" "b_dev (bufs k b) = dev" using b(2) by (simp_all add: at_block_def)
    note cb = c(6) [OF b(1), unfolded cbuf_def Let_def bn]
    have ul: "\<not> sl_locked (b_lock (bufs k b))" using cb free by simp
    let ?k = "(upd_bufs b (\<lambda>x. lock_buf ?pid (ref_more x)) k)\<lparr>mach := ppm (mach k)\<rparr>"
    have r: "unat (b_refcnt (bufs k b) + 1) = cR s n + 1" using cb R by (simp add: unat_word_ariths)
    have "got p dev s n False b ?k"
      unfolding got_def
      using k b cb c(1,2,7) r
      by (intro exI [of _ k] exI [of _ "lock_buf ?pid (ref_more (bufs k b))"])
         (auto simp: lock_buf_def ref_more_def at_block_def bdata_def)
    then show ?thesis using bget_hit [OF l c(1) Some ul] by blast
  next
    case None
    have none: "\<not> at_block dev n (bufs k a)" if "a < NBUF" for a using fb [of a] None that by simp
    then have R0: "cR s n = 0" using c(8) [of n] by blast
    then obtain b where b: "find (\<lambda>b. b_refcnt (bufs k b) = 0) (rev l) = Some b" "b < NBUF" "b_refcnt (bufs k b) = 0"
      using free_buffer [OF k l] room by auto
    have ul: "\<not> sl_locked (b_lock (bufs k b))"
    proof (cases "b_dev (bufs k b) = dev")
      case True
      then have "cR s (unat (b_blockno (bufs k b))) = 0" using c(6) [OF b(2)] b(3) by (simp add: cbuf_def Let_def)
      then show ?thesis using c(6) [OF b(2)] c(10) True by (simp add: cbuf_def Let_def)
    qed (use c(6) [OF b(2)] in \<open>simp add: cbuf_def Let_def\<close>)
    let ?k = "(upd_bufs b (\<lambda>x. lock_buf ?pid (recycled dev nb x)) k)\<lparr>mach := ppm (mach k)\<rparr>"
    have "got p dev s n False b ?k"
      unfolding got_def
      using k b none c(1,2) R0
      by (intro exI [of _ k] exI [of _ "lock_buf ?pid (recycled dev nb (bufs k b))"])
         (auto simp: lock_buf_def recycled_def at_block_def n)
    then show ?thesis using bget_miss [OF l c(1) None b(1) ul] by blast
  qed
qed

lemma crash_read:
  assumes "turn_ok vd p mi m" and "t = disk_turn vd p mi m" and "n = unat nb" and "n < 2 ^ 31" and "cL s n = None"
    and "cR s n \<noteq> 0 \<or> finite {n. cR s n \<noteq> 0} \<and> card {n. cR s n \<noteq> 0} < NBUF" and "cR s n + 1 < 2 ^ 32" and "Z (cD s)"
  shows "crash_ok t 1 (cv p dev s) (bread dev nb) (\<lambda>b. cv p dev (c_read n b s)) (\<lambda>k. Z (blk (disk k)))"
proof -
  let ?C = "\<lambda>k. Z (blk (disk k))" and ?v = "\<lambda>x. x\<lparr>b_valid := True\<rparr>"
  have g: "crash_ok t 0 (cv p dev s) (bget dev nb) (\<lambda>b. got p dev s n False b) ?C"
    by (rule crash_okI, rule disjI1) (use bget_got [OF _ assms(3,5-7)] in fastforce)
  have e: "x = y \<Longrightarrow> b_valid (bufs k b) \<Longrightarrow> upd_bufs b ?v k = k" for x y :: nat and k b
    by (cases k) (simp add: upd_bufs_def fun_upd_idem)
  have valid: "crash_ok t 0 (\<lambda>k. x = bufs k b \<and> got p dev s n False b k) (kret ()) (\<lambda>_. cv p dev (c_read n b s)) ?C" if "b_valid x" for x b
    by (rule crash_ret) (use got_read [of p dev s n False b] e that in fastforce)
  have fetch: "crash_ok t 1 (\<lambda>k. x = bufs k b \<and> got p dev s n False b k) (kseq [virtio_disk_rw b False, atom (upd_buf b ?v)])
      (\<lambda>_. cv p dev (c_read n b s)) ?C" if "\<not> b_valid x" for x b
  proof -
    have "crash_ok t 1 (\<lambda>k. x = bufs k b \<and> got p dev s n False b k) (virtio_disk_rw b False) (\<lambda>_. got p dev s n True b) ?C"
    proof (rule crash_rw [OF assms(1,2)])
      fix k assume k: "x = bufs k b \<and> got p dev s n False b k"
      then show "quiet p (mach k) \<and> vd_ready (vdisk k) \<and> unat (b_blockno (bufs k b)) < 2 ^ 31 \<and> Z (blk (disk k))"
        using assms(4,8) by (auto elim!: gotE simp: at_block_def dest: cvD(5))
      show "got p dev s n True b k'" if "bufs k' = io_bufs b False k" "disk k' = io_disk b False k" "quiet p (mach k')" "vd_ready (vdisk k')"
        "klog k' = klog k" "\<And>q. p_pid (proc k' q) = p_pid (proc k q)" "fsv k' = fsv k" for k' :: kernel
        using got_fetch [of p dev s n False b k k'] k that \<open>\<not> b_valid x\<close> by simp
    qed
    moreover have "crash_ok t 0 (got p dev s n True b) (kseq [atom (upd_buf b ?v)]) (\<lambda>_. cv p dev (c_read n b s)) ?C"
    proof (rule crash_seq [where c = 0 and d = 0, simplified])
      show "crash_ok t 0 (got p dev s n True b) (atom (upd_buf b ?v)) (\<lambda>_. cv p dev (c_read n b s)) ?C"
        by (rule crash_atom) (use got_read [of p dev s n True b] in \<open>auto simp: upd_buf_def kmod_run upd_bufs_def\<close>)
    qed (rule crash_seq_Nil)
    ultimately have "crash_ok t (1 + 0) (\<lambda>k. x = bufs k b \<and> got p dev s n False b k) (kseq [virtio_disk_rw b False, atom (upd_buf b ?v)])
      (\<lambda>_. cv p dev (c_read n b s)) ?C" by (rule crash_seq)
    then show ?thesis by simp
  qed
  have "crash_ok t (0 + (0 + (1 + 0))) (cv p dev s) (bread dev nb) (\<lambda>b. cv p dev (c_read n b s)) ?C"
    unfolding bread_def
  proof (rule crash_bind [OF g], rule crash_bind, rule crash_atom)
    fix b k assume "got p dev s n False b k"
    then show "\<exists>x k'. get_buf b k = Ret x k' \<and> (\<lambda>x k. x = bufs k b \<and> got p dev s n False b k) x k'" by (simp add: get_buf_def kget_run)
  next
    fix b x
    have "crash_ok t 1 (\<lambda>k. x = bufs k b \<and> got p dev s n False b k) (kwhen (\<not> b_valid x) (kseq [virtio_disk_rw b False, atom (upd_buf b ?v)]))
        (\<lambda>_. cv p dev (c_read n b s)) ?C"
    proof (cases "b_valid x")
      case True
      then have "kwhen (\<not> b_valid x) f = kret ()" for f :: "(world, unit) kmon" by (simp add: kwhen_def)
      then show ?thesis by (simp only:) (rule crash_conseq [OF valid [OF True, of b]], simp_all)
    qed (use fetch in \<open>simp add: kwhen_def\<close>)
    then show "crash_ok t (1 + 0) (\<lambda>k. x = bufs k b \<and> got p dev s n False b k)
        (kbind (kwhen (\<not> b_valid x) (kseq [virtio_disk_rw b False, atom (upd_buf b ?v)])) (\<lambda>_. kret b)) (\<lambda>b. cv p dev (c_read n b s)) ?C"
      by (rule crash_bind) (rule crash_ret)
  qed
  then show ?thesis by simp
qed

end
