(* ===== verification/Recovery.thy ===== *)
theory Recovery
  imports Crash
begin

text \<open>
  The write-ahead log survives crashes (\<open>kernel/log.c\<close>). A transaction is the set of blocks pinned in the cache;
  \<open>commit\<close> copies them to the log, writes the header, installs them at home and erases the header. At every
  point at which the power can fail the medium recovers, outside the log's own blocks, to what it was before
  the transaction or to all of the transaction, and a crash during recovery changes nothing of that.
\<close>

section \<open>The header block\<close>

definition hdr_n :: "u8 list \<Rightarrow> int" where
  "hdr_n xs = lh_get_n (nth xs)"

definition hdr_block :: "u8 list \<Rightarrow> nat \<Rightarrow> u32" where
  "hdr_block xs i = lh_get_block (nth xs) i"

lemma bdata_nth: "j < BSIZE \<Longrightarrow> bdata x ! j = b_data x j"
  by (simp add: bdata_def del: upt_rec_numeral)

lemma hdr_n_bdata: "lh_get_n (b_data x) = hdr_n (bdata x)"
  unfolding hdr_n_def lh_get_n_def by (subst ld32_cong [of "b_data x" 0 "nth (bdata x)" 0]) (simp_all add: bdata_nth)

lemma hdr_block_bdata: "i < 255 \<Longrightarrow> lh_get_block (b_data x) i = hdr_block (bdata x) i"
  unfolding hdr_block_def lh_get_block_def by (rule ld32_cong) (simp add: bdata_nth)

text \<open>The block \<open>write_head\<close> makes of the old contents.\<close>

definition head_data :: "klog \<Rightarrow> bytes \<Rightarrow> bytes" where
  "head_data l d = fold (\<lambda>i d. st32 d (4 + 4 * i) (lh_block l i)) [0..<nat (lh_n l)] (st32 d 0 (of_int (lh_n l)))"

definition head_list :: "klog \<Rightarrow> u8 list \<Rightarrow> u8 list" where
  "head_list l xs = map (head_data l (nth xs)) [0..<BSIZE]"

lemma fold_st32_block:
  "ld32 (fold (\<lambda>i d. st32 d (4 + 4 * i) (v i)) is d) (4 + 4 * i) = (if i \<in> set is then v i else ld32 d (4 + 4 * i))"
proof (induction "is" arbitrary: d)
  case (Cons j "is")
  have "ld32 (st32 d (4 + 4 * j) (v j)) (4 + 4 * i) = (if i = j then v i else ld32 d (4 + 4 * i))"
  proof (cases "i = j")
    case False
    then have "4 + 4 * i + 4 \<le> 4 + 4 * j \<or> 4 + 4 * j + 4 \<le> 4 + 4 * i" by linarith
    then show ?thesis using False by (simp add: ld32_st32_other)
  qed (simp add: ld32_st32)
  then show ?case by (auto simp: Cons.IH ld32_st32)
qed simp

lemma fold_st32_count: "ld32 (fold (\<lambda>i d. st32 d (4 + 4 * i) (v i)) is d) 0 = ld32 d 0"
  by (induction "is" arbitrary: d) (simp_all add: ld32_st32_other)

lemma st32_cong: "d j = d' j \<Longrightarrow> st32 d a v j = st32 d' a v j"
  by (simp add: st32_def le_store_def)

lemma fold_st32_cong: "d j = d' j \<Longrightarrow> fold (\<lambda>i d. st32 d (a i) (v i)) is d j = fold (\<lambda>i d. st32 d (a i) (v i)) is d' j"
proof (induction "is" arbitrary: d d')
  case (Cons i "is")
  then show ?case unfolding fold_Cons comp_apply by (intro Cons.IH st32_cong)
qed simp

lemma head_list_bdata: "bdata x = xs \<Longrightarrow> map (head_data l (b_data x)) [0..<BSIZE] = head_list l xs"
  unfolding head_list_def head_data_def
  by (rule map_cong [OF refl], rule fold_st32_cong, rule st32_cong) (auto simp: bdata_nth simp del: upt_rec_numeral)

lemma head_list_n:
  assumes "0 \<le> lh_n l" and "lh_n l \<le> int LOGSIZE"
  shows "hdr_n (head_list l xs) = lh_n l"
proof -
  have "ld32 (nth (head_list l xs)) 0 = ld32 (head_data l (nth xs)) 0"
    unfolding head_list_def by (rule ld32_cong) (simp del: upt_rec_numeral)
  also have "\<dots> = of_int (lh_n l)" by (simp add: head_data_def fold_st32_count ld32_st32)
  finally show ?thesis using assms by (simp add: hdr_n_def lh_get_n_def signed_of_int signed_take_bit_int_eq_self)
qed

lemma head_list_block:
  assumes "i < nat (lh_n l)" and "lh_n l \<le> int LOGSIZE"
  shows "hdr_block (head_list l xs) i = lh_block l i"
proof -
  have i: "i < 30" using assms by simp
  have "ld32 (nth (head_list l xs)) (4 + 4 * i) = ld32 (head_data l (nth xs)) (4 + 4 * i)"
    unfolding head_list_def by (rule ld32_cong) (use i in \<open>simp del: upt_rec_numeral\<close>)
  also have "\<dots> = lh_block l i" using assms(1) by (simp only: head_data_def fold_st32_block) simp
  finally show ?thesis by (simp add: hdr_block_def lh_get_block_def)
qed

section \<open>Rules for the log's code\<close>

lemma crash_loop:
  assumes "\<And>i. i < m \<Longrightarrow> crash_ok t c (I i) (body (int i)) (\<lambda>r k. r = Inl (int i + 1) \<and> I (Suc i) k) C"
    and "crash_ok t 0 (I m) (body (int m)) (\<lambda>r k. r = Inr () \<and> I m k) C" and "m < f"
  shows "crash_ok t (c * m) (I 0) (kiter f body 0) (\<lambda>_. I m) C"
  using crash_iter [where i = 0 and m = m and I = I and body = body and f = f and t = t and c = c and C = C] assms
  by (simp add: add.commute)

lemma crash_klog:
  assumes "crash_ok t c (cv p dev s) (g (cG s)) Q C"
  shows "crash_ok t c (cv p dev s) (kbind (atom (kget klog)) g) Q C"
proof -
  have "crash_ok t 0 (cv p dev s) (atom (kget klog)) (\<lambda>l k. l = cG s \<and> cv p dev s k) C"
    by (rule crash_atom) (simp add: kget_run cvD(4))
  then have "crash_ok t (0 + c) (cv p dev s) (kbind (atom (kget klog)) g) Q C"
  proof (rule crash_bind)
    show "crash_ok t c (\<lambda>k. l = cG s \<and> cv p dev s k) (g l) Q C" for l
      by (rule crash_pre [where A = "l = cG s"], simp) (simp, rule crash_conseq [OF assms], simp_all)
  qed
  then show ?thesis by simp
qed

lemma crash_getbuf:
  assumes "cL s n = Some b" and "\<And>x. bdata x = cV s n \<Longrightarrow> crash_ok t c (cv p dev s) (g x) Q C"
  shows "crash_ok t c (cv p dev s) (kbind (atom (get_buf b)) g) Q C"
proof -
  have "crash_ok t 0 (cv p dev s) (atom (get_buf b)) (\<lambda>x k. bdata x = cV s n \<and> cv p dev s k) C"
    by (rule crash_atom) (use cv_locked(6) [OF _ assms(1)] in \<open>simp add: get_buf_def kget_run\<close>)
  then have "crash_ok t (0 + c) (cv p dev s) (kbind (atom (get_buf b)) g) Q C"
  proof (rule crash_bind)
    show "crash_ok t c (\<lambda>k. bdata x = cV s n \<and> cv p dev s k) (g x) Q C" for x
      by (rule crash_pre [where A = "bdata x = cV s n"], simp) (rule crash_conseq [OF assms(2)], simp_all)
  qed
  then show ?thesis by simp
qed

lemma cbuf_log: "cbuf q dev (s\<lparr>cG := g\<rparr>) x = cbuf q dev s x"
  by (simp add: cbuf_def Let_def)

lemma crash_updlog: "crash_ok t 0 (cv p dev s) (atom (upd_klog f)) (\<lambda>_. cv p dev (s\<lparr>cG := f (cG s)\<rparr>)) C"
proof (rule crash_atom)
  fix k assume k: "cv p dev s k"
  have "cv p dev (s\<lparr>cG := f (cG s)\<rparr>) (k\<lparr>klog := f (klog k)\<rparr>)"
    using k unfolding cv_def bcache_list_def by (simp add: cbuf_log)
  then show "\<exists>x k'. upd_klog f k = Ret x k' \<and> cv p dev (s\<lparr>cG := f (cG s)\<rparr>) k'"
    by (simp add: upd_klog_def kmod_run)
qed

lemma bdata_memmove: "bdata (x\<lparr>b_data := memmove_from (b_data x) 0 (b_data y) 0 BSIZE\<rparr>) = bdata y"
  unfolding bdata_def by (rule map_cong [OF refl]) (simp add: memmove_from_blit blit_def del: upt_rec_numeral)

text \<open>A turn of a disk that serves the requests of a thread of process \<open>p\<close>.\<close>

definition disk_serves :: "nat \<Rightarrow> (kernel \<Rightarrow> kernel) \<Rightarrow> bool" where
  "disk_serves p t \<longleftrightarrow> (\<exists>vd mi m. turn_ok vd p mi m \<and> t = disk_turn vd p mi m)"

lemma serves_read:
  assumes "disk_serves p t" and "n = unat nb" and "n < 2 ^ 31" and "cL s n = None" and "cR s n \<le> 1"
    and "cR s n \<noteq> 0 \<or> finite {n. cR s n \<noteq> 0} \<and> card {n. cR s n \<noteq> 0} < NBUF" and "Z (cD s)"
  shows "crash_ok t 1 (cv p dev s) (bread dev nb) (\<lambda>b. cv p dev (c_read n b s)) (\<lambda>k. Z (blk (disk k)))"
proof -
  obtain vd mi m where t: "turn_ok vd p mi m" "t = disk_turn vd p mi m" using assms(1) unfolding disk_serves_def by blast
  show ?thesis by (rule crash_read [where Z = Z, OF t assms(2-4,6)]) (use assms(5,7) in simp_all)
qed

lemma serves_write:
  assumes "disk_serves p t" and "cL s n = Some b" and "n < 2 ^ 31" and "Z (cD s)"
  shows "crash_ok t 1 (cv p dev s) (bwrite b) (\<lambda>_. cv p dev (c_write n s)) (\<lambda>k. Z (blk (disk k)))"
proof -
  obtain vd mi m where t: "turn_ok vd p mi m" "t = disk_turn vd p mi m" using assms(1) unfolding disk_serves_def by blast
  show ?thesis by (rule crash_write [where Z = Z, OF t assms(2-4)])
qed

section \<open>Writing the header\<close>

definition c_head :: "nat \<Rightarrow> cst \<Rightarrow> cst" where
  "c_head ls s = s\<lparr>cD := (cD s)(ls := head_list (cG s) (cV s ls)), cV := (cV s)(ls := head_list (cG s) (cV s ls))\<rparr>"

text \<open>The log of device \<open>dev\<close> starts at block \<open>ls\<close>, no block is locked, no block of the log is referenced.\<close>

definition log_at :: "nat \<Rightarrow> u32 \<Rightarrow> cst \<Rightarrow> bool" where
  "log_at ls dev s \<longleftrightarrow> of_int (log_dev (cG s)) = dev \<and> log_start (cG s) = int ls \<and> ls + LOGSIZE < 2 ^ 31 \<and>
     0 \<le> lh_n (cG s) \<and> lh_n (cG s) < int LOGSIZE \<and> cL s = (\<lambda>_. None) \<and> (\<forall>b. cR s b \<le> 1) \<and>
     (\<forall>i \<le> LOGSIZE. cR s (ls + i) = 0) \<and> finite {b. cR s b \<noteq> 0} \<and> card {b. cR s b \<noteq> 0} < NBUF \<and>
     (\<forall>b. cR s b = 0 \<longrightarrow> cV s b = cD s b)"

lemma log_atD:
  assumes "log_at ls dev s"
  shows "of_int (log_dev (cG s)) = dev" "log_start (cG s) = int ls" "ls + LOGSIZE < 2 ^ 31" "0 \<le> lh_n (cG s)" "lh_n (cG s) < int LOGSIZE"
    "cL s n = None" "cR s n \<le> 1" "i \<le> LOGSIZE \<Longrightarrow> cR s (ls + i) = 0" "finite {b. cR s b \<noteq> 0}" "card {b. cR s b \<noteq> 0} < NBUF"
    "cR s n = 0 \<Longrightarrow> cV s n = cD s n"
  using assms by (simp_all add: log_at_def)

lemma log_block_no:
  assumes "ls + LOGSIZE < 2 ^ 31" and "i \<le> LOGSIZE"
  shows "unat (of_int (int ls + int i) :: u32) = ls + i"
proof -
  have "(of_int (int ls + int i) :: u32) = of_nat (ls + i)" by simp
  then show ?thesis using assms by (simp only: unat_of_nat) (simp add: take_bit_nat_eq_self)
qed

text \<open>The stores of the block numbers are one change of the buffer.\<close>

lemma kfor_upd_buf: "kfor is (\<lambda>i. upd_buf b (f i)) = upd_buf b (fold f is)"
proof (rule ext)
  show "kfor is (\<lambda>i. upd_buf b (f i)) k = upd_buf b (fold f is) k" for k
    by (induction "is" arbitrary: k) (simp_all add: upd_buf_def run_simps)
qed

lemma fold_b_data: "fold (\<lambda>i x. x\<lparr>b_data := g i (b_data x)\<rparr>) is = (\<lambda>x. x\<lparr>b_data := fold g is (b_data x)\<rparr>)"
  by (induction "is") (simp_all add: fun_eq_iff)

lemma crash_set_data:
  assumes "cL s n = Some b" and "\<And>x. bdata x = cV s n \<Longrightarrow> map (f (b_data x)) [0..<BSIZE] = d"
  shows "crash_ok t 0 (cv p dev s) (atom (upd_buf b (\<lambda>x. x\<lparr>b_data := f (b_data x)\<rparr>))) (\<lambda>_. cv p dev (c_set n d s)) C"
  by (rule crash_set [OF assms(1)]) (use assms(2) in \<open>simp_all add: bdata_def\<close>)

lemma map_bdata:
  assumes "bdata x = map d [0..<BSIZE]" and "j < BSIZE"
  shows "b_data x j = d j"
proof -
  have "bdata x ! j = map d [0..<BSIZE] ! j" using assms(1) by simp
  then show ?thesis using assms(2) by (simp add: bdata_nth del: upt_rec_numeral)
qed

lemma crash_write_head:
  assumes t: "disk_serves p t" and a: "log_at ls dev s" and Z: "Z (cD s)"
  shows "crash_ok t 2 (cv p dev s) write_head (\<lambda>_. cv p dev (c_head ls s)) (\<lambda>k. Z (blk (disk k)))"
proof -
  note l = log_atD [OF a]
  let ?C = "\<lambda>k. Z (blk (disk k))" and ?l = "cG s" and ?d = "head_list (cG s) (cV s ls)"
  let ?c = "\<lambda>d. st32 d 0 (of_int (lh_n (cG s)))" and ?F = "fold (\<lambda>i d. st32 d (4 + 4 * i) (lh_block (cG s) i)) [0..<nat (lh_n (cG s))]"
  let ?d1 = "map (?c (nth (cV s ls))) [0..<BSIZE]"
  have nb: "ls = unat (of_int (log_start (cG s)) :: u32)" using log_block_no [OF l(3), of 0] l(2) by simp
  have eq: "c_release ls (c_write ls (c_set ls ?d (c_set ls ?d1 (c_read ls b s)))) = c_head ls s" for b
    using l(6) [of ls] l(8) [of 0] by (simp add: c_defs c_head_def fun_upd_idem)
  have "crash_ok t (1 + (0 + (0 + (1 + 0)))) (cv p dev s) (kbind (bread dev (of_int (log_start (cG s)))) (\<lambda>b.
      kbind (atom (kget klog)) (\<lambda>l.
      kbind (atom (upd_buf b (\<lambda>x. x\<lparr>b_data := st32 (b_data x) 0 (of_int (lh_n l))\<rparr>))) (\<lambda>_.
      kbind (atom (kfor [0..<nat (lh_n l)] (\<lambda>i. upd_buf b (\<lambda>x. x\<lparr>b_data := st32 (b_data x) (4 + 4 * i) (lh_block l i)\<rparr>)))) (\<lambda>_.
      kbind (bwrite b) (\<lambda>_. atom (brelse b))))))) (\<lambda>_. cv p dev (c_head ls s)) ?C"
  proof (rule crash_bind [OF serves_read [where Z = Z and s = s and n = ls, OF t nb]])
    fix b
    let ?s = "c_read ls b s"
    have L: "cL ?s ls = Some b" "cG ?s = cG s" "cV ?s ls = cV s ls" by (simp_all add: c_defs)
    show "crash_ok t (0 + (0 + (1 + 0))) (cv p dev ?s) (kbind (atom (kget klog)) (\<lambda>l.
        kbind (atom (upd_buf b (\<lambda>x. x\<lparr>b_data := st32 (b_data x) 0 (of_int (lh_n l))\<rparr>))) (\<lambda>_.
        kbind (atom (kfor [0..<nat (lh_n l)] (\<lambda>i. upd_buf b (\<lambda>x. x\<lparr>b_data := st32 (b_data x) (4 + 4 * i) (lh_block l i)\<rparr>)))) (\<lambda>_.
        kbind (bwrite b) (\<lambda>_. atom (brelse b)))))) (\<lambda>_. cv p dev (c_head ls s)) ?C"
    proof (rule crash_klog, unfold L(2) kfor_upd_buf fold_b_data [where g = "\<lambda>i d. st32 d (4 + 4 * i) (lh_block (cG s) i)"], rule crash_bind [OF crash_set_data [OF L(1), where f = ?c and d = ?d1]])
      show "map (?c (b_data x)) [0..<BSIZE] = ?d1" if "bdata x = cV ?s ls" for x
        using that by (intro map_cong [OF refl] st32_cong) (auto simp: L(3) bdata_nth [symmetric] simp del: upt_rec_numeral)
      show "crash_ok t (0 + (1 + 0)) (cv p dev (c_set ls ?d1 ?s)) (kbind (atom (upd_buf b (\<lambda>x. x\<lparr>b_data := ?F (b_data x)\<rparr>))) (\<lambda>_.
          kbind (bwrite b) (\<lambda>_. atom (brelse b)))) (\<lambda>_. cv p dev (c_head ls s)) ?C"
      proof (rule crash_bind [OF crash_set_data [where f = ?F and d = ?d and n = ls]])
        show "map (?F (b_data x)) [0..<BSIZE] = ?d" if "bdata x = cV (c_set ls ?d1 ?s) ls" for x
          unfolding head_list_def head_data_def
          by (intro map_cong [OF refl] fold_st32_cong map_bdata) (use that in \<open>simp_all add: c_defs del: upt_rec_numeral\<close>)
        show "crash_ok t (1 + 0) (cv p dev (c_set ls ?d (c_set ls ?d1 ?s))) (kbind (bwrite b) (\<lambda>_. atom (brelse b))) (\<lambda>_. cv p dev (c_head ls s)) ?C"
          unfolding eq [of b, symmetric]
          by (rule crash_bind [OF serves_write [where n = ls and Z = Z, OF t] crash_release]) (use l(3) Z in \<open>simp_all add: c_defs\<close>)
      qed (simp add: c_defs)
    qed
  qed (use l(3,6,7,9,10) Z in simp_all)
  then show ?thesis unfolding write_head_def by (intro crash_klog) (simp add: l(1) numeral_2_eq_2)
qed

section \<open>Copying blocks to and from the log\<close>

definition write_log_body :: "int \<Rightarrow> (world, int + unit) kmon" where
  "write_log_body tail =
     kbind (atom (kget klog)) (\<lambda>l.
     if tail < lh_n l then
       kbind (bread (of_int (log_dev l)) (of_int (log_start l + tail + 1))) (\<lambda>dst.
       kbind (atom (kget klog)) (\<lambda>l.
       kbind (bread (of_int (log_dev l)) (lh_block l (nat tail))) (\<lambda>src.
       kbind (atom (get_buf src)) (\<lambda>x.
       kbind (atom (upd_buf dst (\<lambda>y. y\<lparr>b_data := memmove_from (b_data y) 0 (b_data x) 0 BSIZE\<rparr>))) (\<lambda>_.
       kbind (bwrite dst) (\<lambda>_.
       kbind (atom (brelse src)) (\<lambda>_.
       kbind (atom (brelse dst)) (\<lambda>_.
       kret (Inl (tail + 1))))))))))
     else kret (Inr ()))"

definition install_body :: "bool \<Rightarrow> int \<Rightarrow> (world, int + unit) kmon" where
  "install_body recovering tail =
     kbind (atom (kget klog)) (\<lambda>l.
     if tail < lh_n l then
       kbind (bread (of_int (log_dev l)) (of_int (log_start l + tail + 1))) (\<lambda>lbuf.
       kbind (atom (kget klog)) (\<lambda>l.
       kbind (bread (of_int (log_dev l)) (lh_block l (nat tail))) (\<lambda>dbuf.
       kbind (atom (get_buf lbuf)) (\<lambda>lb.
       kbind (atom (upd_buf dbuf (\<lambda>x. x\<lparr>b_data := memmove_from (b_data x) 0 (b_data lb) 0 BSIZE\<rparr>))) (\<lambda>_.
       kbind (bwrite dbuf) (\<lambda>_.
       kbind (kwhen (\<not> recovering) (atom (bunpin dbuf))) (\<lambda>_.
       kbind (atom (brelse lbuf)) (\<lambda>_.
       kbind (atom (brelse dbuf)) (\<lambda>_.
       kret (Inl (tail + 1)))))))))))
     else kret (Inr ()))"

lemma write_log_iter: "write_log = kiter INT_ROUNDS write_log_body 0"
  unfolding write_log_def write_log_body_def ..

lemma install_trans_iter: "install_trans r = kiter INT_ROUNDS (install_body r) 0"
  unfolding install_trans_def install_body_def ..

text \<open>Block \<open>a\<close>, as the cache has it, is copied over block \<open>b\<close>, in the cache and on the medium.\<close>

definition c_copy :: "nat \<Rightarrow> nat \<Rightarrow> cst \<Rightarrow> cst" where
  "c_copy a b s = s\<lparr>cD := (cD s)(b := cV s a), cV := (cV s)(b := cV s a)\<rparr>"

text \<open>The home block of entry \<open>i\<close> is not one of the log's blocks.\<close>

definition home_ok :: "nat \<Rightarrow> klog \<Rightarrow> nat \<Rightarrow> bool" where
  "home_ok ls l i \<longleftrightarrow> unat (lh_block l i) < 2 ^ 31 \<and> (unat (lh_block l i) < ls \<or> ls + LOGSIZE < unat (lh_block l i))"

lemma crash_set_copy:
  assumes "cL s n = Some b" and "bdata x = d"
  shows "crash_ok t 0 (cv p dev s) (atom (upd_buf b (\<lambda>y. y\<lparr>b_data := memmove_from (b_data y) 0 (b_data x) 0 BSIZE\<rparr>)))
     (\<lambda>_. cv p dev (c_set n d s)) C"
  by (rule crash_set [OF assms(1)]) (simp_all add: bdata_memmove assms(2))

lemma write_log_round:
  assumes t: "disk_serves p t" and a: "log_at ls dev s" and i: "i < nat (lh_n (cG s))" and h: "h = unat (lh_block (cG s) i)"
    and ok: "home_ok ls (cG s) i" and R: "cR s h = 1" and Z: "Z (cD s)"
  shows "crash_ok t 3 (cv p dev s) (write_log_body (int i)) (\<lambda>r k. r = Inl (int i + 1) \<and> cv p dev (c_copy h (ls + 1 + i) s) k) (\<lambda>k. Z (blk (disk k)))"
proof -
  note l = log_atD [OF a]
  let ?C = "\<lambda>k. Z (blk (disk k))" and ?g = "ls + 1 + i"
  let ?s = "\<lambda>b b'. c_read h b' (c_read ?g b s)"
  let ?w = "\<lambda>b b'. c_write ?g (c_set ?g (cV s h) (?s b b'))"
  have hg: "h \<noteq> ?g" "?g \<noteq> h" and h31: "h < 2 ^ 31" using ok i l(4,5) by (auto simp: home_ok_def h)
  have Rg: "cR s ?g = 0" using l(8) [of "1 + i"] i l(5) by simp
  have nb: "?g = unat (of_int (log_start (cG s) + int i + 1) :: u32)"
    using log_block_no [OF l(3), of "i + 1"] i l(2,5) by (simp add: add.assoc add.commute [of 1])
  have cnd: "int i < lh_n (cG s)" using i by simp
  have r1: "crash_ok t 1 (cv p dev s) (bread dev (of_int (log_start (cG s) + int i + 1))) (\<lambda>b. cv p dev (c_read ?g b s)) ?C"
    by (rule serves_read [where Z = Z, OF t nb]) (use l(3,5,6,7,9,10) i Z in simp_all)
  have r2: "crash_ok t 1 (cv p dev (c_read ?g b s)) (bread dev (lh_block (cG s) i)) (\<lambda>b'. cv p dev (?s b b')) ?C" for b
    by (rule serves_read [where Z = Z, OF t h h31]) (use hg R Z l(6) in \<open>simp_all add: c_defs\<close>)
  have r3: "crash_ok t 0 (cv p dev (?s b b')) (atom (upd_buf b (\<lambda>y. y\<lparr>b_data := memmove_from (b_data y) 0 (b_data x) 0 BSIZE\<rparr>)))
      (\<lambda>_. cv p dev (c_set ?g (cV s h) (?s b b'))) ?C" if "bdata x = cV (?s b b') h" for b b' x
    by (rule crash_set_copy) (use hg that in \<open>simp_all add: c_defs\<close>)
  have r4: "crash_ok t 1 (cv p dev (c_set ?g (cV s h) (?s b b'))) (bwrite b) (\<lambda>_. cv p dev (?w b b')) ?C" for b b'
    by (rule serves_write [where Z = Z, OF t]) (use hg l(3,5) i Z in \<open>simp_all add: c_defs\<close>)
  have r5: "crash_ok t 0 (cv p dev (?w b b')) (atom (brelse b')) (\<lambda>_. cv p dev (c_release h (?w b b'))) ?C" for b b'
    by (rule crash_release) (use hg R in \<open>simp_all add: c_defs\<close>)
  have r6: "crash_ok t 0 (cv p dev (c_release h (?w b b'))) (atom (brelse b)) (\<lambda>_. cv p dev (c_release ?g (c_release h (?w b b')))) ?C" for b b'
    by (rule crash_release) (use hg in \<open>simp_all add: c_defs\<close>)
  have e: "c_release ?g (c_release h (?w b b')) = c_copy h ?g s" for b b'
    using hg l(6) Rg R by (simp add: c_defs c_copy_def fun_eq_iff)
  have g: "cG (c_read ?g b s) = cG s" "cL (?s b b') h = Some b'" for b b' by (simp_all add: c_defs)
  have "crash_ok t (1 + (1 + (0 + (1 + (0 + (0 + 0)))))) (cv p dev s) (write_log_body (int i)) (\<lambda>r k. r = Inl (int i + 1) \<and> cv p dev (c_copy h ?g s) k) ?C"
    unfolding write_log_body_def
    apply (rule crash_klog)
    apply (simp only: cnd if_True l(1))
    apply (rule crash_bind [OF r1])
    apply (rule crash_klog)
    apply (simp only: g l(1) nat_int)
    apply (rule crash_bind [OF r2])
    apply (rule crash_getbuf [OF g(2)])
    apply (rule crash_bind [OF r3], assumption)
    apply (rule crash_bind [OF r4])
    apply (rule crash_bind [OF r5])
    apply (rule crash_bind [OF r6])
    apply (rule crash_ret)
    apply (simp only: e simp_thms)
    done
  then show ?thesis by (simp add: numeral_3_eq_3)
qed

lemma read_room:
  assumes "finite {n. cR s n \<noteq> 0}" and "Suc (card {n. cR s n \<noteq> 0}) < NBUF"
  shows "finite {n. cR (c_read a b s) n \<noteq> 0}" and "card {n. cR (c_read a b s) n \<noteq> 0} < NBUF"
proof -
  have e: "{n. cR (c_read a b s) n \<noteq> 0} = insert a {n. cR s n \<noteq> 0}" by (auto simp: c_defs)
  show "finite {n. cR (c_read a b s) n \<noteq> 0}" using assms(1) unfolding e by simp
  have "card (insert a {n. cR s n \<noteq> 0}) \<le> Suc (card {n. cR s n \<noteq> 0})" using assms(1) by (simp add: card_insert_if)
  then show "card {n. cR (c_read a b s) n \<noteq> 0} < NBUF" using assms(2) unfolding e by linarith
qed

definition c_install :: "bool \<Rightarrow> nat \<Rightarrow> nat \<Rightarrow> cst \<Rightarrow> cst" where
  "c_install recovering a b s = (if recovering then c_copy a b s else c_unpin b (c_copy a b s))"

lemma c_install_simps [simp]:
  "cD (c_install rec a b s) = (cD s)(b := cV s a)" "cV (c_install rec a b s) = (cV s)(b := cV s a)"
  "cL (c_install rec a b s) = cL s" "cG (c_install rec a b s) = cG s"
  "cR (c_install rec a b s) = (if rec then cR s else (cR s)(b := cR s b - 1))"
  by (simp_all add: c_install_def c_copy_def c_unpin_def)

lemma install_round:
  assumes t: "disk_serves p t" and a: "log_at ls dev s" and i: "i < nat (lh_n (cG s))" and h: "h = unat (lh_block (cG s) i)"
    and ok: "home_ok ls (cG s) i" and R: "if rec then Suc (card {n. cR s n \<noteq> 0}) < NBUF else cR s h = 1" and Z: "Z (cD s)"
  shows "crash_ok t 3 (cv p dev s) (install_body rec (int i)) (\<lambda>r k. r = Inl (int i + 1) \<and> cv p dev (c_install rec (ls + 1 + i) h s) k) (\<lambda>k. Z (blk (disk k)))"
proof -
  note l = log_atD [OF a]
  let ?C = "\<lambda>k. Z (blk (disk k))" and ?g = "ls + 1 + i"
  let ?s = "\<lambda>b b'. c_read h b' (c_read ?g b s)"
  let ?w = "\<lambda>b b'. c_write h (c_set h (cV s ?g) (?s b b'))"
  let ?u = "\<lambda>b b'. if rec then ?w b b' else c_unpin h (?w b b')"
  have hg: "h \<noteq> ?g" "?g \<noteq> h" and h31: "h < 2 ^ 31" using ok i l(4,5) by (auto simp: home_ok_def h)
  have Rg: "cR s ?g = 0" using l(8) [of "1 + i"] i l(5) by simp
  have nb: "?g = unat (of_int (log_start (cG s) + int i + 1) :: u32)"
    using log_block_no [OF l(3), of "i + 1"] i l(2,5) by (simp add: add.assoc add.commute [of 1])
  have cnd: "int i < lh_n (cG s)" using i by simp
  have room: "cR (c_read ?g b s) h \<noteq> 0 \<or> finite {n. cR (c_read ?g b s) n \<noteq> 0} \<and> card {n. cR (c_read ?g b s) n \<noteq> 0} < NBUF" for b
  proof (cases rec)
    case True
    then show ?thesis using read_room [OF l(9), of ?g b] R by simp
  next
    case False
    then show ?thesis using R hg by (simp add: c_defs)
  qed
  have r1: "crash_ok t 1 (cv p dev s) (bread dev (of_int (log_start (cG s) + int i + 1))) (\<lambda>b. cv p dev (c_read ?g b s)) ?C"
    by (rule serves_read [where Z = Z, OF t nb]) (use l(3,5,6,7,9,10) i Z in simp_all)
  have r2: "crash_ok t 1 (cv p dev (c_read ?g b s)) (bread dev (lh_block (cG s) i)) (\<lambda>b'. cv p dev (?s b b')) ?C" for b
    by (rule serves_read [where Z = Z, OF t h h31 _ _ room]) (use hg Z l(6,7) in \<open>simp_all add: c_defs\<close>)
  have r3: "crash_ok t 0 (cv p dev (?s b b')) (atom (upd_buf b' (\<lambda>y. y\<lparr>b_data := memmove_from (b_data y) 0 (b_data x) 0 BSIZE\<rparr>)))
      (\<lambda>_. cv p dev (c_set h (cV s ?g) (?s b b'))) ?C" if "bdata x = cV (?s b b') ?g" for b b' x
    by (rule crash_set_copy) (use hg that in \<open>simp_all add: c_defs\<close>)
  have r4: "crash_ok t 1 (cv p dev (c_set h (cV s ?g) (?s b b'))) (bwrite b') (\<lambda>_. cv p dev (?w b b')) ?C" for b b'
    by (rule serves_write [where Z = Z, OF t]) (use hg h31 Z in \<open>simp_all add: c_defs\<close>)
  have r5: "crash_ok t 0 (cv p dev (?w b b')) (kwhen (\<not> rec) (atom (bunpin b'))) (\<lambda>_. cv p dev (?u b b')) ?C" for b b'
  proof (cases rec)
    case True
    then show ?thesis by (simp add: kwhen_def crash_ret)
  next
    case False
    then show ?thesis unfolding kwhen_def using R hg by (simp, intro crash_unpin) (simp_all add: c_defs)
  qed
  have r6: "crash_ok t 0 (cv p dev (?u b b')) (atom (brelse b)) (\<lambda>_. cv p dev (c_release ?g (?u b b'))) ?C" for b b'
    by (rule crash_release) (use hg l(11) [OF Rg] in \<open>simp_all add: c_defs\<close>)
  have r7: "crash_ok t 0 (cv p dev (c_release ?g (?u b b'))) (atom (brelse b')) (\<lambda>_. cv p dev (c_release h (c_release ?g (?u b b')))) ?C" for b b'
    by (rule crash_release) (use hg in \<open>simp_all add: c_defs\<close>)
  have e: "c_release h (c_release ?g (?u b b')) = c_install rec ?g h s" for b b'
    using hg l(6) Rg R by (simp add: c_defs c_copy_def c_install_def fun_eq_iff)
  have g: "cG (c_read ?g b s) = cG s" "cL (?s b b') ?g = Some b" for b b' using hg by (simp_all add: c_defs)
  have "crash_ok t (1 + (1 + (0 + (1 + (0 + (0 + (0 + 0))))))) (cv p dev s) (install_body rec (int i)) (\<lambda>r k. r = Inl (int i + 1) \<and> cv p dev (c_install rec ?g h s) k) ?C"
    unfolding install_body_def
    apply (rule crash_klog)
    apply (simp only: cnd if_True l(1))
    apply (rule crash_bind [OF r1])
    apply (rule crash_klog)
    apply (simp only: g l(1) nat_int)
    apply (rule crash_bind [OF r2])
    apply (rule crash_getbuf [OF g(2)])
    apply (rule crash_bind [OF r3], assumption)
    apply (rule crash_bind [OF r4])
    apply (rule crash_bind [OF r5])
    apply (rule crash_bind [OF r6])
    apply (rule crash_bind [OF r7])
    apply (rule crash_ret)
    apply (simp only: e simp_thms)
    done
  then show ?thesis by (simp add: numeral_3_eq_3)
qed

section \<open>What recovery makes of a medium\<close>

definition recovered :: "nat \<Rightarrow> (nat \<Rightarrow> u8 list) \<Rightarrow> nat \<Rightarrow> u8 list" where
  "recovered ls D = fold (\<lambda>j E. E(unat (hdr_block (D ls) j) := D (ls + 1 + j))) [0..<nat (hdr_n (D ls))] D"

definition data_eq :: "nat \<Rightarrow> (nat \<Rightarrow> u8 list) \<Rightarrow> (nat \<Rightarrow> u8 list) \<Rightarrow> bool" where
  "data_eq ls D E \<longleftrightarrow> (\<forall>b. b < ls \<or> ls + LOGSIZE < b \<longrightarrow> D b = E b)"

text \<open>The first \<open>n\<close> entries of a header are block numbers outside the log, without repetition.\<close>

definition entries_ok :: "nat \<Rightarrow> nat \<Rightarrow> (nat \<Rightarrow> nat) \<Rightarrow> bool" where
  "entries_ok ls n h \<longleftrightarrow> n < LOGSIZE \<and> inj_on h {..<n} \<and> (\<forall>j < n. h j < 2 ^ 31 \<and> (h j < ls \<or> ls + LOGSIZE < h j))"

definition log_ok :: "nat \<Rightarrow> (nat \<Rightarrow> u8 list) \<Rightarrow> bool" where
  "log_ok ls D \<longleftrightarrow> 0 \<le> hdr_n (D ls) \<and> entries_ok ls (nat (hdr_n (D ls))) (\<lambda>j. unat (hdr_block (D ls) j))"

definition safe :: "nat \<Rightarrow> (nat \<Rightarrow> u8 list) \<Rightarrow> (nat \<Rightarrow> u8 list) \<Rightarrow> (nat \<Rightarrow> u8 list) \<Rightarrow> bool" where
  "safe ls A B D \<longleftrightarrow> log_ok ls D \<and> (data_eq ls (recovered ls D) A \<or> data_eq ls (recovered ls D) B)"

lemma fold_put_other: "\<forall>j < n. h j \<noteq> b \<Longrightarrow> fold (\<lambda>j E. E(h j := L j)) [0..<n] E b = E b"
  by (induction n) auto

lemma fold_put_home: "inj_on h {..<n} \<Longrightarrow> j < n \<Longrightarrow> fold (\<lambda>j E. E(h j := L j)) [0..<n] E (h j) = L j"
proof (induction n)
  case (Suc n)
  have "h j \<noteq> h n" if "j < n" using Suc.prems(1) that by (auto dest: inj_onD [where x = j and y = n])
  then show ?case using Suc by (auto simp: less_Suc_eq lessThan_Suc)
qed simp

lemma safe_empty: "hdr_n (D ls) = 0 \<Longrightarrow> data_eq ls D A \<or> data_eq ls D B \<Longrightarrow> safe ls A B D"
  by (simp add: safe_def log_ok_def recovered_def entries_ok_def)

text \<open>
  A medium whose log holds the contents \<open>B\<close> of the blocks \<open>h\<close>, and which has, outside the log, the contents \<open>B\<close>
  in every other block.
\<close>

definition full :: "nat \<Rightarrow> nat \<Rightarrow> (nat \<Rightarrow> nat) \<Rightarrow> (nat \<Rightarrow> u8 list) \<Rightarrow> (nat \<Rightarrow> u8 list) \<Rightarrow> bool" where
  "full ls n h B D \<longleftrightarrow> hdr_n (D ls) = int n \<and> (\<forall>j < n. unat (hdr_block (D ls) j) = h j \<and> D (ls + 1 + j) = B (h j)) \<and>
     (\<forall>b. b < ls \<or> ls + LOGSIZE < b \<longrightarrow> b \<notin> h ` {..<n} \<longrightarrow> D b = B b)"

lemma full_recovered:
  assumes e: "entries_ok ls n h" and f: "full ls n h B D" and b: "b < ls \<or> ls + LOGSIZE < b"
  shows "recovered ls D b = B b"
proof -
  have n: "hdr_n (D ls) = int n" and h: "\<forall>j < n. unat (hdr_block (D ls) j) = h j" and D: "\<And>j. j < n \<Longrightarrow> D (ls + 1 + j) = B (h j)"
    using f by (simp_all add: full_def)
  have "recovered ls D = fold (\<lambda>j E. E(h j := D (ls + 1 + j))) [0..<n] D"
    unfolding recovered_def n nat_int by (rule fold_cong) (use h in auto)
  moreover have "fold (\<lambda>j E. E(h j := D (ls + 1 + j))) [0..<n] D b = B b"
  proof (cases "b \<in> h ` {..<n}")
    case True
    then obtain j where j: "j < n" "b = h j" by auto
    have "inj_on h {..<n}" using e by (simp add: entries_ok_def)
    from fold_put_home [OF this j(1)] show ?thesis unfolding j(2) D [OF j(1), symmetric] .
  next
    case False
    then have "\<forall>j < n. h j \<noteq> b" by auto
    moreover have "D b = B b" using f b False unfolding full_def by blast
    ultimately show ?thesis by (simp only: fold_put_other)
  qed
  ultimately show ?thesis by simp
qed

lemma full_safe:
  assumes "entries_ok ls n h" and "full ls n h B D"
  shows "safe ls A B D"
proof -
  have "hdr_n (D ls) = int n" and h: "\<And>j. j < n \<Longrightarrow> unat (hdr_block (D ls) j) = h j" using assms(2) by (simp_all add: full_def)
  moreover have "inj_on (\<lambda>j. unat (hdr_block (D ls) j)) {..<n} = inj_on h {..<n}" by (rule inj_on_cong) (simp add: h)
  ultimately have "log_ok ls D" using assms(1) by (simp add: log_ok_def entries_ok_def h)
  then show ?thesis using full_recovered [OF assms] by (simp add: safe_def data_eq_def)
qed

lemma log_ok_full: "log_ok ls D \<Longrightarrow> full ls (nat (hdr_n (D ls))) (\<lambda>j. unat (hdr_block (D ls) j)) (recovered ls D) D"
  unfolding full_def
proof (intro conjI allI impI)
  let ?n = "nat (hdr_n (D ls))" and ?h = "\<lambda>j. unat (hdr_block (D ls) j)"
  assume l: "log_ok ls D"
  show "hdr_n (D ls) = int ?n" using l by (simp add: log_ok_def)
  show "D (ls + 1 + j) = recovered ls D (?h j)" if "j < ?n" for j
    using fold_put_home [of ?h ?n j "\<lambda>j. D (ls + 1 + j)" D] that l by (simp add: recovered_def log_ok_def entries_ok_def)
  show "D b = recovered ls D b" if "b \<notin> ?h ` {..<?n}" for b
  proof -
    have "\<forall>j < ?n. ?h j \<noteq> b" using that by auto
    from fold_put_other [OF this, of "\<lambda>j. D (ls + 1 + j)" D] show ?thesis by (simp add: recovered_def)
  qed
qed simp

section \<open>The phases of a commit\<close>

text \<open>The blocks of \<open>S\<close> have one reference each, the others none.\<close>

definition pins :: "nat set \<Rightarrow> nat \<Rightarrow> nat" where
  "pins S b = (if b \<in> S then 1 else 0)"

abbreviation home :: "klog \<Rightarrow> nat \<Rightarrow> nat" where "home l j \<equiv> unat (lh_block l j)"

abbreviation logged :: "klog \<Rightarrow> nat" where "logged l \<equiv> nat (lh_n l)"

definition log_geom :: "nat \<Rightarrow> u32 \<Rightarrow> klog \<Rightarrow> bool" where
  "log_geom ls dev l \<longleftrightarrow> of_int (log_dev l) = dev \<and> log_start l = int ls \<and> ls + LOGSIZE < 2 ^ 31 \<and> 0 \<le> lh_n l \<and>
     entries_ok ls (logged l) (home l)"

text \<open>The blocks of the entries in \<open>J\<close> are pinned, nothing is locked, and nothing else is referenced.\<close>

definition pinned :: "nat \<Rightarrow> u32 \<Rightarrow> nat set \<Rightarrow> cst \<Rightarrow> bool" where
  "pinned ls dev J s \<longleftrightarrow> log_geom ls dev (cG s) \<and> J \<subseteq> {..<logged (cG s)} \<and> cL s = (\<lambda>_. None) \<and> cR s = pins (home (cG s) ` J) \<and>
     (\<forall>b. b \<notin> home (cG s) ` J \<longrightarrow> cV s b = cD s b)"

lemma home_okI: "log_geom ls dev l \<Longrightarrow> j < logged l \<Longrightarrow> home_ok ls l j"
  by (simp add: log_geom_def entries_ok_def home_ok_def)

lemma home_not_log:
  assumes "log_geom ls dev l" and "i < logged l" and "J \<subseteq> {..<logged l}"
  shows "ls + 1 + i \<notin> home l ` J"
proof
  assume "ls + 1 + i \<in> home l ` J"
  then obtain j where j: "j < logged l" "home l j = ls + 1 + i" using assms(3) by auto
  then show False using home_okI [OF assms(1) j(1)] assms(1,2) by (simp add: home_ok_def log_geom_def entries_ok_def)
qed

lemma pinned_log_at:
  assumes "pinned ls dev J s"
  shows "log_at ls dev s"
proof -
  let ?S = "home (cG s) ` J"
  have g: "log_geom ls dev (cG s)" and J: "J \<subseteq> {..<logged (cG s)}" and R: "cR s = pins ?S" using assms by (simp_all add: pinned_def)
  have n: "logged (cG s) < LOGSIZE" using g by (simp add: log_geom_def entries_ok_def)
  have S: "{b. cR s b \<noteq> 0} = ?S" by (auto simp: R pins_def)
  have f: "finite J" using J finite_subset by blast
  have "card ?S \<le> card J" using f by (rule card_image_le)
  also have "card J \<le> logged (cG s)" using card_mono [OF _ J] by simp
  finally have c: "card ?S < NBUF" using n by simp
  have "cR s (ls + i) = 0" if "i \<le> LOGSIZE" for i
    using home_okI [OF g] J that by (fastforce simp: R pins_def home_ok_def)
  then show ?thesis using assms g n c f by (simp add: log_at_def pinned_def log_geom_def S) (simp add: R pins_def)
qed

definition write_log_state :: "nat \<Rightarrow> klog \<Rightarrow> nat \<Rightarrow> cst \<Rightarrow> cst" where
  "write_log_state ls l i = fold (\<lambda>j. c_copy (home l j) (ls + 1 + j)) [0..<i]"

definition install_state :: "bool \<Rightarrow> nat \<Rightarrow> klog \<Rightarrow> nat \<Rightarrow> cst \<Rightarrow> cst" where
  "install_state rec ls l i = fold (\<lambda>j. c_install rec (ls + 1 + j) (home l j)) [0..<i]"

text \<open>
  While the blocks are copied to the log the medium does not change outside it, and the header still says
  that it is empty.
\<close>

lemma write_log_inv:
  assumes "pinned ls dev {..<logged (cG s)} s" and "i \<le> logged (cG s)"
  defines "s' \<equiv> write_log_state ls (cG s) i s"
  shows "cG s' = cG s" and "pinned ls dev {..<logged (cG s)} s'" and "cD s' ls = cD s ls" and "cV s' ls = cV s ls"
    and "b < ls \<or> ls + LOGSIZE < b \<Longrightarrow> cD s' b = cD s b \<and> cV s' b = cV s b" and "j < i \<Longrightarrow> cD s' (ls + 1 + j) = cV s (home (cG s) j)"
proof -
  let ?l = "cG s"
  have g: "log_geom ls dev ?l" using assms(1) by (simp add: pinned_def)
  have "cG s' = cG s \<and> pinned ls dev {..<logged ?l} s' \<and> cD s' ls = cD s ls \<and> cV s' ls = cV s ls \<and>
    (\<forall>b. b < ls \<or> ls + LOGSIZE < b \<longrightarrow> cD s' b = cD s b \<and> cV s' b = cV s b) \<and> (\<forall>j < i. cD s' (ls + 1 + j) = cV s (home ?l j))"
    unfolding s'_def using assms(2)
  proof (induction i)
    case 0
    then show ?case using assms(1) by (simp add: write_log_state_def)
  next
    case (Suc i)
    let ?t = "write_log_state ls ?l i s"
    have e: "write_log_state ls ?l (Suc i) s = c_copy (home ?l i) (ls + 1 + i) ?t" by (simp add: write_log_state_def)
    have h: "home ?l i < ls \<or> ls + LOGSIZE < home ?l i" using home_okI [OF g, of i] Suc.prems by (simp add: home_ok_def)
    have n: "logged ?l < LOGSIZE" using g by (simp add: log_geom_def entries_ok_def)
    have m: "ls + 1 + i \<notin> home ?l ` {..<logged ?l}" using Suc.prems by (intro home_not_log [OF g]) auto
    show ?case unfolding e
      using Suc.IH Suc.prems h n m by (auto simp: c_copy_def pinned_def less_Suc_eq)
  qed
  then show "cG s' = cG s" and "pinned ls dev {..<logged ?l} s'" and "cD s' ls = cD s ls" and "cV s' ls = cV s ls"
    and "b < ls \<or> ls + LOGSIZE < b \<Longrightarrow> cD s' b = cD s b \<and> cV s' b = cV s b" and "j < i \<Longrightarrow> cD s' (ls + 1 + j) = cV s (home ?l j)"
    by blast+
qed

text \<open>While the blocks are installed the medium recovers to the same contents.\<close>

lemma pins_remove:
  assumes "inj_on h {..<n}" and "i < n"
  shows "(pins (h ` {i..<n}))(h i := pins (h ` {i..<n}) (h i) - 1) = pins (h ` {Suc i..<n})"
proof
  have "h i \<notin> h ` {Suc i..<n}" using assms by (auto dest: inj_onD [where y = i])
  moreover have "h ` {i..<n} = insert (h i) (h ` {Suc i..<n})" unfolding image_insert [symmetric] using assms(2) by (intro arg_cong [where f = "image h"]) auto
  ultimately show "((pins (h ` {i..<n}))(h i := pins (h ` {i..<n}) (h i) - 1)) b = pins (h ` {Suc i..<n}) b" for b
    by (simp add: pins_def)
qed

lemma full_install:
  assumes "entries_ok ls n h" and "full ls n h B D" and "i < n" and "d = B (h i)"
  shows "full ls n h B (D(h i := d))"
proof -
  have h: "h i < ls \<or> ls + LOGSIZE < h i" and n: "n < LOGSIZE" using assms(1,3) by (simp_all add: entries_ok_def)
  have "ls + 1 + j \<noteq> h i" if "j < n" for j using h n that by auto
  then show ?thesis using assms(2,3) h by (auto simp: full_def)
qed

lemma install_inv:
  assumes "pinned ls dev (if rec then {} else {..<logged (cG s)}) s" and "i \<le> logged (cG s)"
    and "full ls (logged (cG s)) (home (cG s)) B (cD s)"
  defines "s' \<equiv> install_state rec ls (cG s) i s"
  shows "cG s' = cG s" and "pinned ls dev (if rec then {} else {i..<logged (cG s)}) s'"
    and "full ls (logged (cG s)) (home (cG s)) B (cD s')" and "j < i \<Longrightarrow> cD s' (home (cG s) j) = B (home (cG s) j)"
proof -
  let ?l = "cG s" and ?n = "logged (cG s)" and ?h = "home (cG s)"
  have g: "log_geom ls dev ?l" using assms(1) by (simp add: pinned_def)
  then have e: "entries_ok ls ?n ?h" by (simp add: log_geom_def)
  have "cG s' = cG s \<and> pinned ls dev (if rec then {} else {i..<?n}) s' \<and> full ls ?n ?h B (cD s') \<and> (\<forall>j < i. cD s' (?h j) = B (?h j))"
    unfolding s'_def using assms(2)
  proof (induction i)
    case 0
    then show ?case using assms(1,3) by (cases rec) (simp_all add: install_state_def lessThan_atLeast0)
  next
    case (Suc i)
    let ?t = "install_state rec ls ?l i s"
    have ih: "cG ?t = ?l" "pinned ls dev (if rec then {} else {i..<?n}) ?t" "full ls ?n ?h B (cD ?t)" "\<forall>j < i. cD ?t (?h j) = B (?h j)"
      using Suc by simp_all
    have i: "i < ?n" using Suc.prems by simp
    have s: "install_state rec ls ?l (Suc i) s = c_install rec (ls + 1 + i) (?h i) ?t" by (simp add: install_state_def)
    have "ls + 1 + i \<notin> ?h ` (if rec then {} else {i..<?n})" by (rule home_not_log [OF g i]) auto
    then have "cV ?t (ls + 1 + i) = cD ?t (ls + 1 + i)" using ih(2) unfolding pinned_def ih(1) by blast
    also have "\<dots> = B (?h i)" using ih(3) i by (simp add: full_def)
    finally have v: "cV ?t (ls + 1 + i) = B (?h i)" .
    have inj: "inj_on ?h {..<?n}" using e by (simp add: entries_ok_def)
    have R: "cR (install_state rec ls ?l (Suc i) s) = pins (?h ` (if rec then {} else {Suc i..<?n}))"
      using ih(1,2) pins_remove [OF inj i] unfolding s c_install_simps pinned_def by (cases rec) simp_all
    have f: "full ls ?n ?h B (cD (install_state rec ls ?l (Suc i) s))"
      using full_install [OF e ih(3) i v] unfolding s c_install_simps by simp
    have d: "\<forall>j < Suc i. cD (install_state rec ls ?l (Suc i) s) (?h j) = B (?h j)"
      using ih(4) v unfolding s c_install_simps by (auto simp: less_Suc_eq)
    have p: "pinned ls dev (if rec then {} else {Suc i..<?n}) (install_state rec ls ?l (Suc i) s)"
      unfolding pinned_def
    proof (intro conjI allI impI)
      show "(if rec then {} else {Suc i..<?n}) \<subseteq> {..<logged (cG (install_state rec ls ?l (Suc i) s))}"
        using ih(1) unfolding s c_install_simps by (cases rec) auto
    next
      fix b assume b: "b \<notin> home (cG (install_state rec ls ?l (Suc i) s)) ` (if rec then {} else {Suc i..<?n})"
      have "{i..<?n} \<subseteq> insert i {Suc i..<?n}" by auto
      then have "b \<notin> ?h ` (if rec then {} else {i..<?n})" if "b \<noteq> ?h i" using b that ih(1) unfolding s c_install_simps by (cases rec) auto
      then show "cV (install_state rec ls ?l (Suc i) s) b = cD (install_state rec ls ?l (Suc i) s) b"
        using ih(2) unfolding pinned_def ih(1) s c_install_simps by auto
    qed (use ih(1,2) R in \<open>simp_all add: pinned_def s\<close>)
    have "cG (install_state rec ls ?l (Suc i) s) = ?l" by (simp add: s ih(1))
    then show ?case using f d p by blast
  qed
  then show "cG s' = cG s" and "pinned ls dev (if rec then {} else {i..<?n}) s'" and "full ls ?n ?h B (cD s')"
    and "j < i \<Longrightarrow> cD s' (?h j) = B (?h j)" by blast+
qed

lemma loop_done:
  assumes "cG s' = cG s" and "0 \<le> lh_n (cG s)"
  shows "crash_ok t 0 (cv p dev s') (write_log_body (int (logged (cG s)))) (\<lambda>r k. r = Inr () \<and> cv p dev s' k) C"
    and "crash_ok t 0 (cv p dev s') (install_body rec (int (logged (cG s)))) (\<lambda>r k. r = Inr () \<and> cv p dev s' k) C"
  using assms unfolding write_log_body_def install_body_def by (intro crash_klog, simp add: crash_ret)+

lemma log_rounds: "log_geom ls dev l \<Longrightarrow> logged l < INT_ROUNDS"
  by (simp add: log_geom_def entries_ok_def)

lemma crash_write_log:
  assumes t: "disk_serves p t" and s: "pinned ls dev {..<logged (cG s)} s" and e: "hdr_n (cD s ls) = 0"
  shows "crash_ok t (3 * logged (cG s)) (cv p dev s) write_log (\<lambda>_. cv p dev (write_log_state ls (cG s) (logged (cG s)) s))
     (\<lambda>k. safe ls (cD s) B (blk (disk k)))"
proof -
  let ?l = "cG s" and ?n = "logged (cG s)"
  let ?I = "\<lambda>i. cv p dev (write_log_state ls ?l i s)"
  have g: "log_geom ls dev ?l" using s by (simp add: pinned_def)
  have "crash_ok t (3 * ?n) (?I 0) (kiter INT_ROUNDS write_log_body 0) (\<lambda>_. ?I ?n) (\<lambda>k. safe ls (cD s) B (blk (disk k)))"
  proof (rule crash_loop)
    fix i assume i: "i < ?n"
    let ?s = "write_log_state ls ?l i s"
    have v: "cG ?s = ?l" "pinned ls dev {..<logged (cG s)} ?s" "cD ?s ls = cD s ls" "\<And>b. b < ls \<or> ls + LOGSIZE < b \<Longrightarrow> cD ?s b = cD s b"
      using write_log_inv [OF s, of i] i by simp_all
    have Z: "safe ls (cD s) B (cD ?s)" by (rule safe_empty) (use v(3,4) e in \<open>simp_all add: data_eq_def\<close>)
    have "cR ?s (home ?l i) = 1" using v(1,2) i by (simp add: pinned_def pins_def)
    from write_log_round [where Z = "safe ls (cD s) B", OF t pinned_log_at [OF v(2)] _ refl _ _ Z, unfolded v(1), OF i home_okI [OF g i] this]
    show "crash_ok t 3 (?I i) (write_log_body (int i)) (\<lambda>r k. r = Inl (int i + 1) \<and> ?I (Suc i) k) (\<lambda>k. safe ls (cD s) B (blk (disk k)))"
      by (simp add: write_log_state_def)
  next
    show "crash_ok t 0 (?I ?n) (write_log_body (int ?n)) (\<lambda>r k. r = Inr () \<and> ?I ?n k) (\<lambda>k. safe ls (cD s) B (blk (disk k)))"
      using g by (intro loop_done write_log_inv [OF s]) (simp_all add: log_geom_def)
  qed (rule log_rounds [OF g])
  then show ?thesis by (simp add: write_log_iter write_log_state_def)
qed

lemma crash_install:
  assumes t: "disk_serves p t" and s: "pinned ls dev (if rec then {} else {..<logged (cG s)}) s" and f: "full ls (logged (cG s)) (home (cG s)) B (cD s)"
  shows "crash_ok t (3 * logged (cG s)) (cv p dev s) (install_trans rec) (\<lambda>_. cv p dev (install_state rec ls (cG s) (logged (cG s)) s))
     (\<lambda>k. safe ls A B (blk (disk k)))"
proof -
  let ?l = "cG s" and ?n = "logged (cG s)"
  let ?I = "\<lambda>i. cv p dev (install_state rec ls ?l i s)"
  have g: "log_geom ls dev ?l" using s by (simp add: pinned_def)
  then have e: "entries_ok ls ?n (home ?l)" by (simp add: log_geom_def)
  have "crash_ok t (3 * ?n) (?I 0) (kiter INT_ROUNDS (install_body rec) 0) (\<lambda>_. ?I ?n) (\<lambda>k. safe ls A B (blk (disk k)))"
  proof (rule crash_loop)
    fix i assume i: "i < ?n"
    let ?s = "install_state rec ls ?l i s"
    have v: "cG ?s = ?l" "pinned ls dev (if rec then {} else {i..<?n}) ?s" "full ls ?n (home ?l) B (cD ?s)"
      using install_inv [OF s _ f, of i] i by simp_all
    have R: "if rec then Suc (card {n. cR ?s n \<noteq> 0}) < NBUF else cR ?s (home ?l i) = 1"
      using v(1,2) i by (cases rec) (simp_all add: pinned_def pins_def)
    from install_round [where Z = "safe ls A B", OF t pinned_log_at [OF v(2)] _ refl _ _ full_safe [OF e v(3)], unfolded v(1), OF i home_okI [OF g i] R]
    show "crash_ok t 3 (?I i) (install_body rec (int i)) (\<lambda>r k. r = Inl (int i + 1) \<and> ?I (Suc i) k) (\<lambda>k. safe ls A B (blk (disk k)))"
      by (simp add: install_state_def)
  next
    show "crash_ok t 0 (?I ?n) (install_body rec (int ?n)) (\<lambda>r k. r = Inr () \<and> ?I ?n k) (\<lambda>k. safe ls A B (blk (disk k)))"
      using g by (intro loop_done install_inv [OF s _ f]) (simp_all add: log_geom_def)
  qed (rule log_rounds [OF g])
  then show ?thesis by (simp add: install_trans_iter install_state_def)
qed

text \<open>The log is empty, in memory and on the medium, and outside it the medium is \<open>B\<close>.\<close>

definition clean :: "nat \<Rightarrow> u32 \<Rightarrow> (nat \<Rightarrow> u8 list) \<Rightarrow> cst \<Rightarrow> bool" where
  "clean ls dev B s \<longleftrightarrow> pinned ls dev {} s \<and> lh_n (cG s) = 0 \<and> hdr_n (cD s ls) = 0 \<and> data_eq ls (cD s) B"

text \<open>The end of \<open>commit\<close> and of \<open>recover_from_log\<close>: install, and erase the header.\<close>

definition finish_state :: "bool \<Rightarrow> nat \<Rightarrow> cst \<Rightarrow> cst" where
  "finish_state rec ls s = (let s' = install_state rec ls (cG s) (logged (cG s)) s in c_head ls (s'\<lparr>cG := (cG s')\<lparr>lh_n := 0\<rparr>\<rparr>))"

lemma crash_finish:
  assumes t: "disk_serves p t" and s: "pinned ls dev (if rec then {} else {..<logged (cG s)}) s" and f: "full ls (logged (cG s)) (home (cG s)) B (cD s)"
  shows "crash_ok t (3 * logged (cG s) + 2) (cv p dev s) (kseq [install_trans rec, atom (upd_klog (\<lambda>l. l\<lparr>lh_n := 0\<rparr>)), write_head])
     (\<lambda>_. cv p dev (finish_state rec ls s)) (\<lambda>k. safe ls A B (blk (disk k)))"
    and "clean ls dev B (finish_state rec ls s)" and "cG (finish_state rec ls s) = (cG s)\<lparr>lh_n := 0\<rparr>"
proof -
  let ?n = "logged (cG s)" and ?h = "home (cG s)" and ?s = "install_state rec ls (cG s) (logged (cG s)) s"
  let ?z = "?s\<lparr>cG := (cG ?s)\<lparr>lh_n := 0\<rparr>\<rparr>"
  note v = install_inv [OF s le_refl f]
  have e: "entries_ok ls ?n ?h" using s by (simp add: pinned_def log_geom_def)
  have p: "pinned ls dev {} ?s" using v(2) by (cases rec) simp_all
  then have p0: "pinned ls dev {} ?z" by (simp add: pinned_def log_geom_def entries_ok_def)
  have "crash_ok t (3 * ?n + (0 + (2 + 0))) (cv p dev s) (kseq [install_trans rec, atom (upd_klog (\<lambda>l. l\<lparr>lh_n := 0\<rparr>)), write_head])
     (\<lambda>_. cv p dev (c_head ls ?z)) (\<lambda>k. safe ls A B (blk (disk k)))"
    by (rule crash_seq [OF crash_install [OF t s f]], rule crash_seq [OF crash_updlog],
        rule crash_seq [OF crash_write_head [where Z = "safe ls A B", OF t pinned_log_at [OF p0]]])
      (use full_safe [OF e v(3)] in \<open>simp_all add: crash_seq_Nil\<close>)
  then show "crash_ok t (3 * ?n + 2) (cv p dev s) (kseq [install_trans rec, atom (upd_klog (\<lambda>l. l\<lparr>lh_n := 0\<rparr>)), write_head])
     (\<lambda>_. cv p dev (finish_state rec ls s)) (\<lambda>k. safe ls A B (blk (disk k)))" by (simp add: finish_state_def Let_def)
  have d: "cD ?s b = B b" if "b < ls \<or> ls + LOGSIZE < b" for b
  proof (cases "b \<in> ?h ` {..<?n}")
    case False
    then show ?thesis using v(3) that unfolding full_def by blast
  qed (use v(4) in auto)
  have g0: "cG ?z = (cG s)\<lparr>lh_n := 0\<rparr>" by (simp add: v(1))
  then show G: "cG (finish_state rec ls s) = (cG s)\<lparr>lh_n := 0\<rparr>" by (simp add: finish_state_def Let_def c_head_def)
  have "pinned ls dev {} (c_head ls ?z)" using p0 by (simp add: pinned_def c_head_def)
  moreover have "hdr_n (cD (c_head ls ?z) ls) = 0" by (simp add: c_head_def head_list_n)
  moreover have "data_eq ls (cD (c_head ls ?z)) B" using d by (simp add: data_eq_def c_head_def)
  ultimately show "clean ls dev B (finish_state rec ls s)" by (simp add: clean_def finish_state_def Let_def c_head_def)
qed

text \<open>A transaction whose blocks are pinned, with an empty log on the medium.\<close>

definition transaction :: "nat \<Rightarrow> u32 \<Rightarrow> cst \<Rightarrow> bool" where
  "transaction ls dev s \<longleftrightarrow> pinned ls dev {..<logged (cG s)} s \<and> hdr_n (cD s ls) = 0"

lemma write_log_full:
  assumes "transaction ls dev s"
  defines "s' \<equiv> c_head ls (write_log_state ls (cG s) (logged (cG s)) s)"
  shows "full ls (logged (cG s)) (home (cG s)) (cV s) (cD s')" and "pinned ls dev {..<logged (cG s)} s'" and "cG s' = cG s"
proof -
  let ?n = "logged (cG s)" and ?h = "home (cG s)" and ?w = "write_log_state ls (cG s) (logged (cG s)) s"
  have s: "pinned ls dev {..<?n} s" using assms(1) by (simp add: transaction_def)
  note v = write_log_inv [OF s le_refl]
  have n: "0 \<le> lh_n (cG s)" "lh_n (cG s) \<le> int LOGSIZE" using s by (auto simp: pinned_def log_geom_def entries_ok_def)
  have ls: "ls \<notin> ?h ` {..<?n}" using s by (force simp: pinned_def log_geom_def entries_ok_def)
  show "cG s' = cG s" by (simp add: s'_def c_head_def v(1))
  show "pinned ls dev {..<?n} s'" using v(1,2) ls by (simp add: s'_def c_head_def pinned_def)
  have "cD s' b = cV s b" if "b < ls \<or> ls + LOGSIZE < b" "b \<notin> ?h ` {..<?n}" for b
    using v(5) [OF that(1)] s that by (auto simp: s'_def c_head_def pinned_def)
  then show "full ls ?n ?h (cV s) (cD s')"
    using v(1,6) n by (simp add: full_def s'_def c_head_def head_list_n head_list_block)
qed

definition commit_state :: "nat \<Rightarrow> cst \<Rightarrow> cst" where
  "commit_state ls s = (if lh_n (cG s) = 0 then s else finish_state False ls (c_head ls (write_log_state ls (cG s) (logged (cG s)) s)))"

lemma crash_commit:
  assumes t: "disk_serves p t" and s: "transaction ls dev s"
  shows "crash_ok t (6 * logged (cG s) + 4) (cv p dev s) commit (\<lambda>_. cv p dev (commit_state ls s)) (\<lambda>k. safe ls (cD s) (cV s) (blk (disk k)))"
    and "clean ls dev (cV s) (commit_state ls s)" and "cG (commit_state ls s) = (cG s)\<lparr>lh_n := 0\<rparr>"
proof -
  let ?n = "logged (cG s)" and ?w = "write_log_state ls (cG s) (logged (cG s)) s" and ?Z = "safe ls (cD s) (cV s)"
  have p: "pinned ls dev {..<?n} s" and e: "hdr_n (cD s ls) = 0" using s by (simp_all add: transaction_def)
  note v = write_log_inv [OF p le_refl] and f = write_log_full [OF s]
  have n: "0 \<le> lh_n (cG s)" using p by (simp add: pinned_def log_geom_def)
  have Z: "?Z (cD ?w)" by (rule safe_empty) (use v(3,5) e in \<open>simp_all add: data_eq_def\<close>)
  have P: "pinned ls dev (if False then {} else {..<logged (cG (c_head ls ?w))}) (c_head ls ?w)" using f(2,3) by simp
  have F: "full ls (logged (cG (c_head ls ?w))) (home (cG (c_head ls ?w))) (cV s) (cD (c_head ls ?w))" using f(1,3) by simp
  note fin = crash_finish [OF t P F, unfolded f(3)]
  have "lh_n (cG s) = 0 \<Longrightarrow> clean ls dev (cV s) s" using p e by (simp add: clean_def pinned_def data_eq_def)
  then show "clean ls dev (cV s) (commit_state ls s)" using fin(2) by (simp add: commit_state_def)
  show "cG (commit_state ls s) = (cG s)\<lparr>lh_n := 0\<rparr>" using fin(3) by (simp add: commit_state_def)
  show "crash_ok t (6 * ?n + 4) (cv p dev s) commit (\<lambda>_. cv p dev (commit_state ls s)) (\<lambda>k. ?Z (blk (disk k)))"
  proof (cases "lh_n (cG s) = 0")
    case True
    have "crash_ok t 0 (cv p dev s) (kret ()) (\<lambda>_. cv p dev s) (\<lambda>k. ?Z (blk (disk k)))" by (rule crash_ret)
    then show ?thesis unfolding commit_def using True
      by (intro crash_klog) (auto simp: kwhen_def commit_state_def elim: crash_conseq)
  next
    case False
    have "crash_ok t (3 * ?n + (2 + (3 * ?n + 2))) (cv p dev s) (kseq [write_log, write_head, install_trans False, atom (upd_klog (\<lambda>l. l\<lparr>lh_n := 0\<rparr>)), write_head])
       (\<lambda>_. cv p dev (commit_state ls s)) (\<lambda>k. ?Z (blk (disk k)))"
      by (rule crash_seq [OF crash_write_log [OF t p e]], rule crash_seq [OF crash_write_head [where Z = ?Z, OF t pinned_log_at [OF v(2)] Z]])
        (use fin(1) False in \<open>simp add: commit_state_def\<close>)
    then show ?thesis unfolding commit_def using False n
      by (intro crash_klog) (auto simp: kwhen_def elim: crash_conseq)
  qed
qed

section \<open>Recovery\<close>

definition head_log :: "u8 list \<Rightarrow> klog \<Rightarrow> klog" where
  "head_log xs l = l\<lparr>lh_n := hdr_n xs, lh_block := (\<lambda>i. if i < nat (hdr_n xs) then hdr_block xs i else lh_block l i)\<rparr>"

lemma kfor_upd_klog: "kfor is (\<lambda>i. upd_klog (f i)) = upd_klog (fold f is)"
proof (rule ext)
  show "kfor is (\<lambda>i. upd_klog (f i)) k = upd_klog (fold f is) k" for k
    by (induction "is" arbitrary: k) (simp_all add: upd_klog_def run_simps)
qed

lemma fold_lh_block:
  "fold (\<lambda>i l. l\<lparr>lh_block := (lh_block l)(i := g i)\<rparr>) [0..<n] l = l\<lparr>lh_block := (\<lambda>i. if i < n then g i else lh_block l i)\<rparr>"
proof (induction n)
  case (Suc n)
  then show ?case by (simp add: fun_eq_iff less_Suc_eq)
qed simp

lemma crash_read_head:
  assumes t: "disk_serves p t" and p: "pinned ls dev {} s" and ok: "log_ok ls (cD s)" and Z: "Z (cD s)"
  shows "crash_ok t 1 (cv p dev s) read_head (\<lambda>_. cv p dev (s\<lparr>cG := head_log (cD s ls) (cG s)\<rparr>)) (\<lambda>k. Z (blk (disk k)))"
proof -
  note l = log_atD [OF pinned_log_at [OF p]]
  let ?C = "\<lambda>k. Z (blk (disk k))" and ?n = "hdr_n (cD s ls)" and ?g = "(cG s)\<lparr>lh_n := hdr_n (cD s ls)\<rparr>"
  have nb: "ls = unat (of_int (log_start (cG s)) :: u32)" using log_block_no [OF l(3), of 0] l(2) by simp
  have V: "cV s ls = cD s ls" using l(8) [of 0] by (simp add: l(11))
  have n: "nat ?n < 255" using ok by (simp add: log_ok_def entries_ok_def)
  have r1: "crash_ok t 1 (cv p dev s) (bread dev (of_int (log_start (cG s)))) (\<lambda>b. cv p dev (c_read ls b s)) ?C"
    by (rule serves_read [where Z = Z, OF t nb]) (use l(3,6,7,9,10) Z in simp_all)
  have blocks: "fold (\<lambda>i l. l\<lparr>lh_block := (lh_block l)(i := lh_get_block (b_data x) i)\<rparr>) [0..<nat ?n] ?g = head_log (cD s ls) (cG s)"
    if "bdata x = cD s ls" for x
    using n by (simp add: fold_lh_block head_log_def hdr_block_bdata that fun_eq_iff cong: if_cong)
  have r4: "crash_ok t 0 (cv p dev ((c_read ls b s)\<lparr>cG := g\<rparr>)) (atom (brelse b)) (\<lambda>_. cv p dev (c_release ls ((c_read ls b s)\<lparr>cG := g\<rparr>))) ?C" for b g
    by (rule crash_release) (use V in \<open>simp_all add: c_defs\<close>)
  have L: "cL (c_read ls b s) ls = Some b" for b by (simp add: c_defs)
  have "crash_ok t (1 + (0 + (0 + 0))) (cv p dev s) read_head (\<lambda>_. cv p dev (s\<lparr>cG := head_log (cD s ls) (cG s)\<rparr>)) ?C"
    unfolding read_head_def kfor_upd_klog
    apply (rule crash_klog)
    apply (simp only: l(1))
    apply (rule crash_bind [OF r1])
    apply (rule crash_getbuf [OF L])
    apply (rule crash_bind [OF crash_updlog])
    apply (rule crash_bind [OF crash_updlog])
    apply (rule crash_conseq [OF r4])
    apply (simp_all add: hdr_n_bdata c_read_def c_release_def V blocks l(6) fun_upd_idem)
    done
  then show ?thesis by simp
qed

definition recover_state :: "nat \<Rightarrow> cst \<Rightarrow> cst" where
  "recover_state ls s = finish_state True ls (s\<lparr>cG := head_log (cD s ls) (cG s)\<rparr>)"

lemma crash_recover:
  assumes t: "disk_serves p t" and p: "pinned ls dev {} s" and ok: "log_ok ls (cD s)"
  shows "crash_ok t (3 * nat (hdr_n (cD s ls)) + 3) (cv p dev s) recover_from_log (\<lambda>_. cv p dev (recover_state ls s))
      (\<lambda>k. safe ls A (recovered ls (cD s)) (blk (disk k)))"
    and "clean ls dev (recovered ls (cD s)) (recover_state ls s)"
proof -
  let ?s = "s\<lparr>cG := head_log (cD s ls) (cG s)\<rparr>" and ?n = "nat (hdr_n (cD s ls))" and ?h = "\<lambda>j. unat (hdr_block (cD s ls) j)"
  let ?Z = "safe ls A (recovered ls (cD s))"
  have n: "0 \<le> hdr_n (cD s ls)" and e: "entries_ok ls ?n ?h" using ok by (simp_all add: log_ok_def)
  have f: "full ls ?n ?h (recovered ls (cD s)) (cD s)" by (rule log_ok_full [OF ok])
  have h: "lh_block (head_log (cD s ls) (cG s)) j = hdr_block (cD s ls) j" if "j < ?n" for j using that by (simp add: head_log_def)
  have N: "logged (cG ?s) = ?n" by (simp add: head_log_def)
  have "inj_on (home (cG ?s)) {..<?n} = inj_on ?h {..<?n}" by (rule inj_on_cong) (simp add: h)
  then have "entries_ok ls ?n (home (cG ?s))" using e h by (simp add: entries_ok_def)
  then have P: "pinned ls dev (if True then {} else {..<logged (cG ?s)}) ?s"
    using p n by (simp add: pinned_def log_geom_def N) (simp add: head_log_def)
  have "home (cG ?s) ` {..<?n} = ?h ` {..<?n}" by (rule image_cong [OF refl]) (simp add: h)
  then have F: "full ls (logged (cG ?s)) (home (cG ?s)) (recovered ls (cD s)) (cD ?s)"
    using f unfolding N by (simp add: full_def h)
  note fin = crash_finish [OF t P F, unfolded N]
  show "clean ls dev (recovered ls (cD s)) (recover_state ls s)" using fin(2) by (simp add: recover_state_def)
  have "crash_ok t (1 + (3 * ?n + 2)) (cv p dev s) recover_from_log (\<lambda>_. cv p dev (recover_state ls s)) (\<lambda>k. ?Z (blk (disk k)))"
    unfolding recover_from_log_def recover_state_def
    by (rule crash_seq [OF crash_read_head [where Z = ?Z, OF t p ok] fin(1)]) (rule full_safe [OF e f])
  then show "crash_ok t (3 * ?n + 3) (cv p dev s) recover_from_log (\<lambda>_. cv p dev (recover_state ls s)) (\<lambda>k. ?Z (blk (disk k)))"
    by (simp add: numeral_3_eq_3)
qed

text \<open>
  A kernel that has come up and is about to recover: the cache is empty of references, the log's geometry is
  set and its header in memory is zero. One crash during recovery relates the medium before and after.
\<close>

definition booted :: "nat \<Rightarrow> u32 \<Rightarrow> nat \<Rightarrow> kernel \<Rightarrow> bool" where
  "booted p dev ls k \<longleftrightarrow> (\<exists>s. cv p dev s k \<and> pinned ls dev {} s)"

inductive recovery_crash :: "u32 \<Rightarrow> nat \<Rightarrow> bytes \<Rightarrow> bytes \<Rightarrow> bool" for dev ls where
  crash: "booted p dev ls k \<Longrightarrow> disk_serves p t \<Longrightarrow> recover_from_log (k, replicate n t) = Switch (k', rs) \<Longrightarrow>
    recovery_crash dev ls (disk k) (disk k')"

lemma crash_suspended:
  assumes "crash_ok t c P f Q C" and "P k" and "f (k, replicate n t) = Switch (k', rs)"
  shows "C k'"
  using crash_okD [OF assms(1,2), of n] assms(3) by auto

lemma crash_returns:
  assumes "crash_ok t c P f Q C" and "P k" and "c \<le> n"
  obtains x k' n' where "f (k, replicate n t) = Ret x (k', replicate n' t)" and "Q x k'"
  using crash_okD [OF assms(1,2), of n] assms(3) by auto

lemma safe_recovered:
  assumes "safe ls A B D" and "safe ls (recovered ls D) (recovered ls D) E"
  shows "safe ls A B E"
  using assms by (auto simp: safe_def data_eq_def)

lemma recovery_crash_safe:
  assumes "(recovery_crash dev ls)\<^sup>*\<^sup>* D E" and "safe ls A B (blk D)"
  shows "safe ls A B (blk E)"
  using assms
proof (induction rule: rtranclp_induct)
  case (step E F)
  from step.hyps(2) show ?case
  proof cases
    case (crash p k t n k' rs)
    obtain s where s: "cv p dev s k" "pinned ls dev {} s" using crash(3) by (auto simp: booted_def)
    have D: "cD s = blk (disk k)" using cvD(5) [OF s(1)] .
    have ok: "log_ok ls (cD s)" using step crash(1) D by (simp add: safe_def)
    from crash_suspended [OF crash_recover(1) [OF crash(4) s(2) ok, of "recovered ls (cD s)"] s(1) crash(5)]
    have "safe ls (recovered ls (blk E)) (recovered ls (blk E)) (blk F)" using D crash(1,2) by simp
    then show ?thesis using step by (blast intro: safe_recovered)
  qed
qed

end
