(* ===== verification/Transaction.thy ===== *)
theory Transaction
  imports Recovery Inode
begin

text \<open>
  Transactions of the file system: \<open>begin_op\<close>, changes of blocks recorded by \<open>log_write\<close>, \<open>end_op\<close>. The last
  \<open>end_op\<close> commits. The changes are here those of \<open>bzero\<close>.
\<close>

section \<open>Recording a block\<close>

lemma cv_klog: "cv p dev s k \<Longrightarrow> cv p dev (s\<lparr>cG := g\<rparr>) (k\<lparr>klog := g\<rparr>)"
  unfolding cv_def bcache_list_def by (simp add: cbuf_log)

lemma cv_mach: "cv p dev s k \<Longrightarrow> quiet p m \<Longrightarrow> cv p dev s (k\<lparr>mach := m\<rparr>)"
  unfolding cv_def bcache_list_def by simp

definition c_pin :: "nat \<Rightarrow> cst \<Rightarrow> cst" where
  "c_pin n s = s\<lparr>cR := (cR s)(n := cR s n + 1)\<rparr>"

lemma cv_pin:
  assumes k: "cv p dev s k" and L: "cL s n = Some b" and R: "cR s n + 1 < 2 ^ 32"
  shows "cv p dev (c_pin n s) ((upd_bufs b ref_more k)\<lparr>mach := ppm (mach k)\<rparr>)" (is "cv p dev _ ?k")
proof -
  note c = cvD [OF k] and b = cv_locked [OF k L]
  obtain l where l: "bcache_list k l" using c(3) by blast
  have n: "unat (b_blockno (bufs k b)) = n" "b_dev (bufs k b) = dev" using b(2) by (simp_all add: at_block_def)
  have r: "unat (b_refcnt (bufs k b) + 1) = cR s n + 1" using b(3) R by (simp add: unat_word_ariths)
  show ?thesis
  proof (rule cv_upd [OF k b(1), where x = "ref_more (bufs k b)" and n = n])
    show "bcache_list ?k l" using l by (subst bcache_list_upd) (simp_all add: ref_more_def)
    show "cbuf (p_pid (proc k p)) dev (c_pin n s) (ref_more (bufs k b))"
      using b(5-8) n r L by (simp add: cbuf_def Let_def c_pin_def bdata_def ref_more_def)
    show "\<not> at_block dev n (bufs k a)" if "a < NBUF" "a \<noteq> b" for a using b(9) that .
    show "cD (c_pin n s) = blk (disk ?k)" using c(5) by (simp add: c_pin_def)
  qed (use b(2) c(1,2,4,13) n L in \<open>simp_all add: c_pin_def at_block_def ref_more_def\<close>)
qed

text \<open>The search of \<open>log_write\<close> finds the block among the first \<open>n\<close> entries, or stops at \<open>n\<close>.\<close>

lemma log_index_absent: "(\<forall>i \<in> set is. f i \<noteq> b) \<Longrightarrow> log_index f b is n = n"
  by (induction "is") auto

lemma log_index_present: "i \<in> set is \<Longrightarrow> f i = b \<Longrightarrow> log_index f b is n \<in> set is \<and> f (log_index f b is n) = b"
  by (induction "is") auto

definition logs :: "klog \<Rightarrow> u32 \<Rightarrow> bool" where
  "logs l b \<longleftrightarrow> (\<exists>i < logged l. lh_block l i = b)"

definition log_add :: "u32 \<Rightarrow> klog \<Rightarrow> klog" where
  "log_add b l = (if logs l b then l else l\<lparr>lh_block := (lh_block l)(logged l := b), lh_n := lh_n l + 1\<rparr>)"

definition may_log :: "klog \<Rightarrow> bool" where
  "may_log l \<longleftrightarrow> 0 \<le> lh_n l \<and> lh_n l < int LOGSIZE \<and> lh_n l < log_size l - 1 \<and> 1 \<le> log_outstanding l"

lemma log_write_run:
  assumes "quiet p (mach k)" and "may_log (klog k)"
  shows "log_write b k = Ret () (if logs (klog k) (b_blockno (bufs k b)) then k\<lparr>mach := ppm (mach k)\<rparr>
     else (upd_bufs b ref_more k)\<lparr>mach := ppm (mach k), klog := log_add (b_blockno (bufs k b)) (klog k)\<rparr>)"
proof -
  let ?l = "klog k" and ?b = "b_blockno (bufs k b)"
  let ?i = "log_index (lh_block ?l) ?b [0..<logged ?l] (logged ?l)"
  have m: "\<not> (int LOGSIZE \<le> lh_n ?l \<or> log_size ?l - 1 \<le> lh_n ?l)" "\<not> log_outstanding ?l < 1" "0 \<le> lh_n ?l" using assms(2) by (auto simp: may_log_def)
  have f: "free_lock lk (mach k)" for lk using assms(1) by (rule quietD)
  show ?thesis
  proof (cases "logs ?l ?b")
    case True
    then obtain i where i: "i \<in> set [0..<logged ?l]" "lh_block ?l i = ?b" by (auto simp: logs_def)
    have "?i < logged ?l" "lh_block ?l ?i = ?b" using log_index_present [where f = "lh_block ?l", OF i] by auto
    then have "int ?i \<noteq> lh_n ?l" "(lh_block ?l)(?i := ?b) = lh_block ?l" using m(3) by auto
    then show ?thesis using True m f by (simp add: log_write_def Let_def run_simps get_buf_def upd_klog_def kwhen_def)
  next
    case False
    then have "?i = logged ?l" by (intro log_index_absent) (auto simp: logs_def)
    then show ?thesis using False m f
      by (simp add: log_write_def Let_def run_simps get_buf_def upd_klog_def kwhen_def bunpin_run log_add_def upd_bufs_def)
  qed
qed

definition c_log :: "u32 \<Rightarrow> cst \<Rightarrow> cst" where
  "c_log bn s = (if logs (cG s) bn then s else (c_pin (unat bn) s)\<lparr>cG := log_add bn (cG s)\<rparr>)"

lemma crash_log_write:
  assumes "cL s (unat bn) = Some b" and "may_log (cG s)" and "cR s (unat bn) + 1 < 2 ^ 32"
  shows "crash_ok t 0 (cv p dev s) (atom (log_write b)) (\<lambda>_. cv p dev (c_log bn s)) C"
proof (rule crash_atom)
  fix k assume k: "cv p dev s k"
  note c = cvD [OF k]
  have "unat (b_blockno (bufs k b)) = unat bn" using cv_locked(2) [OF k assms(1)] by (simp add: at_block_def)
  then have bn: "b_blockno (bufs k b) = bn" by (rule unsigned_word_eqI)
  have q: "quiet p (ppm (mach k))" using c(1) by simp
  have "cv p dev (c_log bn s) (if logs (klog k) bn then k\<lparr>mach := ppm (mach k)\<rparr>
     else (upd_bufs b ref_more k)\<lparr>mach := ppm (mach k), klog := log_add bn (klog k)\<rparr>)"
    using cv_mach [OF k q] cv_klog [OF cv_pin [OF k assms(1,3)], of "log_add bn (cG s)"] by (simp add: c_log_def c(4))
  then show "\<exists>x k'. log_write b k = Ret x k' \<and> cv p dev (c_log bn s) k'"
    using log_write_run [OF c(1), of b] assms(2) unfolding c(4) bn by blast
qed

text \<open>A block is read, changed, recorded and released.\<close>

definition tx_put :: "u32 \<Rightarrow> u8 list \<Rightarrow> cst \<Rightarrow> cst" where
  "tx_put bn d s = s\<lparr>cV := (cV s)(unat bn := d), cR := (if logs (cG s) bn then cR s else (cR s)(unat bn := 1)), cG := log_add bn (cG s)\<rparr>"

lemma logs_home: "logs l bn \<longleftrightarrow> unat bn \<in> home l ` {..<logged l}"
  by (auto simp: logs_def image_iff) (metis unsigned_word_eqI)

lemma log_add_home:
  assumes "0 \<le> lh_n l"
  shows "home (log_add bn l) ` {..<logged (log_add bn l)} = insert (unat bn) (home l ` {..<logged l})"
proof (cases "logs l bn")
  case False
  then have "logged (log_add bn l) = Suc (logged l)" using assms by (simp add: log_add_def nat_add_distrib)
  moreover have "home (log_add bn l) ` {..<logged l} = home l ` {..<logged l}" using False by (intro image_cong) (simp_all add: log_add_def)
  ultimately show ?thesis using False by (simp add: lessThan_Suc) (simp add: log_add_def)
qed (auto simp: log_add_def logs_home)

lemma log_add_geom:
  assumes g: "log_geom ls dev l" and n: "unat bn < 2 ^ 31" "unat bn < ls \<or> ls + LOGSIZE < unat bn" and room: "logs l bn \<or> lh_n l + 1 < int LOGSIZE"
  shows "log_geom ls dev (log_add bn l)"
proof (cases "logs l bn")
  case False
  let ?l = "log_add bn l"
  have N: "logged ?l = Suc (logged l)" and z: "0 \<le> lh_n l" using False g by (simp_all add: log_add_def log_geom_def nat_add_distrib)
  have h: "home ?l j = (if j = logged l then unat bn else home l j)" for j using False by (simp add: log_add_def)
  have i: "inj_on (home l) {..<logged l}" using g by (simp add: log_geom_def entries_ok_def)
  have "inj_on (home ?l) {..<Suc (logged l)}"
    unfolding lessThan_Suc inj_on_insert using False i by (auto simp: h logs_home inj_on_def)
  moreover have "logged ?l < LOGSIZE" using room False z unfolding N by simp
  ultimately show ?thesis using g n False unfolding log_geom_def entries_ok_def N by (simp add: h less_Suc_eq) (simp add: log_add_def)
qed (use g in \<open>simp add: log_add_def\<close>)

lemma tx_put_pinned:
  assumes p: "pinned ls dev {..<logged (cG s)} s" and n: "unat bn < 2 ^ 31" "unat bn < ls \<or> ls + LOGSIZE < unat bn"
    and room: "logs (cG s) bn \<or> lh_n (cG s) + 1 < int LOGSIZE"
  shows "pinned ls dev {..<logged (cG (tx_put bn d s))} (tx_put bn d s)"
proof -
  let ?l = "log_add bn (cG s)"
  have g: "log_geom ls dev (cG s)" and R: "cR s = pins (home (cG s) ` {..<logged (cG s)})" using p by (simp_all add: pinned_def)
  have z: "0 \<le> lh_n (cG s)" using g by (simp add: log_geom_def)
  have "(if logs (cG s) bn then cR s else (cR s)(unat bn := 1)) = pins (insert (unat bn) (home (cG s) ` {..<logged (cG s)}))"
    unfolding R by (auto simp: pins_def fun_eq_iff logs_home)
  then show ?thesis using p log_add_geom [OF g n room] log_add_home [OF z, of bn] by (auto simp: pinned_def tx_put_def)
qed

section \<open>Clearing a block in a transaction\<close>

definition zero_block :: "u8 list" where
  "zero_block = replicate BSIZE 0"

lemma memset_zero_block: "map (memset d 0 0 BSIZE) [0..<BSIZE] = zero_block"
proof -
  have "map (memset d 0 0 BSIZE) [0..<BSIZE] = map (\<lambda>_. 0) [0..<BSIZE]"
    by (rule map_cong [OF refl]) (simp add: memset_fill fill_def del: upt_rec_numeral)
  then show ?thesis by (simp only: map_replicate_const length_upt zero_block_def diff_zero)
qed

lemma crash_bzero:
  assumes t: "disk_serves p t" and p: "pinned ls dev {..<logged (cG s)} s" and d: "of_int dv = dev" and bn: "bn = of_int bno"
    and n: "unat bn < 2 ^ 31" and m: "may_log (cG s)" and Z: "Z (cD s)"
  shows "crash_ok t 1 (cv p dev s) (bzero dv bno) (\<lambda>_. cv p dev (tx_put bn zero_block s)) (\<lambda>k. Z (blk (disk k)))"
proof -
  note l = log_atD [OF pinned_log_at [OF p]]
  let ?n = "unat bn" and ?C = "\<lambda>k. Z (blk (disk k))"
  let ?s = "\<lambda>b. c_set ?n zero_block (c_read ?n b s)"
  have R: "cR s ?n = (if logs (cG s) bn then 1 else 0)" using p by (simp add: pinned_def pins_def logs_home)
  have r1: "crash_ok t 1 (cv p dev s) (bread dev bn) (\<lambda>b. cv p dev (c_read ?n b s)) ?C"
    by (rule serves_read [where Z = Z, OF t refl n]) (use l(6,7,9,10) Z in simp_all)
  have r2: "crash_ok t 0 (cv p dev (c_read ?n b s)) (atom (upd_buf b (\<lambda>x. x\<lparr>b_data := memset (b_data x) 0 0 BSIZE\<rparr>))) (\<lambda>_. cv p dev (?s b)) ?C" for b
    by (rule crash_set_data [where f = "\<lambda>d. memset d 0 0 BSIZE"])
       (simp_all only: memset_zero_block, simp add: c_defs)
  have r3: "crash_ok t 0 (cv p dev (?s b)) (atom (log_write b)) (\<lambda>_. cv p dev (c_log bn (?s b))) ?C" for b
    by (rule crash_log_write) (use R m in \<open>simp_all add: c_defs\<close>)
  have r4: "crash_ok t 0 (cv p dev (c_log bn (?s b))) (atom (brelse b)) (\<lambda>_. cv p dev (c_release ?n (c_log bn (?s b)))) ?C" for b
    by (cases "logs (cG s) bn"; rule crash_release) (use R in \<open>simp_all add: c_defs c_log_def c_pin_def\<close>)
  have e: "c_release ?n (c_log bn (?s b)) = tx_put bn zero_block s" for b
    using R l(6) by (cases "logs (cG s) bn") (simp_all add: c_defs c_log_def c_pin_def tx_put_def log_add_def fun_upd_idem)
  have "crash_ok t (1 + (0 + (0 + (0 + 0)))) (cv p dev s) (bzero dv bno) (\<lambda>_. cv p dev (tx_put bn zero_block s)) ?C"
    unfolding bzero_def d bn [symmetric]
    by (rule crash_bind [OF r1], rule crash_seq [OF r2], rule crash_seq [OF r3], rule crash_seq [OF r4], rule crash_seq_Nil) (simp only: e)
  then show ?thesis by simp
qed

section \<open>Opening and closing a transaction\<close>

lemma crash_run:
  assumes "\<And>k rs. P k \<Longrightarrow> \<exists>x k'. f (k, rs) = Ret x (k', rs) \<and> Q x k'"
  shows "crash_ok t 0 P f Q C"
proof (rule crash_okI, rule disjI1)
  fix k n assume "P k"
  then show "\<exists>x k' n'. f (k, replicate n t) = Ret x (k', replicate n' t) \<and> Q x k' \<and> n \<le> n' + 0" using assms [of k "replicate n t"] by auto
qed

lemma crash_step:
  assumes "crash_ok t c P' g Q C" and "\<And>k rs. P k \<Longrightarrow> \<exists>k'. P' k' \<and> f (k, rs) = g (k', rs)"
  shows "crash_ok t c P f Q C"
proof (rule crash_okI)
  fix k n assume "P k"
  then obtain k' where "P' k'" "f (k, replicate n t) = g (k', replicate n t)" using assms(2) by blast
  then show "(\<exists>x k'a n'. f (k, replicate n t) = Ret x (k'a, replicate n' t) \<and> Q x k'a \<and> n \<le> n' + c) \<or>
    (\<exists>k' rs. f (k, replicate n t) = Switch (k', rs) \<and> C k' \<and> n < c)" using crash_okD [OF assms(1), of k' n] by simp
qed

definition op_begun :: "klog \<Rightarrow> klog" where
  "op_begun l = l\<lparr>log_outstanding := log_outstanding l + 1\<rparr>"

lemma begin_op_run:
  assumes "quiet p (mach k)" and "\<not> log_committing (klog k)" and "lh_n (klog k) + (log_outstanding (klog k) + 1) * int MAXOPBLOCKS \<le> int LOGSIZE"
  shows "begin_op (k, rs) = Ret () (k\<lparr>klog := op_begun (klog k), mach := ppm (mach k)\<rparr>, rs)"
  using assms(2,3) quietD(1) [OF assms(1)] by (simp add: begin_op_def run_simps upd_klog_def op_begun_def resumptions_def)

lemma crash_begin_op:
  assumes "\<not> log_committing (cG s)" and "lh_n (cG s) + (log_outstanding (cG s) + 1) * int MAXOPBLOCKS \<le> int LOGSIZE"
  shows "crash_ok t 0 (cv p dev s) begin_op (\<lambda>_. cv p dev (s\<lparr>cG := op_begun (cG s)\<rparr>)) C"
proof (rule crash_run)
  fix k rs assume k: "cv p dev s k"
  have "cv p dev (s\<lparr>cG := op_begun (cG s)\<rparr>) (k\<lparr>klog := op_begun (klog k), mach := ppm (mach k)\<rparr>)"
    using cv_mach [OF cv_klog [OF k], of "ppm (mach k)" "op_begun (klog k)"] cvD(1,4) [OF k] by simp
  then show "\<exists>x k'. begin_op (k, rs) = Ret x (k', rs) \<and> cv p dev (s\<lparr>cG := op_begun (cG s)\<rparr>) k'"
    using begin_op_run [OF cvD(1) [OF k], of rs] assms unfolding cvD(4) [OF k] by blast
qed

definition op_ending :: "klog \<Rightarrow> klog" where
  "op_ending l = l\<lparr>log_outstanding := 0, log_committing := True\<rparr>"

definition after_commit :: "(world, unit) kmon" where
  "after_commit = kseq [
     atom (on_mach (acquire LOG_LOCK)),
     atom (upd_klog (\<lambda>l. l\<lparr>log_committing := False\<rparr>)),
     atom (wakeup CH_LOG),
     atom (on_mach (release LOG_LOCK))]"

lemma end_op_run:
  assumes "quiet p (mach k)" and "log_outstanding (klog k) = 1" and "\<not> log_committing (klog k)"
  shows "end_op (k, rs) = kbind commit (\<lambda>_. after_commit) (k\<lparr>klog := op_ending (klog k), mach := ppm (mach k)\<rparr>, rs)"
  using assms(2,3) quietD(1) [OF assms(1)]
  by (simp add: end_op_def run_simps upd_klog_def op_ending_def after_commit_def kwhen_def)

lemma cv_procs: "cv p dev s k \<Longrightarrow> p_pid (P p) = p_pid (proc k p) \<Longrightarrow> cv p dev s (k\<lparr>proc := P\<rparr>)"
  unfolding cv_def bcache_list_def by simp

lemma crash_after_commit:
  "crash_ok t 0 (cv p dev s) after_commit (\<lambda>_. cv p dev (s\<lparr>cG := (cG s)\<lparr>log_committing := False\<rparr>\<rparr>)) C"
proof (rule crash_run)
  fix k rs assume k: "cv p dev s k"
  have f: "free_lock lk (mach k)" "curproc (mach k) = Some p" for lk using quietD [OF cvD(1) [OF k]] by simp_all
  let ?g = "(klog k)\<lparr>log_committing := False\<rparr>" and ?P = "wake_procs (Some p) CH_LOG (proc k)"
  have "after_commit (k, rs) = Ret () (k\<lparr>klog := ?g, proc := ?P, mach := ppm (mach k)\<rparr>, rs)"
    using f by (simp add: after_commit_def run_simps upd_klog_def)
  moreover have "p_pid (?P p) = p_pid (proc k p)" using same_procs_pid [of "proc k" ?P] by simp
  then have "cv p dev (s\<lparr>cG := ?g\<rparr>) (k\<lparr>klog := ?g, proc := ?P, mach := ppm (mach k)\<rparr>)"
    using cv_mach [OF cv_procs [OF cv_klog [OF k, of ?g], of ?P], of "ppm (mach k)"] cvD(1) [OF k] by simp
  ultimately show "\<exists>x k'. after_commit (k, rs) = Ret x (k', rs) \<and> cv p dev (s\<lparr>cG := (cG s)\<lparr>log_committing := False\<rparr>\<rparr>) k'"
    by (simp add: cvD(4) [OF k])
qed

definition end_op_state :: "nat \<Rightarrow> cst \<Rightarrow> cst" where
  "end_op_state ls s = (let s' = commit_state ls (s\<lparr>cG := op_ending (cG s)\<rparr>) in s'\<lparr>cG := (cG s')\<lparr>log_committing := False\<rparr>\<rparr>)"

lemma crash_end_op:
  assumes t: "disk_serves p t" and s: "transaction ls dev s" and l: "log_outstanding (cG s) = 1" "\<not> log_committing (cG s)"
  shows "crash_ok t (6 * logged (cG s) + 4) (cv p dev s) end_op (\<lambda>_. cv p dev (end_op_state ls s)) (\<lambda>k. safe ls (cD s) (cV s) (blk (disk k)))"
    and "clean ls dev (cV s) (end_op_state ls s)"
proof -
  let ?s = "s\<lparr>cG := op_ending (cG s)\<rparr>"
  have "transaction ls dev ?s" using s by (simp add: transaction_def pinned_def log_geom_def op_ending_def)
  note c = crash_commit [OF t this]
  have "crash_ok t (6 * logged (cG s) + 4 + 0) (cv p dev ?s) (kbind commit (\<lambda>_. after_commit)) (\<lambda>_. cv p dev (end_op_state ls s))
     (\<lambda>k. safe ls (cD s) (cV s) (blk (disk k)))"
    unfolding end_op_state_def Let_def
    by (rule crash_bind [OF _ crash_after_commit]) (use c(1) in \<open>simp add: op_ending_def\<close>)
  then show "crash_ok t (6 * logged (cG s) + 4) (cv p dev s) end_op (\<lambda>_. cv p dev (end_op_state ls s)) (\<lambda>k. safe ls (cD s) (cV s) (blk (disk k)))"
    unfolding add_0_right
  proof (rule crash_step)
    fix k rs assume k: "cv p dev s k"
    have "cv p dev ?s (k\<lparr>klog := op_ending (klog k), mach := ppm (mach k)\<rparr>)"
      using cv_mach [OF cv_klog [OF k], of "ppm (mach k)" "op_ending (klog k)"] cvD(1,4) [OF k] by simp
    then show "\<exists>k'. cv p dev ?s k' \<and> end_op (k, rs) = kbind commit (\<lambda>_. after_commit) (k', rs)"
      using end_op_run [OF cvD(1) [OF k], of rs] l by (auto simp: cvD(4) [OF k])
  qed
  show "clean ls dev (cV s) (end_op_state ls s)"
    using c(2) by (simp add: end_op_state_def Let_def clean_def pinned_def log_geom_def entries_ok_def)
qed

section \<open>A transaction that clears blocks\<close>

definition zero_tx :: "int \<Rightarrow> int list \<Rightarrow> (world, unit) kmon" where
  "zero_tx dv bs = kseq (begin_op # map (bzero dv) bs @ [end_op])"

definition wiped :: "int list \<Rightarrow> (nat \<Rightarrow> u8 list) \<Rightarrow> nat \<Rightarrow> u8 list" where
  "wiped bs D n = (if int n \<in> set bs then zero_block else D n)"

definition tx_open :: "nat \<Rightarrow> u32 \<Rightarrow> nat \<Rightarrow> cst \<Rightarrow> bool" where
  "tx_open ls dev m s \<longleftrightarrow> transaction ls dev s \<and> log_outstanding (cG s) = 1 \<and> \<not> log_committing (cG s) \<and>
     log_size (cG s) = int LOGSIZE \<and> lh_n (cG s) \<le> int m"

definition data_block :: "nat \<Rightarrow> int \<Rightarrow> bool" where
  "data_block ls b \<longleftrightarrow> 0 \<le> b \<and> b < 2 ^ 31 \<and> (b < int ls \<or> int (ls + LOGSIZE) < b)"

lemma data_block_unat:
  assumes "data_block ls b"
  shows "unat (of_int b :: u32) = nat b"
proof -
  have "(of_int b :: u32) = of_nat (nat b)" and "nat b < 2 ^ 32" using assms by (auto simp: data_block_def nat_less_iff)
  then show ?thesis by (simp add: unat_of_nat take_bit_nat_eq_self)
qed

lemma tx_open_put:
  assumes "tx_open ls dev m s" and "m < MAXOPBLOCKS" and b: "data_block ls b"
  shows "tx_open ls dev (Suc m) (tx_put (of_int b) d s)" and "may_log (cG s)"
proof -
  have n: "unat (of_int b :: u32) < 2 ^ 31" "unat (of_int b :: u32) < ls \<or> ls + LOGSIZE < unat (of_int b :: u32)"
    using b unfolding data_block_unat [OF b] by (auto simp: data_block_def)
  have h: "ls \<noteq> unat (of_int b :: u32)" using n(2) by auto
  have p: "pinned ls dev {..<logged (cG s)} s" using assms(1) by (simp add: tx_open_def transaction_def)
  have "lh_n (cG s) + 1 < int LOGSIZE" using assms(1,2) by (simp add: tx_open_def)
  from tx_put_pinned [OF p n disjI2 [OF this]] show "tx_open ls dev (Suc m) (tx_put (of_int b) d s)"
    using assms(1) h by (auto simp: tx_open_def transaction_def tx_put_def log_add_def)
  show "may_log (cG s)" using assms(1,2) p by (simp add: tx_open_def may_log_def pinned_def log_geom_def)
qed

lemma crash_bzeros:
  assumes t: "disk_serves p t" and d: "of_int dv = dev" and s: "tx_open ls dev m s" and bs: "m + length bs \<le> MAXOPBLOCKS" "\<forall>b \<in> set bs. data_block ls b"
    and Z: "Z (cD s)"
    and rest: "\<And>s'. tx_open ls dev (m + length bs) s' \<Longrightarrow> cD s' = cD s \<Longrightarrow> cV s' = wiped bs (cV s) \<Longrightarrow>
       crash_ok t c (cv p dev s') (kseq fs) Q (\<lambda>k. Z (blk (disk k)))"
  shows "crash_ok t (length bs + c) (cv p dev s) (kseq (map (bzero dv) bs @ fs)) Q (\<lambda>k. Z (blk (disk k)))"
  using s bs Z rest
proof (induction bs arbitrary: m s)
  case Nil
  have "wiped [] (cV s) = cV s" by (simp add: wiped_def fun_eq_iff)
  then show ?case using Nil.prems by simp
next
  case (Cons b bs)
  let ?s = "tx_put (of_int b) zero_block s"
  have b: "data_block ls b" and m: "m < MAXOPBLOCKS" using Cons.prems(2,3) by simp_all
  have n: "unat (of_int b :: u32) < 2 ^ 31" using b unfolding data_block_unat [OF b] by (auto simp: data_block_def)
  have p: "pinned ls dev {..<logged (cG s)} s" using Cons.prems(1) by (simp add: tx_open_def transaction_def)
  have D: "cD ?s = cD s" and V: "cV ?s = wiped [b] (cV s)"
    using b data_block_unat [OF b] by (auto simp: tx_put_def wiped_def fun_eq_iff data_block_def)
  have r: "crash_ok t (length bs + c) (cv p dev ?s) (kseq (map (bzero dv) bs @ fs)) Q (\<lambda>k. Z (blk (disk k)))"
  proof (rule Cons.IH)
    show "tx_open ls dev (Suc m) ?s" by (rule tx_open_put [OF Cons.prems(1) m b])
    show "crash_ok t c (cv p dev s') (kseq fs) Q (\<lambda>k. Z (blk (disk k)))"
      if "tx_open ls dev (Suc m + length bs) s'" "cD s' = cD ?s" "cV s' = wiped bs (cV ?s)" for s'
      by (rule Cons.prems(5)) (use that D V in \<open>simp_all add: wiped_def fun_eq_iff\<close>)
  qed (use Cons.prems(2-4) D in simp_all)
  have "crash_ok t (1 + (length bs + c)) (cv p dev s) (kseq (map (bzero dv) (b # bs) @ fs)) Q (\<lambda>k. Z (blk (disk k)))"
    unfolding list.map append_Cons
    by (rule crash_seq [OF crash_bzero [where Z = Z, OF t p d refl n tx_open_put(2) [OF Cons.prems(1) m b] Cons.prems(4)] r])
  then show ?case by simp
qed

text \<open>The state in which transactions start: an empty log and no operation under way.\<close>

definition idle :: "nat \<Rightarrow> u32 \<Rightarrow> cst \<Rightarrow> bool" where
  "idle ls dev s \<longleftrightarrow> clean ls dev (cD s) s \<and> log_outstanding (cG s) = 0 \<and> \<not> log_committing (cG s) \<and> log_size (cG s) = int LOGSIZE"

lemma crash_zero_tx:
  assumes t: "disk_serves p t" and d: "of_int dv = dev" and s: "idle ls dev s" and bs: "length bs \<le> MAXOPBLOCKS" "\<forall>b \<in> set bs. data_block ls b"
  shows "crash_ok t (7 * length bs + 4) (cv p dev s) (zero_tx dv bs) (\<lambda>_ k. \<exists>s'. cv p dev s' k \<and> clean ls dev (wiped bs (cD s)) s')
     (\<lambda>k. safe ls (cD s) (wiped bs (cD s)) (blk (disk k)))"
proof -
  let ?W = "wiped bs (cD s)" and ?s = "s\<lparr>cG := op_begun (cG s)\<rparr>"
  let ?Z = "safe ls (cD s) ?W" and ?Q = "\<lambda>_ k. \<exists>s'. cv p dev s' k \<and> clean ls dev ?W s'"
  have c: "pinned ls dev {} s" "lh_n (cG s) = 0" "hdr_n (cD s ls) = 0" and o: "log_outstanding (cG s) = 0" "\<not> log_committing (cG s)"
    using s by (simp_all add: idle_def clean_def)
  have V: "cV s = cD s" using c(1) by (simp add: pinned_def fun_eq_iff)
  have O: "tx_open ls dev 0 ?s"
    using s c by (simp add: tx_open_def idle_def transaction_def pinned_def log_geom_def entries_ok_def op_begun_def)
  have Z: "?Z (cD s)" by (rule safe_empty) (simp_all add: c(3) data_eq_def)
  have rest: "crash_ok t (6 * length bs + 4 + 0) (cv p dev s') (kseq [end_op]) ?Q (\<lambda>k. ?Z (blk (disk k)))"
    if "tx_open ls dev (0 + length bs) s'" "cD s' = cD ?s" "cV s' = wiped bs (cV ?s)" for s'
  proof (rule crash_seq)
    have D: "cD s' = cD s" "cV s' = ?W" using that(2,3) V by simp_all
    have e: "transaction ls dev s'" "log_outstanding (cG s') = 1" "\<not> log_committing (cG s')" and n: "logged (cG s') \<le> length bs"
      using that(1) by (auto simp: tx_open_def nat_le_iff)
    show "crash_ok t (6 * length bs + 4) (cv p dev s') end_op (\<lambda>_. cv p dev (end_op_state ls s')) (\<lambda>k. ?Z (blk (disk k)))"
      by (rule crash_conseq [OF crash_end_op(1) [OF t e]]) (use n D in simp_all)
    show "crash_ok t 0 (cv p dev (end_op_state ls s')) (kseq []) ?Q (\<lambda>k. ?Z (blk (disk k)))"
      using crash_end_op(2) [OF t e] D by (intro crash_seq_Nil) auto
  qed
  have "crash_ok t (0 + (length bs + (6 * length bs + 4 + 0))) (cv p dev s) (zero_tx dv bs) ?Q (\<lambda>k. ?Z (blk (disk k)))"
    unfolding zero_tx_def
    by (rule crash_seq [OF crash_begin_op crash_bzeros [where Z = ?Z, OF t d O _ bs(2) _ rest]]) (use o c(2) bs(1) Z in simp_all)
  then show ?thesis by (simp add: add.commute)
qed

section \<open>Crashes\<close>

text \<open>
  After a crash with medium \<open>D\<close>, and any number of further crashes during recovery, the first recovery that is
  given enough turns of the disk returns with an empty log and a medium that satisfies \<open>P\<close>.
\<close>

definition recovers_to :: "u32 \<Rightarrow> nat \<Rightarrow> bytes \<Rightarrow> ((nat \<Rightarrow> u8 list) \<Rightarrow> bool) \<Rightarrow> bool" where
  "recovers_to dev ls D P \<longleftrightarrow> (\<forall>k p t n. (recovery_crash dev ls)\<^sup>*\<^sup>* D (disk k) \<longrightarrow> booted p dev ls k \<longrightarrow> disk_serves p t \<longrightarrow> 3 * LOGSIZE \<le> n \<longrightarrow>
     (\<exists>k' rs. recover_from_log (k, replicate n t) = Ret () (k', rs) \<and> hdr_n (blk (disk k') ls) = 0 \<and> P (blk (disk k'))))"

lemma safe_recovers_to:
  assumes "safe ls A B (blk D)"
  shows "recovers_to dev ls D (\<lambda>E. data_eq ls E A \<or> data_eq ls E B)"
  unfolding recovers_to_def
proof (intro allI impI)
  fix k p t n
  assume r: "(recovery_crash dev ls)\<^sup>*\<^sup>* D (disk k)" and b: "booted p dev ls k" and t: "disk_serves p t" and n: "3 * LOGSIZE \<le> n"
  have f: "safe ls A B (blk (disk k))" by (rule recovery_crash_safe [OF r assms])
  obtain s where s: "cv p dev s k" "pinned ls dev {} s" using b by (auto simp: booted_def)
  have D: "cD s = blk (disk k)" by (rule cvD(5) [OF s(1)])
  have ok: "log_ok ls (cD s)" using f by (simp add: D safe_def)
  note c = crash_recover [OF t s(2) ok]
  have "nat (hdr_n (cD s ls)) < LOGSIZE" using ok by (simp add: log_ok_def entries_ok_def)
  then have "3 * nat (hdr_n (cD s ls)) + 3 \<le> n" using n by simp
  from crash_returns [OF c(1) s(1) this]
  obtain u k' n' where k': "recover_from_log (k, replicate n t) = Ret u (k', replicate n' t)" "cv p dev (recover_state ls s) k'" .
  have "hdr_n (blk (disk k') ls) = 0" "data_eq ls (blk (disk k')) (recovered ls (cD s))"
    using c(2) cvD(5) [OF k'(2)] by (simp_all add: clean_def)
  then show "\<exists>k' rs. recover_from_log (k, replicate n t) = Ret () (k', rs) \<and> hdr_n (blk (disk k') ls) = 0 \<and>
      (data_eq ls (blk (disk k')) A \<or> data_eq ls (blk (disk k')) B)"
    using k'(1) f D by (auto simp: safe_def data_eq_def)
qed

lemma crash_cases:
  assumes "crash_ok t c P f Q C" and "P k"
  shows "case f (k, replicate n t) of Ret x w \<Rightarrow> Q x (fst w) | Switch w \<Rightarrow> C (fst w) \<and> n < c | _ \<Rightarrow> False"
  using crash_okD [OF assms, of n] by auto

section \<open>A machine to run it on\<close>

text \<open>A disk that is zero but for block 46, and a log of thirty blocks at block 2.\<close>

definition demo_disk :: bytes where
  "demo_disk j = (if BSIZE * 46 \<le> j \<and> j < BSIZE * 47 then 7 else 0)"

definition demo_log :: klog where
  "demo_log = \<lparr>log_start = 2, log_size = int LOGSIZE, log_outstanding = 0, log_committing = False, log_dev = 1, lh_n = 0, lh_block = (\<lambda>_. 0)\<rparr>"

definition demo_turn :: "kernel \<Rightarrow> kernel" where
  "demo_turn = disk_turn demo_device 3 boot_mach (thread_mach 3)"

lemma demo_serves: "disk_serves 3 demo_turn"
  unfolding disk_serves_def demo_turn_def
  by (rule exI [of _ demo_device], rule exI [of _ boot_mach], rule exI [of _ "thread_mach 3"]) simp

lemma blk_nth: "j < BSIZE \<Longrightarrow> blk D n ! j = D (BSIZE * n + j)"
  by (simp add: blk_def del: upt_rec_numeral)

lemma demo_hdr: "hdr_n (blk demo_disk 2) = 0"
proof -
  have "ld32 (nth (blk demo_disk 2)) 0 = ld32 (\<lambda>_. 0) 0"
    by (rule ld32_cong) (simp add: blk_nth demo_disk_def)
  then show ?thesis by (simp add: hdr_n_def lh_get_n_def ld32_def le_nat_zero)
qed

text \<open>A machine just booted, with a given medium, super block and empty log.\<close>

lemma idle_kernel:
  assumes "hdr_n (blk D 2) = 0"
  obtains k s where "cv 3 1 s k" and "idle 2 1 s" and "cD s = blk D" and "disk k = D" and "sb k = S" and "booted 3 1 2 k"
proof -
  obtain k where k: "quiet 3 (mach k)" "bcache_list k (rev [0..<NBUF])" "\<And>b. b < NBUF \<Longrightarrow> \<not> sl_locked (b_lock (bufs k b))"
    "\<And>b. b < NBUF \<Longrightarrow> b_refcnt (bufs k b) = 0" "\<And>b. b < NBUF \<Longrightarrow> b_dev (bufs k b) = 0" "\<And>b. b < NBUF \<Longrightarrow> \<not> b_valid (bufs k b)" "vd_ready (vdisk k)"
    using booted_cache by metis
  let ?k = "k\<lparr>klog := demo_log, disk := D, sb := S\<rparr>"
  let ?s = "\<lparr>cD = blk D, cV = blk D, cR = (\<lambda>_. 0), cL = (\<lambda>_. None), cG = demo_log, cF = fsv ?k\<rparr>"
  have "bcache_list ?k (rev [0..<NBUF])" using k(2) by (simp add: bcache_list_def)
  then have c: "cv 3 1 ?s ?k"
    unfolding cv_def using k(1,3-7) by (auto simp: cbuf_def Let_def at_block_def)
  have i: "idle 2 1 ?s"
    using assms by (simp add: idle_def clean_def pinned_def log_geom_def entries_ok_def data_eq_def demo_log_def pins_def fun_eq_iff)
  then have "pinned 2 1 {} ?s" by (simp add: idle_def clean_def)
  then show ?thesis using that [OF c i] c by (auto simp: booted_def)
qed

lemma demo_kernel:
  obtains k s where "cv 3 1 s k" and "idle 2 1 s" and "cD s = blk demo_disk" and "disk k = demo_disk" and "booted 3 1 2 k"
  using idle_kernel [OF demo_hdr] by metis

text \<open>The machine in the middle of a transaction that has cleared block 46.\<close>

lemma demo_transaction:
  obtains k s where "cv 3 1 s k" and "transaction 2 1 s" and "log_outstanding (cG s) = 1" and "\<not> log_committing (cG s)"
    and "cV s 46 = zero_block" and "disk k = demo_disk"
proof -
  obtain k s where k: "cv 3 1 s k" "idle 2 1 s" "cD s = blk demo_disk" using demo_kernel by metis
  have c: "pinned 2 1 {} s" "lh_n (cG s) = 0" and o: "log_outstanding (cG s) = 0" "\<not> log_committing (cG s)"
    using k(2) by (simp_all add: idle_def clean_def)
  let ?s = "s\<lparr>cG := op_begun (cG s)\<rparr>"
  have O: "tx_open 2 1 0 ?s"
    using k(2) c by (simp add: tx_open_def idle_def clean_def transaction_def pinned_def log_geom_def entries_ok_def op_begun_def)
  let ?Q = "\<lambda>_ k. \<exists>s'. cv 3 1 s' k \<and> tx_open 2 1 1 s' \<and> cV s' 46 = zero_block \<and> cD s' = blk demo_disk"
  have "crash_ok demo_turn (0 + (length [46 :: int] + 0)) (cv 3 1 s) (kseq (begin_op # map (bzero 1) [46] @ [])) ?Q (\<lambda>k. True)"
  proof (rule crash_seq [OF crash_begin_op])
    show "crash_ok demo_turn (length [46 :: int] + 0) (cv 3 1 ?s) (kseq (map (bzero 1) [46] @ [])) ?Q (\<lambda>k. True)"
    proof (rule crash_bzeros [where Z = "\<lambda>_. True", OF demo_serves _ O])
      show "crash_ok demo_turn 0 (cv 3 1 s') (kseq []) ?Q (\<lambda>k. True)"
        if "tx_open 2 1 (0 + length [46 :: int]) s'" "cD s' = cD ?s" "cV s' = wiped [46] (cV ?s)" for s'
        using that k(3) by (intro crash_seq_Nil) (auto simp: wiped_def)
    qed (simp_all add: data_block_def)
  qed (use o c(2) in simp_all)
  from crash_returns [OF this k(1) le_refl] obtain k' where "?Q () k'" by blast
  then obtain s' where s': "cv 3 1 s' k'" "tx_open 2 1 1 s'" "cV s' 46 = zero_block" "cD s' = blk demo_disk" by blast
  show ?thesis
  proof (rule that [of s' "k'\<lparr>disk := demo_disk\<rparr>"])
    show "cv 3 1 s' (k'\<lparr>disk := demo_disk\<rparr>)" using s'(1,4) unfolding cv_def bcache_list_def by simp
  qed (use s'(2,3) in \<open>simp_all add: tx_open_def\<close>)
qed

section \<open>Atomicity\<close>



text \<open>
  C5: A whole transaction of the file system: \<open>begin_op\<close>, clearing up to \<open>MAXOPBLOCKS\<close> blocks with \<open>bzero\<close>, some
  of them perhaps twice, \<open>end_op\<close>. From an idle log it returns with these blocks and no others cleared on the
  medium, or it is cut short and recovery yields all of them cleared or none. It returns whenever the disk takes
  seven turns per block and four more.
\<close>

theorem zero_tx_atomic:
  assumes "disk_serves p t" and "of_int dv = dev" and "cv p dev s k" and "idle ls dev s" and "length bs \<le> MAXOPBLOCKS" and "\<forall>b \<in> set bs. data_block ls b"
  shows "case zero_tx dv bs (k, replicate n t) of
      Ret _ w \<Rightarrow> hdr_n (blk (disk (fst w)) ls) = 0 \<and> data_eq ls (blk (disk (fst w))) (wiped bs (blk (disk k)))
    | Switch w \<Rightarrow> n < 7 * length bs + 4 \<and>
        recovers_to dev ls (disk (fst w)) (\<lambda>E. data_eq ls E (blk (disk k)) \<or> data_eq ls E (wiped bs (blk (disk k))))
    | _ \<Rightarrow> False"
  using crash_cases [OF crash_zero_tx [OF assms(1,2,4-6)] assms(3), of n] cvD(5) [OF assms(3)]
  by (auto simp: clean_def split: outcome.splits intro: safe_recovers_to dest!: cvD(5))

theorem zero_tx_atomic_witness:
  "\<exists>k. booted 3 1 2 k \<and> disk k = demo_disk \<and> (case zero_tx 1 [46, 52, 46] (k, replicate 9 demo_turn) of
      Ret _ w \<Rightarrow> hdr_n (blk (disk (fst w)) 2) = 0 \<and> data_eq 2 (blk (disk (fst w))) (wiped [46, 52, 46] (blk (disk k)))
    | Switch w \<Rightarrow> 9 < 7 * length [46 :: int, 52, 46] + 4 \<and>
        recovers_to 1 2 (disk (fst w)) (\<lambda>E. data_eq 2 E (blk (disk k)) \<or> data_eq 2 E (wiped [46, 52, 46] (blk (disk k))))
    | _ \<Rightarrow> False)"
proof -
  obtain k s where k: "cv 3 1 s k" "idle 2 1 s" "disk k = demo_disk" "booted 3 1 2 k" using demo_kernel by metis
  have "length [46 :: int, 52, 46] \<le> MAXOPBLOCKS" "\<forall>b \<in> set [46, 52, 46]. data_block 2 b" by (simp_all add: data_block_def)
  from zero_tx_atomic [OF demo_serves _ k(1,2) this, of 1 9] show ?thesis using k(3,4) by (intro exI [of _ k]) simp
qed

lemma log_write_full:
  assumes "quiet p (mach k)" and "log_size (klog k) = int LOGSIZE" and "lh_n (klog k) = int LOGSIZE - 1"
  shows "log_write b k = Panic ''too big a transaction'' (k\<lparr>mach := acqm LOG_LOCK (mach k)\<rparr>)"
  using quietD(1) [OF assms(1)] assms(2,3) by (simp add: log_write_def run_simps)

text \<open>
  C27: The log is one block too small for what \<open>begin_op\<close> promises. With the log size \<open>mkfs\<close> writes into the super block,
  an idle log admits three operations at once, each of which may write \<open>MAXOPBLOCKS\<close> blocks, thirty in all; but the
  thirtieth block makes \<open>log_write\<close> panic, since one of the log's blocks is the header.
\<close>

theorem log_overcommitted:
  assumes "cv p dev s k" and "idle ls dev s"
  shows "\<exists>k3. kseq [begin_op, begin_op, begin_op] (k, rs) = Ret () (k3, rs) \<and> log_outstanding (klog k3) * int MAXOPBLOCKS = 30 \<and>
     (\<forall>h b. \<exists>k'. log_write b (k3\<lparr>klog := (klog k3)\<lparr>lh_n := 29, lh_block := h\<rparr>\<rparr>) = Panic ''too big a transaction'' k')"
proof -
  let ?k3 = "k\<lparr>klog := op_begun (op_begun (op_begun (klog k))), mach := ppm (ppm (ppm (mach k)))\<rparr>"
  have i: "log_outstanding (klog k) = 0" "\<not> log_committing (klog k)" "lh_n (klog k) = 0" "log_size (klog k) = int LOGSIZE"
    using assms(2) by (simp_all add: idle_def clean_def cvD(4) [OF assms(1)])
  have q: "quiet p (mach k)" by (rule cvD(1) [OF assms(1)])
  have "kseq [begin_op, begin_op, begin_op] (k, rs) = Ret () (?k3, rs)"
    using q i by (simp add: run_simps begin_op_run [of p] op_begun_def)
  moreover have "\<exists>k'. log_write b (?k3\<lparr>klog := (klog ?k3)\<lparr>lh_n := 29, lh_block := h\<rparr>\<rparr>) = Panic ''too big a transaction'' k'" for h b
    using q i by (subst log_write_full [of p]) (simp_all add: op_begun_def)
  moreover have "log_outstanding (klog ?k3) * int MAXOPBLOCKS = 30" using i by (simp add: op_begun_def)
  ultimately show ?thesis by blast
qed

theorem log_overcommitted_witness:
  "\<exists>k k3. disk k = demo_disk \<and> kseq [begin_op, begin_op, begin_op] (k, []) = Ret () (k3, []) \<and> log_outstanding (klog k3) * int MAXOPBLOCKS = 30 \<and>
     (\<forall>h b. \<exists>k'. log_write b (k3\<lparr>klog := (klog k3)\<lparr>lh_n := 29, lh_block := h\<rparr>\<rparr>) = Panic ''too big a transaction'' k')"
proof -
  obtain k s where k: "cv 3 1 s k" "idle 2 1 s" "disk k = demo_disk" using demo_kernel by metis
  from log_overcommitted [OF k(1,2), of "[]"] k(3) show ?thesis by blast
qed

end
