(* ===== verification/Grep.thy ===== *)
theory Grep
  imports Prelude
begin

text \<open>
  The program \<open>user/grep.c\<close>: the matcher for patterns with \<open>^ . * $\<close>, and the loop that cuts the input into lines
  and prints those that match. A pointer to a C string is the list of the characters before its NUL.
\<close>

section \<open>The matcher\<close>

function (sequential) matchhere :: "string \<Rightarrow> string \<Rightarrow> bool"
  and matchstar :: "char \<Rightarrow> string \<Rightarrow> string \<Rightarrow> bool" where
  "matchhere [] text = True"
| "matchhere (c # re) text =
     (if re \<noteq> [] \<and> hd re = CHR ''*'' then matchstar c (tl re) text
      else if c = CHR ''$'' \<and> re = [] then text = []
      else if text \<noteq> [] \<and> (c = CHR ''.'' \<or> c = hd text) then matchhere re (tl text)
      else False)"
| "matchstar c re text =
     (if matchhere re text then True
      else if text \<noteq> [] \<and> (hd text = c \<or> c = CHR ''.'') then matchstar c re (tl text)
      else False)"
  by pat_completeness auto

termination
  by (relation "measure (\<lambda>x. case x of Inl (re, text) \<Rightarrow> 2 * (length re + length text) | Inr (c, re, text) \<Rightarrow> 2 * (length re + length text) + 1)")
     (auto simp: neq_Nil_conv)

fun match_from :: "string \<Rightarrow> string \<Rightarrow> bool" where
  "match_from re [] = matchhere re []"
| "match_from re (c # text) = (if matchhere re (c # text) then True else match_from re text)"

definition match :: "string \<Rightarrow> string \<Rightarrow> bool" where
  "match re text = (if re \<noteq> [] \<and> hd re = CHR ''^'' then matchhere (tl re) text else match_from re text)"

section \<open>The lines\<close>

fun strchr :: "string \<Rightarrow> char \<Rightarrow> nat option" where
  "strchr [] c = None"
| "strchr (x # s) c = (if x = CHR 0x00 then None else if x = c then Some 0 else map_option Suc (strchr s c))"

lemma strchr_less: "strchr s c = Some i \<Longrightarrow> i < length s"
  by (induction s arbitrary: i) (auto split: if_splits)

text \<open>The inner loop: the output and the unfinished line that is left in the buffer.\<close>

function grep_lines :: "string \<Rightarrow> string \<Rightarrow> string \<Rightarrow> string \<times> string" where
  "grep_lines pattern p out = (case strchr p (CHR 0x0A) of
       None \<Rightarrow> (out, p)
     | Some q \<Rightarrow> grep_lines pattern (drop (q + 1) p) (if match pattern (take q p) then out @ take (q + 1) p else out))"
  by auto

termination
  by (relation "measure (\<lambda>(pattern, p, out). length p)") (auto dest: strchr_less)

declare grep_lines.simps [simp del]

text \<open>
  The outer loop. \<open>rd w n\<close> is the system call \<open>read\<close> for at most \<open>n\<close> bytes: the bytes it delivers, none at the end
  of the input or on an error, and what becomes of the rest of the world. The buffer has 1024 bytes.
\<close>

fun grep :: "nat \<Rightarrow> ('w \<Rightarrow> nat \<Rightarrow> string \<times> 'w) \<Rightarrow> string \<Rightarrow> string \<Rightarrow> string \<Rightarrow> 'w \<Rightarrow> (string \<times> 'w) option" where
  "grep 0 rd pattern buf out w = None"
| "grep (Suc f) rd pattern buf out w = (case rd w (1024 - length buf - 1) of (d, w') \<Rightarrow>
     if d = [] then Some (out, w')
     else case grep_lines pattern (buf @ d) out of (out', buf') \<Rightarrow> grep f rd pattern buf' out' w')"

section \<open>Regular expressions\<close>

text \<open>Regular languages over characters, and the expression a pattern stands for.\<close>

datatype rexp = Eps | Any | Lit char | Conc rexp rexp | Star rexp

inductive_set star_lang :: "string set \<Rightarrow> string set" for A where
  star_Nil: "[] \<in> star_lang A"
| star_app: "u \<in> A \<Longrightarrow> v \<in> star_lang A \<Longrightarrow> u @ v \<in> star_lang A"

fun lang :: "rexp \<Rightarrow> string set" where
  "lang Eps = {[]}"
| "lang Any = {[c] |c. True}"
| "lang (Lit c) = {[c]}"
| "lang (Conc r s) = {u @ v |u v. u \<in> lang r \<and> v \<in> lang s}"
| "lang (Star r) = star_lang (lang r)"

definition one :: "char \<Rightarrow> rexp" where
  "one c = (if c = CHR ''.'' then Any else Lit c)"

fun body :: "string \<Rightarrow> rexp" where
  "body [] = Star Any"
| "body [c] = (if c = CHR ''$'' then Eps else Conc (one c) (Star Any))"
| "body (c # d # re) = (if d = CHR ''*'' then Conc (Star (one c)) (body re) else Conc (one c) (body (d # re)))"

definition pattern_rexp :: "string \<Rightarrow> rexp" where
  "pattern_rexp re = (if re \<noteq> [] \<and> hd re = CHR ''^'' then body (tl re) else Conc (Star Any) (body re))"

lemma star_any: "s \<in> star_lang (lang Any)"
proof (induction s)
  case (Cons c s)
  then show ?case using star_app [of "[c]" "lang Any" s] by simp
qed (rule star_Nil)

lemma lang_one: "u \<in> lang (one c) \<longleftrightarrow> (\<exists>x. u = [x] \<and> (c = CHR ''.'' \<or> c = x))"
  by (auto simp: one_def)

lemma conc_one: "text \<in> lang (Conc (one c) r) \<longleftrightarrow> text \<noteq> [] \<and> (c = CHR ''.'' \<or> c = hd text) \<and> tl text \<in> lang r"
proof (cases "text")
  case (Cons x t)
  have "(\<exists>u v. x # t = u @ v \<and> u \<in> lang (one c) \<and> v \<in> lang r) \<longleftrightarrow> (c = CHR ''.'' \<or> c = x) \<and> t \<in> lang r"
  proof
    assume "(c = CHR ''.'' \<or> c = x) \<and> t \<in> lang r"
    then show "\<exists>u v. x # t = u @ v \<and> u \<in> lang (one c) \<and> v \<in> lang r" by (intro exI [of _ "[x]"] exI [of _ t]) (auto simp: lang_one)
  qed (auto simp: lang_one)
  then show ?thesis using Cons by simp
qed (auto simp: lang_one)

lemma star_step:
  "text \<in> lang (Conc (Star (one c)) r) \<longleftrightarrow>
     text \<in> lang r \<or> text \<noteq> [] \<and> (hd text = c \<or> c = CHR ''.'') \<and> tl text \<in> lang (Conc (Star (one c)) r)"
proof
  assume "text \<in> lang (Conc (Star (one c)) r)"
  then obtain u v where t: "text = u @ v" "u \<in> star_lang (lang (one c))" "v \<in> lang r" by auto
  from t(2) show "text \<in> lang r \<or> text \<noteq> [] \<and> (hd text = c \<or> c = CHR ''.'') \<and> tl text \<in> lang (Conc (Star (one c)) r)"
  proof cases
    case star_Nil
    then show ?thesis using t by simp
  next
    case (star_app x w)
    then have "w @ v \<in> lang (Conc (Star (one c)) r)" using t(3) by auto
    then show ?thesis using star_app t(1) by (auto simp: lang_one simp del: lang.simps)
  qed
next
  assume "text \<in> lang r \<or> text \<noteq> [] \<and> (hd text = c \<or> c = CHR ''.'') \<and> tl text \<in> lang (Conc (Star (one c)) r)"
  then consider "text \<in> lang r" | x u v where "text = x # u @ v" "x = c \<or> c = CHR ''.''" "u \<in> star_lang (lang (one c))" "v \<in> lang r"
    by (cases "text") auto
  then show "text \<in> lang (Conc (Star (one c)) r)"
  proof cases
    case 1
    then show ?thesis using star_Nil [of "lang (one c)"] unfolding lang.simps mem_Collect_eq
      by (intro exI [of _ "[]"] exI [of _ "text"]) simp
  next
    case 2
    then have "[x] @ u \<in> star_lang (lang (one c))" by (intro star_app) (auto simp: lang_one)
    then show ?thesis using 2 unfolding lang.simps mem_Collect_eq by (intro exI [of _ "x # u"] exI [of _ v]) simp
  qed
qed

lemma matchhere_lang: "matchhere re text \<longleftrightarrow> text \<in> lang (body re)"
  and matchstar_lang: "matchstar c re text \<longleftrightarrow> text \<in> lang (Conc (Star (one c)) (body re))"
proof (induction re "text" and c re "text" rule: matchhere_matchstar.induct)
  case (1 t)
  then show ?case using star_any by simp
next
  case (2 c re t)
  then show ?case
    by (cases re) (auto simp: conc_one star_any simp del: lang.simps(4,5))
next
  case (3 c re t)
  then show ?case by (subst star_step) (simp del: lang.simps)
qed

lemma match_from_lang: "match_from re text \<longleftrightarrow> text \<in> lang (Conc (Star Any) (body re))"
proof (induction "text")
  case Nil
  show ?case using star_step [of "[]" "CHR ''.''" "body re"] by (simp add: matchhere_lang one_def del: lang.simps)
next
  case (Cons c t)
  then show ?case using star_step [of "c # t" "CHR ''.''" "body re"] by (simp add: matchhere_lang one_def del: lang.simps)
qed

text \<open>
  C17: The matcher of \<open>grep\<close> decides exactly the regular language of the pattern, for every pattern and text: a
  character stands for itself, \<open>.\<close> for any character, \<open>c*\<close> for any number of \<open>c\<close>; \<open>^\<close> at the front and \<open>$\<close> at the end
  tie the match to the ends of the line, which otherwise may have anything before and after it.
\<close>

theorem match_regular: "match re text \<longleftrightarrow> text \<in> lang (pattern_rexp re)"
  by (simp add: match_def pattern_rexp_def matchhere_lang match_from_lang del: lang.simps)

section \<open>Cutting the input into lines\<close>

text \<open>The finished lines of a text that is read after \<open>acc\<close>, and the unfinished one.\<close>

fun finished :: "string \<Rightarrow> string \<Rightarrow> string list" where
  "finished acc [] = []"
| "finished acc (c # s) = (if c = CHR 0x0A then acc # finished [] s else finished (acc @ [c]) s)"

fun unfinished :: "string \<Rightarrow> string \<Rightarrow> string" where
  "unfinished acc [] = acc"
| "unfinished acc (c # s) = (if c = CHR 0x0A then unfinished [] s else unfinished (acc @ [c]) s)"

lemma finished_append: "finished acc (s @ t) = finished acc s @ finished (unfinished acc s) t"
  by (induction s arbitrary: acc) simp_all

lemma unfinished_append: "unfinished acc (s @ t) = unfinished (unfinished acc s) t"
  by (induction s arbitrary: acc) simp_all

lemma no_newline: "CHR 0x0A \<notin> set l \<Longrightarrow> finished acc l = [] \<and> unfinished acc l = acc @ l"
  by (induction l arbitrary: acc) auto

lemma finished_prefix: "finished acc s \<noteq> [] \<Longrightarrow> length acc \<le> length (hd (finished acc s))"
proof (induction s arbitrary: acc)
  case (Cons c s)
  then show ?case using Cons.IH [of "acc @ [c]"] by (cases "c = CHR 0x0A") auto
qed simp

lemma unfinished_length: "length (unfinished acc s) \<le> length acc + length s"
proof (induction s arbitrary: acc)
  case (Cons c s)
  then show ?case using Cons.IH [of "[]"] Cons.IH [of "acc @ [c]"] by auto
qed simp

lemma unfinished_newline: "CHR 0x0A \<notin> set acc \<Longrightarrow> CHR 0x0A \<notin> set (unfinished acc s)"
  by (induction s arbitrary: acc) auto

lemma strchr_Some:
  "strchr s c = Some q \<Longrightarrow> s = take q s @ c # drop (q + 1) s \<and> c \<notin> set (take q s)"
  by (induction s arbitrary: q) (auto split: if_splits)

lemma strchr_None: "strchr s c = None \<Longrightarrow> CHR 0x00 \<notin> set s \<Longrightarrow> c \<notin> set s"
  by (induction s) (auto split: if_splits)

definition printed :: "string \<Rightarrow> string list \<Rightarrow> string" where
  "printed pattern ls = concat (map (\<lambda>l. l @ [CHR 0x0A]) (filter (match pattern) ls))"

lemma grep_lines_cut:
  "CHR 0x00 \<notin> set p \<Longrightarrow> grep_lines pattern p out = (out @ printed pattern (finished [] p), unfinished [] p)"
proof (induction pattern p out rule: grep_lines.induct)
  case (1 pattern p out)
  show ?case
  proof (cases "strchr p (CHR 0x0A)")
    case None
    then show ?thesis using no_newline [OF strchr_None [OF None 1(2)]] by (simp add: printed_def grep_lines.simps [of pattern p])
  next
    case (Some q)
    let ?l = "take q p" and ?r = "drop (q + 1) p"
    have p: "p = ?l @ CHR 0x0A # ?r" and l: "CHR 0x0A \<notin> set ?l" using strchr_Some [OF Some] by simp_all
    have "p ! q = CHR 0x0A" using strchr_less [OF Some] by (subst p) (simp add: nth_append)
    then have t: "take (q + 1) p = ?l @ [CHR 0x0A]" using strchr_less [OF Some] by (simp add: take_Suc_conv_app_nth)
    have "CHR 0x00 \<notin> set ?r" using 1(2) set_drop_subset [of "q + 1" p] by blast
    from 1(1) [OF Some this]
    have "grep_lines pattern p out = (let out' = if match pattern ?l then out @ take (q + 1) p else out in
        (out' @ printed pattern (finished [] ?r), unfinished [] ?r))"
      using Some by (subst grep_lines.simps) (simp add: Let_def)
    moreover have "finished [] p = ?l # finished [] ?r" "unfinished [] p = unfinished [] ?r"
      using no_newline [OF l, of "[]"] finished_append [of "[]" ?l "CHR 0x0A # ?r"] unfinished_append [of "[]" ?l "CHR 0x0A # ?r"]
      unfolding p [symmetric] by simp_all
    ultimately show ?thesis using t by (simp add: printed_def Let_def)
  qed
qed

text \<open>
  A reader of a file with contents \<open>content w\<close>: it delivers the next bytes, at most as many as asked for, and none
  only if none are asked for or none are left.
\<close>

definition file_reader :: "('w \<Rightarrow> nat \<Rightarrow> string \<times> 'w) \<Rightarrow> ('w \<Rightarrow> string) \<Rightarrow> bool" where
  "file_reader rd content \<longleftrightarrow> (\<forall>w n. case rd w n of (d, w') \<Rightarrow>
     content w = d @ content w' \<and> length d \<le> n \<and> (d = [] \<longrightarrow> n = 0 \<or> content w = []))"

lemma grep_run:
  assumes "file_reader rd content" and "CHR 0x00 \<notin> set (content w)" and "CHR 0x00 \<notin> set buf" and "CHR 0x0A \<notin> set buf" and "length buf \<le> 1023"
    and "\<forall>l \<in> set (finished buf (content w)). length l \<le> 1022" and "length (content w) < f"
  shows "\<exists>w'. grep f rd pattern buf out w = Some (out @ printed pattern (finished buf (content w)), w')"
  using assms(2-)
proof (induction f arbitrary: buf out w)
  case (Suc f)
  obtain d w' where r: "rd w (1024 - length buf - 1) = (d, w')" by force
  have d: "content w = d @ content w'" "length d \<le> 1024 - length buf - 1" "d = [] \<Longrightarrow> 1024 - length buf - 1 = 0 \<or> content w = []"
  proof -
    have "case rd w (1024 - length buf - 1) of (d, w') \<Rightarrow> content w = d @ content w' \<and> length d \<le> 1024 - length buf - 1 \<and>
        (d = [] \<longrightarrow> 1024 - length buf - 1 = 0 \<or> content w = [])"
      using assms(1) unfolding file_reader_def by (elim allE)
    then show "content w = d @ content w'" "length d \<le> 1024 - length buf - 1" "d = [] \<Longrightarrow> 1024 - length buf - 1 = 0 \<or> content w = []"
      unfolding r prod.case by blast+
  qed
  show ?case
  proof (cases "d = []")
    case True
    have "finished buf (content w) = []"
    proof (rule ccontr)
      assume ne: "finished buf (content w) \<noteq> []"
      then have "content w \<noteq> []" by auto
      then have "length buf = 1023" using d(3) [OF True] Suc.prems(4) by simp
      moreover have "length (hd (finished buf (content w))) \<le> 1022" using Suc.prems(5) ne by simp
      ultimately show False using finished_prefix [OF ne] by simp
    qed
    then show ?thesis using True r by (simp add: printed_def)
  next
    case False
    let ?b = "unfinished buf d" and ?o = "out @ printed pattern (finished buf d)"
    have z: "CHR 0x00 \<notin> set (buf @ d)" using Suc.prems(1,2) d(1) by auto
    have b: "finished [] (buf @ d) = finished buf d" "unfinished [] (buf @ d) = ?b"
      using no_newline [OF Suc.prems(3), of "[]"] by (simp_all add: finished_append unfinished_append)
    have "set ?b \<subseteq> set buf \<union> set d" by (induction d arbitrary: buf) (auto, fastforce+)
    then have nul: "CHR 0x00 \<notin> set ?b" using z by auto
    have len: "length ?b \<le> 1023" using unfinished_length [of buf d] d(2) Suc.prems(4) by linarith
    have f: "finished buf (content w) = finished buf d @ finished ?b (content w')" by (simp add: d(1) finished_append)
    have "\<exists>w''. grep f rd pattern ?b ?o w' = Some (?o @ printed pattern (finished ?b (content w')), w'')"
      by (rule Suc.IH) (use Suc.prems d(1) nul len unfinished_newline [OF Suc.prems(3)] False f in \<open>auto simp: neq_Nil_conv\<close>)
    then show ?thesis using r False grep_lines_cut [OF z, of pattern out] b f by (simp add: printed_def)
  qed
qed simp

text \<open>
  C24: However the input arrives in pieces, \<open>grep\<close> prints exactly the lines that match, in order, if the input has no
  NUL and no line of more than 1022 characters. It comes to an end. Only lines that end in a newline count: what
  follows the last newline is not printed even if it matches.
\<close>

theorem grep_prints_matching_lines:
  assumes "file_reader rd content" and "CHR 0x00 \<notin> set (content w)" and "\<forall>l \<in> set (finished [] (content w)). length l \<le> 1022"
  shows "\<exists>w'. grep (length (content w) + 1) rd pattern [] [] w =
     Some (concat (map (\<lambda>l. l @ [CHR 0x0A]) (filter (match pattern) (finished [] (content w)))), w')"
  using grep_run [OF assms(1,2) _ _ _ assms(3), of "length (content w) + 1" pattern "[]"] by (simp add: printed_def del: grep.simps)

text \<open>A file that is read in pieces of at most three bytes.\<close>

definition demo_read :: "string \<Rightarrow> nat \<Rightarrow> string \<times> string" where
  "demo_read s n = (take (min n 3) s, drop (min n 3) s)"

definition demo_text :: string where
  "demo_text = ''rib'' @ [CHR 0x0A] @ ''bus'' @ [CHR 0x0A] @ ''tab'' @ [CHR 0x0A] @ ''web''"

theorem grep_prints_matching_lines_witness:
  "\<exists>w'. grep 16 demo_read ''.b$'' [] [] demo_text = Some (''rib'' @ [CHR 0x0A] @ ''tab'' @ [CHR 0x0A], w')"
proof -
  have r: "file_reader demo_read (\<lambda>s. s)" by (auto simp: file_reader_def demo_read_def)
  have t: "CHR 0x00 \<notin> set demo_text" "\<forall>l \<in> set (finished [] demo_text). length l \<le> 1022" "length demo_text + 1 = 16"
    by (simp_all add: demo_text_def)
  have "concat (map (\<lambda>l. l @ [CHR 0x0A]) (filter (match ''.b$'') (finished [] demo_text))) = ''rib'' @ [CHR 0x0A] @ ''tab'' @ [CHR 0x0A]"
    by (simp add: demo_text_def match_def)
  then show ?thesis using grep_prints_matching_lines [OF r t(1,2), of "''.b$''"] unfolding t(3) by simp
qed

end
