(* ===== verification/Shell.thy ===== *)
theory Shell
  imports Prelude
begin

text \<open>
  The command parser of the shell (\<open>user/sh.c\<close>). The line is a list of characters without NUL, a pointer into it a
  position, the position behind its end being the NUL at \<open>es\<close>. The structures \<open>execcmd\<close>, \<open>redircmd\<close>, ... are the
  constructors of a datatype whose strings are pairs of positions, as in the code, until \<open>nulterminate\<close> cuts the
  line into C strings.
\<close>

section \<open>Commands\<close>

datatype 'a cmd =
    EXEC "'a list"
  | REDIR "'a cmd" 'a int int
  | PIPE "'a cmd" "'a cmd"
  | LIST "'a cmd" "'a cmd"
  | BACK "'a cmd"

text \<open>A string of a command that is still a piece of the line: the pointers to its begin and behind its end.\<close>

type_synonym pcmd = "(nat \<times> nat) cmd"

abbreviation (input) MAXARGS :: nat where "MAXARGS \<equiv> 10"

abbreviation (input) O_RDONLY :: int where "O_RDONLY \<equiv> 0"
abbreviation (input) O_WRONLY_CREATE_TRUNC :: int where "O_WRONLY_CREATE_TRUNC \<equiv> 0x601"
abbreviation (input) O_WRONLY_CREATE :: int where "O_WRONLY_CREATE \<equiv> 0x201"

text \<open>The \<open>execcmd\<close> stays in place while redirections are put around it, and gets its arguments there.\<close>

fun add_arg :: "'a cmd \<Rightarrow> 'a \<Rightarrow> 'a cmd" where
  "add_arg (EXEC as) a = EXEC (as @ [a])"
| "add_arg (REDIR c f mode fd) a = REDIR (add_arg c a) f mode fd"
| "add_arg c a = c"

section \<open>Tokens\<close>

definition whitespace :: string where
  "whitespace = [CHR '' '', CHR 0x09, CHR 0x0D, CHR 0x0A, CHR 0x0B]"

definition symbols :: string where
  "symbols = ''<|>&;()''"

definition at :: "string \<Rightarrow> nat \<Rightarrow> char" where
  "at b s = (if s < length b then b ! s else CHR 0x00)"

text \<open>The loops that move over characters of a kind, up to the end of the line.\<close>

definition skip_while :: "(char \<Rightarrow> bool) \<Rightarrow> string \<Rightarrow> nat \<Rightarrow> nat" where
  "skip_while P b s = s + length (takeWhile P (drop s b))"

definition skip_ws :: "string \<Rightarrow> nat \<Rightarrow> nat" where
  "skip_ws = skip_while (\<lambda>c. c \<in> set whitespace)"

definition gettoken :: "string \<Rightarrow> nat \<Rightarrow> char \<times> nat \<times> nat \<times> nat" where
  "gettoken b ps =
     (let s = skip_ws b ps; q = s; c = at b s;
          (ret, s) =
            (if c = CHR 0x00 then (c, s)
             else if c \<in> set ''|();&<'' then (c, s + 1)
             else if c = CHR ''>'' then (if at b (s + 1) = CHR ''>'' then (CHR ''+'', s + 2) else (c, s + 1))
             else (CHR ''a'', skip_while (\<lambda>c. c \<notin> set whitespace \<and> c \<notin> set symbols) b s))
      in (ret, q, s, skip_ws b s))"

definition peek :: "string \<Rightarrow> nat \<Rightarrow> string \<Rightarrow> bool" where
  "peek b ps toks = (let c = at b (skip_ws b ps) in c \<noteq> CHR 0x00 \<and> c \<in> set toks)"

lemma skip_while_ge: "s \<le> skip_while P b s"
  by (simp add: skip_while_def)

lemma skip_while_le: "s \<le> length b \<Longrightarrow> skip_while P b s \<le> length b"
  using length_takeWhile_le [of P "drop s b"] by (simp add: skip_while_def)

lemma skip_ws_ge: "s \<le> skip_ws b s" and skip_ws_le: "s \<le> length b \<Longrightarrow> skip_ws b s \<le> length b"
  by (simp_all add: skip_ws_def skip_while_ge skip_while_le)

lemma at_less: "at b s \<noteq> CHR 0x00 \<Longrightarrow> s < length b"
  by (auto simp: at_def split: if_splits)

text \<open>A token that is there is consumed.\<close>

lemma gettoken_progress:
  assumes "at b (skip_ws b ps) \<noteq> CHR 0x00" and "gettoken b ps = (t, q, eq, s)"
  shows "ps < s" and "s \<le> length b"
proof -
  let ?s = "skip_ws b ps" and ?P = "\<lambda>c. c \<notin> set whitespace \<and> c \<notin> set symbols"
  have l: "?s < length b" using at_less [OF assms(1)] .
  have w: "?s < skip_while ?P b ?s" if "at b ?s \<notin> set ''|();&<''" "at b ?s \<noteq> CHR ''>''"
  proof -
    have "at b ?s \<notin> set whitespace"
      using l nth_length_takeWhile [of "\<lambda>c. c \<in> set whitespace" "drop ps b"] by (simp add: at_def skip_ws_def skip_while_def)
    then have "?P (b ! ?s)" using that l by (auto simp: at_def symbols_def)
    then show ?thesis using l by (simp add: skip_while_def Cons_nth_drop_Suc [symmetric])
  qed
  have "?s < eq \<and> eq \<le> length b"
    using assms l w skip_while_le [of ?s b ?P] at_less [of b "?s + 1"]
    by (auto simp: gettoken_def Let_def split: if_splits)
  moreover have "s = skip_ws b eq" using assms(2) by (auto simp: gettoken_def Let_def split: if_splits)
  ultimately show "ps < s" "s \<le> length b" using skip_ws_ge [of ps b] skip_ws_ge [of eq b] skip_ws_le [of eq b] by linarith+
qed

lemma gettoken_shrinks: "at b (skip_ws b ps) \<noteq> CHR 0x00 \<Longrightarrow> gettoken b ps = (t, q, eq, s) \<Longrightarrow> length b - s < length b - ps"
  using gettoken_progress [of b ps t q eq s] by linarith

section \<open>The parser\<close>

text \<open>
  A parsing function returns a command and the position it has come to, or panics, which ends the process after
  writing a message. The functions that call each other are given a bound on the depth of the calls; \<open>PFuel\<close> says
  that it was reached.
\<close>

datatype pres = POk pcmd nat | PPanic string | PFuel

definition pbind :: "pres \<Rightarrow> (pcmd \<Rightarrow> nat \<Rightarrow> pres) \<Rightarrow> pres" where
  "pbind r f = (case r of POk c s \<Rightarrow> f c s | PPanic e \<Rightarrow> PPanic e | PFuel \<Rightarrow> PFuel)"

definition panic :: "string \<Rightarrow> pres" where
  "panic s = PPanic (s @ [CHR 0x0A])"

definition redircmd :: "char \<Rightarrow> pcmd \<Rightarrow> nat \<Rightarrow> nat \<Rightarrow> pcmd" where
  "redircmd tok c q eq =
     (if tok = CHR ''<'' then REDIR c (q, eq) O_RDONLY 0
      else if tok = CHR ''>'' then REDIR c (q, eq) O_WRONLY_CREATE_TRUNC 1
      else if tok = CHR ''+'' then REDIR c (q, eq) O_WRONLY_CREATE 1
      else c)"

lemma gettoken_a: "gettoken b ps = (CHR ''a'', q, eq, s) \<Longrightarrow> at b (skip_ws b ps) \<noteq> CHR 0x00"
  by (auto simp: gettoken_def Let_def split: if_splits)

lemma peek_shrinks: "peek b ps toks \<Longrightarrow> (t, q, eq, s) = gettoken b ps \<Longrightarrow> length b - s < length b - ps"
  using gettoken_shrinks [of b ps t q eq s] by (auto simp: peek_def Let_def)

lemma word_shrinks: "(CHR ''a'', q, eq, s) = gettoken b ps \<Longrightarrow> length b - s < length b - ps"
  by (rule gettoken_shrinks [OF gettoken_a [OF sym] sym])

function parseredirs :: "string \<Rightarrow> pcmd \<Rightarrow> nat \<Rightarrow> pres" where
  "parseredirs b c ps =
     (if peek b ps ''<>'' then
        (case gettoken b ps of (tok, _, _, s) \<Rightarrow>
         case gettoken b s of (tok', q, eq, s') \<Rightarrow>
         if tok' \<noteq> CHR ''a'' then panic ''missing file for redirection''
         else parseredirs b (redircmd tok c q eq) s')
      else POk c (skip_ws b ps))"
  by auto

termination
proof (relation "measure (\<lambda>(b, c, ps). length b - ps)")
  fix b c ps x y xa ya xaa yb xab yc xac yd xad ye
  assume p: "peek b ps ''<>''" and e: "(x, y) = gettoken b ps" "(xa, ya) = y" "(xaa, yb) = ya"
    "(xab, yc) = gettoken b yb" "(xac, yd) = yc" "(xad, ye) = yd" "\<not> xab \<noteq> CHR ''a''"
  have "(x, xa, xaa, yb) = gettoken b ps" "(CHR ''a'', xac, xad, ye) = gettoken b yb"
    unfolding e(1) [symmetric] e(4) [symmetric] using e(2,3,5-7) by blast+
  from peek_shrinks [OF p this(1)] word_shrinks [OF this(2)]
  show "((b, redircmd x c xac xad, ye), b, c, ps) \<in> measure (\<lambda>(b, c, ps). length b - ps)" by simp
qed simp

declare parseredirs.simps [simp del]

text \<open>The loop of \<open>parseexec\<close> over the arguments.\<close>

function parse_args :: "string \<Rightarrow> nat \<Rightarrow> pcmd \<Rightarrow> nat \<Rightarrow> pres" where
  "parse_args b argc ret ps =
     (if peek b ps ''|)&;'' then POk ret (skip_ws b ps)
      else
        (case gettoken b ps of (tok, q, eq, s) \<Rightarrow>
         if tok = CHR 0x00 then POk ret s
         else if tok \<noteq> CHR ''a'' then panic ''syntax''
         else if argc + 1 \<ge> MAXARGS then panic ''too many args''
         else pbind (parseredirs b (add_arg ret (q, eq)) s) (\<lambda>ret s. parse_args b (argc + 1) ret s)))"
  by auto

termination
  by (relation "measure (\<lambda>(b, argc, ret, ps). MAXARGS - argc)") auto

declare parse_args.simps [simp del]

text \<open>The loop of \<open>parseline\<close> over the ampersands.\<close>

function parse_backs :: "string \<Rightarrow> pcmd \<Rightarrow> nat \<Rightarrow> pres" where
  "parse_backs b c ps =
     (if peek b ps ''&'' then (case gettoken b ps of (_, _, _, s) \<Rightarrow> parse_backs b (BACK c) s)
      else POk c (skip_ws b ps))"
  by auto

termination
proof (relation "measure (\<lambda>(b, c, ps). length b - ps)")
  fix b c ps x y xa ya xaa yb
  assume p: "peek b ps ''&''" and e: "(x, y) = gettoken b ps" "(xa, ya) = y" "(xaa, yb) = ya"
  have "(x, xa, xaa, yb) = gettoken b ps" unfolding e(1) [symmetric] using e(2,3) by blast
  from peek_shrinks [OF p this] show "((b, BACK c, yb), b, c, ps) \<in> measure (\<lambda>(b, c, ps). length b - ps)" by simp
qed simp

declare parse_backs.simps [simp del]

fun parseline :: "nat \<Rightarrow> string \<Rightarrow> nat \<Rightarrow> pres"
  and parsepipe :: "nat \<Rightarrow> string \<Rightarrow> nat \<Rightarrow> pres"
  and parseexec :: "nat \<Rightarrow> string \<Rightarrow> nat \<Rightarrow> pres"
  and parseblock :: "nat \<Rightarrow> string \<Rightarrow> nat \<Rightarrow> pres" where
  "parseline 0 b ps = PFuel"
| "parseline (Suc f) b ps =
     pbind (parsepipe f b ps) (\<lambda>c s.
     pbind (parse_backs b c s) (\<lambda>c s.
     if peek b s '';'' then
       (case gettoken b s of (_, _, _, s) \<Rightarrow> pbind (parseline f b s) (\<lambda>d s. POk (LIST c d) s))
     else POk c (skip_ws b s)))"
| "parsepipe 0 b ps = PFuel"
| "parsepipe (Suc f) b ps =
     pbind (parseexec f b ps) (\<lambda>c s.
     if peek b s ''|'' then
       (case gettoken b s of (_, _, _, s) \<Rightarrow> pbind (parsepipe f b s) (\<lambda>d s. POk (PIPE c d) s))
     else POk c (skip_ws b s))"
| "parseexec 0 b ps = PFuel"
| "parseexec (Suc f) b ps =
     (if peek b ps ''('' then parseblock f b (skip_ws b ps)
      else pbind (parseredirs b (EXEC []) (skip_ws b ps)) (\<lambda>ret s. parse_args b 0 ret s))"
| "parseblock 0 b ps = PFuel"
| "parseblock (Suc f) b ps =
     (if \<not> peek b ps ''('' then panic ''parseblock''
      else case gettoken b ps of (_, _, _, s) \<Rightarrow>
        pbind (parseline f b s) (\<lambda>c s.
        if \<not> peek b s '')'' then panic ''syntax - missing )''
        else case gettoken b s of (_, _, _, s) \<Rightarrow> parseredirs b c s))"

definition parsecmd :: "nat \<Rightarrow> string \<Rightarrow> pres" where
  "parsecmd f b =
     pbind (parseline f b 0) (\<lambda>c s.
     let s = skip_ws b s in
     if s \<noteq> length b then PPanic (''leftovers: '' @ drop s b @ [CHR 0x0A] @ ''syntax'' @ [CHR 0x0A])
     else POk c s)"

text \<open>
  The end of \<open>parsecmd\<close>: NULs are put behind all strings of the command. The buffer is the line with the NUL that
  ends it.
\<close>

primrec nulterminate :: "pcmd \<Rightarrow> string \<Rightarrow> string" where
  "nulterminate (EXEC as) m = fold (\<lambda>a m. m[snd a := CHR 0x00]) as m"
| "nulterminate (REDIR c f mode fd) m = (nulterminate c m)[snd f := CHR 0x00]"
| "nulterminate (PIPE l r) m = nulterminate r (nulterminate l m)"
| "nulterminate (LIST l r) m = nulterminate r (nulterminate l m)"
| "nulterminate (BACK c) m = nulterminate c m"

section \<open>Well-formed commands\<close>

abbreviation word_char :: "char \<Rightarrow> bool" where
  "word_char c \<equiv> c \<notin> set whitespace \<and> c \<notin> set symbols"

text \<open>A string of a command is a maximal non-empty piece of the line without white space and symbols.\<close>

definition token :: "string \<Rightarrow> nat \<Rightarrow> nat \<Rightarrow> bool" where
  "token b q eq \<longleftrightarrow> q < eq \<and> eq \<le> length b \<and> (\<forall>i. q \<le> i \<and> i < eq \<longrightarrow> word_char (b ! i)) \<and> (eq < length b \<longrightarrow> \<not> word_char (b ! eq))"

primrec wf_cmd :: "string \<Rightarrow> pcmd \<Rightarrow> bool" where
  "wf_cmd b (EXEC as) = (length as < MAXARGS \<and> (\<forall>a \<in> set as. token b (fst a) (snd a)))"
| "wf_cmd b (REDIR c f mode fd) = (wf_cmd b c \<and> token b (fst f) (snd f) \<and>
     (mode, fd) \<in> {(O_RDONLY, 0), (O_WRONLY_CREATE_TRUNC, 1), (O_WRONLY_CREATE, 1)})"
| "wf_cmd b (PIPE l r) = (wf_cmd b l \<and> wf_cmd b r)"
| "wf_cmd b (LIST l r) = (wf_cmd b l \<and> wf_cmd b r)"
| "wf_cmd b (BACK c) = wf_cmd b c"

primrec nargs :: "'a cmd \<Rightarrow> nat option" where
  "nargs (EXEC as) = Some (length as)"
| "nargs (REDIR c f mode fd) = nargs c"
| "nargs (PIPE l r) = None"
| "nargs (LIST l r) = None"
| "nargs (BACK c) = None"

lemma add_arg_wf: "wf_cmd b c \<Longrightarrow> nargs c = Some n \<Longrightarrow> n + 1 < MAXARGS \<Longrightarrow> token b (fst a) (snd a) \<Longrightarrow> wf_cmd b (add_arg c a) \<and> nargs (add_arg c a) = Some (n + 1)"
  by (induction c) auto

lemma redircmd_wf:
  assumes "wf_cmd b c" and "token b q eq"
  shows "wf_cmd b (redircmd t c q eq)" and "nargs (redircmd t c q eq) = nargs c"
  using assms by (simp_all add: redircmd_def)

lemma skip_while_stop: "skip_while P b s < length b \<Longrightarrow> \<not> P (b ! skip_while P b s)"
  using nth_length_takeWhile [of P "drop s b"] by (simp add: skip_while_def less_diff_conv add.commute)

lemma skip_while_mid: "s \<le> i \<Longrightarrow> i < skip_while P b s \<Longrightarrow> P (b ! i)"
proof -
  assume i: "s \<le> i" "i < skip_while P b s"
  then have j: "i - s < length (takeWhile P (drop s b))" by (simp add: skip_while_def)
  have "i - s < length (drop s b)" using j length_takeWhile_le [of P "drop s b"] by linarith
  then have "takeWhile P (drop s b) ! (i - s) = b ! i" using takeWhile_nth [OF j] i(1) by simp
  then show "P (b ! i)" using set_takeWhileD [OF nth_mem [OF j]] by simp
qed

lemma gettoken_word:
  assumes "gettoken b ps = (CHR ''a'', q, eq, s)"
  shows "token b q eq" and "ps \<le> q" and "eq \<le> s" and "s \<le> length b" and "ps < s"
proof -
  let ?q = "skip_ws b ps"
  have n: "at b ?q \<noteq> CHR 0x00" by (rule gettoken_a [OF assms])
  have l: "?q < length b" by (rule at_less [OF n])
  have c: "at b ?q \<notin> set ''|();&<''" "at b ?q \<noteq> CHR ''>''" and e: "q = ?q" "eq = skip_while word_char b ?q" "s = skip_ws b eq"
    using assms n by (auto simp: gettoken_def Let_def split: if_splits)
  have "at b ?q \<notin> set whitespace" using l skip_while_stop [of "\<lambda>c. c \<in> set whitespace" b ps] by (simp add: at_def skip_ws_def)
  then have w: "word_char (b ! ?q)" using c l by (auto simp: at_def symbols_def)
  then have "?q < eq" using l by (simp add: e(2) skip_while_def Cons_nth_drop_Suc [symmetric])
  then show "token b q eq"
    using skip_while_mid [of ?q _ word_char b] skip_while_stop [of word_char b ?q] skip_while_le [of ?q b word_char] l
    by (auto simp: token_def e)
  show "ps \<le> q" by (simp add: e(1) skip_ws_ge)
  show "eq \<le> s" by (simp add: e(3) skip_ws_ge)
  show "s \<le> length b" "ps < s" using gettoken_progress [OF n assms] by simp_all
qed

text \<open>A result that is a well-formed command, with the position moved forward inside the line, or a panic.\<close>

definition good :: "string \<Rightarrow> nat \<Rightarrow> pres \<Rightarrow> bool" where
  "good b ps r = (case r of POk c s \<Rightarrow> wf_cmd b c \<and> ps \<le> s \<and> s \<le> length b | PPanic e \<Rightarrow> e \<noteq> [] | PFuel \<Rightarrow> False)"

lemma good_panic [simp]: "good b ps (panic e)"
  by (simp add: good_def panic_def)

lemma good_bind:
  assumes "good b ps r" and "\<And>c s. r = POk c s \<Longrightarrow> wf_cmd b c \<Longrightarrow> ps \<le> s \<Longrightarrow> s \<le> length b \<Longrightarrow> good b s (f c s)"
  shows "good b ps (pbind r f)"
proof (cases r)
  case (POk c s)
  then have c: "wf_cmd b c" "ps \<le> s" "s \<le> length b" using assms(1) by (simp_all add: good_def)
  from assms(2) [OF POk this] show ?thesis using POk c by (auto simp: pbind_def good_def split: pres.splits)
qed (use assms(1) in \<open>simp_all add: pbind_def good_def\<close>)

lemma good_mono: "good b s r \<Longrightarrow> ps \<le> s \<Longrightarrow> good b ps r"
  by (auto simp: good_def split: pres.splits)

lemma peek_token:
  assumes "peek b ps toks" and "gettoken b ps = (t, q, eq, s)"
  shows "ps < s" and "s \<le> length b"
  using gettoken_progress [OF _ assms(2)] assms(1) by (auto simp: peek_def Let_def)

lemma parseredirs_good:
  "wf_cmd b c \<Longrightarrow> ps \<le> length b \<Longrightarrow> good b ps (parseredirs b c ps) \<and> (\<forall>c' s. parseredirs b c ps = POk c' s \<longrightarrow> nargs c' = nargs c)"
proof (induction b c ps rule: parseredirs.induct)
  case (1 b c ps)
  show ?case
  proof (cases "peek b ps ''<>''")
    case False
    then show ?thesis using 1(2,3) by (subst (1 2) parseredirs.simps) (simp add: good_def skip_ws_ge skip_ws_le)
  next
    case True
    obtain tok q0 eq0 s where g: "gettoken b ps = (tok, q0, eq0, s)" by (metis prod_cases4)
    obtain tok' q eq s' where g': "gettoken b s = (tok', q, eq, s')" by (metis prod_cases4)
    show ?thesis
    proof (cases "tok' = CHR ''a''")
      case False
      then show ?thesis using True g g' by (subst (1 2) parseredirs.simps) (simp add: panic_def good_def)
    next
      case a: True
      note w = gettoken_word [OF g' [unfolded a]] and p = peek_token [OF True g]
      note r = redircmd_wf [OF 1(2) w(1), of tok]
      have "good b s' (parseredirs b (redircmd tok c q eq) s') \<and>
          (\<forall>c' t. parseredirs b (redircmd tok c q eq) s' = POk c' t \<longrightarrow> nargs c' = nargs (redircmd tok c q eq))"
        using 1(1) [OF True g [symmetric] refl refl g' [symmetric] refl refl, simplified] a r(1) w(4) by blast
      moreover have "parseredirs b c ps = parseredirs b (redircmd tok c q eq) s'"
        using True g g' a by (subst parseredirs.simps) simp
      moreover have "ps \<le> s'" using w(5) p(1) by simp
      ultimately show ?thesis using good_mono [of b s' _ ps] r(2) by simp
    qed
  qed
qed

lemma parse_args_good:
  "wf_cmd b ret \<Longrightarrow> nargs ret = Some argc \<Longrightarrow> argc < MAXARGS \<Longrightarrow> ps \<le> length b \<Longrightarrow> good b ps (parse_args b argc ret ps)"
proof (induction b argc ret ps rule: parse_args.induct)
  case (1 b argc ret ps)
  obtain tok q eq s where g: "gettoken b ps = (tok, q, eq, s)" by (metis prod_cases4)
  show ?case
  proof (cases "\<not> peek b ps ''|)&;'' \<and> tok = CHR ''a'' \<and> argc + 1 < MAXARGS")
    case True
    note w = gettoken_word [of b ps q eq s] 
    have t: "token b q eq" "s \<le> length b" "ps < s" using w True g by simp_all
    have a: "wf_cmd b (add_arg ret (q, eq))" "nargs (add_arg ret (q, eq)) = Some (argc + 1)"
      using add_arg_wf [OF 1(2,3), of "(q, eq)"] True t(1) by simp_all
    note r = parseredirs_good [OF a(1) t(2)]
    have "good b s (pbind (parseredirs b (add_arg ret (q, eq)) s) (\<lambda>ret s. parse_args b (argc + 1) ret s))"
    proof (rule good_bind)
      show "good b s (parseredirs b (add_arg ret (q, eq)) s)" using r by simp
      fix c s'
      assume c: "parseredirs b (add_arg ret (q, eq)) s = POk c s'" "wf_cmd b c" "s' \<le> length b"
      then have "nargs c = Some (argc + 1)" using r a(2) by simp
      then show "good b s' (parse_args b (argc + 1) c s')"
        using 1(1) [OF _ g [symmetric] refl refl] True c by simp
    qed
    then show ?thesis using True g good_mono [of b s _ ps] t(3) by (subst parse_args.simps) simp
  next
    case False
    have "s \<le> length b" "ps \<le> s" if "tok = CHR 0x00"
      using g that 1(5) skip_ws_ge [of ps b] skip_ws_ge [of "skip_ws b ps" b] skip_ws_le [of ps b] skip_ws_le [of "skip_ws b ps" b]
      by (auto simp: gettoken_def Let_def split: if_splits)
    then show ?thesis using False g 1(2,5) by (subst parse_args.simps) (auto simp: skip_ws_ge skip_ws_le good_def panic_def)
  qed
qed

lemma parse_backs_good: "wf_cmd b c \<Longrightarrow> ps \<le> length b \<Longrightarrow> good b ps (parse_backs b c ps)"
proof (induction b c ps rule: parse_backs.induct)
  case (1 b c ps)
  obtain tok q eq s where g: "gettoken b ps = (tok, q, eq, s)" by (metis prod_cases4)
  show ?case
  proof (cases "peek b ps ''&''")
    case True
    note p = peek_token [OF True g]
    have "good b s (parse_backs b (BACK c) s)" using 1(1) [OF True g [symmetric] refl refl] 1(2) p(2) by simp
    then show ?thesis using True g good_mono [of b s _ ps] p(1) by (subst parse_backs.simps) simp
  next
    case False
    then show ?thesis using 1(2,3) by (subst parse_backs.simps) (simp add: good_def skip_ws_ge skip_ws_le)
  qed
qed

lemma good_peek:
  assumes "\<And>s'. s < s' \<Longrightarrow> s' \<le> length b \<Longrightarrow> good b s (g s')" and "wf_cmd b c" and "s \<le> length b"
  shows "good b s (if peek b s t then (case gettoken b s of (_, _, _, s) \<Rightarrow> g s) else POk c (skip_ws b s))"
proof (cases "peek b s t")
  case True
  obtain tok q eq s' where g: "gettoken b s = (tok, q, eq, s')" by (metis prod_cases4)
  show ?thesis using True g assms(1) [OF peek_token [OF True g]] by simp
qed (use assms(2,3) in \<open>simp add: good_def skip_ws_ge skip_ws_le\<close>)

lemma parse_good:
  shows "ps \<le> length b \<Longrightarrow> 4 * (length b - ps) + 4 \<le> f \<Longrightarrow> good b ps (parseline f b ps)"
    and "ps \<le> length b \<Longrightarrow> 4 * (length b - ps) + 3 \<le> f \<Longrightarrow> good b ps (parsepipe f b ps)"
    and "ps \<le> length b \<Longrightarrow> 4 * (length b - ps) + 2 \<le> f \<Longrightarrow> good b ps (parseexec f b ps)"
    and "ps \<le> length b \<Longrightarrow> 4 * (length b - ps) + 1 \<le> f \<Longrightarrow> good b ps (parseblock f b ps)"
proof (induction f arbitrary: ps)
  case (Suc f)
  {
    case 1
    have line: "good b s (pbind (parseline f b s') (\<lambda>d s. POk (LIST c d) s))" if "wf_cmd b c" "ps \<le> s" "s < s'" "s' \<le> length b" for c s s'
    proof -
      have "good b s' (parseline f b s')" using Suc.IH(1) [of s'] 1 that by simp
      then have "good b s' (pbind (parseline f b s') (\<lambda>d s. POk (LIST c d) s))" by (rule good_bind) (use that(1) in \<open>simp add: good_def\<close>)
      then show ?thesis using that(3) by (auto intro: good_mono)
    qed
    show ?case unfolding parseline.simps
    proof (rule good_bind)
      show "good b ps (parsepipe f b ps)" using Suc.IH(2) [of ps] 1 by simp
      fix c s assume c: "wf_cmd b c" "ps \<le> s" "s \<le> length b"
      show "good b s (pbind (parse_backs b c s) (\<lambda>c s. if peek b s '';'' then (case gettoken b s of (_, _, _, s) \<Rightarrow> pbind (parseline f b s) (\<lambda>d s. POk (LIST c d) s))
          else POk c (skip_ws b s)))"
        by (rule good_bind [OF parse_backs_good [OF c(1,3)]], rule good_peek, rule line) (use c(2) in simp_all)
    qed
  next
    case 2
    have pipe: "good b s (pbind (parsepipe f b s') (\<lambda>d s. POk (PIPE c d) s))" if "wf_cmd b c" "ps \<le> s" "s < s'" "s' \<le> length b" for c s s'
    proof -
      have "good b s' (parsepipe f b s')" using Suc.IH(2) [of s'] 2 that by simp
      then have "good b s' (pbind (parsepipe f b s') (\<lambda>d s. POk (PIPE c d) s))" by (rule good_bind) (use that(1) in \<open>simp add: good_def\<close>)
      then show ?thesis using that(3) by (auto intro: good_mono)
    qed
    show ?case unfolding parsepipe.simps
    proof (rule good_bind)
      show "good b ps (parseexec f b ps)" using Suc.IH(3) [of ps] 2 by simp
      fix c s assume c: "wf_cmd b c" "ps \<le> s" "s \<le> length b"
      show "good b s (if peek b s ''|'' then (case gettoken b s of (_, _, _, s) \<Rightarrow> pbind (parsepipe f b s) (\<lambda>d s. POk (PIPE c d) s)) else POk c (skip_ws b s))"
        by (rule good_peek, rule pipe) (use c in simp_all)
    qed
  next
    case 3
    let ?s = "skip_ws b ps"
    have s: "ps \<le> ?s" "?s \<le> length b" using 3 by (simp_all add: skip_ws_ge skip_ws_le)
    have "good b ?s (parseblock f b ?s)" using Suc.IH(4) [of ?s] 3 s by simp
    moreover have "good b ?s (pbind (parseredirs b (EXEC []) ?s) (\<lambda>ret s. parse_args b 0 ret s))"
      using parseredirs_good [of b "EXEC []" ?s] s(2) by (intro good_bind parse_args_good) auto
    ultimately show ?case using good_mono [OF _ s(1)] by simp
  next
    case 4
    obtain tok q eq s where g: "gettoken b ps = (tok, q, eq, s)" by (metis prod_cases4)
    show ?case
    proof (cases "peek b ps ''(''")
      case True
      note p = peek_token [OF True g]
      have "good b s (parseline f b s)" using Suc.IH(1) [of s] 4 p by simp
      then have "good b s (pbind (parseline f b s) (\<lambda>c s. if \<not> peek b s '')'' then panic ''syntax - missing )''
          else case gettoken b s of (_, _, _, s) \<Rightarrow> parseredirs b c s))"
      proof (rule good_bind)
        fix c s' assume c: "wf_cmd b c" "s' \<le> length b"
        obtain t' q' eq' r where g': "gettoken b s' = (t', q', eq', r)" by (metis prod_cases4)
        have "good b s' (parseredirs b c r)" if "peek b s' '')''"
          using parseredirs_good [OF c(1), of r] peek_token [OF that g'] good_mono [of b r _ s'] by simp
        then show "good b s' (if \<not> peek b s' '')'' then panic ''syntax - missing )'' else case gettoken b s' of (_, _, _, s) \<Rightarrow> parseredirs b c s)"
          using g' by simp
      qed
      then show ?thesis using True g p good_mono [of b s _ ps] by simp
    qed simp
  }
qed simp_all

lemma parsecmd_good:
  "case parsecmd (4 * length b + 4) b of POk c s \<Rightarrow> s = length b \<and> wf_cmd b c | PPanic msg \<Rightarrow> msg \<noteq> [] | PFuel \<Rightarrow> False"
  using parse_good(1) [of 0 b "4 * length b + 4"]
  by (auto simp: parsecmd_def good_def pbind_def Let_def split: pres.splits)

text \<open>
  C22: The parser comes to an end on every line, with calls at most four per character deep: it panics with a message
  or it returns a command and has read the whole line. The command is well formed: it has fewer than \<open>MAXARGS\<close>
  arguments at every place, its strings are whole words of the line, within the line, and its redirections have
  one of the three combinations of mode and descriptor.
\<close>

theorem parsecmd_total:
  "case parsecmd (4 * length b + 4) b of POk c s \<Rightarrow> s = length b \<and> wf_cmd b c | PPanic msg \<Rightarrow> msg \<noteq> [] | PFuel \<Rightarrow> False"
  by (rule parsecmd_good)

section \<open>The strings of a command\<close>

definition piece :: "string \<Rightarrow> nat \<times> nat \<Rightarrow> string" where
  "piece b a = take (snd a - fst a) (drop (fst a) b)"

text \<open>The C string at position \<open>q\<close> of a buffer.\<close>

definition cstr :: "string \<Rightarrow> nat \<Rightarrow> string" where
  "cstr m q = takeWhile (\<lambda>c. c \<noteq> CHR 0x00) (drop q m)"

text \<open>The positions at which \<open>nulterminate\<close> stores a NUL.\<close>

primrec ends :: "pcmd \<Rightarrow> nat set" where
  "ends (EXEC as) = snd ` set as"
| "ends (REDIR c f mode fd) = insert (snd f) (ends c)"
| "ends (PIPE l r) = ends l \<union> ends r"
| "ends (LIST l r) = ends l \<union> ends r"
| "ends (BACK c) = ends c"

lemma upd_nth: "j < length xs \<Longrightarrow> xs[i := x] ! j = (if i = j then x else xs ! j)"
  by (cases "i = j") simp_all

lemma fold_update: "length (fold (\<lambda>a m. m[snd a := z]) as m) = length m"
  "i < length m \<Longrightarrow> fold (\<lambda>a m. m[snd a := z]) as m ! i = (if i \<in> snd ` set as then z else m ! i)"
  by (induction as arbitrary: m) (auto simp: nth_list_update)

lemma nulterminate_length [simp]: "length (nulterminate c m) = length m"
  by (induction c arbitrary: m) (simp_all add: fold_update)

lemma nulterminate_nth: "i < length m \<Longrightarrow> nulterminate c m ! i = (if i \<in> ends c then CHR 0x00 else m ! i)"
  by (induction c arbitrary: m) (auto simp: fold_update upd_nth)

lemma ends_not_word: "wf_cmd b c \<Longrightarrow> i \<in> ends c \<Longrightarrow> i \<le> length b \<and> (i < length b \<longrightarrow> \<not> word_char (b ! i))"
  by (induction c) (auto simp: token_def)

lemma cstr_token:
  assumes "CHR 0x00 \<notin> set b" and "wf_cmd b c" and t: "token b q eq" and e: "eq \<in> ends c"
  shows "cstr (nulterminate c (b @ [CHR 0x00])) q = piece b (q, eq)"
proof -
  let ?m = "nulterminate c (b @ [CHR 0x00])" and ?n = "eq - q"
  have eq: "q < eq" "eq \<le> length b" using t by (simp_all add: token_def)
  have "?m ! eq = CHR 0x00" using nulterminate_nth [of eq "b @ [CHR 0x00]" c] e eq by simp
  then have d: "drop eq ?m = CHR 0x00 # drop (Suc eq) ?m" using eq by (simp add: Cons_nth_drop_Suc [symmetric])
  have mid: "?m ! i = b ! i" if "q \<le> i" "i < eq" for i
  proof -
    have "word_char (b ! i)" using t that by (simp add: token_def)
    then have "i \<notin> ends c" using ends_not_word [OF assms(2)] that eq by fastforce
    then show ?thesis using nulterminate_nth [of i "b @ [CHR 0x00]" c] that eq by (simp add: nth_append)
  qed
  have p: "take ?n (drop q ?m) = piece b (q, eq)"
    by (rule nth_equalityI) (use eq mid in \<open>simp_all add: piece_def\<close>)
  have "drop q ?m = piece b (q, eq) @ CHR 0x00 # drop (Suc eq) ?m"
    using append_take_drop_id [of ?n "drop q ?m"] d eq by (simp add: p)
  moreover have "CHR 0x00 \<notin> set (piece b (q, eq))" using assms(1) by (auto simp: piece_def dest: in_set_takeD in_set_dropD)
  then have "takeWhile (\<lambda>c. c \<noteq> CHR 0x00) (piece b (q, eq) @ CHR 0x00 # drop (Suc eq) ?m) = piece b (q, eq)"
    by (subst takeWhile_append2) auto
  ultimately show ?thesis by (simp add: cstr_def)
qed

lemma wf_strings: "wf_cmd b c \<Longrightarrow> a \<in> set_cmd c \<Longrightarrow> token b (fst a) (snd a) \<and> snd a \<in> ends c"
  by (induction c) auto

lemma nul_strings:
  assumes "CHR 0x00 \<notin> set b" and "wf_cmd b c"
  shows "map_cmd (\<lambda>a. cstr (nulterminate c (b @ [CHR 0x00])) (fst a)) c = map_cmd (piece b) c"
  by (rule cmd.map_cong [OF refl]) (use cstr_token [OF assms] wf_strings [OF assms(2)] in auto)

text \<open>
  C23: What \<open>nulterminate\<close> does to the line is right: it writes only inside the buffer, and afterwards every pointer
  of the command points to a C string that is exactly the word of the line it stands for; no NUL that ends one
  word cuts another one.
\<close>

theorem nulterminate_strings:
  assumes "CHR 0x00 \<notin> set b" and "parsecmd (4 * length b + 4) b = POk c s"
  shows "(\<forall>i \<in> ends c. i < length (b @ [CHR 0x00])) \<and> map_cmd (\<lambda>a. cstr (nulterminate c (b @ [CHR 0x00])) (fst a)) c = map_cmd (piece b) c"
proof
  have w: "wf_cmd b c" using parsecmd_good [of b] assms(2) by simp
  show "\<forall>i \<in> ends c. i < length (b @ [CHR 0x00])" using ends_not_word [OF w] by (simp add: less_Suc_eq_le)
  show "map_cmd (\<lambda>a. cstr (nulterminate c (b @ [CHR 0x00])) (fst a)) c = map_cmd (piece b) c"
    by (rule nul_strings [OF assms(1) w])
qed

theorem nulterminate_strings_witness:
  "let b = ''ls|wc >o''; c = PIPE (EXEC [(0, 2)]) (REDIR (EXEC [(3, 5)]) (7, 8) O_WRONLY_CREATE_TRUNC 1) in
     parsecmd (4 * length b + 4) b = POk c 8 \<and> nulterminate c (b @ [CHR 0x00]) = ''ls'' @ [CHR 0x00] @ ''wc'' @ [CHR 0x00] @ ''>o'' @ [CHR 0x00] \<and>
     (\<forall>i \<in> ends c. i < 9) \<and> map_cmd (\<lambda>a. cstr (nulterminate c (b @ [CHR 0x00])) (fst a)) c =
       PIPE (EXEC [''ls'']) (REDIR (EXEC [''wc'']) ''o'' O_WRONLY_CREATE_TRUNC 1)"
proof -
  let ?b = "''ls|wc >o''" and ?c = "PIPE (EXEC [(0, 2)]) (REDIR (EXEC [(3, 5)]) (7, 8) O_WRONLY_CREATE_TRUNC 1)"
  have p: "parsecmd (4 * length ?b + 4) ?b = POk ?c 8" by code_simp
  have n: "nulterminate ?c (?b @ [CHR 0x00]) = ''ls'' @ [CHR 0x00] @ ''wc'' @ [CHR 0x00] @ ''>o'' @ [CHR 0x00]" by code_simp
  have m: "map_cmd (piece ?b) ?c = PIPE (EXEC [''ls'']) (REDIR (EXEC [''wc'']) ''o'' O_WRONLY_CREATE_TRUNC 1)"
    by (simp add: piece_def)
  have "CHR 0x00 \<notin> set ?b" by simp
  from nulterminate_strings [OF this p] p n m show ?thesis by (simp only: Let_def) simp
qed

end
