(* ===== verification/ShellPrint.thy ===== *)
theory ShellPrint
  imports Shell
begin

text \<open>
  The parser of the shell understands what it is meant to: the text of a command, printed with the usual
  precedences and parentheses, is parsed into that command.
\<close>

section \<open>The text of a command\<close>

definition word :: "string \<Rightarrow> bool" where
  "word w \<longleftrightarrow> w \<noteq> [] \<and> (\<forall>c \<in> set w. word_char c \<and> c \<noteq> CHR 0x00)"

definition redir_sym :: "int \<Rightarrow> string" where
  "redir_sym mode = (if mode = O_RDONLY then ''<'' else if mode = O_WRONLY_CREATE_TRUNC then ''>'' else ''>>'')"

definition redir_text :: "string \<times> int \<times> int \<Rightarrow> string" where
  "redir_text r = redir_sym (fst (snd r)) @ '' '' @ fst r @ '' ''"

definition parens :: "bool \<Rightarrow> string \<Rightarrow> string" where
  "parens p t = (if p then ''( '' @ t @ '') '' else t)"

text \<open>Levels: 0 a line, 1 what may stand left of a semicolon, 2 a pipeline, 3 a member of a pipeline.\<close>

primrec show_cmd :: "string cmd \<Rightarrow> nat \<Rightarrow> string" where
  "show_cmd (EXEC ws) = (\<lambda>n. concat (map (\<lambda>w. w @ '' '') ws))"
| "show_cmd (REDIR c f mode fd) = (\<lambda>n. show_cmd c 3 @ redir_text (f, mode, fd))"
| "show_cmd (PIPE l r) = (\<lambda>n. parens (n > 2) (show_cmd l 3 @ ''| '' @ show_cmd r 2))"
| "show_cmd (LIST l r) = (\<lambda>n. parens (n > 0) (show_cmd l 1 @ ''; '' @ show_cmd r 0))"
| "show_cmd (BACK c) = (\<lambda>n. parens (n > 1) (show_cmd c 1 @ ''& ''))"

definition redir_ok :: "string \<times> int \<times> int \<Rightarrow> bool" where
  "redir_ok r \<longleftrightarrow> word (fst r) \<and> snd r \<in> {(O_RDONLY, 0), (O_WRONLY_CREATE_TRUNC, 1), (O_WRONLY_CREATE, 1)}"

primrec sane :: "string cmd \<Rightarrow> bool" where
  "sane (EXEC ws) = (length ws < MAXARGS \<and> (\<forall>w \<in> set ws. word w))"
| "sane (REDIR c f mode fd) = (sane c \<and> redir_ok (f, mode, fd))"
| "sane (PIPE l r) = (sane l \<and> sane r)"
| "sane (LIST l r) = (sane l \<and> sane r)"
| "sane (BACK c) = sane c"

section \<open>Reading tokens\<close>

text \<open>Position \<open>s\<close> of the line \<open>b\<close> is in front of the text \<open>r\<close>.\<close>

definition before :: "string \<Rightarrow> nat \<Rightarrow> string \<Rightarrow> bool" where
  "before b s r \<longleftrightarrow> s \<le> length b \<and> drop s b = r"

definition starts :: "string \<Rightarrow> bool" where
  "starts r \<longleftrightarrow> r = [] \<or> hd r \<notin> set whitespace \<and> hd r \<noteq> CHR 0x00"

lemma before_append:
  assumes "before b s (x @ r)"
  shows "before b (s + length x) r"
proof -
  have d: "drop s b = x @ r" "s \<le> length b" using assms by (simp_all add: before_def)
  have "length b - s = length x + length r" using arg_cong [OF d(1), of length] by simp
  moreover have "drop (s + length x) b = drop (length x) (drop s b)" by (simp add: add.commute)
  ultimately show ?thesis using d by (simp add: before_def)
qed

lemma before_Cons: "before b s (x # r) \<Longrightarrow> before b (s + 1) r"
  using before_append [of b s "[x]" r] by simp

lemma before_at: "before b s (x # r) \<Longrightarrow> at b s = x" "before b s [] \<Longrightarrow> at b s = CHR 0x00"
  by (auto simp: before_def at_def nth_via_drop)

lemma skip_while_before:
  assumes "before b s (w @ r)" and "\<forall>c \<in> set w. P c" and "r = [] \<or> \<not> P (hd r)"
  shows "skip_while P b s = s + length w"
proof -
  have "takeWhile P (w @ r) = w" using assms(2,3) by (cases r) (auto simp: takeWhile_append2 takeWhile_eq_all_conv)
  then show ?thesis using assms(1) by (simp add: before_def skip_while_def)
qed

lemma skip_ws_starts: "before b s r \<Longrightarrow> starts r \<Longrightarrow> skip_ws b s = s"
  using skip_while_before [of b s "[]" r] by (auto simp: skip_ws_def starts_def)

lemma skip_ws_space: "before b s (CHR '' '' # r) \<Longrightarrow> starts r \<Longrightarrow> skip_ws b s = s + 1"
  using skip_while_before [of b s "'' ''" r] by (auto simp: skip_ws_def starts_def whitespace_def)

lemma peek_starts: "before b s (x # r) \<Longrightarrow> starts (x # r) \<Longrightarrow> peek b s t = (x \<in> set t)" "before b s [] \<Longrightarrow> \<not> peek b s t"
  using skip_ws_starts [of b s "x # r"] skip_ws_starts [of b s "[]"] before_at [of b s]
  by (auto simp: peek_def Let_def starts_def)

lemma starts_sym: "c \<in> set symbols \<Longrightarrow> starts (c # r)"
  by (auto simp: starts_def symbols_def whitespace_def)

lemma starts_word: "word w \<Longrightarrow> starts (w @ r)"
  by (cases w) (auto simp: word_def starts_def)

lemma gettoken_sym:
  assumes "before b s (c # CHR '' '' # r)" and "c \<in> set ''|();&<>''" and "starts r"
  shows "gettoken b s = (c, s, s + 1, s + 2)"
proof -
  have c: "c \<in> set symbols" "c \<noteq> CHR 0x00" using assms(2) by (auto simp: symbols_def)
  have s: "skip_ws b s = s" using skip_ws_starts [OF assms(1)] starts_sym [OF c(1)] by simp
  have "skip_ws b (s + 1) = s + 2" "at b (s + 1) = CHR '' ''"
    using skip_ws_space [OF before_Cons [OF assms(1)] assms(3)] before_at(1) [OF before_Cons [OF assms(1)]] by simp_all
  then show ?thesis using before_at(1) [OF assms(1)] assms(2) c(2) s by (auto simp: gettoken_def Let_def)
qed

lemma gettoken_append:
  assumes "before b s (''>> '' @ r)" and "starts r"
  shows "gettoken b s = (CHR ''+'', s, s + 2, s + 3)"
proof -
  have b: "before b s (CHR ''>'' # CHR ''>'' # CHR '' '' # r)" using assms(1) by simp
  have s: "skip_ws b s = s" using skip_ws_starts [OF b] starts_sym [of "CHR ''>''"] by (simp add: symbols_def)
  have "before b (s + 2) (CHR '' '' # r)" using before_Cons [OF before_Cons [OF b]] by simp
  then have "skip_ws b (s + 2) = s + 3" using skip_ws_space assms(2) by force
  then show ?thesis using before_at(1) [OF b] before_at(1) [OF before_Cons [OF b]] s by (simp add: gettoken_def Let_def)
qed

lemma gettoken_print_word:
  assumes "before b s (w @ CHR '' '' # r)" and "word w" and "starts r"
  shows "gettoken b s = (CHR ''a'', s, s + length w, s + length w + 1)" and "piece b (s, s + length w) = w"
proof -
  obtain x v where w: "w = x # v" using assms(2) by (cases w) (auto simp: word_def)
  have x: "word_char x" "x \<noteq> CHR 0x00" using assms(2) by (simp_all add: w word_def)
  have s: "skip_ws b s = s" using skip_ws_starts [OF assms(1)] starts_word [OF assms(2)] by simp
  have e: "skip_while word_char b s = s + length w"
    by (rule skip_while_before [OF assms(1)]) (use assms(2) in \<open>auto simp: word_def whitespace_def\<close>)
  have t: "skip_ws b (s + length w) = s + length w + 1" by (rule skip_ws_space [OF before_append [OF assms(1)] assms(3)])
  have "at b s = x" using before_at(1) assms(1) by (simp add: w)
  then show "gettoken b s = (CHR ''a'', s, s + length w, s + length w + 1)"
    using x s e t by (auto simp: gettoken_def Let_def symbols_def)
  show "piece b (s, s + length w) = w" using assms(1) by (simp add: piece_def before_def)
qed

section \<open>Redirections and arguments\<close>

abbreviation view :: "string \<Rightarrow> pcmd \<Rightarrow> string cmd" where
  "view b c \<equiv> map_cmd (piece b) c"

definition redirected :: "'a cmd \<Rightarrow> ('a \<times> int \<times> int) list \<Rightarrow> 'a cmd" where
  "redirected c rs = fold (\<lambda>(f, mode, fd) c. REDIR c f mode fd) rs c"

definition redir_texts :: "(string \<times> int \<times> int) list \<Rightarrow> string" where
  "redir_texts rs = concat (map redir_text rs)"

text \<open>The text that follows begins with one of the characters.\<close>

definition follows :: "string \<Rightarrow> string \<Rightarrow> bool" where
  "follows t r \<longleftrightarrow> r = [] \<or> hd r \<in> set t"

lemma follows_starts: "follows ''|)&;'' r \<Longrightarrow> starts r"
  by (auto simp: follows_def starts_def whitespace_def)

lemma redir_texts_starts: "starts r \<Longrightarrow> starts (redir_texts rs @ r)"
  by (cases rs) (auto simp: redir_texts_def redir_text_def redir_sym_def starts_def whitespace_def)

lemma redir_token:
  assumes "before b s (redir_text f @ r)" and "redir_ok f" and "starts r"
  shows "\<exists>tok q. peek b s ''<>'' \<and> gettoken b s = (tok, s, s + length (redir_sym (fst (snd f))), q) \<and>
     gettoken b q = (CHR ''a'', q, q + length (fst f), q + length (fst f) + 1) \<and> piece b (q, q + length (fst f)) = fst f \<and>
     redircmd tok c q (q + length (fst f)) = REDIR c (q, q + length (fst f)) (fst (snd f)) (snd (snd f)) \<and> q + length (fst f) + 1 = s + length (redir_text f)"
proof -
  obtain w mode fd where f: "f = (w, mode, fd)" by (metis prod_cases3)
  let ?q = "s + length (redir_sym mode) + 1"
  have w: "word w" and m: "(mode, fd) \<in> {(O_RDONLY, 0), (O_WRONLY_CREATE_TRUNC, 1), (O_WRONLY_CREATE, 1)}"
    using assms(2) by (simp_all add: f redir_ok_def)
  let ?r = "w @ CHR '' '' # r"
  have b: "before b s (redir_sym mode @ CHR '' '' # ?r)" using assms(1) by (simp add: f redir_text_def)
  have q: "before b ?q ?r" using before_Cons [OF before_append [OF b]] by simp
  note t = gettoken_print_word [OF q w assms(3)]
  have st: "starts ?r" by (rule starts_word [OF w])
  have p: "peek b s ''<>''" using b peek_starts(1) [of b s _ _ "''<>''"] by (auto simp: redir_sym_def starts_def whitespace_def split: if_splits)
  show ?thesis
  proof (cases "mode = O_WRONLY_CREATE")
    case True
    then have "gettoken b s = (CHR ''+'', s, s + 2, s + 3)" using gettoken_append [of b s ?r] b st by (simp add: redir_sym_def)
    then show ?thesis using p t m True
      by (intro exI [of _ "CHR ''+''"] exI [of _ ?q]) (simp add: f redircmd_def redir_text_def redir_sym_def)
  next
    case False
    then have l: "redir_sym mode = [hd (redir_sym mode)]" "hd (redir_sym mode) \<in> {CHR ''<'', CHR ''>''}" using m by (auto simp: redir_sym_def)
    then have "gettoken b s = (hd (redir_sym mode), s, s + 1, s + 2)"
      using gettoken_sym [of b s "hd (redir_sym mode)" ?r] b st by (metis append_Cons append_Nil insert_iff list.set(1,2) singletonD)
    then show ?thesis using p t m l False
      by (intro exI [of _ "hd (redir_sym mode)"] exI [of _ ?q]) (auto simp: f redircmd_def redir_text_def redir_sym_def)
  qed
qed

lemma parseredirs_text:
  assumes "before b s (redir_texts rs @ r)" and "\<forall>f \<in> set rs. redir_ok f" and "starts r" and "r = [] \<or> hd r \<notin> set ''<>''"
  shows "\<exists>c'. parseredirs b c s = POk c' (s + length (redir_texts rs)) \<and> view b c' = redirected (view b c) rs"
  using assms(1,2)
proof (induction rs arbitrary: c s)
  case Nil
  then have "before b s r" by (simp add: redir_texts_def)
  then have "\<not> peek b s ''<>''" "skip_ws b s = s"
    using peek_starts [of b s] skip_ws_starts [of b s r] assms(3,4) by (cases r; simp)+
  then show ?case by (subst parseredirs.simps) (simp add: redir_texts_def redirected_def)
next
  case (Cons f rs)
  let ?r = "redir_texts rs @ r"
  have b: "before b s (redir_text f @ ?r)" using Cons.prems(1) by (simp add: redir_texts_def)
  obtain tok q where t: "peek b s ''<>''" "gettoken b s = (tok, s, s + length (redir_sym (fst (snd f))), q)"
     "gettoken b q = (CHR ''a'', q, q + length (fst f), q + length (fst f) + 1)" "piece b (q, q + length (fst f)) = fst f"
     "redircmd tok c q (q + length (fst f)) = REDIR c (q, q + length (fst f)) (fst (snd f)) (snd (snd f))" "q + length (fst f) + 1 = s + length (redir_text f)"
    using redir_token [OF b, of c] Cons.prems(2) redir_texts_starts [OF assms(3)] by auto
  let ?c = "REDIR c (q, q + length (fst f)) (fst (snd f)) (snd (snd f))"
  have "parseredirs b c s = parseredirs b ?c (s + length (redir_text f))"
    using t by (subst parseredirs.simps) simp
  moreover obtain c' where "parseredirs b ?c (s + length (redir_text f)) = POk c' (s + length (redir_text f) + length (redir_texts rs))"
    "view b c' = redirected (view b ?c) rs"
    using Cons.IH [OF before_append [OF b], of ?c] Cons.prems(2) by auto
  moreover have "redirected (view b ?c) rs = redirected (view b c) (f # rs)"
    using t(4) by (cases f) (simp add: redirected_def)
  ultimately show ?case by (auto simp: redir_texts_def)
qed

definition words_text :: "string list \<Rightarrow> string" where
  "words_text ws = concat (map (\<lambda>w. w @ '' '') ws)"

lemma parse_args_stop:
  assumes "before b s r" and "follows ''|)&;'' r"
  shows "parse_args b argc ret s = POk ret s"
proof (cases r)
  case Nil
  then have "skip_ws b s = s" "\<not> peek b s ''|)&;''" "at b s = CHR 0x00"
    using assms(1) skip_ws_starts [of b s "[]"] peek_starts(2) [of b s] before_at(2) [of b s] by (simp_all add: starts_def)
  then show ?thesis by (subst parse_args.simps) (simp add: gettoken_def Let_def)
next
  case (Cons x r')
  then have "peek b s ''|)&;''" "skip_ws b s = s"
    using assms peek_starts(1) [of b s x r'] skip_ws_starts [of b s r] follows_starts [OF assms(2)] by (simp_all add: follows_def)
  then show ?thesis by (subst parse_args.simps) simp
qed

lemma parse_args_text:
  assumes "before b s (words_text ws @ redir_texts rs @ r)" and "ws = [] \<Longrightarrow> rs = []" and "\<forall>w \<in> set ws. word w" and "\<forall>f \<in> set rs. redir_ok f"
    and "follows ''|)&;'' r" and "argc + length ws < MAXARGS" and "view b (EXEC as) = EXEC vs"
  shows "\<exists>c'. parse_args b argc (EXEC as) s = POk c' (s + length (words_text ws) + length (redir_texts rs)) \<and>
     view b c' = redirected (EXEC (vs @ ws)) rs"
  using assms
proof (induction ws arbitrary: argc as vs s)
  case Nil
  then show ?case using parse_args_stop [of b s r] by (simp add: words_text_def redir_texts_def redirected_def)
next
  case (Cons w ws)
  let ?r = "words_text ws @ redir_texts rs @ r"
  have w: "word w" using Cons.prems(3) by simp
  have st: "starts (redir_texts rs @ r)" by (rule redir_texts_starts [OF follows_starts [OF Cons.prems(5)]])
  have st': "starts ?r" using st Cons.prems(3) starts_word [of _ "CHR '' '' # _"] by (cases ws) (auto simp: words_text_def)
  have b: "before b s (w @ CHR '' '' # ?r)" using Cons.prems(1) by (simp add: words_text_def)
  note t = gettoken_print_word [OF b w st']
  let ?s = "s + length w + 1" and ?a = "(s, s + length w)"
  have bs: "before b ?s ?r" using before_Cons [OF before_append [OF b]] by simp
  have np: "\<not> peek b s ''|)&;''"
    using w b peek_starts(1) [of b s "hd w" "tl w @ CHR '' '' # ?r" "''|)&;''"] starts_word [OF w, of "CHR '' '' # ?r"]
    by (cases w) (auto simp: word_def symbols_def)
  have step: "parse_args b argc (EXEC as) s = pbind (parseredirs b (EXEC (as @ [?a])) ?s) (\<lambda>ret s. parse_args b (argc + 1) ret s)"
    using np t(1) Cons.prems(6) by (subst parse_args.simps) simp
  have v: "view b (EXEC (as @ [?a])) = EXEC (vs @ [w])" using Cons.prems(7) t(2) by simp
  show ?case
  proof (cases "ws = []")
    case True
    have bb: "before b ?s (redir_texts rs @ r)" using bs True by (simp add: words_text_def)
    have h: "r = [] \<or> hd r \<notin> set ''<>''" using Cons.prems(5) by (auto simp: follows_def)
    obtain c' where c': "parseredirs b (EXEC (as @ [?a])) ?s = POk c' (?s + length (redir_texts rs))" "view b c' = redirected (EXEC (vs @ [w])) rs"
      using parseredirs_text [OF bb Cons.prems(4) follows_starts [OF Cons.prems(5)] h, of "EXEC (as @ [?a])"] v by auto
    then show ?thesis
      using step parse_args_stop [OF before_append [OF bb] Cons.prems(5)] True by (simp add: pbind_def words_text_def)
  next
    case False
    then obtain x y where ws: "ws = x # y" by (cases ws) auto
    have "hd x \<notin> set ''<>'' \<and> x \<noteq> []" using Cons.prems(3) by (cases x) (auto simp: ws word_def symbols_def)
    then have h: "?r = [] \<or> hd ?r \<notin> set ''<>''" by (simp add: ws words_text_def)
    have "parseredirs b (EXEC (as @ [?a])) ?s = POk (EXEC (as @ [?a])) ?s"
    proof -
      have "\<not> peek b ?s ''<>''" using peek_starts [of b ?s] bs st' h by (cases ?r) auto
      then show ?thesis using skip_ws_starts [OF bs st'] by (subst parseredirs.simps) simp
    qed
    moreover obtain c' where "parse_args b (argc + 1) (EXEC (as @ [?a])) ?s = POk c' (?s + length (words_text ws) + length (redir_texts rs))"
      "view b c' = redirected (EXEC ((vs @ [w]) @ ws)) rs"
      using Cons.IH [OF bs _ _ Cons.prems(4,5) _ v, of "argc + 1"] False Cons.prems(3,6) by auto
    ultimately show ?thesis using step by (simp add: pbind_def words_text_def)
  qed
qed

section \<open>Lines\<close>

text \<open>What the four parsing functions do with the text of \<open>c\<close>.\<close>

definition exec_ok :: "string cmd \<Rightarrow> bool" where
  "exec_ok c \<longleftrightarrow> (\<forall>b s f rs r. before b s (show_cmd c 3 @ redir_texts rs @ r) \<longrightarrow> (\<forall>x \<in> set rs. redir_ok x) \<longrightarrow> follows ''|)&;'' r \<longrightarrow>
     4 * (length b - s) + 2 \<le> f \<longrightarrow>
     (\<exists>c'. parseexec f b s = POk c' (s + length (show_cmd c 3) + length (redir_texts rs)) \<and> view b c' = redirected c rs))"

definition pipe_ok :: "string cmd \<Rightarrow> bool" where
  "pipe_ok c \<longleftrightarrow> (\<forall>b s f r. before b s (show_cmd c 2 @ r) \<longrightarrow> follows '')&;'' r \<longrightarrow> 4 * (length b - s) + 3 \<le> f \<longrightarrow>
     (\<exists>c'. parsepipe f b s = POk c' (s + length (show_cmd c 2)) \<and> view b c' = c))"

definition back_ok :: "string cmd \<Rightarrow> bool" where
  "back_ok c \<longleftrightarrow> (\<forall>b s f r. before b s (show_cmd c 1 @ r) \<longrightarrow> follows '')&;'' r \<longrightarrow> 4 * (length b - s) + 3 \<le> f \<longrightarrow>
     (\<exists>c'. pbind (parsepipe f b s) (parse_backs b) = parse_backs b c' (s + length (show_cmd c 1)) \<and> view b c' = c))"

definition line_ok :: "string cmd \<Rightarrow> bool" where
  "line_ok c \<longleftrightarrow> (\<forall>b s f r. before b s (show_cmd c 0 @ r) \<longrightarrow> follows '')'' r \<longrightarrow> 4 * (length b - s) + 4 \<le> f \<longrightarrow>
     (\<exists>c'. parseline f b s = POk c' (s + length (show_cmd c 0)) \<and> view b c' = c))"

lemma follows_peek:
  assumes "before b s r" and "follows t r" and "set t \<subseteq> set symbols" and "set u \<inter> set t = {}"
  shows "\<not> peek b s u" and "skip_ws b s = s"
proof -
  have "starts r" using assms(2,3) starts_sym [of "hd r" "tl r"] by (cases r) (auto simp: follows_def starts_def)
  then show "skip_ws b s = s" by (rule skip_ws_starts [OF assms(1)])
  show "\<not> peek b s u" using assms peek_starts [of b s] \<open>starts r\<close> by (cases r) (auto simp: follows_def)
qed

lemma symbol_token:
  assumes "before b s (x # CHR '' '' # r)" and "x \<in> set ''|();&<>''" and "starts r"
  shows "peek b s [x]" and "gettoken b s = (x, s, s + 1, s + 2)" and "before b (s + 2) r" and "s + 2 \<le> length b"
proof -
  have x: "starts (x # CHR '' '' # r)" using assms(2) starts_sym [of x] by (auto simp: symbols_def)
  show "peek b s [x]" using peek_starts(1) [OF assms(1) x, of "[x]"] by simp
  show "gettoken b s = (x, s, s + 1, s + 2)" by (rule gettoken_sym [OF assms])
  show "before b (s + 2) r" using before_Cons [OF before_Cons [OF assms(1)]] by simp
  then show "s + 2 \<le> length b" by (simp add: before_def)
qed

lemma pipe_from_exec:
  assumes "exec_ok c" and "show_cmd c 2 = show_cmd c 3"
  shows "pipe_ok c"
  unfolding pipe_ok_def
proof (intro allI impI)
  fix b s f r assume b: "before b s (show_cmd c 2 @ r)" and r: "follows '')&;'' r" and f: "4 * (length b - s) + 3 \<le> f"
  obtain g where g: "f = Suc g" using f by (cases f) auto
  have r': "follows ''|)&;'' r" using r by (auto simp: follows_def)
  obtain c' where c': "parseexec g b s = POk c' (s + length (show_cmd c 3))" "view b c' = c"
    using assms(1) [unfolded exec_ok_def, rule_format, of b s "[]" r g] b r' f g assms(2) by (auto simp: redir_texts_def redirected_def)
  have "before b (s + length (show_cmd c 3)) r" using before_append [OF b] assms(2) by simp
  from follows_peek [OF this r, of "''|''"] show "\<exists>c'. parsepipe f b s = POk c' (s + length (show_cmd c 2)) \<and> view b c' = c"
    using c' assms(2) by (simp add: g pbind_def symbols_def)
qed

lemma back_from_pipe:
  assumes "pipe_ok c" and "show_cmd c 1 = show_cmd c 2"
  shows "back_ok c"
  unfolding back_ok_def
proof (intro allI impI)
  fix b s f r assume b: "before b s (show_cmd c 1 @ r)" and r: "follows '')&;'' r" and f: "4 * (length b - s) + 3 \<le> f"
  obtain c' where "parsepipe f b s = POk c' (s + length (show_cmd c 2))" "view b c' = c"
    using assms(1) [unfolded pipe_ok_def, rule_format, of b s r f] b r f assms(2) by auto
  then show "\<exists>c'. pbind (parsepipe f b s) (parse_backs b) = parse_backs b c' (s + length (show_cmd c 1)) \<and> view b c' = c"
    using assms(2) by (auto simp: pbind_def)
qed

lemma parse_backs_stop: "before b s r \<Longrightarrow> follows '');'' r \<Longrightarrow> parse_backs b c s = POk c s"
  using follows_peek [of b s r "'');''" "''&''"] by (subst parse_backs.simps) (simp add: symbols_def)

lemma pbind_assoc: "pbind (pbind r f) g = pbind r (\<lambda>c s. pbind (f c s) g)"
  by (cases r) (simp_all add: pbind_def)

lemma line_from_back:
  assumes "back_ok c" and "show_cmd c 0 = show_cmd c 1"
  shows "line_ok c"
  unfolding line_ok_def
proof (intro allI impI)
  fix b s f r assume b: "before b s (show_cmd c 0 @ r)" and r: "follows '')'' r" and f: "4 * (length b - s) + 4 \<le> f"
  obtain g where g: "f = Suc g" using f by (cases f) auto
  have r': "follows '')&;'' r" "follows '');'' r" using r by (auto simp: follows_def)
  let ?t = "s + length (show_cmd c 1)"
  obtain c' where c': "pbind (parsepipe g b s) (parse_backs b) = parse_backs b c' ?t" "view b c' = c"
    using assms(1) [unfolded back_ok_def, rule_format, of b s r g] b r'(1) f g assms(2) by auto
  have t: "before b ?t r" using before_append [OF b] assms(2) by simp
  have "parseline f b s = pbind (parse_backs b c' ?t) (\<lambda>c s. if peek b s '';'' then
       (case gettoken b s of (_, _, _, s) \<Rightarrow> pbind (parseline g b s) (\<lambda>d s. POk (LIST c d) s)) else POk c (skip_ws b s))"
    unfolding c'(1) [symmetric] by (simp add: g pbind_assoc)
  also have "\<dots> = POk c' ?t" using parse_backs_stop [OF t r'(2)] follows_peek [OF t r, of "'';''"] by (simp add: pbind_def symbols_def)
  finally show "\<exists>c'. parseline f b s = POk c' (s + length (show_cmd c 0)) \<and> view b c' = c" using c'(2) assms(2) by auto
qed

lemma show_starts: "sane c \<Longrightarrow> starts r \<Longrightarrow> starts (show_cmd c n @ r)"
proof (induction c arbitrary: n r)
  case (EXEC ws)
  then show ?case using starts_word [of _ "CHR '' '' # _"] by (cases ws) auto
next
  case (REDIR c f mode fd)
  have "starts (redir_text (f, mode, fd) @ r)" using redir_texts_starts [OF REDIR.prems(2), of "[(f, mode, fd)]"] by (simp add: redir_texts_def)
  then show ?case using REDIR by simp
qed (auto simp: parens_def starts_sym symbols_def)

lemma exec_from_line:
  assumes "line_ok c" and "sane c" and "show_cmd c 3 = ''( '' @ show_cmd c 0 @ '') ''"
  shows "exec_ok c"
  unfolding exec_ok_def
proof (intro allI impI)
  fix b s f rs r
  assume b: "before b s (show_cmd c 3 @ redir_texts rs @ r)" and rs: "\<forall>x \<in> set rs. redir_ok x" and r: "follows ''|)&;'' r" and f: "4 * (length b - s) + 2 \<le> f"
  let ?q = "CHR '')'' # CHR '' '' # redir_texts rs @ r" and ?l = "length (show_cmd c 0)"
  have q: "starts ?q" by (rule starts_sym) (simp add: symbols_def)
  have b0: "before b s (CHR ''('' # CHR '' '' # show_cmd c 0 @ ?q)" using b assms(3) by simp
  note o = symbol_token [OF b0 _ show_starts [OF assms(2) q]]
  have "starts (CHR ''('' # CHR '' '' # show_cmd c 0 @ ?q)" by (rule starts_sym) (simp add: symbols_def)
  then have ws: "skip_ws b s = s" by (rule skip_ws_starts [OF b0])
  have "2 \<le> f" using f by linarith
  then obtain g where "f = 2 + g" by (auto dest: le_Suc_ex)
  then have g: "f = Suc (Suc g)" by simp
  have "4 * (length b - (s + 2)) + 4 \<le> g" using f g o(4) by simp
  then obtain c' where c': "parseline g b (s + 2) = POk c' (s + 2 + ?l)" "view b c' = c"
    using assms(1) [unfolded line_ok_def, rule_format, of b "s + 2" ?q g] o(3) by (auto simp: follows_def)
  have b1: "before b (s + 2 + ?l) ?q" using before_append [of b "s + 2" "show_cmd c 0" ?q] o(3) by simp
  have st: "starts (redir_texts rs @ r)" by (rule redir_texts_starts [OF follows_starts [OF r]])
  note p = symbol_token [OF b1 _ st]
  have h: "r = [] \<or> hd r \<notin> set ''<>''" using r by (auto simp: follows_def)
  obtain d where d: "parseredirs b c' (s + 2 + ?l + 2) = POk d (s + 2 + ?l + 2 + length (redir_texts rs))" "view b d = redirected c rs"
    using parseredirs_text [OF p(3) rs follows_starts [OF r] h, of c'] c'(2) by auto
  have "parseexec f b s = parseredirs b c' (s + 2 + ?l + 2)"
    using o(1,2) p(1,2) c'(1) ws by (simp add: g pbind_def)
  then show "\<exists>c'. parseexec f b s = POk c' (s + length (show_cmd c 3) + length (redir_texts rs)) \<and> view b c' = redirected c rs"
    using d assms(3) by (simp add: ac_simps)
qed

lemma exec_words:
  assumes "sane (EXEC ws)"
  shows "exec_ok (EXEC ws)"
  unfolding exec_ok_def
proof (intro allI impI)
  fix b s f rs r
  assume b: "before b s (show_cmd (EXEC ws) 3 @ redir_texts rs @ r)" and rs: "\<forall>x \<in> set rs. redir_ok x" and r: "follows ''|)&;'' r" and f: "4 * (length b - s) + 2 \<le> f"
  obtain g where g: "f = Suc g" using f by (cases f) auto
  have w: "\<forall>w \<in> set ws. word w" "length ws < MAXARGS" using assms by simp_all
  let ?t = "words_text ws @ redir_texts rs @ r"
  have b0: "before b s ?t" using b by (simp add: words_text_def)
  have st: "starts ?t" using show_starts [OF assms redir_texts_starts [OF follows_starts [OF r], of rs], of 3] by (simp add: words_text_def)
  have ws: "skip_ws b s = s" by (rule skip_ws_starts [OF b0 st])
  have h0: "?t = [] \<or> hd ?t \<noteq> CHR ''(''"
  proof (cases ws)
    case Nil
    then show ?thesis using r by (cases rs) (auto simp: words_text_def redir_texts_def redir_text_def redir_sym_def follows_def)
  next
    case (Cons x y)
    then show ?thesis using w(1) by (cases x) (auto simp: words_text_def word_def symbols_def)
  qed
  have np: "\<not> peek b s ''(''" using peek_starts [of b s] b0 st h0 by (cases ?t) auto
  have ex: "parseexec f b s = pbind (parseredirs b (EXEC []) s) (\<lambda>ret s. parse_args b 0 ret s)" using np ws by (simp add: g)
  have h: "r = [] \<or> hd r \<notin> set ''<>''" using r by (auto simp: follows_def)
  show "\<exists>c'. parseexec f b s = POk c' (s + length (show_cmd (EXEC ws) 3) + length (redir_texts rs)) \<and> view b c' = redirected (EXEC ws) rs"
  proof (cases ws)
    case Nil
    then have b1: "before b s (redir_texts rs @ r)" using b0 by (simp add: words_text_def)
    from parseredirs_text [OF b1 rs follows_starts [OF r] h, of "EXEC []"] show ?thesis
      using ex Nil parse_args_stop [OF before_append [OF b1] r] by (auto simp: pbind_def)
  next
    case (Cons x y)
    have "hd x \<notin> set ''<>'' \<and> x \<noteq> []" using w(1) by (cases x) (auto simp: Cons word_def symbols_def)
    then have "\<not> peek b s ''<>''" using peek_starts [of b s] b0 st by (cases x) (auto simp: Cons words_text_def)
    then have "parseredirs b (EXEC []) s = POk (EXEC []) s" using ws by (subst parseredirs.simps) simp
    moreover obtain c' where "parse_args b 0 (EXEC []) s = POk c' (s + length (words_text ws) + length (redir_texts rs))" "view b c' = redirected (EXEC ([] @ ws)) rs"
      using parse_args_text [OF b0 _ w(1) rs r, of 0 "[]" "[]"] w(2) Cons by auto
    ultimately show ?thesis using ex by (simp add: pbind_def words_text_def)
  qed
qed

lemma exec_redir:
  assumes "exec_ok c" and "redir_ok (f, mode, fd)"
  shows "exec_ok (REDIR c f mode fd)"
  unfolding exec_ok_def
proof (intro allI impI)
  fix b s g rs r
  assume b: "before b s (show_cmd (REDIR c f mode fd) 3 @ redir_texts rs @ r)" and rs: "\<forall>x \<in> set rs. redir_ok x" and r: "follows ''|)&;'' r" and g: "4 * (length b - s) + 2 \<le> g"
  have e: "redir_texts ((f, mode, fd) # rs) = redir_text (f, mode, fd) @ redir_texts rs" by (simp add: redir_texts_def)
  have "\<exists>c'. parseexec g b s = POk c' (s + length (show_cmd c 3) + length (redir_texts ((f, mode, fd) # rs))) \<and> view b c' = redirected c ((f, mode, fd) # rs)"
    by (rule assms(1) [unfolded exec_ok_def, rule_format, of _ _ _ r]) (use b e rs r g assms(2) in auto)
  then show "\<exists>c'. parseexec g b s = POk c' (s + length (show_cmd (REDIR c f mode fd) 3) + length (redir_texts rs)) \<and> view b c' = redirected (REDIR c f mode fd) rs"
    by (simp add: e redirected_def add.assoc)
qed

lemma pipe_pipe:
  assumes "exec_ok l" and "pipe_ok c" and "sane c"
  shows "pipe_ok (PIPE l c)"
  unfolding pipe_ok_def
proof (intro allI impI)
  fix b s f r assume b: "before b s (show_cmd (PIPE l c) 2 @ r)" and r: "follows '')&;'' r" and f: "4 * (length b - s) + 3 \<le> f"
  let ?t = "CHR ''|'' # CHR '' '' # show_cmd c 2 @ r" and ?n = "length (show_cmd l 3)"
  obtain g where g: "f = Suc g" using f by (cases f) auto
  have b0: "before b s (show_cmd l 3 @ ?t)" using b by (simp add: parens_def)
  obtain l' where l': "parseexec g b s = POk l' (s + ?n)" "view b l' = l"
    using assms(1) [unfolded exec_ok_def, rule_format, of b s "[]" ?t g] b0 f g by (auto simp: redir_texts_def redirected_def follows_def)
  have st: "starts (show_cmd c 2 @ r)" using r by (intro show_starts [OF assms(3)]) (auto simp: follows_def starts_def whitespace_def)
  note p = symbol_token [OF before_append [OF b0] _ st]
  have "4 * (length b - (s + ?n + 2)) + 3 \<le> g" using f g p(4) by simp
  then obtain c' where c': "parsepipe g b (s + ?n + 2) = POk c' (s + ?n + 2 + length (show_cmd c 2))" "view b c' = c"
    using assms(2) [unfolded pipe_ok_def, rule_format, OF p(3) r] by auto
  show "\<exists>c'. parsepipe f b s = POk c' (s + length (show_cmd (PIPE l c) 2)) \<and> view b c' = PIPE l c"
    using l' c' p(1,2) by (simp add: g pbind_def parens_def)
qed

lemma line_list:
  assumes "back_ok l" and "line_ok c" and "sane c"
  shows "line_ok (LIST l c)"
  unfolding line_ok_def
proof (intro allI impI)
  fix b s f r assume b: "before b s (show_cmd (LIST l c) 0 @ r)" and r: "follows '')'' r" and f: "4 * (length b - s) + 4 \<le> f"
  let ?t = "CHR '';'' # CHR '' '' # show_cmd c 0 @ r" and ?n = "length (show_cmd l 1)"
  obtain g where g: "f = Suc g" using f by (cases f) auto
  have b0: "before b s (show_cmd l 1 @ ?t)" using b by (simp add: parens_def)
  obtain l' where l': "pbind (parsepipe g b s) (parse_backs b) = parse_backs b l' (s + ?n)" "view b l' = l"
    using assms(1) [unfolded back_ok_def, rule_format, of b s ?t g] b0 f g by (auto simp: follows_def)
  have st: "starts (show_cmd c 0 @ r)" using r by (intro show_starts [OF assms(3)]) (auto simp: follows_def starts_def whitespace_def)
  note t = before_append [OF b0] and p = symbol_token [OF before_append [OF b0] _ st]
  have k: "parse_backs b l' (s + ?n) = POk l' (s + ?n)" by (rule parse_backs_stop [OF t]) (simp add: follows_def)
  have "4 * (length b - (s + ?n + 2)) + 4 \<le> g" using f g p(4) by simp
  then obtain c' where c': "parseline g b (s + ?n + 2) = POk c' (s + ?n + 2 + length (show_cmd c 0))" "view b c' = c"
    using assms(2) [unfolded line_ok_def, rule_format, OF p(3) r] by auto
  have "parseline f b s = pbind (parse_backs b l' (s + ?n)) (\<lambda>c s. if peek b s '';'' then
       (case gettoken b s of (_, _, _, s) \<Rightarrow> pbind (parseline g b s) (\<lambda>d s. POk (LIST c d) s)) else POk c (skip_ws b s))"
    unfolding l'(1) [symmetric] by (simp add: g pbind_assoc)
  then show "\<exists>c'. parseline f b s = POk c' (s + length (show_cmd (LIST l c) 0)) \<and> view b c' = LIST l c"
    using l'(2) c' k p(1,2) by (simp add: pbind_def parens_def)
qed

lemma back_back:
  assumes "back_ok c"
  shows "back_ok (BACK c)"
  unfolding back_ok_def
proof (intro allI impI)
  fix b s f r assume b: "before b s (show_cmd (BACK c) 1 @ r)" and r: "follows '')&;'' r" and f: "4 * (length b - s) + 3 \<le> f"
  let ?t = "CHR ''&'' # CHR '' '' # r" and ?n = "length (show_cmd c 1)"
  have b0: "before b s (show_cmd c 1 @ ?t)" using b by (simp add: parens_def)
  obtain c' where c': "pbind (parsepipe f b s) (parse_backs b) = parse_backs b c' (s + ?n)" "view b c' = c"
    using assms [unfolded back_ok_def, rule_format, of b s ?t f] b0 f by (auto simp: follows_def)
  have "starts r" using r by (auto simp: follows_def starts_def whitespace_def)
  note p = symbol_token [OF before_append [OF b0] _ this]
  have "parse_backs b c' (s + ?n) = parse_backs b (BACK c') (s + ?n + 2)" using p(1,2) by (subst parse_backs.simps) simp
  then show "\<exists>c'. pbind (parsepipe f b s) (parse_backs b) = parse_backs b c' (s + length (show_cmd (BACK c) 1)) \<and> view b c' = BACK c"
    using c' by (intro exI [of _ "BACK c'"]) (simp add: parens_def)
qed

lemma show_parsed: "sane c \<Longrightarrow> exec_ok c \<and> pipe_ok c \<and> back_ok c \<and> line_ok c"
proof (induction c)
  case (EXEC ws)
  then have "exec_ok (EXEC ws)" by (rule exec_words)
  moreover from this have "pipe_ok (EXEC ws)" by (rule pipe_from_exec) simp
  moreover from this have "back_ok (EXEC ws)" by (rule back_from_pipe) simp
  ultimately show ?case using line_from_back by simp
next
  case (REDIR c f mode fd)
  then have "exec_ok (REDIR c f mode fd)" by (simp add: exec_redir)
  moreover from this have "pipe_ok (REDIR c f mode fd)" by (rule pipe_from_exec) simp
  moreover from this have "back_ok (REDIR c f mode fd)" by (rule back_from_pipe) simp
  ultimately show ?case using line_from_back by simp
next
  case (PIPE l r)
  then have "pipe_ok (PIPE l r)" by (simp add: pipe_pipe)
  moreover from this have "back_ok (PIPE l r)" by (rule back_from_pipe) (simp add: parens_def)
  moreover from this have "line_ok (PIPE l r)" by (rule line_from_back) (simp add: parens_def)
  ultimately show ?case using exec_from_line [OF _ PIPE.prems] by (simp add: parens_def)
next
  case (LIST l r)
  then have "line_ok (LIST l r)" by (simp add: line_list)
  moreover from this have "exec_ok (LIST l r)" by (rule exec_from_line [OF _ LIST.prems]) (simp add: parens_def)
  moreover from this have "pipe_ok (LIST l r)" by (rule pipe_from_exec) (simp add: parens_def)
  ultimately show ?case using back_from_pipe [of "LIST l r"] by (simp add: parens_def)
next
  case (BACK c)
  then have "back_ok (BACK c)" by (simp add: back_back)
  moreover from this have "line_ok (BACK c)" by (rule line_from_back) (simp add: parens_def)
  moreover from this have "exec_ok (BACK c)" by (rule exec_from_line [OF _ BACK.prems]) (simp add: parens_def)
  ultimately show ?case using pipe_from_exec [of "BACK c"] by (simp add: parens_def)
qed

lemma show_no_nul: "sane c \<Longrightarrow> CHR 0x00 \<notin> set (show_cmd c n)"
  by (induction c arbitrary: n) (auto simp: word_def redir_text_def redir_sym_def redir_ok_def parens_def)

text \<open>
  C16: Every command can be written and is read back. Take any command tree, with words free of white space and
  symbols and fewer than \<open>MAXARGS\<close> arguments at every place; print it with its operators, its redirections, and
  parentheses where the precedences need them. The parser reads this line to its end and returns that tree, and after
  \<open>nulterminate\<close> the C strings of the tree are its words.
\<close>

theorem parse_show:
  assumes "sane c"
  shows "\<exists>c'. parsecmd (4 * length (show_cmd c 0) + 4) (show_cmd c 0) = POk c' (length (show_cmd c 0)) \<and>
     map_cmd (\<lambda>a. cstr (nulterminate c' (show_cmd c 0 @ [CHR 0x00])) (fst a)) c' = c"
proof -
  let ?b = "show_cmd c 0"
  have "before ?b 0 (?b @ [])" by (simp add: before_def)
  then obtain c' where c': "parseline (4 * length ?b + 4) ?b 0 = POk c' (length ?b)" "view ?b c' = c"
    using show_parsed [OF assms] unfolding line_ok_def by (fastforce simp: follows_def)
  have "skip_ws ?b (length ?b) = length ?b" by (simp add: skip_ws_def skip_while_def)
  then have p: "parsecmd (4 * length ?b + 4) ?b = POk c' (length ?b)" using c'(1) by (simp add: parsecmd_def pbind_def Let_def)
  then have "wf_cmd ?b c'" using parsecmd_good [of ?b] by simp
  from nul_strings [OF show_no_nul [OF assms] this] show ?thesis using p c'(2) by auto
qed

text \<open>The line \<open>( cat < in | wc ; ls ) > out & ; echo hi\<close>.\<close>

definition demo_cmd :: "string cmd" where
  "demo_cmd = LIST (BACK (REDIR (LIST (PIPE (REDIR (EXEC [''cat'']) ''in'' O_RDONLY 0) (EXEC [''wc''])) (EXEC [''ls''])) ''out'' O_WRONLY_CREATE_TRUNC 1))
     (EXEC [''echo'', ''hi''])"

theorem parse_show_witness:
  "show_cmd demo_cmd 0 = ''( cat < in | wc ; ls ) > out & ; echo hi '' \<and>
   (\<exists>c'. parsecmd 168 ''( cat < in | wc ; ls ) > out & ; echo hi '' = POk c' 41 \<and>
      map_cmd (\<lambda>a. cstr (nulterminate c' (''( cat < in | wc ; ls ) > out & ; echo hi '' @ [CHR 0x00])) (fst a)) c' = demo_cmd)"
proof -
  have t: "show_cmd demo_cmd 0 = ''( cat < in | wc ; ls ) > out & ; echo hi ''"
    by (simp add: demo_cmd_def parens_def redir_text_def redir_sym_def)
  have "sane demo_cmd" by (simp add: demo_cmd_def word_def redir_ok_def whitespace_def symbols_def)
  moreover have l: "length ''( cat < in | wc ; ls ) > out & ; echo hi '' = 41" by simp
  ultimately have "\<exists>c'. parsecmd (4 * 41 + 4) ''( cat < in | wc ; ls ) > out & ; echo hi '' = POk c' 41 \<and>
      map_cmd (\<lambda>a. cstr (nulterminate c' (''( cat < in | wc ; ls ) > out & ; echo hi '' @ [CHR 0x00])) (fst a)) c' = demo_cmd"
    using parse_show [of demo_cmd] unfolding t l by blast
  then show ?thesis using t by simp
qed

end
