(* ===== verification/Umalloc.thy ===== *)
theory Umalloc
  imports Prelude
begin

text \<open>
  The allocator of user programs (\<open>user/umalloc.c\<close>). The memory of the program is seen through the headers: the
  pointer and the size at an address, the size in units of a header, which has 16 bytes. Addresses are natural
  numbers; 0 is the null pointer. The list of free blocks is a ring through the header \<open>base\<close>.
\<close>

section \<open>The code\<close>

record uheap =
  s_ptr :: "nat \<Rightarrow> nat"
  s_size :: "nat \<Rightarrow> u32"
  base :: nat
  freep :: nat

text \<open>The address \<open>k\<close> headers after \<open>p\<close>.\<close>

definition hdr_add :: "nat \<Rightarrow> u32 \<Rightarrow> nat" where
  "hdr_add p k = p + 16 * unat k"

fun free_loop :: "nat \<Rightarrow> uheap \<Rightarrow> nat \<Rightarrow> nat \<Rightarrow> nat option" where
  "free_loop 0 h bp p = None"
| "free_loop (Suc f) h bp p =
     (if bp > p \<and> bp < s_ptr h p then Some p
      else if p \<ge> s_ptr h p \<and> (bp > p \<or> bp < s_ptr h p) then Some p
      else free_loop f h bp (s_ptr h p))"

text \<open>The two tests that join the block with its neighbours.\<close>

definition join_next :: "uheap \<Rightarrow> nat \<Rightarrow> nat \<Rightarrow> uheap" where
  "join_next h bp p =
     (if hdr_add bp (s_size h bp) = s_ptr h p
      then h\<lparr>s_size := (s_size h)(bp := s_size h bp + s_size h (s_ptr h p)), s_ptr := (s_ptr h)(bp := s_ptr h (s_ptr h p))\<rparr>
      else h\<lparr>s_ptr := (s_ptr h)(bp := s_ptr h p)\<rparr>)"

definition join_prev :: "uheap \<Rightarrow> nat \<Rightarrow> nat \<Rightarrow> uheap" where
  "join_prev h bp p =
     (if hdr_add p (s_size h p) = bp
      then h\<lparr>s_size := (s_size h)(p := s_size h p + s_size h bp), s_ptr := (s_ptr h)(p := s_ptr h bp)\<rparr>
      else h\<lparr>s_ptr := (s_ptr h)(p := bp)\<rparr>)"

definition free :: "nat \<Rightarrow> uheap \<Rightarrow> nat \<Rightarrow> uheap option" where
  "free f h ap =
     (let bp = ap - 16 in
      case free_loop f h bp (freep h) of
        None \<Rightarrow> None
      | Some p \<Rightarrow> Some ((join_prev (join_next h bp p) bp p)\<lparr>freep := p\<rparr>))"

text \<open>
  \<open>sbrk\<close> is a system call on a world of its own: \<open>None\<close> is the result \<open>(char *) -1\<close>. Its argument is an \<open>int\<close>,
  so that the product of 64 bits is cut to 32.
\<close>

definition morecore :: "nat \<Rightarrow> (int \<Rightarrow> 'w \<Rightarrow> nat option \<times> 'w) \<Rightarrow> u32 \<Rightarrow> uheap \<Rightarrow> 'w \<Rightarrow> (nat \<times> uheap \<times> 'w) option" where
  "morecore f sbrk nu h w =
     (let nu = (if nu < 4096 then 4096 else nu) in
      case sbrk (sint (of_nat (unat nu * 16) :: u32)) w of
        (None, w) \<Rightarrow> Some (0, h, w)
      | (Some hp, w) \<Rightarrow>
          map_option (\<lambda>h. (freep h, h, w)) (free f (h\<lparr>s_size := (s_size h)(hp := nu)\<rparr>) (hp + 16)))"

text \<open>The block \<open>p\<close>, large enough, is unlinked or its tail is cut off.\<close>

definition take_block :: "u32 \<Rightarrow> nat \<Rightarrow> nat \<Rightarrow> uheap \<Rightarrow> nat \<times> uheap" where
  "take_block nunits prevp p h =
     (if s_size h p = nunits then (p + 16, h\<lparr>s_ptr := (s_ptr h)(prevp := s_ptr h p), freep := prevp\<rparr>)
      else
        (let h = h\<lparr>s_size := (s_size h)(p := s_size h p - nunits)\<rparr>; q = hdr_add p (s_size h p)
         in (q + 16, h\<lparr>s_size := (s_size h)(q := nunits), freep := prevp\<rparr>)))"

fun malloc_loop :: "nat \<Rightarrow> (int \<Rightarrow> 'w \<Rightarrow> nat option \<times> 'w) \<Rightarrow> u32 \<Rightarrow> nat \<Rightarrow> nat \<Rightarrow> uheap \<Rightarrow> 'w \<Rightarrow> (nat \<times> uheap \<times> 'w) option" where
  "malloc_loop 0 sbrk nunits prevp p h w = None"
| "malloc_loop (Suc f) sbrk nunits prevp p h w =
     (if s_size h p \<ge> nunits then (case take_block nunits prevp p h of (r, h) \<Rightarrow> Some (r, h, w))
      else if p = freep h then
        (case morecore f sbrk nunits h w of
           None \<Rightarrow> None
         | Some (p, h, w) \<Rightarrow> if p = 0 then Some (0, h, w) else malloc_loop f sbrk nunits p (s_ptr h p) h w)
      else malloc_loop f sbrk nunits p (s_ptr h p) h w)"

definition malloc_units :: "u32 \<Rightarrow> u32" where
  "malloc_units nbytes = of_nat ((unat nbytes + 16 - 1) div 16 + 1)"

text \<open>The first call makes the ring of \<open>base\<close> alone.\<close>

definition heap_init :: "uheap \<Rightarrow> uheap" where
  "heap_init h =
     (if freep h = 0 then h\<lparr>s_ptr := (s_ptr h)(base h := base h), freep := base h, s_size := (s_size h)(base h := 0)\<rparr> else h)"

definition malloc :: "nat \<Rightarrow> (int \<Rightarrow> 'w \<Rightarrow> nat option \<times> 'w) \<Rightarrow> u32 \<Rightarrow> uheap \<Rightarrow> 'w \<Rightarrow> (nat \<times> uheap \<times> 'w) option" where
  "malloc f sbrk nbytes h w =
     (let nunits = malloc_units nbytes; h = heap_init h; prevp = freep h
      in malloc_loop f sbrk nunits prevp (s_ptr h prevp) h w)"

section \<open>The ring of free blocks\<close>

text \<open>\<open>g\<close> links the nodes of the list one after the other and the last to \<open>e\<close>.\<close>

fun lk :: "(nat \<Rightarrow> nat) \<Rightarrow> nat list \<Rightarrow> nat \<Rightarrow> bool" where
  "lk g [] e = True"
| "lk g (x # xs) e \<longleftrightarrow> g x = hd (xs @ [e]) \<and> lk g xs e"

lemma lk_append: "lk g (xs @ ys) e \<longleftrightarrow> lk g xs (hd (ys @ [e])) \<and> lk g ys e"
  by (induction xs) (auto simp: hd_append)

lemma lk_upd [simp]: "x \<notin> set xs \<Longrightarrow> lk (g(x := v)) xs e = lk g xs e"
  by (induction xs) auto

text \<open>The blocks at the addresses \<open>B\<close> lie one after the other, above \<open>base\<close> and below the break.\<close>

definition tiled :: "nat \<Rightarrow> (nat \<Rightarrow> u32) \<Rightarrow> nat set \<Rightarrow> nat \<Rightarrow> bool" where
  "tiled lo sz B hi \<longleftrightarrow>
     (\<forall>x \<in> B. lo + 16 \<le> x \<and> 0 < unat (sz x) \<and> hdr_add x (sz x) \<le> hi) \<and>
     (\<forall>x \<in> B. \<forall>y \<in> B. x < y \<longrightarrow> hdr_add x (sz x) \<le> y)"

text \<open>The memory of the machine.\<close>

abbreviation memory :: nat where
  "memory \<equiv> 128 * 1024 * 1024"

definition ring :: "uheap \<Rightarrow> nat list \<Rightarrow> bool" where
  "ring h ys \<longleftrightarrow>
     0 < base h \<and> sorted_wrt (<) (base h # ys) \<and> lk (s_ptr h) (base h # ys) (base h) \<and> s_size h (base h) = 0 \<and>
     freep h \<in> set (base h # ys)"

definition heap_ok :: "uheap \<Rightarrow> nat list \<Rightarrow> nat set \<Rightarrow> nat \<Rightarrow> bool" where
  "heap_ok h ys A hi \<longleftrightarrow>
     ring h ys \<and> set ys \<inter> A = {} \<and> tiled (base h) (s_size h) (set ys \<union> A) hi \<and> base h + 16 \<le> hi \<and> hi \<le> memory"

lemma sorted_cut:
  assumes "sorted_wrt (<) xs" and "xs \<noteq> []" and "hd xs < (b :: nat)" and "b \<notin> set xs"
  shows "\<exists>us q vs. xs = us @ q # vs \<and> (\<forall>x \<in> set us. x < b) \<and> q < b \<and> (\<forall>x \<in> set vs. b < x)"
  using assms
proof (induction xs)
  case (Cons x xs)
  show ?case
  proof (cases "xs = [] \<or> b < hd xs")
    case True
    then have "\<forall>y \<in> set xs. b < y" using Cons.prems(1) by (cases xs) auto
    then show ?thesis using Cons.prems(3) by (intro exI [of _ "[]"]) auto
  next
    case False
    then have "hd xs < b" using Cons.prems(4) by (cases xs) auto
    then obtain us q vs where "xs = us @ q # vs \<and> (\<forall>x \<in> set us. x < b) \<and> q < b \<and> (\<forall>x \<in> set vs. b < x)"
      using Cons.IH Cons.prems(1,4) False by auto
    then show ?thesis using Cons.prems(3) by (intro exI [of _ "x # us"]) auto
  qed
qed simp

text \<open>The test that ends the search of \<open>free\<close>, and the only place of the ring where it holds.\<close>

definition stop :: "uheap \<Rightarrow> nat \<Rightarrow> nat \<Rightarrow> bool" where
  "stop h bp p \<longleftrightarrow> bp > p \<and> bp < s_ptr h p \<or> p \<ge> s_ptr h p \<and> (bp > p \<or> bp < s_ptr h p)"

lemma stop_pred:
  assumes "ring h ys" and "base h < bp" and "base h # ys = us @ q # vs" and "stop h bp q" and "bp \<notin> set ys"
  shows "(\<forall>x \<in> set us. x < bp) \<and> q < bp \<and> (\<forall>x \<in> set vs. bp < x)"
proof -
  have s: "sorted_wrt (<) (us @ q # vs)" and n: "s_ptr h q = hd (vs @ [base h])" and b: "base h \<le> q"
  proof -
    show "sorted_wrt (<) (us @ q # vs)" using assms(1,3) unfolding ring_def by metis
    then show "base h \<le> q" using assms(3) by (cases us) (auto simp: sorted_wrt_append)
    show "s_ptr h q = hd (vs @ [base h])" using assms(1) unfolding ring_def assms(3) by (simp add: lk_append)
  qed
  show ?thesis
  proof (cases vs)
    case Nil
    then show ?thesis using n b s assms(2,4) by (auto simp: stop_def sorted_wrt_append)
  next
    case (Cons v ws)
    then have "q < v" using s by (simp add: sorted_wrt_append)
    then show ?thesis using n s assms(4) Cons by (fastforce simp: stop_def sorted_wrt_append)
  qed
qed

lemma pred_stop:
  assumes "ring h ys" and "base h < bp" and "bp \<notin> set ys"
  shows "\<exists>q \<in> set (base h # ys). stop h bp q"
proof -
  obtain us q vs where x: "base h # ys = us @ q # vs" "q < bp" "\<forall>x \<in> set vs. bp < x"
    using sorted_cut [of "base h # ys" bp] assms by (auto simp: ring_def)
  have "s_ptr h q = hd (vs @ [base h])" using assms(1) by (simp add: ring_def x(1) lk_append)
  moreover have "base h \<le> q" using assms(1) x(1) by (cases us) (auto simp: ring_def)
  ultimately have "stop h bp q" using x by (cases vs) (auto simp: stop_def)
  then show ?thesis using x(1) by (metis in_set_conv_decomp)
qed

text \<open>The ring read from the node after \<open>q\<close>.\<close>

lemma ring_from:
  assumes "ring h ys" and "base h # ys = us @ q # vs"
  shows "lk (s_ptr h) (vs @ us @ [q]) (hd (vs @ us @ [q]))"
proof -
  have "lk (s_ptr h) (us @ q # vs) (base h)" using assms unfolding ring_def by metis
  moreover have "base h = hd (us @ [q])" using assms(2) by (cases us) auto
  ultimately show ?thesis by (cases vs; cases us) (auto simp: lk_append hd_append)
qed

lemma free_walk:
  assumes "lk (s_ptr h) cs e" and "\<exists>q \<in> set cs. stop h bp q" and "length cs \<le> f"
  shows "\<exists>q \<in> set cs. stop h bp q \<and> free_loop f h bp (hd cs) = Some q"
  using assms
proof (induction cs arbitrary: f)
  case (Cons c cs)
  then obtain g where f: "f = Suc g" by (cases f) auto
  show ?case
  proof (cases "stop h bp c")
    case True
    then show ?thesis using f by (auto simp: stop_def)
  next
    case False
    then have "\<exists>q \<in> set cs. stop h bp q" using Cons.prems by auto
    then obtain q where "q \<in> set cs" "stop h bp q" "free_loop g h bp (hd cs) = Some q"
      using Cons.IH [of g] Cons.prems f by auto
    moreover have "s_ptr h c = hd cs" using Cons.prems(1) \<open>\<exists>q \<in> set cs. stop h bp q\<close> by (cases cs) auto
    ultimately show ?thesis using False f by (auto simp: stop_def)
  qed
qed simp

section \<open>free\<close>

lemma tiledD: "tiled lo sz B hi \<Longrightarrow> x \<in> B \<Longrightarrow> lo + 16 \<le> x \<and> 0 < unat (sz x) \<and> x + 16 * unat (sz x) \<le> hi"
  by (simp add: tiled_def hdr_add_def)

lemma tiled_sum:
  assumes "tiled lo sz B hi" and "x \<in> B" and "y \<in> B" and "hdr_add x (sz x) = y" and "hi \<le> memory"
  shows "unat (sz x + sz y) = unat (sz x) + unat (sz y)"
proof -
  have "y + 16 * unat (sz y) \<le> hi" using assms(1,3) by (simp add: tiled_def hdr_add_def)
  then have "unat (sz x) + unat (sz y) < 2 ^ 32" using assms(4,5) by (simp add: hdr_add_def)
  then show ?thesis by (simp add: unat_add_lem [symmetric])
qed

lemma tiled_join:
  assumes "tiled lo sz B hi" and "x \<in> B" and "y \<in> B" and "hdr_add x (sz x) = y" and "hi \<le> memory"
  shows "tiled lo (sz(x := sz x + sz y)) (B - {y}) hi"
proof -
  have u: "unat (sz x + sz y) = unat (sz x) + unat (sz y)" by (rule tiled_sum [OF assms])
  have e: "hdr_add x (sz x + sz y) = hdr_add y (sz y)" using u assms(4) by (auto simp: hdr_add_def)
  have "hdr_add y (sz y) \<le> z" if "z \<in> B" "x < z" "z \<noteq> y" for z
  proof -
    have "y \<le> z" using assms(1,2,4) that by (auto simp: tiled_def)
    then show ?thesis using assms(1,3) that by (simp add: tiled_def)
  qed
  then show ?thesis using assms(1-4) u e by (auto simp: tiled_def)
qed

lemma tiled_cong: "\<forall>x \<in> B. sz' x = sz x \<Longrightarrow> tiled lo sz' B hi = tiled lo sz B hi"
  by (simp add: tiled_def)

lemma tiled_mono: "tiled lo sz B hi \<Longrightarrow> C \<subseteq> B \<Longrightarrow> hi \<le> hi' \<Longrightarrow> tiled lo sz C hi'"
  by (force simp: tiled_def)

text \<open>The state in which \<open>free\<close> has found the place \<open>q\<close> of the block \<open>bp\<close>.\<close>

definition placed :: "uheap \<Rightarrow> nat list \<Rightarrow> nat \<Rightarrow> nat list \<Rightarrow> nat \<Rightarrow> nat set \<Rightarrow> nat \<Rightarrow> bool" where
  "placed h us q vs bp A hi \<longleftrightarrow>
     0 < base h \<and> hd (us @ [q]) = base h \<and> sorted_wrt (<) (us @ q # vs) \<and> s_size h (base h) = 0 \<and>
     lk (s_ptr h) us q \<and> lk (s_ptr h) vs (base h) \<and> (\<forall>x \<in> set us. x < bp) \<and> q < bp \<and> (\<forall>x \<in> set vs. bp < x) \<and>
     bp \<in> A \<and> set (us @ q # vs) \<inter> A = {} \<and> tiled (base h) (s_size h) (set (us @ q # vs) - {base h} \<union> A) hi \<and>
     hi \<le> memory"

lemma join_next_ok:
  assumes p: "placed h us q vs bp A hi" and n: "s_ptr h q = hd (vs @ [base h])"
  defines "h' \<equiv> join_next h bp q"
  shows "\<exists>vs'. placed h' us q vs' bp A hi \<and> s_ptr h' bp = hd (vs' @ [base h']) \<and> unat (s_size h bp) \<le> unat (s_size h' bp) \<and>
     base h' = base h \<and> (\<forall>x. x \<noteq> bp \<longrightarrow> s_size h' x = s_size h x) \<and> set vs' \<subseteq> set vs"
proof (cases "hdr_add bp (s_size h bp) = s_ptr h q")
  case False
  have "bp \<notin> set us \<union> set vs" using p by (auto simp: placed_def)
  then show ?thesis using p n False unfolding h'_def join_next_def by (intro exI [of _ vs]) (simp add: placed_def)
next
  case True
  have "base h < bp" using p by (cases us) (auto simp: placed_def)
  then have "vs \<noteq> []" using True n by (auto simp: hdr_add_def)
  then obtain v ws where v: "vs = v # ws" by (cases vs) auto
  let ?B = "set (us @ q # vs) - {base h} \<union> A"
  have t: "tiled (base h) (s_size h) ?B hi" "bp \<in> ?B" "v \<in> ?B" "hdr_add bp (s_size h bp) = v" "hi \<le> memory" "v \<noteq> base h"
    using p v True n \<open>base h < bp\<close> by (auto simp: placed_def)
  have d: "v \<notin> set us" "v \<noteq> q" "v \<notin> set ws" "v \<notin> A" using p v by (auto simp: placed_def sorted_wrt_append)
  have B: "set (us @ q # ws) - {base h} \<union> A = ?B - {v}" using v d by auto
  have T: "tiled (base h) ((s_size h)(bp := s_size h bp + s_size h v)) (set (us @ q # ws) - {base h} \<union> A) hi"
    unfolding B by (rule tiled_join [OF t(1-5)])
  have "bp \<notin> set us \<union> set ws" "bp \<noteq> base h" using p v \<open>base h < bp\<close> by (auto simp: placed_def)
  moreover have "s_ptr h v = hd (ws @ [base h])" using p v by (simp add: placed_def)
  moreover have "placed (h\<lparr>s_size := (s_size h)(bp := s_size h bp + s_size h v), s_ptr := (s_ptr h)(bp := s_ptr h v)\<rparr>) us q ws bp A hi"
    using p v calculation T unfolding placed_def by (auto simp: sorted_wrt_append)
  ultimately show ?thesis using True n v tiled_sum [OF t(1-5)] unfolding h'_def join_next_def by (intro exI [of _ ws]) auto
qed

lemma join_prev_ok:
  assumes p: "placed h us q vs bp A hi" and n: "s_ptr h bp = hd (vs @ [base h])"
  defines "h' \<equiv> (join_prev h bp q)\<lparr>freep := q\<rparr>"
  shows "\<exists>ys. ring h' ys \<and> set ys \<inter> (A - {bp}) = {} \<and> tiled (base h') (s_size h') (set ys \<union> (A - {bp})) hi \<and> base h' = base h \<and>
     (\<forall>x \<in> A - {bp}. s_size h' x = s_size h x) \<and> (\<exists>y \<in> set ys. unat (s_size h bp) \<le> unat (s_size h' y)) \<and>
     set ys \<subseteq> set (us @ q # bp # vs) - {base h}"
proof -
  let ?B = "set (us @ q # vs) - {base h} \<union> A"
  have o: "sorted_wrt (<) (us @ q # vs)" "sorted_wrt (<) (us @ q # bp # vs)" using p by (auto simp: placed_def sorted_wrt_append)
  have hd: "us @ q # zs = base h # tl (us @ q # zs)" for zs using p by (cases us) (auto simp: placed_def)
  have nb: "base h \<notin> set (tl (us @ q # zs))" if "sorted_wrt (<) (us @ q # zs)" for zs
    using that by (subst (asm) hd) auto
  have tl: "set (tl (us @ q # zs)) = set (us @ q # zs) - {base h}" if "sorted_wrt (<) (us @ q # zs)" for zs
    using nb [OF that] arg_cong [OF hd [of zs], of set] by auto
  have d: "bp \<notin> set us" "bp \<notin> set vs" "bp \<noteq> q" "q \<notin> set us" "q \<notin> set vs" "bp \<noteq> base h" "q \<notin> A" "base h < bp"
    using p by (auto simp: placed_def sorted_wrt_append) (cases us; auto)+
  show ?thesis
  proof (cases "hdr_add q (s_size h q) = bp")
    case False
    have h': "h' = h\<lparr>s_ptr := (s_ptr h)(q := bp), freep := q\<rparr>" using False by (simp add: h'_def join_prev_def)
    have "ring h' (tl (us @ q # bp # vs))"
      unfolding ring_def h' using hd [of "bp # vs"] o p d n by (auto simp: placed_def lk_append simp flip: hd)
    moreover have "set (tl (us @ q # bp # vs)) \<union> (A - {bp}) = ?B" using tl [OF o(2)] p d by (auto simp: placed_def)
    ultimately show ?thesis using p tl [OF o(2)] d unfolding h' by (intro exI [of _ "tl (us @ q # bp # vs)"]) (auto simp: placed_def)
  next
    case True
    have "q \<noteq> base h" using True p by (auto simp: placed_def hdr_add_def)
    then have t: "tiled (base h) (s_size h) ?B hi" "q \<in> ?B" "bp \<in> ?B" "hi \<le> memory" using p by (auto simp: placed_def)
    have h': "h' = h\<lparr>s_size := (s_size h)(q := s_size h q + s_size h bp), s_ptr := (s_ptr h)(q := s_ptr h bp), freep := q\<rparr>"
      using True by (simp add: h'_def join_prev_def)
    have "ring h' (tl (us @ q # vs))"
      unfolding ring_def h' using hd [of vs] o p d n \<open>q \<noteq> base h\<close> by (auto simp: placed_def lk_append simp flip: hd)
    moreover have "set (tl (us @ q # vs)) \<union> (A - {bp}) = ?B - {bp}" using tl [OF o(1)] p d by (auto simp: placed_def)
    ultimately show ?thesis using p tl [OF o(1)] d tiled_join [OF t(1-3) True t(4)] tiled_sum [OF t(1-3) True t(4)] \<open>q \<noteq> base h\<close>
      unfolding h' by (intro exI [of _ "tl (us @ q # vs)"]) (auto simp: placed_def)
  qed
qed

lemma heap_ok_live:
  assumes "heap_ok h ys A hi" and "bp \<in> A"
  shows "base h < bp" and "bp \<notin> set ys" and "ring h ys"
proof -
  have "base h + 16 \<le> bp" using assms unfolding heap_ok_def tiled_def by blast
  then show "base h < bp" by simp
  show "bp \<notin> set ys" "ring h ys" using assms unfolding heap_ok_def by blast+
qed

lemma ring_placed:
  assumes "heap_ok h ys A hi" and "bp \<in> A" and "base h # ys = us @ q # vs" and "stop h bp q"
  shows "placed h us q vs bp A hi \<and> s_ptr h q = hd (vs @ [base h])"
proof -
  note b = heap_ok_live [OF assms(1,2)]
  have "base h \<notin> A" using heap_ok_live(1) [OF assms(1), of "base h"] by auto
  moreover have "base h \<notin> set ys" using b(3) by (auto simp: ring_def)
  ultimately have "set (us @ q # vs) \<inter> A = {}" "set (us @ q # vs) - {base h} = set ys"
    using assms(1) by (auto simp: heap_ok_def simp flip: assms(3))
  moreover have "hd (us @ [q]) = base h" using assms(3) by (cases us) auto
  moreover have "sorted_wrt (<) (us @ q # vs)" "lk (s_ptr h) (us @ q # vs) (base h)"
    using b(3) unfolding ring_def assms(3) by blast+
  ultimately show ?thesis using stop_pred [OF b(3,1) assms(3,4) b(2)] assms(1,2)
    unfolding placed_def by (auto simp: heap_ok_def ring_def lk_append)
qed

lemma sorted_count:
  assumes "set zs \<subseteq> insert b (set ys)" and "sorted_wrt (<) (zs :: nat list)"
  shows "length zs \<le> Suc (length ys)"
proof -
  have "distinct zs" using assms(2) by (simp add: strict_sorted_iff)
  then have "length zs = card (set zs)" by (simp add: distinct_card)
  also have "\<dots> \<le> card (insert b (set ys))" by (rule card_mono) (use assms(1) in simp_all)
  also have "\<dots> \<le> Suc (card (set ys))" by (simp add: card_insert_le_m1 card_insert_if)
  also have "\<dots> \<le> Suc (length ys)" by (simp add: card_length)
  finally show ?thesis .
qed

lemma free_run:
  assumes "heap_ok h ys A hi" and "bp \<in> A" and "length ys < f"
  shows "\<exists>h' ys'. free f h (bp + 16) = Some h' \<and> heap_ok h' ys' (A - {bp}) hi \<and> base h' = base h \<and>
     (\<forall>x \<in> A - {bp}. s_size h' x = s_size h x) \<and> (\<exists>y \<in> set ys'. s_size h bp \<le> s_size h' y) \<and> length ys' \<le> Suc (length ys)"
proof -
  note b = heap_ok_live(1,2) [OF assms(1,2)] and r = heap_ok_live(3) [OF assms(1,2)]
  obtain us vs where x: "base h # ys = us @ freep h # vs" using r unfolding ring_def by (metis split_list)
  let ?cs = "freep h # vs @ us"
  have "lk (s_ptr h) ?cs (freep h)" using ring_from [OF r x] by (cases vs; cases us) (auto simp: lk_append hd_append)
  moreover have set: "set ?cs = set (base h # ys)" unfolding x by auto
  moreover have "length ?cs \<le> f" using arg_cong [OF x, of length] assms(3) by simp
  ultimately obtain q where q: "q \<in> set (base h # ys)" "stop h bp q" "free_loop f h bp (freep h) = Some q"
    using free_walk [of h ?cs "freep h" bp f] pred_stop [OF r b] unfolding set by auto
  obtain us' vs' where x': "base h # ys = us' @ q # vs'" using q(1) by (metis split_list)
  let ?h = "join_next h bp q"
  let ?h2 = "(join_prev ?h bp q)\<lparr>freep := q\<rparr>"
  obtain vs2 where p: "placed ?h us' q vs2 bp A hi" "s_ptr ?h bp = hd (vs2 @ [base ?h])"
    and s: "unat (s_size h bp) \<le> unat (s_size ?h bp)" "base ?h = base h" "\<forall>x. x \<noteq> bp \<longrightarrow> s_size ?h x = s_size h x" "set vs2 \<subseteq> set vs'"
    using join_next_ok ring_placed [OF assms(1,2) x' q(2)] by metis
  obtain zs where z: "ring ?h2 zs" "set zs \<inter> (A - {bp}) = {}" "tiled (base ?h2) (s_size ?h2) (set zs \<union> (A - {bp})) hi" "base ?h2 = base h"
      "\<forall>x \<in> A - {bp}. s_size ?h2 x = s_size ?h x" "\<exists>y \<in> set zs. unat (s_size ?h bp) \<le> unat (s_size ?h2 y)"
      "set zs \<subseteq> set (us' @ q # bp # vs2) - {base h}"
    using join_prev_ok [OF p] s(2) by metis
  have "heap_ok ?h2 zs (A - {bp}) hi" using z(1-4) assms(1) unfolding heap_ok_def by metis
  moreover have "\<forall>x \<in> A - {bp}. s_size ?h2 x = s_size h x" using z(5) s(3) by auto
  moreover have "\<exists>y \<in> set zs. s_size h bp \<le> s_size ?h2 y" using z(6) s(1) unfolding word_le_nat_alt by (meson le_trans)
  moreover have "set zs \<subseteq> insert bp (set ys)" using z(7) s(4) arg_cong [OF x', of set] by auto
  then have "length zs \<le> Suc (length ys)" by (rule sorted_count) (use z(1) in \<open>simp add: ring_def\<close>)
  moreover have "free f h (bp + 16) = Some ?h2" using q(3) by (simp add: free_def Let_def)
  ultimately show ?thesis using z(4) by blast
qed

section \<open>malloc\<close>

lemma malloc_walk:
  assumes "lk (s_ptr h) cs e" and "s_ptr h prevp = hd cs" and "\<exists>y \<in> set cs. n \<le> s_size h y" and "freep h \<notin> set (butlast cs)" and "length cs \<le> f"
  shows "\<exists>u p. u \<in> set (prevp # cs) \<and> p \<in> set cs \<and> s_ptr h u = p \<and> n \<le> s_size h p \<and>
     malloc_loop f sbrk n prevp (hd cs) h w = (case take_block n u p h of (r, h') \<Rightarrow> Some (r, h', w))"
  using assms
proof (induction cs arbitrary: f prevp)
  case (Cons c cs)
  then obtain g where f: "f = Suc g" by (cases f) auto
  show ?case
  proof (cases "n \<le> s_size h c")
    case True
    then show ?thesis using Cons.prems(2) f by (intro exI [of _ prevp] exI [of _ c]) simp
  next
    case False
    then have e: "\<exists>y \<in> set cs. n \<le> s_size h y" using Cons.prems(3) by auto
    then have "cs \<noteq> []" by auto
    then have c: "s_ptr h c = hd cs" "c \<noteq> freep h" "freep h \<notin> set (butlast cs)" using Cons.prems(1,4) by (cases cs; auto)+
    obtain u p where "u \<in> set (c # cs) \<and> p \<in> set cs \<and> s_ptr h u = p \<and> n \<le> s_size h p \<and>
       malloc_loop g sbrk n c (hd cs) h w = (case take_block n u p h of (r, h') \<Rightarrow> Some (r, h', w))"
      using Cons.IH [OF _ c(1) e c(3), of g] Cons.prems(1,5) f by auto
    then show ?thesis using False c f by (intro exI [of _ u] exI [of _ p]) auto
  qed
qed simp

lemma malloc_walk_none:
  assumes "lk (s_ptr h) cs (freep h)" and "s_ptr h prevp = hd (cs @ [freep h])" and "\<forall>y \<in> set cs. \<not> n \<le> s_size h y" and "freep h \<notin> set cs"
  shows "\<exists>u. malloc_loop (length cs + f) sbrk n prevp (hd (cs @ [freep h])) h w = malloc_loop f sbrk n u (freep h) h w"
  using assms
proof (induction cs arbitrary: prevp)
  case (Cons c cs)
  then show ?case using Cons.IH [of c] by auto
qed auto

lemma tiled_cut:
  assumes "tiled lo sz B hi" and "p \<in> B" and "0 < n" and "n < sz p"
  defines "q \<equiv> hdr_add p (sz p - n)"
  shows "tiled lo (sz(p := sz p - n, q := n)) (insert q B) hi \<and> q \<notin> B \<and> p < q \<and> hdr_add q n = hdr_add p (sz p)"
proof -
  have u: "unat (sz p - n) = unat (sz p) - unat n" "0 < unat n" "unat n < unat (sz p)"
    using assms(3) unat_sub [OF less_imp_le [OF assms(4)]] assms(4) by (simp_all add: word_less_nat_alt)
  then have q: "p < q" "q + 16 * unat n = p + 16 * unat (sz p)" "q = p + 16 * unat (sz p) - 16 * unat n" by (simp_all add: q_def hdr_add_def)
  have between: "z \<le> p \<or> q + 16 * unat n \<le> z" if "z \<in> B" for z
    using assms(1,2) that q by (cases "p < z") (auto simp: tiled_def hdr_add_def)
  then have nq: "q \<notin> B" using q u by force
  have "tiled lo (sz(p := sz p - n, q := n)) (insert q B) hi"
    unfolding tiled_def
  proof (intro conjI ballI impI)
    fix x assume x: "x \<in> insert q B"
    show "lo + 16 \<le> x" using x assms(1,2) q by (force simp: tiled_def)
    show "0 < unat ((sz(p := sz p - n, q := n)) x)" using x assms(1) u by (auto simp: tiled_def)
    show "hdr_add x ((sz(p := sz p - n, q := n)) x) \<le> hi"
      using x assms(1,2) q u nq by (fastforce simp: tiled_def hdr_add_def)
    fix y assume y: "y \<in> insert q B" "x < y"
    show "hdr_add x ((sz(p := sz p - n, q := n)) x) \<le> y"
      using x y assms(1,2) q u nq between [of y] between [of x] by (fastforce simp: tiled_def hdr_add_def)
  qed
  then show ?thesis using nq q by (simp add: hdr_add_def)
qed

lemma take_block_ok:
  assumes h: "heap_ok h ys A hi" and u: "u \<in> set (base h # ys)" and p: "s_ptr h u = p" "p \<in> set (base h # ys)" and n: "0 < n" "n \<le> s_size h p"
  shows "\<exists>a h' ys'. take_block n u p h = (a + 16, h') \<and> a \<notin> A \<and> heap_ok h' ys' (insert a A) hi \<and> base h' = base h \<and>
     s_size h' a = n \<and> (\<forall>x \<in> A. s_size h' x = s_size h x)"
proof -
  have r: "ring h ys" using h by (simp add: heap_ok_def)
  then have "s_size h (base h) = 0" by (simp add: ring_def)
  then have "p \<noteq> base h" using n by auto
  then have py: "p \<in> set ys" using p(2) by simp
  then have pA: "p \<notin> A" using h by (auto simp: heap_ok_def)
  show ?thesis
  proof (cases "s_size h p = n")
    case True
    obtain us vs where x: "base h # ys = us @ u # vs" using u by (metis split_list)
    have o: "sorted_wrt (<) (us @ u # vs)" "lk (s_ptr h) (us @ u # vs) (base h)" using r unfolding ring_def x by blast+
    then have "hd (vs @ [base h]) = p" using p(1) by (simp add: lk_append)
    then obtain ws where v: "vs = p # ws" using \<open>p \<noteq> base h\<close> by (cases vs) auto
    have hd: "us @ u # ws = base h # tl (us @ u # ws)" using x by (cases us) auto
    then have tl: "ys = tl (us @ u # ws) \<or> set ys = insert p (set (tl (us @ u # ws)))" "p \<notin> set (tl (us @ u # ws))"
      using x v o(1) by (cases us; auto simp: sorted_wrt_append)+
    have "set (tl (us @ u # ws)) \<union> insert p A = set ys \<union> A" using tl py by auto
    moreover have "ring (h\<lparr>s_ptr := (s_ptr h)(u := s_ptr h p), freep := u\<rparr>) (tl (us @ u # ws))"
      unfolding ring_def using hd r o v by (auto simp: ring_def lk_append sorted_wrt_append simp flip: hd)
    moreover have "set (tl (us @ u # ws)) \<inter> insert p A = {}" using tl h by (auto simp: heap_ok_def)
    ultimately show ?thesis using h True pA
      by (intro exI [of _ p] exI [of _ "h\<lparr>s_ptr := (s_ptr h)(u := s_ptr h p), freep := u\<rparr>"] exI [of _ "tl (us @ u # ws)"])
         (simp add: heap_ok_def take_block_def)
  next
    case False
    let ?q = "hdr_add p (s_size h p - n)"
    let ?h = "h\<lparr>s_size := (s_size h)(p := s_size h p - n, ?q := n), freep := u\<rparr>"
    have t: "tiled (base h) (s_size h) (set ys \<union> A) hi" using h by (simp add: heap_ok_def)
    have c: "tiled (base h) ((s_size h)(p := s_size h p - n, ?q := n)) (insert ?q (set ys \<union> A)) hi" "?q \<notin> set ys \<union> A" "p < ?q"
      using tiled_cut [OF t _ n(1), of p] py n(2) False by auto
    then have "base h \<noteq> ?q" using t unfolding tiled_def using c by force
    then have "ring ?h ys" using r u \<open>p \<noteq> base h\<close> by (simp add: ring_def)
    then have "heap_ok ?h ys (insert ?q A) hi" using h c by (simp add: heap_ok_def)
    moreover have "take_block n u p h = (?q + 16, ?h)" using False by (simp add: take_block_def Let_def)
    ultimately show ?thesis using c pA by (intro exI [of _ ?q] exI [of _ ?h] exI [of _ ys]) auto
  qed
qed

text \<open>
  What \<open>sbrk\<close> promises: it fails and leaves the break, or it returns the old break and moves it by the number of
  bytes asked for, and the process never has more memory than the machine.
\<close>

definition sbrk_ok :: "(int \<Rightarrow> 'w \<Rightarrow> nat option \<times> 'w) \<Rightarrow> ('w \<Rightarrow> nat) \<Rightarrow> bool" where
  "sbrk_ok sbrk brk \<longleftrightarrow>
     (\<forall>n w. 0 < n \<longrightarrow>
        (case sbrk n w of
           (None, w') \<Rightarrow> brk w' = brk w
         | (Some p, w') \<Rightarrow> p = brk w \<and> brk w' = brk w + nat n \<and> brk w' \<le> memory))"

text \<open>The sizes for which the argument of \<open>sbrk\<close> is positive.\<close>

definition modest :: "u32 \<Rightarrow> bool" where
  "modest n \<longleftrightarrow> unat n < 2 ^ 27"

lemma sint_small:
  assumes "m < 2 ^ 31"
  shows "sint (of_nat m :: u32) = int m"
proof -
  have "uint (of_nat m :: u32) = int m" using assms by (simp add: unsigned_of_nat take_bit_eq_mod)
  then show ?thesis using assms by (simp add: sint_uint signed_take_bit_int_eq_self)
qed

lemma sbrk_arg: "modest n \<Longrightarrow> sint (of_nat (unat n * 16) :: u32) = int (unat n * 16)"
  by (rule sint_small) (simp add: modest_def)

text \<open>New memory above the break joins the live blocks, and \<open>free\<close> then puts it into the ring.\<close>

lemma heap_ok_grow:
  assumes h: "heap_ok h ys A hi" and n: "0 < unat n" and "hi + 16 * unat n \<le> memory"
  shows "heap_ok (h\<lparr>s_size := (s_size h)(hi := n)\<rparr>) ys (insert hi A) (hi + 16 * unat n) \<and> hi \<notin> set ys \<union> A"
proof -
  have t: "tiled (base h) (s_size h) (set ys \<union> A) hi" and b: "base h + 16 \<le> hi" using h by (simp_all add: heap_ok_def)
  have below: "x < hi" if "x \<in> set ys \<union> A" for x using tiledD [OF t that] by linarith
  then have new: "hi \<notin> set ys \<union> A" by blast
  have "tiled (base h) ((s_size h)(hi := n)) (insert hi (set ys \<union> A)) (hi + 16 * unat n)"
    unfolding tiled_def
  proof (intro conjI ballI impI)
    fix x assume x: "x \<in> insert hi (set ys \<union> A)"
    show "base h + 16 \<le> x" using x tiledD [OF t] b by auto
    show "0 < unat (((s_size h)(hi := n)) x)" using x tiledD [OF t] n by auto
    show "hdr_add x (((s_size h)(hi := n)) x) \<le> hi + 16 * unat n"
      using x tiledD [OF t, of x] by (cases "x = hi") (auto simp: hdr_add_def)
    fix y assume y: "y \<in> insert hi (set ys \<union> A)" "x < y"
    show "hdr_add x (((s_size h)(hi := n)) x) \<le> y"
    proof (cases "x = hi")
      case True
      then show ?thesis using y below [of y] by auto
    next
      case False
      then show ?thesis using x y t by (auto simp: tiled_def)
    qed
  qed
  then show ?thesis using h new b assms(3) by (auto simp: heap_ok_def ring_def)
qed

lemma morecore_ok:
  assumes h: "heap_ok h ys A (brk w)" and s: "sbrk_ok sbrk brk" and n: "modest n" and f: "length ys < f"
  shows "\<exists>p h' w' ys'. morecore f sbrk n h w = Some (p, h', w') \<and> heap_ok h' ys' A (brk w') \<and> base h' = base h \<and> length ys' \<le> Suc (length ys) \<and>
     (\<forall>x \<in> A. s_size h' x = s_size h x) \<and> (p = 0 \<or> p = freep h' \<and> (\<exists>y \<in> set ys'. n \<le> s_size h' y))"
proof -
  define nu where "nu = (if n < 4096 then 4096 else n)"
  have nu: "modest nu" "n \<le> nu" "0 < unat nu" using n by (auto simp: nu_def modest_def word_less_nat_alt word_le_nat_alt)
  obtain r w' where k: "sbrk (int (unat nu * 16)) w = (r, w')" by force
  have c: "case r of None \<Rightarrow> brk w' = brk w | Some p \<Rightarrow> p = brk w \<and> brk w' = brk w + unat nu * 16 \<and> brk w' \<le> memory"
    using s [unfolded sbrk_ok_def, rule_format, of "int (unat nu * 16)" w] nu(3) unfolding k prod.case nat_int of_nat_0_less_iff by simp
  have m: "morecore f sbrk n h w = (case (r, w') of (None, w) \<Rightarrow> Some (0, h, w) | (Some hp, w) \<Rightarrow>
     map_option (\<lambda>h. (freep h, h, w)) (free f (h\<lparr>s_size := (s_size h)(hp := nu)\<rparr>) (hp + 16)))"
    unfolding morecore_def Let_def nu_def [symmetric] sbrk_arg [OF nu(1)] k ..
  show ?thesis
  proof (cases r)
    case None
    then show ?thesis using m c h by auto
  next
    case (Some hp)
    then have hp: "hp = brk w" "brk w' = brk w + 16 * unat nu" "brk w' \<le> memory" using c by auto
    let ?h = "h\<lparr>s_size := (s_size h)(hp := nu)\<rparr>"
    have g: "heap_ok ?h ys (insert hp A) (brk w')" "hp \<notin> A" using heap_ok_grow [OF h nu(3)] hp by auto
    obtain h' ys' where h': "free f ?h (hp + 16) = Some h'" "heap_ok h' ys' (insert hp A - {hp}) (brk w')" "base h' = base ?h"
        "\<forall>x \<in> insert hp A - {hp}. s_size h' x = s_size ?h x" "\<exists>y \<in> set ys'. s_size ?h hp \<le> s_size h' y" "length ys' \<le> Suc (length ys)"
      using free_run [OF g(1) insertI1 f] by blast
    moreover have "insert hp A - {hp} = A" using g(2) by auto
    ultimately show ?thesis using m Some g(2) nu(2)
      by (intro exI [of _ "freep h'"] exI [of _ h'] exI [of _ w'] exI [of _ ys']) (auto intro: order_trans)
  qed
qed

text \<open>Enough fuel for a search of the ring and one more after it has grown.\<close>

lemma malloc_search:
  assumes h: "heap_ok h ys A hi" and n: "0 < n" "\<exists>y \<in> set ys. n \<le> s_size h y" and f: "length ys < f"
  shows "\<exists>a h' ys'. malloc_loop f sbrk n (freep h) (s_ptr h (freep h)) h w = Some (a + 16, h', w) \<and> a \<notin> A \<and> heap_ok h' ys' (insert a A) hi \<and>
     base h' = base h \<and> s_size h' a = n \<and> (\<forall>x \<in> A. s_size h' x = s_size h x)"
proof -
  have r: "ring h ys" using h by (simp add: heap_ok_def)
  then obtain us vs where x: "base h # ys = us @ freep h # vs" unfolding ring_def by (metis split_list)
  let ?cs = "vs @ us @ [freep h]"
  have l: "lk (s_ptr h) ?cs (hd ?cs)" by (rule ring_from [OF r x])
  then have p: "s_ptr h (freep h) = hd ?cs" by (simp add: lk_append)
  have set: "set ?cs = set (base h # ys)" unfolding x by auto
  have "distinct (us @ freep h # vs)" using r unfolding ring_def x strict_sorted_iff by blast
  then have "freep h \<notin> set (butlast ?cs)" by (auto simp: butlast_append)
  moreover have "length ?cs \<le> f" using arg_cong [OF x, of length] f by simp
  moreover have "\<exists>y \<in> set ?cs. n \<le> s_size h y" using n(2) unfolding set by auto
  ultimately obtain u q where "u \<in> set (freep h # ?cs)" "q \<in> set ?cs" "s_ptr h u = q" "n \<le> s_size h q"
      "malloc_loop f sbrk n (freep h) (hd ?cs) h w = (case take_block n u q h of (r, h') \<Rightarrow> Some (r, h', w))"
    using malloc_walk [OF l p] by metis
  moreover have "u \<in> set (base h # ys)" "q \<in> set (base h # ys)" using calculation(1,2) unfolding set [symmetric] by auto
  ultimately show ?thesis using take_block_ok [OF h, of u q n] n(1) p by fastforce
qed

lemma malloc_loop_ok:
  assumes h: "heap_ok h ys A (brk w)" and s: "sbrk_ok sbrk brk" and n: "0 < n" "modest n" and f: "2 * length ys + 3 \<le> f"
  shows "\<exists>r h' w' ys'. malloc_loop f sbrk n (freep h) (s_ptr h (freep h)) h w = Some (r, h', w') \<and> base h' = base h \<and>
     (\<forall>x \<in> A. s_size h' x = s_size h x) \<and>
     (r = 0 \<and> heap_ok h' ys' A (brk w') \<or> (\<exists>a. r = a + 16 \<and> a \<notin> A \<and> heap_ok h' ys' (insert a A) (brk w') \<and> s_size h' a = n))"
proof (cases "\<exists>y \<in> set ys. n \<le> s_size h y")
  case True
  then show ?thesis using malloc_search [OF h n(1) True, of f sbrk w] f by fastforce
next
  case False
  have r: "ring h ys" using h by (simp add: heap_ok_def)
  then obtain us vs where x: "base h # ys = us @ freep h # vs" unfolding ring_def by (metis split_list)
  have l: "lk (s_ptr h) (vs @ us @ [freep h]) (hd (vs @ us @ [freep h]))" by (rule ring_from [OF r x])
  then have l': "lk (s_ptr h) (vs @ us) (freep h)" "s_ptr h (freep h) = hd ((vs @ us) @ [freep h])" by (auto simp: lk_append hd_append)
  have "distinct (us @ freep h # vs)" using r unfolding ring_def x strict_sorted_iff by blast
  then have d: "freep h \<notin> set (vs @ us)" by auto
  have small: "\<not> n \<le> s_size h y" if "y \<in> set (base h # ys)" for y using False that n(1) r by (auto simp: ring_def)
  then have sm: "\<forall>y \<in> set (vs @ us). \<not> n \<le> s_size h y" "\<not> n \<le> s_size h (freep h)" unfolding x by auto
  obtain g where g: "f = length (vs @ us) + Suc g" "Suc (length ys) < g"
    using that [of "f - length (vs @ us) - 1"] arg_cong [OF x, of length] f by auto
  obtain u where u: "malloc_loop f sbrk n (freep h) (s_ptr h (freep h)) h w = malloc_loop (Suc g) sbrk n u (freep h) h w"
    using malloc_walk_none [OF l' sm(1) d, of "Suc g" sbrk w] g(1) l'(2) by auto
  obtain p h' w' ys' where m: "morecore g sbrk n h w = Some (p, h', w')" "heap_ok h' ys' A (brk w')" "base h' = base h" "length ys' \<le> Suc (length ys)"
      "\<forall>x \<in> A. s_size h' x = s_size h x" "p = 0 \<or> p = freep h' \<and> (\<exists>y \<in> set ys'. n \<le> s_size h' y)"
    using morecore_ok [OF h s n(2) Suc_lessD [OF g(2)]] by metis
  show ?thesis
  proof (cases "p = 0")
    case True
    then show ?thesis using u sm(2) m(1-3,5) by auto
  next
    case False
    then show ?thesis using u sm(2) m malloc_search [OF m(2) n(1), of g sbrk w'] g(2) by fastforce
  qed
qed

section \<open>Programs that allocate\<close>

text \<open>A call that returns does so with any larger fuel.\<close>

lemma free_loop_more: "free_loop f h bp p = Some q \<Longrightarrow> free_loop (f + k) h bp p = Some q"
  by (induction f arbitrary: p) (auto split: if_splits)

lemma free_more: "free f h ap = Some h' \<Longrightarrow> free (f + k) h ap = Some h'"
  by (auto simp: free_def Let_def free_loop_more split: option.splits)

lemma morecore_more: "morecore f sbrk n h w = Some x \<Longrightarrow> morecore (f + k) sbrk n h w = Some x"
  by (auto simp: morecore_def Let_def free_more split: prod.splits option.splits)

lemma malloc_loop_more: "malloc_loop f sbrk n u p h w = Some x \<Longrightarrow> malloc_loop (f + k) sbrk n u p h w = Some x"
proof (induction f arbitrary: u p h w)
  case (Suc f)
  then show ?case by (auto simp: morecore_more split: if_splits option.splits prod.splits)
qed simp

lemma malloc_more: "malloc f sbrk n h w = Some x \<Longrightarrow> malloc (f + k) sbrk n h w = Some x"
  by (simp add: malloc_def Let_def malloc_loop_more)

text \<open>
  The states of the heap while a program runs, with the set of the headers of the blocks it holds: it allocates, it
  frees a block it holds, and it writes what it likes into the data of a block it holds.
\<close>

inductive heap_run :: "(int \<Rightarrow> 'w \<Rightarrow> nat option \<times> 'w) \<Rightarrow> ('w \<Rightarrow> nat) \<Rightarrow> uheap \<Rightarrow> nat set \<Rightarrow> 'w \<Rightarrow> bool"
  for sbrk :: "int \<Rightarrow> 'w \<Rightarrow> nat option \<times> 'w" and brk :: "'w \<Rightarrow> nat" where
  start: "0 < base h \<Longrightarrow> base h + 16 \<le> brk w \<Longrightarrow> brk w \<le> memory \<Longrightarrow> freep h = 0 \<Longrightarrow> heap_run sbrk brk h {} w"
| alloc: "heap_run sbrk brk h A w \<Longrightarrow> unat n \<le> 2 ^ 31 - 32 \<Longrightarrow> malloc f sbrk n h w = Some (r, h', w') \<Longrightarrow>
    heap_run sbrk brk h' (if r = 0 then A else insert (r - 16) A) w'"
| release: "heap_run sbrk brk h A w \<Longrightarrow> a \<in> A \<Longrightarrow> free f h (a + 16) = Some h' \<Longrightarrow> heap_run sbrk brk h' (A - {a}) w"
| data: "heap_run sbrk brk h A w \<Longrightarrow> a \<in> A \<Longrightarrow> a + 16 \<le> x \<Longrightarrow> x + 16 \<le> hdr_add a (s_size h a) \<Longrightarrow>
    heap_run sbrk brk (h\<lparr>s_ptr := (s_ptr h)(x := v), s_size := (s_size h)(x := z)\<rparr>) A w"

definition heap_inv :: "uheap \<Rightarrow> nat set \<Rightarrow> nat \<Rightarrow> bool" where
  "heap_inv h A hi \<longleftrightarrow>
     freep h = 0 \<and> A = {} \<and> 0 < base h \<and> base h + 16 \<le> hi \<and> hi \<le> memory \<or> (\<exists>ys. heap_ok h ys A hi)"

lemma malloc_units_ok:
  assumes "unat n \<le> 2 ^ 31 - 32"
  shows "0 < malloc_units n" and "modest (malloc_units n)" and "unat n \<le> 16 * (unat (malloc_units n) - 1)"
proof -
  have "(unat n + 15) div 16 + 1 < 2 ^ 27" using assms by simp
  then have u: "unat (malloc_units n) = (unat n + 15) div 16 + 1" unfolding malloc_units_def by (subst unat_of_nat) simp
  show "0 < malloc_units n" using u by (simp add: word_less_nat_alt)
  show "modest (malloc_units n)" using u assms by (simp add: modest_def)
  show "unat n \<le> 16 * (unat (malloc_units n) - 1)" unfolding u by simp
qed

lemma heap_inv_init:
  assumes "heap_inv h A hi"
  shows "\<exists>ys. heap_ok (heap_init h) ys A hi \<and> base (heap_init h) = base h \<and> (\<forall>x \<in> A. s_size (heap_init h) x = s_size h x)"
  using assms unfolding heap_inv_def
proof
  assume "freep h = 0 \<and> A = {} \<and> 0 < base h \<and> base h + 16 \<le> hi \<and> hi \<le> memory"
  then have "heap_ok (heap_init h) [] A hi" by (simp add: heap_init_def heap_ok_def ring_def tiled_def)
  then show ?thesis using assms \<open>freep h = 0 \<and> _\<close> by (auto simp: heap_init_def)
next
  assume "\<exists>ys. heap_ok h ys A hi"
  then obtain ys where h: "heap_ok h ys A hi" by blast
  then have "freep h \<noteq> 0" by (auto simp: heap_ok_def ring_def)
  then show ?thesis using h by (auto simp: heap_init_def)
qed

lemma malloc_inv:
  assumes i: "heap_inv h A (brk w)" and s: "sbrk_ok sbrk brk" and n: "unat n \<le> 2 ^ 31 - 32"
  shows "\<exists>f r h' w'. malloc f sbrk n h w = Some (r, h', w') \<and> base h' = base h \<and> (\<forall>x \<in> A. s_size h' x = s_size h x) \<and>
     (r = 0 \<and> heap_inv h' A (brk w') \<or>
      (\<exists>a. r = a + 16 \<and> a \<notin> A \<and> heap_inv h' (insert a A) (brk w') \<and> s_size h' a = malloc_units n))"
proof -
  obtain ys where h: "heap_ok (heap_init h) ys A (brk w)" "base (heap_init h) = base h" "\<forall>x \<in> A. s_size (heap_init h) x = s_size h x"
    using heap_inv_init [OF i] by blast
  let ?f = "2 * length ys + 3"
  obtain r h' w' ys' where m: "malloc ?f sbrk n h w = Some (r, h', w')" "base h' = base h" "\<forall>x \<in> A. s_size h' x = s_size h x"
    and o: "r = 0 \<and> heap_ok h' ys' A (brk w') \<or>
      (\<exists>a. r = a + 16 \<and> a \<notin> A \<and> heap_ok h' ys' (insert a A) (brk w') \<and> s_size h' a = malloc_units n)"
    using malloc_loop_ok [OF h(1) s malloc_units_ok(1,2) [OF n] order_refl] h(2,3) unfolding malloc_def Let_def by auto
  have "heap_inv h' B (brk w')" if "heap_ok h' ys' B (brk w')" for B using that by (auto simp: heap_inv_def)
  then show ?thesis using m o by blast
qed

lemma free_inv:
  assumes i: "heap_inv h A hi" and a: "a \<in> A"
  shows "\<exists>f h'. free f h (a + 16) = Some h' \<and> base h' = base h \<and> heap_inv h' (A - {a}) hi \<and> (\<forall>x \<in> A - {a}. s_size h' x = s_size h x)"
proof -
  obtain ys where "heap_ok h ys A hi" using i a by (auto simp: heap_inv_def)
  from free_run [OF this a lessI] show ?thesis unfolding heap_inv_def by blast
qed

lemma data_inv:
  assumes i: "heap_inv h A hi" and a: "a \<in> A" and x: "a + 16 \<le> x" "x + 16 \<le> hdr_add a (s_size h a)"
  shows "heap_inv (h\<lparr>s_ptr := (s_ptr h)(x := v), s_size := (s_size h)(x := z)\<rparr>) A hi"
proof -
  obtain ys where h: "heap_ok h ys A hi" using i a by (auto simp: heap_inv_def)
  have t: "tiled (base h) (s_size h) (set ys \<union> A) hi" using h by (simp add: heap_ok_def)
  have "x \<notin> set ys \<union> A"
  proof
    assume "x \<in> set ys \<union> A"
    then have "hdr_add a (s_size h a) \<le> x" using t a x(1) unfolding tiled_def by auto
    then show False using x by simp
  qed
  moreover have "base h < x" using heap_ok_live(1) [OF h a] x(1) by simp
  moreover have "tiled (base h) ((s_size h)(x := z)) (set ys \<union> A) hi" using t calculation(1) by (subst tiled_cong) auto
  ultimately have "heap_ok (h\<lparr>s_ptr := (s_ptr h)(x := v), s_size := (s_size h)(x := z)\<rparr>) ys A hi"
    using h by (simp add: heap_ok_def ring_def)
  then show ?thesis by (auto simp: heap_inv_def)
qed

lemma heap_run_inv:
  assumes "heap_run sbrk brk h A w" and s: "sbrk_ok sbrk brk"
  shows "heap_inv h A (brk w)"
  using assms(1)
proof induction
  case (alloc h A w n f r h' w')
  obtain g r2 h2 w2 where m: "malloc g sbrk n h w = Some (r2, h2, w2)"
      "r2 = 0 \<and> heap_inv h2 A (brk w2) \<or> (\<exists>a. r2 = a + 16 \<and> a \<notin> A \<and> heap_inv h2 (insert a A) (brk w2) \<and> s_size h2 a = malloc_units n)"
    using malloc_inv [OF alloc.IH s alloc.hyps(2)] by blast
  then have "(r2, h2, w2) = (r, h', w')"
    using malloc_more [OF m(1), of f] malloc_more [OF alloc.hyps(3), of g] by (simp add: add.commute)
  then show ?case using m(2) by auto
next
  case (release h A w a f h')
  obtain g h2 where m: "free g h (a + 16) = Some h2" "heap_inv h2 (A - {a}) (brk w)" using free_inv [OF release.IH release.hyps(2)] by blast
  then have "h2 = h'" using free_more [OF m(1), of f] free_more [OF release.hyps(3), of g] by (simp add: add.commute)
  then show ?case using m(2) by simp
next
  case (data h A w a x v z)
  then show ?case by (intro data_inv)
qed (simp add: heap_inv_def)

section \<open>Properties\<close>

text \<open>
  C4: The allocator is safe for every program that frees only what it holds and writes only into its blocks. In every
  state such a program reaches, with an \<open>sbrk\<close> that behaves as documented, the blocks it holds lie above \<open>base\<close> and
  below the break and no two overlap; \<open>free\<close> of any of them returns; and \<open>malloc\<close> of up to \<open>2^31 - 32\<close> bytes returns,
  with the null pointer or with a block of at least that many bytes that the program did not hold, and leaves the
  sizes of the others as they were.
\<close>

theorem malloc_safe:
  assumes "sbrk_ok sbrk brk" and "heap_run sbrk brk h A w"
  shows "(\<forall>a \<in> A. base h + 16 \<le> a \<and> hdr_add a (s_size h a) \<le> brk w) \<and>
     (\<forall>a \<in> A. \<forall>b \<in> A. a < b \<longrightarrow> hdr_add a (s_size h a) \<le> b) \<and>
     (\<forall>a \<in> A. \<exists>f h'. free f h (a + 16) = Some h' \<and> heap_run sbrk brk h' (A - {a}) w) \<and>
     (\<forall>n. unat n \<le> 2 ^ 31 - 32 \<longrightarrow>
        (\<exists>f r h' w'. malloc f sbrk n h w = Some (r, h', w') \<and> (\<forall>a \<in> A. s_size h' a = s_size h a) \<and>
           (r = 0 \<or> 16 < r \<and> r - 16 \<notin> A \<and> r + unat n \<le> hdr_add (r - 16) (s_size h' (r - 16)))))"
proof -
  have i: "heap_inv h A (brk w)" by (rule heap_run_inv [OF assms(2,1)])
  have "tiled (base h) (s_size h) A (brk w)"
    using i by (auto simp: heap_inv_def heap_ok_def tiled_def)
  moreover have "\<exists>f h'. free f h (a + 16) = Some h' \<and> heap_run sbrk brk h' (A - {a}) w" if "a \<in> A" for a
    using free_inv [OF i that] heap_run.release [OF assms(2) that] by blast
  moreover have "\<exists>f r h' w'. malloc f sbrk n h w = Some (r, h', w') \<and> (\<forall>a \<in> A. s_size h' a = s_size h a) \<and>
      (r = 0 \<or> 16 < r \<and> r - 16 \<notin> A \<and> r + unat n \<le> hdr_add (r - 16) (s_size h' (r - 16)))" if n: "unat n \<le> 2 ^ 31 - 32" for n
  proof -
    obtain f r h' w' where m: "malloc f sbrk n h w = Some (r, h', w')" "\<forall>x \<in> A. s_size h' x = s_size h x"
        "r = 0 \<and> heap_inv h' A (brk w') \<or> (\<exists>a. r = a + 16 \<and> a \<notin> A \<and> heap_inv h' (insert a A) (brk w') \<and> s_size h' a = malloc_units n)"
      using malloc_inv [OF i assms(1) n] by blast
    have "16 < r \<and> r - 16 \<notin> A \<and> r + unat n \<le> hdr_add (r - 16) (s_size h' (r - 16))" if "r \<noteq> 0"
    proof -
      obtain a where a: "r = a + 16" "a \<notin> A" "heap_inv h' (insert a A) (brk w')" "s_size h' a = malloc_units n" using m(3) \<open>r \<noteq> 0\<close> by blast
      then obtain ys where "heap_ok h' ys (insert a A) (brk w')" by (auto simp: heap_inv_def)
      then have "0 < a" using heap_ok_live(1) by fastforce
      then show ?thesis using a malloc_units_ok(3) [OF n] malloc_units_ok(1) [OF n] by (simp add: hdr_add_def word_less_nat_alt)
    qed
    then show ?thesis using m(1,2) by (cases "r = 0") auto
  qed
  ultimately show ?thesis unfolding tiled_def by blast
qed

text \<open>A break that moves up to the end of the memory, and a program that has allocated 100 bytes.\<close>

definition bump :: "int \<Rightarrow> nat \<Rightarrow> nat option \<times> nat" where
  "bump n w = (if 0 < n \<and> w + nat n \<le> 134217728 then (Some w, w + nat n) else (None, w))"

definition demo_heap :: uheap where
  "demo_heap = \<lparr>s_ptr = (\<lambda>_. 0), s_size = (\<lambda>_. 0), base = 4096, freep = 0\<rparr>"

lemma bump_ok: "sbrk_ok bump (\<lambda>w. w)"
  by (simp add: sbrk_ok_def bump_def)

theorem malloc_safe_witness:
  "\<exists>h w. heap_run bump (\<lambda>w. w) h {73600} w \<and> base h = 4096 \<and> 4096 + 16 \<le> (73600 :: nat) \<and> hdr_add 73600 (s_size h 73600) \<le> w \<and>
     (\<exists>f h'. free f h 73616 = Some h')"
proof -
  have "heap_run bump (\<lambda>w. w) demo_heap {} 8192" by (rule heap_run.start) (simp_all add: demo_heap_def)
  moreover have "\<exists>h w. malloc (Suc (Suc (Suc 0))) bump 100 demo_heap 8192 = Some (73616, h, w) \<and> base h = 4096"
    by (simp add: malloc_def malloc_units_def heap_init_def demo_heap_def morecore_def bump_def free_def
        join_next_def join_prev_def take_block_def hdr_add_def Let_def)
  ultimately obtain h w where "heap_run bump (\<lambda>w. w) h {73600} w" "base h = 4096"
    using heap_run.alloc [of bump "\<lambda>w. w" demo_heap "{}" 8192 100 "Suc (Suc (Suc 0))" 73616] by auto
  then show ?thesis using malloc_safe [OF bump_ok, of h "{73600}" w] by fastforce
qed

text \<open>
  C28: A request for all of the 32-bit range is met with 16 bytes. The product \<open>nu * sizeof(Header)\<close> is passed to
  \<open>sbrk\<close> as an \<open>int\<close>: for \<open>malloc(4294967295)\<close> it is 16. The call then returns a pointer to the very end of the
  memory of the program, with a header that gives the block its four gigabytes.
\<close>

theorem malloc_huge_wraps:
  assumes "sbrk_ok sbrk brk" and "sbrk 16 w = (Some p, w')" and "freep h = 0" and "0 < base h" and "base h < p"
  shows "\<exists>h'. malloc (Suc (Suc (Suc f))) sbrk 0xFFFFFFFF h w = Some (p + 16, h', w') \<and> brk w' = p + 16 \<and> s_size h' p = 0x10000001"
proof -
  have "brk w' = p + 16" using assms(1) [unfolded sbrk_ok_def, rule_format, of 16 w] assms(2) by simp
  moreover have "malloc_units 0xFFFFFFFF = 0x10000001" by (simp add: malloc_units_def)
  ultimately show ?thesis using assms(2-5)
    by (simp add: malloc_def heap_init_def morecore_def free_def join_next_def join_prev_def take_block_def hdr_add_def Let_def)
qed

theorem malloc_huge_wraps_witness:
  "\<exists>h'. malloc 3 bump 0xFFFFFFFF demo_heap 8192 = Some (8208, h', 8208) \<and> s_size h' 8192 = 0x10000001"
  using malloc_huge_wraps [OF bump_ok, of 8192 8192 8208 demo_heap 0] by (simp add: bump_def demo_heap_def numeral_3_eq_3)

end
