(* ===== verification/Ulib.thy ===== *)
theory Ulib
  imports Cstring
begin

text \<open>
  The library of the user programs: the string and memory functions of \<open>user/ulib.c\<close> and the formatted output of
  \<open>user/printf.c\<close>. Memory is an array of bytes and a pointer an offset, as in theory Cstring; the functions on strings that only
  read, and the formatter, take a C string as the list of its characters before the NUL. \<open>strchr\<close> is in theory Grep.
  System calls are parameters.
\<close>

section \<open>Strings\<close>

text \<open>The loops run until a NUL; without one they do not end: \<open>None\<close>.\<close>

partial_function (option) strcpy_loop :: "bytes \<Rightarrow> nat \<Rightarrow> nat \<Rightarrow> bytes option" where
  "strcpy_loop m s t = (if m t \<noteq> 0 then strcpy_loop (m(s := m t)) (Suc s) (Suc t) else Some (m(s := m t)))"

definition strcpy :: "bytes \<Rightarrow> nat \<Rightarrow> nat \<Rightarrow> bytes option" where
  "strcpy m s t = strcpy_loop m s t"

partial_function (option) strcmp :: "bytes \<Rightarrow> nat \<Rightarrow> nat \<Rightarrow> int option" where
  "strcmp m p q = (if m p \<noteq> 0 \<and> m p = m q then strcmp m (Suc p) (Suc q) else Some (uint (m p) - uint (m q)))"

definition strlen :: "bytes \<Rightarrow> nat \<Rightarrow> u32 option" where
  "strlen m s = map_option of_nat (strlen_from (\<lambda>i. m (s + i)) 0)"

section \<open>Memory\<close>

definition memset :: "bytes \<Rightarrow> nat \<Rightarrow> int \<Rightarrow> u32 \<Rightarrow> bytes" where
  "memset m dst c n = memset_loop m dst (of_int c) (unat n)"

definition memmove :: "bytes \<Rightarrow> nat \<Rightarrow> nat \<Rightarrow> int \<Rightarrow> bytes" where
  "memmove m dst src n =
     (if src > dst then move_up m dst src (nat n)
      else if n > 0 then move_down m (dst + nat n) (src + nat n) (nat n) else m)"

definition memcmp :: "bytes \<Rightarrow> nat \<Rightarrow> nat \<Rightarrow> u32 \<Rightarrow> int" where
  "memcmp m s1 s2 n = memcmp_loop m s1 m s2 (unat n)"

definition memcpy :: "bytes \<Rightarrow> nat \<Rightarrow> nat \<Rightarrow> u32 \<Rightarrow> bytes" where
  "memcpy m dst src n = memmove m dst src (sint n)"

section \<open>Numbers\<close>

fun atoi_loop :: "u32 \<Rightarrow> string \<Rightarrow> u32" where
  "atoi_loop n [] = n"
| "atoi_loop n (c # s) =
     (if (of_char CHR ''0'' :: nat) \<le> of_char c \<and> of_char c \<le> (of_char CHR ''9'' :: nat) then atoi_loop (n * 10 + of_char c - of_char CHR ''0'') s else n)"

definition atoi :: "string \<Rightarrow> int" where
  "atoi s = sint (atoi_loop 0 s)"

section \<open>Input and files\<close>

text \<open>\<open>read(0, &c, 1)\<close> gives the number of bytes read and the byte; \<open>n\<close> rounds are left.\<close>

fun gets_loop :: "('w \<Rightarrow> int \<times> u8 \<times> 'w) \<Rightarrow> nat \<Rightarrow> bytes \<Rightarrow> nat \<Rightarrow> 'w \<Rightarrow> bytes \<times> nat \<times> 'w" where
  "gets_loop rd 0 buf i w = (buf, i, w)"
| "gets_loop rd (Suc n) buf i w = (case rd w of (cc, c, w) \<Rightarrow>
     if cc < 1 then (buf, i, w)
     else if c = of_char CHR 0x0A \<or> c = of_char CHR 0x0D then (buf(i := c), Suc i, w)
     else gets_loop rd n (buf(i := c)) (Suc i) w)"

definition gets :: "('w \<Rightarrow> int \<times> u8 \<times> 'w) \<Rightarrow> bytes \<Rightarrow> int \<Rightarrow> 'w \<Rightarrow> bytes \<times> 'w" where
  "gets rd buf mx w = (case gets_loop rd (nat (mx - 1)) buf 0 w of (buf, i, w) \<Rightarrow> (buf(i := 0), w))"

definition stat :: "(string \<Rightarrow> int \<Rightarrow> 'w \<Rightarrow> int \<times> 'w) \<Rightarrow> (int \<Rightarrow> 'w \<Rightarrow> int \<times> 'st \<times> 'w) \<Rightarrow> (int \<Rightarrow> 'w \<Rightarrow> 'w) \<Rightarrow> string \<Rightarrow> 'st \<Rightarrow> 'w \<Rightarrow> int \<times> 'st \<times> 'w" where
  "stat open1 fstat close1 n st w = (case open1 n 0 w of (fd, w) \<Rightarrow>
     if fd < 0 then (-1, st, w)
     else (case fstat fd w of (r, st, w) \<Rightarrow> (r, st, close1 fd w)))"

section \<open>Formatted output\<close>

definition digits :: "nat \<Rightarrow> char" where
  "digits d = ''0123456789ABCDEF'' ! d"

text \<open>The contents of \<open>buf\<close> after the \<open>do ... while\<close> loop. The base is 10 or 16; for a base below 2, never used, the model stops.\<close>

function printint_loop :: "nat \<Rightarrow> nat \<Rightarrow> string" where
  "printint_loop b x = digits (x mod b) # (if x div b = 0 \<or> b \<le> 1 then [] else printint_loop b (x div b))"
  by pat_completeness auto
termination
  by (relation "measure snd") (auto intro!: div_less_dividend gr0I)

declare printint_loop.simps [simp del]

text \<open>The characters written, in their order.\<close>

definition printint :: "int \<Rightarrow> nat \<Rightarrow> bool \<Rightarrow> string" where
  "printint xx b sg =
     (let neg = sg \<and> xx < 0;
          x = (if neg then of_int (- xx) else of_int xx :: u32)
      in rev (printint_loop b (unat x) @ (if neg then ''-'' else [])))"

definition printptr :: "u64 \<Rightarrow> string" where
  "printptr x = ''0x'' @ map (\<lambda>i. digits (unat (drop_bit 60 (push_bit (4 * i) x)))) [0..<16]"

text \<open>
  The variable arguments: an \<open>int\<close> or \<open>uint\<close>, a \<open>uint64\<close>, or a \<open>char*\<close>, which may be null. Taking one of another type, or more than there
  are, is undefined in C: \<open>None\<close>. The flag says that a \<open>%\<close> has been seen.
\<close>

datatype uarg = UInt int | ULong u64 | UStr "string option"

fun vprintf :: "string \<Rightarrow> bool \<Rightarrow> uarg list \<Rightarrow> string option" where
  "vprintf [] st ap = Some []"
| "vprintf (c # fmt) st ap =
     (if \<not> st then
        (if c = CHR ''%'' then vprintf fmt True ap else map_option (Cons c) (vprintf fmt False ap))
      else if c = CHR ''d'' then
        (case ap of UInt x # ap \<Rightarrow> map_option (append (printint x 10 True)) (vprintf fmt False ap) | _ \<Rightarrow> None)
      else if c = CHR ''l'' then
        (case ap of ULong x # ap \<Rightarrow> map_option (append (printint (sint (ucast x :: u32)) 10 False)) (vprintf fmt False ap) | _ \<Rightarrow> None)
      else if c = CHR ''x'' then
        (case ap of UInt x # ap \<Rightarrow> map_option (append (printint x 16 False)) (vprintf fmt False ap) | _ \<Rightarrow> None)
      else if c = CHR ''p'' then
        (case ap of ULong x # ap \<Rightarrow> map_option (append (printptr x)) (vprintf fmt False ap) | _ \<Rightarrow> None)
      else if c = CHR ''s'' then
        (case ap of UStr s # ap \<Rightarrow> map_option (append (case s of None \<Rightarrow> ''(null)'' | Some t \<Rightarrow> t)) (vprintf fmt False ap) | _ \<Rightarrow> None)
      else if c = CHR ''c'' then
        (case ap of UInt x # ap \<Rightarrow> map_option (Cons (char_of (nat (x mod 256)))) (vprintf fmt False ap) | _ \<Rightarrow> None)
      else if c = CHR ''%'' then map_option (Cons c) (vprintf fmt False ap)
      else map_option (append [CHR ''%'', c]) (vprintf fmt False ap))"

definition printf :: "string \<Rightarrow> uarg list \<Rightarrow> string option" where
  "printf fmt ap = vprintf fmt False ap"

definition fprintf :: "int \<Rightarrow> string \<Rightarrow> uarg list \<Rightarrow> (int \<times> string) option" where
  "fprintf fd fmt ap = map_option (Pair fd) (vprintf fmt False ap)"

section \<open>What the string functions compute\<close>

lemma umemmove_blit: "memmove m dst src n = blit m dst m src (nat n)"
proof (cases "src > dst")
  case True
  then show ?thesis by (simp add: memmove_def move_up_blit)
next
  case False
  then show ?thesis by (simp add: memmove_def move_down_blit)
qed

lemma strcpy_loop_copies:
  assumes "\<forall>i < n. m (t + i) \<noteq> 0" and "m (t + n) = 0" and "t + n < s \<or> s + n < t"
  shows "strcpy_loop m s t = Some (blit m s m t (Suc n))"
  using assms
proof (induction n arbitrary: m s t)
  case 0
  then show ?case by (subst strcpy_loop.simps) (auto simp: blit_def fun_eq_iff)
next
  case (Suc n)
  let ?m = "m(s := m t)"
  have nz: "m t \<noteq> 0" using Suc.prems(1) [rule_format, of 0] by simp
  have "strcpy_loop ?m (Suc s) (Suc t) = Some (blit ?m (Suc s) ?m (Suc t) (Suc n))"
  proof (rule Suc.IH)
    show "\<forall>i < n. ?m (Suc t + i) \<noteq> 0"
      using Suc.prems(1,3) by (auto dest: spec [of _ "Suc _"])
  qed (use Suc.prems(2,3) in auto)
  also have "blit ?m (Suc s) ?m (Suc t) (Suc n) = blit m s m t (Suc (Suc n))"
    using Suc.prems(3) by (auto simp: blit_def fun_eq_iff Suc_diff_Suc not_less_eq_eq dest!: le_antisym)
  finally show ?case using nz by (subst strcpy_loop.simps) (simp only: if_True not_False_eq_True)
qed

lemma strcmp_equal:
  "(\<forall>i < n. m (p + i) \<noteq> 0) \<Longrightarrow> m (p + n) = 0 \<Longrightarrow>
   (\<exists>r. strcmp m p q = Some r \<and> (r = 0 \<longleftrightarrow> (\<forall>i \<le> n. m (p + i) = m (q + i))))"
proof (induction n arbitrary: p q)
  case 0
  then show ?case by (subst strcmp.simps) (simp add: uint_diff_eq_0 [of 0, simplified])
next
  case (Suc n)
  have nz: "m p \<noteq> 0" using Suc.prems(1) [rule_format, of 0] by simp
  show ?case
  proof (cases "m p = m q")
    case True
    have "\<exists>r. strcmp m (Suc p) (Suc q) = Some r \<and> (r = 0 \<longleftrightarrow> (\<forall>i \<le> n. m (Suc p + i) = m (Suc q + i)))"
      using Suc.prems by (intro Suc.IH) (auto dest: spec [of _ "Suc _"])
    moreover have "(\<forall>i \<le> Suc n. m (p + i) = m (q + i)) \<longleftrightarrow> (\<forall>i \<le> n. m (Suc p + i) = m (Suc q + i))"
      using True by (auto simp: less_Suc_eq_le [symmetric] All_less_Suc2)
    ultimately show ?thesis using True nz by (subst strcmp.simps) simp
  next
    case False
    then have "strcmp m p q = Some (uint (m p) - uint (m q))" by (subst strcmp.simps) simp
    moreover have "\<not> (\<forall>i \<le> Suc n. m (p + i) = m (q + i))" using False by (auto intro: exI [of _ 0])
    ultimately show ?thesis using False by (simp only: option.inject uint_diff_eq_0 simp_thms ex_simps)
  qed
qed

text \<open>\<open>gets\<close> reads at most \<open>max - 1\<close> bytes and writes a NUL behind them.\<close>

lemma gets_loop_bound:
  "gets_loop rd n buf i w = (b, j, w') \<Longrightarrow> i \<le> j \<and> j \<le> i + n \<and> (\<forall>k. k < i \<or> j \<le> k \<longrightarrow> b k = buf k)"
proof (induction rd n buf i w rule: gets_loop.induct)
  case (2 rd n buf i w)
  obtain cc c v where rd: "rd w = (cc, c, v)" by (cases "rd w")
  show ?case
  proof (cases "cc < 1 \<or> c = of_char CHR 0x0A \<or> c = of_char CHR 0x0D")
    case True
    then show ?thesis using "2.prems" rd by (auto split: if_splits)
  next
    case False
    then have step: "gets_loop rd n (buf(i := c)) (Suc i) v = (b, j, w')"
      using "2.prems" rd by simp
    with False have "Suc i \<le> j \<and> j \<le> Suc i + n \<and> (\<forall>k. k < Suc i \<or> j \<le> k \<longrightarrow> b k = (buf(i := c)) k)"
      using "2.IH" [OF rd [symmetric] refl _ _ step] by simp
    then show ?thesis by auto
  qed
qed auto

lemma gets_terminated:
  assumes "gets rd buf mx w = (b, w')"
  shows "\<exists>j \<le> nat (mx - 1). b j = 0 \<and> (\<forall>k > nat (mx - 1). b k = buf k)"
proof -
  obtain c j v where g: "gets_loop rd (nat (mx - 1)) buf 0 w = (c, j, v)"
    by (cases "gets_loop rd (nat (mx - 1)) buf 0 w")
  have "b = c(j := 0)" using assms g by (simp add: gets_def)
  with gets_loop_bound [OF g] show ?thesis by (intro exI [of _ j]) auto
qed

section \<open>Printed numbers are read back\<close>

lemma atoi_loop_append:
  "(\<forall>c \<in> set s. (48::nat) \<le> of_char c \<and> of_char c \<le> (57::nat)) \<Longrightarrow> atoi_loop n (s @ t) = atoi_loop (atoi_loop n s) t"
  by (induction s arbitrary: n) auto

lemma digits_value:
  assumes "d < 10"
  shows "(of_char (digits d) :: u32) = 48 + of_nat d" "(48::nat) \<le> of_char (digits d)" "of_char (digits d) \<le> (57::nat)"
proof -
  have "d \<in> {0, 1, 2, 3, 4, 5, 6, 7, 8, 9}" using assms by auto
  then show "(of_char (digits d) :: u32) = 48 + of_nat d" "(48::nat) \<le> of_char (digits d)" "of_char (digits d) \<le> (57::nat)"
    by (auto simp: digits_def)
qed

lemma printint_loop_digits: "c \<in> set (printint_loop 10 x) \<Longrightarrow> (48::nat) \<le> of_char c \<and> of_char c \<le> (57::nat)"
proof (induction "10::nat" x rule: printint_loop.induct)
  case (1 x)
  then show ?case
    by (subst (asm) (2) printint_loop.simps) (auto simp: digits_value split: if_splits)
qed

lemma atoi_printint_loop: "atoi_loop 0 (rev (printint_loop 10 x)) = of_nat x"
proof (induction "10::nat" x rule: printint_loop.induct)
  case (1 x)
  have d: "x mod 10 < 10" by simp
  let ?rest = "if x div 10 = 0 then [] else printint_loop 10 (x div 10)"
  have unroll: "printint_loop 10 x = digits (x mod 10) # ?rest"
    by (subst printint_loop.simps) simp
  have "atoi_loop 0 (rev ?rest) = of_nat (x div 10)"
    using 1 by simp
  then have "atoi_loop 0 (rev (printint_loop 10 x)) = atoi_loop (of_nat (x div 10)) [digits (x mod 10)]"
    unfolding unroll rev.simps by (subst atoi_loop_append) (auto dest: printint_loop_digits split: if_splits)
  also have "\<dots> = of_nat (x div 10) * 10 + of_nat (x mod 10)"
    using digits_value [OF d] by simp
  also have "\<dots> = of_nat (x div 10 * 10 + x mod 10)"
    by (simp only: of_nat_add of_nat_mult of_nat_numeral)
  finally show ?case by simp
qed

text \<open>
  C29: Numbers survive printing and parsing: a non-negative \<open>int\<close>, printed with \<open>%d\<close> by \<open>printf\<close> and followed by any text that does not begin with a
  digit, is what \<open>atoi\<close> reads. The text is printed unchanged when it has no conversion in it.
\<close>

theorem printf_atoi:
  assumes "0 \<le> n" and "n < 2 ^ 31" and "CHR ''%'' \<notin> set rest" and "rest = [] \<or> \<not> (48 \<le> (of_char (hd rest) :: nat) \<and> of_char (hd rest) \<le> (57 :: nat))"
  shows "\<exists>out. printf (''%d'' @ rest) [UInt n] = Some out \<and> atoi out = n \<and> (\<exists>num. out = num @ rest)"
proof -
  have plain: "CHR ''%'' \<notin> set r \<Longrightarrow> vprintf r False [] = Some r" for r
    by (induction r) auto
  let ?num = "rev (printint_loop 10 (nat n))"
  have u: "unat (word_of_int n :: u32) = nat n"
    using assms(1,2) by (simp add: unat_eq_nat_uint uint_word_of_int)
  have "printint n 10 True = ?num"
    using assms(1) u by (simp add: printint_def)
  then have out: "printf (''%d'' @ rest) [UInt n] = Some (?num @ rest)"
    using plain [OF assms(3)] by (simp add: printf_def)
  have "atoi_loop 0 (?num @ rest) = atoi_loop (of_nat (nat n)) rest"
    by (subst atoi_loop_append) (auto dest: printint_loop_digits simp: atoi_printint_loop)
  also have "\<dots> = of_nat (nat n)"
    using assms(4) by (cases rest) auto
  finally have "atoi (?num @ rest) = sint (word_of_int n :: u32)"
    using assms(1) by (simp add: atoi_def)
  also have "\<dots> = n"
    using assms(1,2) by (simp add: sint_sbintrunc' signed_take_bit_int_eq_self)
  finally show ?thesis using out by auto
qed

theorem printf_atoi_witness:
  "\<exists>out. printf ''%d apples'' [UInt 2147483647] = Some out \<and> atoi out = 2147483647"
  using printf_atoi [of 2147483647 "'' apples''"] by auto

text \<open>\<open>%l\<close> takes a \<open>uint64\<close> and passes it to a parameter of type \<open>int\<close>: the upper half of the number is not printed.\<close>

lemma printf_long_truncates: "printf ''%l'' [ULong x] = printf ''%l'' [ULong (x + 2 ^ 32)]"
proof -
  have "(ucast (x + 2 ^ 32) :: u32) = ucast x"
    by transfer (simp add: take_bit_eq_mod mod_mod_cancel)
  then show ?thesis by (simp add: printf_def)
qed

end
