(* ===== verification/Blocks.thy ===== *)
theory Blocks
  imports Transaction
begin

text \<open>
  The block allocator inside a transaction: \<open>balloc\<close> finds the first clear bit of the free map, sets it and clears the
  block; \<open>bfree\<close> clears the bit. Both change blocks only through the log.
\<close>

section \<open>Reading and changing a block in a transaction\<close>

lemma crash_get:
  assumes "cL s n = Some b"
  shows "crash_ok t 0 (cv p dev s) (atom (get_buf b)) (\<lambda>x k. bdata x = cV s n \<and> cv p dev s k) C"
  by (rule crash_atom) (use cv_locked(6) [OF _ assms] in \<open>simp add: get_buf_def kget_run\<close>)

lemma crash_sb: "crash_ok t 0 (cv p dev s) (atom (kget sb)) (\<lambda>x k. x = fst (cF s) \<and> cv p dev s k) C"
  by (rule crash_atom) (auto simp: kget_run fsv_def dest: cvD(13) [symmetric])

lemma crash_fact: "(A \<Longrightarrow> crash_ok t c P f Q C) \<Longrightarrow> crash_ok t c (\<lambda>k. A \<and> P k) f Q C"
  unfolding crash_ok_def by blast

lemma crash_bread:
  assumes "disk_serves p t" and "pinned ls dev {..<logged (cG s)} s" and "unat bn < 2 ^ 31" and "Z (cD s)"
  shows "crash_ok t 1 (cv p dev s) (bread dev bn) (\<lambda>b. cv p dev (c_read (unat bn) b s)) (\<lambda>k. Z (blk (disk k)))"
  by (rule serves_read [where Z = Z, OF assms(1) refl assms(3)]) (use log_atD(6,7,9,10) [OF pinned_log_at [OF assms(2)]] assms(4) in simp_all)

lemma crash_unread:
  assumes "pinned ls dev {..<logged (cG s)} s"
  shows "crash_ok t 0 (cv p dev (c_read n b s)) (atom (brelse b)) (\<lambda>_. cv p dev s) C"
proof -
  note l = log_atD [OF pinned_log_at [OF assms]]
  have "crash_ok t 0 (cv p dev (c_read n b s)) (atom (brelse b)) (\<lambda>_. cv p dev (c_release n (c_read n b s))) C"
    by (rule crash_release) (use l(11) in \<open>simp_all add: c_defs\<close>)
  moreover have "c_release n (c_read n b s) = s" using l(6) by (simp add: c_defs fun_upd_idem)
  ultimately show ?thesis by simp
qed

lemma crash_put:
  assumes p: "pinned ls dev {..<logged (cG s)} s" and m: "may_log (cG s)"
    and f: "\<And>x. bdata x = cV s (unat bn) \<Longrightarrow> map (f (b_data x)) [0..<BSIZE] = d"
    and rest: "crash_ok t c (cv p' dev (tx_put bn d s)) g Q C"
  shows "crash_ok t c (cv p' dev (c_read (unat bn) b s)) (kbind (atom (upd_buf b (\<lambda>x. x\<lparr>b_data := f (b_data x)\<rparr>))) (\<lambda>_.
     kbind (atom (log_write b)) (\<lambda>_. kbind (atom (brelse b)) (\<lambda>_. g)))) Q C"
proof -
  let ?n = "unat bn"
  let ?s = "c_set ?n d (c_read ?n b s)"
  note l = log_atD [OF pinned_log_at [OF p]]
  have R: "cR s ?n = (if logs (cG s) bn then 1 else 0)" using p by (simp add: pinned_def pins_def logs_home)
  have r1: "crash_ok t 0 (cv p' dev (c_read ?n b s)) (atom (upd_buf b (\<lambda>x. x\<lparr>b_data := f (b_data x)\<rparr>))) (\<lambda>_. cv p' dev ?s) C"
    by (rule crash_set_data) (use f in \<open>simp_all add: c_defs\<close>)
  have r2: "crash_ok t 0 (cv p' dev ?s) (atom (log_write b)) (\<lambda>_. cv p' dev (c_log bn ?s)) C"
    by (rule crash_log_write) (use R m in \<open>simp_all add: c_defs\<close>)
  have r3: "crash_ok t 0 (cv p' dev (c_log bn ?s)) (atom (brelse b)) (\<lambda>_. cv p' dev (c_release ?n (c_log bn ?s))) C"
    by (cases "logs (cG s) bn"; rule crash_release) (use R in \<open>simp_all add: c_defs c_log_def c_pin_def\<close>)
  have e: "c_release ?n (c_log bn ?s) = tx_put bn d s"
    using R l(6) by (cases "logs (cG s) bn") (simp_all add: c_defs c_log_def c_pin_def tx_put_def log_add_def fun_upd_idem)
  have "crash_ok t (0 + (0 + (0 + c))) (cv p' dev (c_read ?n b s)) (kbind (atom (upd_buf b (\<lambda>x. x\<lparr>b_data := f (b_data x)\<rparr>))) (\<lambda>_.
     kbind (atom (log_write b)) (\<lambda>_. kbind (atom (brelse b)) (\<lambda>_. g)))) Q C"
    by (rule crash_bind [OF r1], rule crash_bind [OF r2], rule crash_bind [OF r3 [unfolded e]], rule rest)
  then show ?thesis by simp
qed

section \<open>The free map\<close>

definition map_block :: "superblock \<Rightarrow> nat \<Rightarrow> nat" where
  "map_block S n = unat (BBLOCK (of_nat n) S)"

definition in_use :: "superblock \<Rightarrow> (nat \<Rightarrow> u8 list) \<Rightarrow> nat \<Rightarrow> bool" where
  "in_use S V n \<longleftrightarrow> V (map_block S n) ! (n mod BPB div 8) AND map_bit (n mod BPB) \<noteq> 0"

definition set_bit_at :: "nat \<Rightarrow> u8 list \<Rightarrow> u8 list" where
  "set_bit_at i d = d[i div 8 := d ! (i div 8) OR map_bit i]"

definition clear_bit_at :: "nat \<Rightarrow> u8 list \<Rightarrow> u8 list" where
  "clear_bit_at i d = d[i div 8 := d ! (i div 8) AND NOT (map_bit i)]"

text \<open>The blocks after \<open>balloc\<close> has returned \<open>n\<close>.\<close>

definition allocated :: "superblock \<Rightarrow> nat \<Rightarrow> (nat \<Rightarrow> u8 list) \<Rightarrow> nat \<Rightarrow> u8 list" where
  "allocated S n V = (V(map_block S n := set_bit_at (n mod BPB) (V (map_block S n))))(n := zero_block)"

lemma balloc_scan_skip:
  "\<forall>i \<in> set is. of_int (b + int i) < fsz \<and> d (i div 8) AND map_bit i \<noteq> 0 \<Longrightarrow> balloc_scan d b fsz (is @ js) = balloc_scan d b fsz js"
  by (induction "is") auto

lemma balloc_scan_full:
  assumes "\<forall>i < BPB. of_int (b + int i) < fsz \<and> d (i div 8) AND map_bit i \<noteq> 0"
  shows "balloc_scan d b fsz [0..<BPB] = None"
  using balloc_scan_skip [of "[0..<BPB]" b fsz d "[]"] assms by (simp del: upt_rec_numeral)

lemma balloc_scan_first:
  assumes "\<forall>j < i. of_int (b + int j) < fsz \<and> d (j div 8) AND map_bit j \<noteq> 0" and "of_int (b + int i) < fsz" and "d (i div 8) AND map_bit i = 0" and "i < BPB"
  shows "balloc_scan d b fsz [0..<BPB] = Some i"
proof -
  have "[0..<BPB] = [0..<i] @ i # [Suc i..<BPB]" using assms(4) by (metis le0 less_imp_le_nat upt_add_eq_append upt_conv_Cons le_add_diff_inverse)
  then show ?thesis using balloc_scan_skip [of "[0..<i]" b fsz d "i # [Suc i..<BPB]"] assms by (simp del: upt_rec_numeral)
qed

lemma map_upd_nth:
  assumes "bdata x = v" and "i < BSIZE"
  shows "map ((b_data x)(i := g (b_data x i))) [0..<BSIZE] = v[i := g (v ! i)]"
proof (rule nth_equalityI)
  show "length (map ((b_data x)(i := g (b_data x i))) [0..<BSIZE]) = length (v[i := g (v ! i)])" using assms(1) by (auto simp: bdata_def simp del: upt_rec_numeral)
  fix j assume "j < length (map ((b_data x)(i := g (b_data x i))) [0..<BSIZE])"
  then have j: "j < BSIZE" by (simp del: upt_rec_numeral)
  have v: "v ! l = b_data x l" if "l < BSIZE" for l using that assms(1) by (auto simp: bdata_nth)
  have "length v = BSIZE" using assms(1) by (auto simp: bdata_def simp del: upt_rec_numeral)
  then show "map ((b_data x)(i := g (b_data x i))) [0..<BSIZE] ! j = v[i := g (v ! i)] ! j"
    using j v [OF j] v [OF assms(2)] assms(2) by (auto simp: nth_list_update simp del: upt_rec_numeral)
qed

text \<open>The blocks of the free map up to the one for block \<open>n\<close>, and \<open>n\<close> itself, exist and are not those of the log.\<close>

definition map_geom :: "nat \<Rightarrow> superblock \<Rightarrow> nat \<Rightarrow> bool" where
  "map_geom ls S n \<longleftrightarrow> n < unat (sb_size S) \<and> data_block ls (int n) \<and> (\<forall>i \<le> n div BPB. data_block ls (int (unat (sb_bmapstart S) + i)))"

lemma data_block_less: "data_block ls (int m) \<Longrightarrow> m < 2 ^ 31"
  by (simp add: data_block_def)

lemma u32_small: "n < 2 ^ 32 \<Longrightarrow> unat (of_nat n :: u32) = n"
  by (simp add: unat_of_nat take_bit_nat_eq_self)

lemma map_geomD:
  assumes "map_geom ls S n" and "j \<le> n"
  shows "j < 2 ^ 31" and "unat (of_nat j :: u32) = j" and "(of_nat j :: u32) < sb_size S" and "map_block S j = unat (sb_bmapstart S) + j div BPB"
    and "data_block ls (int (map_block S j))"
proof -
  have n: "n < 2 ^ 31" using assms(1) by (simp add: map_geom_def data_block_def)
  then show "j < 2 ^ 31" using assms(2) by simp
  then show u: "unat (of_nat j :: u32) = j" by (intro u32_small) simp
  show "(of_nat j :: u32) < sb_size S" using assms u by (simp add: map_geom_def word_less_nat_alt)
  have d: "j div BPB \<le> n div BPB" using assms(2) by (rule div_le_mono)
  then have b: "data_block ls (int (unat (sb_bmapstart S) + j div BPB))" using assms(1) by (simp only: map_geom_def)
  then have "unat (sb_bmapstart S) + j div BPB < 2 ^ 31" by (rule data_block_less)
  then have "unat (of_nat j div BPB + sb_bmapstart S :: u32) = unat (sb_bmapstart S) + j div BPB"
    using u by (simp add: unat_word_ariths unat_div)
  then show e: "map_block S j = unat (sb_bmapstart S) + j div BPB" by (simp add: map_block_def BBLOCK_def)
  show "data_block ls (int (map_block S j))" unfolding e by (rule b)
qed

lemma map_block_bn: "map_block S n = unat (BBLOCK (of_nat n) S)"
  by (simp add: map_block_def)

lemma in_use_block:
  assumes "map_geom ls S n" and "BPB * i + j \<le> n" and "j < BPB"
  shows "in_use S V (BPB * i + j) \<longleftrightarrow> V (map_block S (BPB * i)) ! (j div 8) AND map_bit j \<noteq> 0"
proof -
  have "map_block S (BPB * i + j) = map_block S (BPB * i)"
    using map_geomD(4) [OF assms(1), of "BPB * i + j"] map_geomD(4) [OF assms(1), of "BPB * i"] assms(2,3) by simp
  then show ?thesis using assms(3) by (simp add: in_use_def)
qed

section \<open>balloc\<close>

definition balloc_body :: "u32 \<Rightarrow> int \<Rightarrow> (world, int + u32) kmon" where
  "balloc_body dev b =
       kbind (atom (kget sb)) (\<lambda>s.
       if (of_int b :: u32) < sb_size s then
         kbind (bread dev (BBLOCK (of_int b) s)) (\<lambda>bp.
         kbind (atom (get_buf bp)) (\<lambda>x.
         case balloc_scan (b_data x) b (sb_size s) [0..<BPB] of
           Some bi \<Rightarrow>
             kbind (atom (upd_buf bp (\<lambda>x. x\<lparr>b_data := (b_data x)(bi div 8 := b_data x (bi div 8) OR map_bit bi)\<rparr>))) (\<lambda>_.
             kbind (atom (log_write bp)) (\<lambda>_.
             kbind (atom (brelse bp)) (\<lambda>_.
             kbind (bzero (sint dev) (b + int bi)) (\<lambda>_.
             kret (Inr (of_int (b + int bi)))))))
         | None \<Rightarrow> kbind (atom (brelse bp)) (\<lambda>_. kret (Inl (b + BPB)))))
       else kpanic ''balloc: out of blocks'')"

lemma balloc_unfold: "balloc dev = kiter INT_ROUNDS (balloc_body dev) 0"
  unfolding balloc_def balloc_body_def ..

definition alloc_state :: "nat \<Rightarrow> cst \<Rightarrow> cst" where
  "alloc_state n s = tx_put (of_nat n) zero_block (tx_put (BBLOCK (of_nat n) (fst (cF s)))
     (set_bit_at (n mod BPB) (cV s (map_block (fst (cF s)) n))) s)"

lemma crash_balloc_full:
  assumes t: "disk_serves p t" and P: "pinned ls dev {..<logged (cG s)} s" and g: "map_geom ls (fst (cF s)) n"
    and u: "\<forall>j < n. in_use (fst (cF s)) (cV s) j" and i: "BPB * Suc i \<le> n" and Z: "Z (cD s)"
  shows "crash_ok t 1 (cv p dev s) (balloc_body dev (int (BPB * i))) (\<lambda>r k. r = Inl (int (BPB * Suc i)) \<and> cv p dev s k) (\<lambda>k. Z (blk (disk k)))"
proof -
  let ?S = "fst (cF s)" and ?b = "int (BPB * i)"
  let ?bn = "BBLOCK (of_nat (BPB * i)) ?S"
  have le: "BPB * i \<le> n" using i by simp
  note m = map_geomD [OF g le]
  have n: "unat ?bn < 2 ^ 31" using data_block_less [OF m(5)] by (simp only: map_block_def)
  have scan: "balloc_scan (b_data x) ?b (sb_size ?S) [0..<BPB] = None" if "bdata x = cV s (unat ?bn)" for x
  proof (rule balloc_scan_full, intro allI impI conjI)
    fix j :: nat assume j: "j < BPB"
    then have l: "BPB * i + j < n" using i by simp
    show "of_int (?b + int j) < sb_size ?S" using map_geomD(3) [OF g less_imp_le [OF l]] by simp
    have "b_data x (j div 8) = cV s (map_block ?S (BPB * i)) ! (j div 8)" using that j bdata_nth [of "j div 8" x] by (simp add: map_block_def)
    then show "b_data x (j div 8) AND map_bit j \<noteq> 0" using u [rule_format, OF l] in_use_block [OF g less_imp_le [OF l] j] by simp
  qed
  have bn: "BBLOCK (of_int ?b) ?S = ?bn" by (simp only: of_int_of_nat_eq)
  have "crash_ok t (0 + (1 + (0 + (0 + 0)))) (cv p dev s) (balloc_body dev ?b) (\<lambda>r k. r = Inl (int (BPB * Suc i)) \<and> cv p dev s k) (\<lambda>k. Z (blk (disk k)))"
    unfolding balloc_body_def
  proof (rule crash_bind [OF crash_sb], rule crash_fact, goal_cases)
    case (1 S)
    then have S: "S = ?S" by simp
    have lt: "(of_int ?b :: u32) < sb_size ?S" using m(3) by (simp only: of_int_of_nat_eq)
    show ?case
      unfolding S if_P [OF lt] bn
    proof (rule crash_bind [OF crash_bread [where Z = Z, OF t P n Z]], rule crash_bind [OF crash_get [where n = "unat ?bn"]], goal_cases)
      case (2 b x)
      show ?case
      proof (rule crash_fact, goal_cases)
        case 1
        then have x: "bdata x = cV s (unat ?bn)" by (simp add: c_defs)
        show ?case unfolding scan [OF x] option.case
          by (intro crash_bind [OF crash_unread [OF P]] crash_ret) simp
      qed
    qed (simp add: c_defs)
  qed
  then show ?thesis by simp
qed

lemma crash_balloc_found:
  assumes t: "disk_serves p t" and O: "tx_open ls dev c s" "c + 2 \<le> MAXOPBLOCKS" and g: "map_geom ls (fst (cF s)) n"
    and u: "\<forall>j < n. in_use (fst (cF s)) (cV s) j" "\<not> in_use (fst (cF s)) (cV s) n" and Z: "Z (cD s)"
  shows "crash_ok t 2 (cv p dev s) (balloc_body dev (int (BPB * (n div BPB)))) (\<lambda>r k. r = Inr (of_nat n) \<and> cv p dev (alloc_state n s) k) (\<lambda>k. Z (blk (disk k)))"
proof -
  let ?S = "fst (cF s)" and ?b = "int (BPB * (n div BPB))" and ?i = "n mod BPB"
  let ?bn = "BBLOCK (of_nat n) ?S"
  let ?d = "set_bit_at ?i (cV s (unat ?bn))"
  let ?s = "tx_put ?bn ?d s"
  have le: "BPB * (n div BPB) \<le> n" and i: "?i < BPB" and n: "BPB * (n div BPB) + ?i = n" by simp_all
  note m = map_geomD [OF g le] and m' = map_geomD [OF g le_refl]
  have eq: "map_block ?S (BPB * (n div BPB)) = map_block ?S n" using m(4) m'(4) by simp
  have bn: "BBLOCK (of_int ?b) ?S = ?bn" using eq unfolding map_block_def of_int_of_nat_eq by (rule unsigned_word_eqI)
  have lt: "unat ?bn < 2 ^ 31" using data_block_less [OF m'(5)] by (simp only: map_block_def)
  have P: "pinned ls dev {..<logged (cG s)} s" using O(1) by (simp add: tx_open_def transaction_def)
  have mb: "(of_int (int (map_block ?S n)) :: u32) = ?bn" by (simp add: map_block_def)
  have O2: "tx_open ls dev (Suc c) ?s" and ml: "may_log (cG s)"
    using tx_open_put(1) [OF O(1) _ m'(5), where d = ?d] tx_open_put(2) [OF O(1) _ m'(5)] O(2) unfolding mb by simp_all
  have bz: "data_block ls (int n)" using g by (simp add: map_geom_def)
  have P2: "pinned ls dev {..<logged (cG ?s)} ?s" using O2 by (simp add: tx_open_def transaction_def)
  have ml2: "may_log (cG ?s)" using tx_open_put(2) [OF O2 _ bz] O(2) by simp
  have scan: "balloc_scan (b_data x) ?b (sb_size ?S) [0..<BPB] = Some ?i" if x: "bdata x = cV s (unat ?bn)" for x
  proof (rule balloc_scan_first, intro allI impI conjI)
    have d: "b_data x (j div 8) = cV s (map_block ?S n) ! (j div 8)" if "j < BPB" for j using x that bdata_nth [of "j div 8" x] by (simp add: map_block_def)
    fix j :: nat assume j: "j < ?i"
    then have jB: "j < BPB" and l: "BPB * (n div BPB) + j < n" using i n by linarith+
    show "of_int (?b + int j) < sb_size ?S" using map_geomD(3) [OF g less_imp_le [OF l]] by simp
    show "b_data x (j div 8) AND map_bit j \<noteq> 0"
      using u(1) [rule_format, OF l] in_use_block [OF g less_imp_le [OF l] jB] d [OF jB] by (simp only: eq) simp
  next
    show "of_int (?b + int ?i) < sb_size ?S" using m'(3) by (simp only: of_int_of_nat_eq n flip: of_nat_add)
    have "b_data x (?i div 8) = cV s (map_block ?S n) ! (?i div 8)" using x i bdata_nth [of "?i div 8" x] by (simp add: map_block_def)
    then show "b_data x (?i div 8) AND map_bit ?i = 0" using u(2) by (simp add: in_use_def)
  qed (rule i)
  have bno: "?b + int ?i = int n" by (simp only: n flip: of_nat_add)
  have "crash_ok t (0 + (1 + (0 + (1 + 0)))) (cv p dev s) (balloc_body dev ?b) (\<lambda>r k. r = Inr (of_nat n) \<and> cv p dev (alloc_state n s) k) (\<lambda>k. Z (blk (disk k)))"
    unfolding balloc_body_def
  proof (rule crash_bind [OF crash_sb], rule crash_fact, goal_cases)
    case (1 S)
    then have S: "S = ?S" by simp
    have lb: "(of_int ?b :: u32) < sb_size ?S" using m(3) by (simp only: of_int_of_nat_eq)
    show ?case
      unfolding S if_P [OF lb] bn
    proof (rule crash_bind [OF crash_bread [where Z = Z, OF t P lt Z]], rule crash_bind [OF crash_get [where n = "unat ?bn"]], goal_cases)
      case (2 b x)
      show ?case
      proof (rule crash_fact, goal_cases)
        case 1
        then have x: "bdata x = cV s (unat ?bn)" by (simp add: c_defs)
        have z: "crash_ok t 1 (cv p dev ?s) (bzero (sint dev) (int n)) (\<lambda>_. cv p dev (alloc_state n s)) (\<lambda>k. Z (blk (disk k)))"
          unfolding alloc_state_def map_block_def
          by (rule crash_bzero [where Z = Z, OF t P2]) (use m'(1,2) ml2 Z in \<open>simp_all add: tx_put_def\<close>)
        show ?case unfolding scan [OF x] option.case bno
          by (rule crash_put [OF P ml, where f = "\<lambda>d. d(?i div 8 := d (?i div 8) OR map_bit ?i)" and d = ?d],
              use map_upd_nth [of _ _ "?i div 8" "\<lambda>v. v OR map_bit ?i"] i in \<open>simp add: set_bit_at_def\<close>)
             (intro crash_bind [OF z] crash_ret, simp)
      qed
    qed (simp add: c_defs)
  qed
  then show ?thesis by (simp add: numeral_2_eq_2)
qed

text \<open>The loop passes the full blocks of the map.\<close>

lemma crash_balloc:
  assumes t: "disk_serves p t" and O: "tx_open ls dev c s" "c + 2 \<le> MAXOPBLOCKS" and g: "map_geom ls (fst (cF s)) n"
    and u: "\<forall>j < n. in_use (fst (cF s)) (cV s) j" "\<not> in_use (fst (cF s)) (cV s) n" and Z: "Z (cD s)"
  shows "crash_ok t (n div BPB + 2) (cv p dev s) (balloc dev) (\<lambda>r k. r = of_nat n \<and> cv p dev (alloc_state n s) k) (\<lambda>k. Z (blk (disk k)))"
proof -
  let ?m = "n div BPB" and ?Q = "\<lambda>r k. r = of_nat n \<and> cv p dev (alloc_state n s) k" and ?C = "\<lambda>k. Z (blk (disk k))"
  have P: "pinned ls dev {..<logged (cG s)} s" using O(1) by (simp add: tx_open_def transaction_def)
  have "crash_ok t (?m - i + 2) (cv p dev s) (kiter f (balloc_body dev) (int (BPB * i))) ?Q ?C" if "i \<le> ?m" "?m - i < f" for i f
    using that
  proof (induction "?m - i" arbitrary: i f)
    case 0
    then obtain f' where f: "f = Suc f'" and i: "i = ?m" by (cases f) auto
    have "crash_ok t (2 + 0) (cv p dev s) (kiter (Suc f') (balloc_body dev) (int (BPB * ?m))) ?Q ?C"
      unfolding kiter.simps
      by (rule crash_bind [OF crash_balloc_found [where Z = Z, OF t O g u Z]], rule crash_fact) (simp, rule crash_ret, simp)
    then show ?case unfolding f i by (simp add: numeral_2_eq_2)
  next
    case (Suc d)
    then obtain f' where f: "f = Suc f'" by (cases f) auto
    have "Suc i \<le> ?m" using Suc.hyps(2) by simp
    then have i: "BPB * Suc i \<le> n" by (metis div_le_mono less_eq_div_iff_mult_less_eq mult.commute zero_less_numeral)
    have "crash_ok t (1 + (?m - Suc i + 2)) (cv p dev s) (kiter (Suc f') (balloc_body dev) (int (BPB * i))) ?Q ?C"
      unfolding kiter.simps
    proof (rule crash_bind [OF crash_balloc_full [where Z = Z, OF t P g u(1) i Z]], rule crash_fact)
      fix r :: "int + u32" assume r: "r = Inl (int (BPB * Suc i))"
      show "crash_ok t (?m - Suc i + 2) (cv p dev s) (case r of Inl j \<Rightarrow> kiter f' (balloc_body dev) j | Inr v \<Rightarrow> kret v) ?Q ?C"
        unfolding r sum.case by (rule Suc.hyps(1)) (use Suc f in simp_all)
    qed
    moreover have "1 + (?m - Suc i + 2) = ?m - i + 2" using Suc.hyps(2) by simp
    ultimately show ?case unfolding f by metis
  qed
  from this [of 0 INT_ROUNDS] show ?thesis unfolding balloc_unfold using map_geomD(1) [OF g le_refl] by simp
qed

text \<open>An allocation as a transaction of its own.\<close>

definition alloc_tx :: "u32 \<Rightarrow> (world, u32) kmon" where
  "alloc_tx dev = kbind begin_op (\<lambda>_. kbind (balloc dev) (\<lambda>b. kbind end_op (\<lambda>_. kret b)))"

lemma crash_alloc_tx:
  assumes t: "disk_serves p t" and s: "idle ls dev s" and g: "map_geom ls (fst (cF s)) n"
    and u: "\<forall>j < n. in_use (fst (cF s)) (cD s) j" "\<not> in_use (fst (cF s)) (cD s) n"
  shows "crash_ok t (n div BPB + 18) (cv p dev s) (alloc_tx dev)
     (\<lambda>r k. r = of_nat n \<and> (\<exists>s'. cv p dev s' k \<and> clean ls dev (allocated (fst (cF s)) n (cD s)) s'))
     (\<lambda>k. safe ls (cD s) (allocated (fst (cF s)) n (cD s)) (blk (disk k)))"
proof -
  let ?S = "fst (cF s)"
  let ?W = "allocated ?S n (cD s)" and ?s = "s\<lparr>cG := op_begun (cG s)\<rparr>"
  let ?Z = "safe ls (cD s) ?W" and ?a = "alloc_state n ?s"
  let ?Q = "\<lambda>r k. r = of_nat n \<and> (\<exists>s'. cv p dev s' k \<and> clean ls dev ?W s')"
  have c: "pinned ls dev {} s" "lh_n (cG s) = 0" "hdr_n (cD s ls) = 0" and o: "log_outstanding (cG s) = 0" "\<not> log_committing (cG s)"
    using s by (simp_all add: idle_def clean_def)
  have V: "cV s = cD s" using c(1) by (simp add: pinned_def fun_eq_iff)
  have O: "tx_open ls dev 0 ?s"
    using s c by (simp add: tx_open_def idle_def transaction_def pinned_def log_geom_def entries_ok_def op_begun_def)
  have Z: "?Z (cD s)" by (rule safe_empty) (simp_all add: c(3) data_eq_def)
  have a: "crash_ok t (n div BPB + 2) (cv p dev ?s) (balloc dev) (\<lambda>r k. r = of_nat n \<and> cv p dev ?a k) (\<lambda>k. ?Z (blk (disk k)))"
    by (rule crash_balloc [where Z = ?Z, OF t O]) (use g u V Z in simp_all)
  let ?bn = "BBLOCK (of_nat n) ?S"
  have b: "data_block ls (int (map_block ?S n))" "data_block ls (int n)" using map_geomD(5) [OF g le_refl] g by (simp_all add: map_geom_def)
  have mb: "(of_int (int (map_block ?S n)) :: u32) = ?bn" by (simp add: map_block_def)
  have A: "tx_open ls dev (Suc (Suc 0)) ?a"
    unfolding alloc_state_def using tx_open_put(1) [OF tx_open_put(1) [OF O _ b(1)] _ b(2)] mb by simp
  have n: "logged (cG ?a) \<le> 2" using A by (simp add: tx_open_def nat_le_iff)
  have e: "transaction ls dev ?a" "log_outstanding (cG ?a) = 1" "\<not> log_committing (cG ?a)" using A by (simp_all add: tx_open_def)
  have D: "cD ?a = cD s" "cV ?a = ?W"
    using map_geomD(2) [OF g le_refl] by (simp_all add: alloc_state_def tx_put_def allocated_def V map_block_def)
  have ends: "crash_ok t 16 (cv p dev ?a) end_op (\<lambda>_. cv p dev (end_op_state ls ?a)) (\<lambda>k. ?Z (blk (disk k)))"
    by (rule crash_conseq [OF crash_end_op(1) [OF t e]]) (use n D in simp_all)
  have clean: "clean ls dev ?W (end_op_state ls ?a)" using crash_end_op(2) [OF t e] D by simp
  have "crash_ok t (0 + (n div BPB + 2 + (16 + 0))) (cv p dev s) (alloc_tx dev) ?Q (\<lambda>k. ?Z (blk (disk k)))"
    unfolding alloc_tx_def
  proof (rule crash_bind [OF crash_begin_op crash_bind [OF a]])
    show "crash_ok t (16 + 0) (\<lambda>k. r = of_nat n \<and> cv p dev ?a k) (kbind end_op (\<lambda>_. kret r)) ?Q (\<lambda>k. ?Z (blk (disk k)))" for r
      by (rule crash_fact, rule crash_bind [OF ends crash_ret]) (use clean in blast)
  qed (use o c(2) in simp_all)
  then show ?thesis by (simp add: add.commute)
qed

section \<open>Property\<close>

text \<open>
  C2: Allocation of a block is right and atomic. From an idle log, the transaction \<open>begin_op\<close>; \<open>balloc\<close>; \<open>end_op\<close> returns the
  first block whose bit in the free map is clear; on the medium its bit is then set, the block is cleared, and no other
  block has changed. When it is cut short, recovery yields the medium before it or after it: never a block that is marked and
  still holds old data, nor one that is cleared and not marked. It never panics, and it returns whenever the disk takes
  18 turns and one more for every full block of the map before it.
\<close>

theorem balloc_atomic:
  assumes "disk_serves p t" and "cv p dev s k" and "idle ls dev s" and "map_geom ls (sb k) n"
    and "\<forall>j < n. in_use (sb k) (blk (disk k)) j" and "\<not> in_use (sb k) (blk (disk k)) n"
  shows "case alloc_tx dev (k, replicate m t) of
      Ret b w \<Rightarrow> b = of_nat n \<and> hdr_n (blk (disk (fst w)) ls) = 0 \<and> data_eq ls (blk (disk (fst w))) (allocated (sb k) n (blk (disk k)))
    | Switch w \<Rightarrow> m < n div BPB + 18 \<and>
        recovers_to dev ls (disk (fst w)) (\<lambda>E. data_eq ls E (blk (disk k)) \<or> data_eq ls E (allocated (sb k) n (blk (disk k))))
    | _ \<Rightarrow> False"
proof -
  have D: "cD s = blk (disk k)" and S: "fst (cF s) = sb k" using cvD(5) [OF assms(2)] arg_cong [OF cvD(13) [OF assms(2)], of fst] by (simp_all add: fsv_def)
  have "crash_ok t (n div BPB + 18) (cv p dev s) (alloc_tx dev)
     (\<lambda>r k'. r = of_nat n \<and> (\<exists>s'. cv p dev s' k' \<and> clean ls dev (allocated (sb k) n (blk (disk k))) s'))
     (\<lambda>k'. safe ls (blk (disk k)) (allocated (sb k) n (blk (disk k))) (blk (disk k')))"
    using crash_alloc_tx [OF assms(1,3)] assms(4-6) unfolding D S by blast
  from crash_cases [OF this assms(2), of m] show ?thesis
    by (auto simp: clean_def split: outcome.splits intro: safe_recovers_to dest!: cvD(5))
qed

text \<open>A file system of 1000 blocks whose first 47 blocks are in use, with old data in block 47.\<close>

definition demo_fs :: superblock where
  "demo_fs = \<lparr>sb_magic = FSMAGIC, sb_size = 1000, sb_nblocks = 954, sb_ninodes = 200, sb_nlog = 30, sb_logstart = 2, sb_inodestart = 32, sb_bmapstart = 45\<rparr>"

definition demo_medium :: bytes where
  "demo_medium j = (if 46080 \<le> j \<and> j < 46085 then 255 else if j = 46085 then 127 else if 48128 \<le> j \<and> j < 49152 then 9 else 0)"

lemma demo_in_use:
  assumes "j \<le> 47"
  shows "in_use demo_fs (blk demo_medium) j \<longleftrightarrow> demo_medium (46080 + j div 8) AND map_bit j \<noteq> 0"
proof -
  have u: "unat (of_nat j :: u32) = j" using assms by (intro u32_small) simp
  have "map_block demo_fs j = 45" using assms u
    by (simp add: map_block_def BBLOCK_def demo_fs_def unat_word_ariths unat_div)
  moreover have "j mod BPB = j" "j div 8 < BSIZE" using assms by simp_all
  ultimately show ?thesis by (simp add: in_use_def blk_nth)
qed

lemma demo_bits:
  "i < 8 \<Longrightarrow> (255 :: u8) AND push_bit i 1 \<noteq> 0" "i < 7 \<Longrightarrow> (127 :: u8) AND push_bit i 1 \<noteq> 0"
proof -
  assume "i < 8"
  then have "i = 0 \<or> i = 1 \<or> i = 2 \<or> i = 3 \<or> i = 4 \<or> i = 5 \<or> i = 6 \<or> i = 7" by linarith
  then show "(255 :: u8) AND push_bit i 1 \<noteq> 0" by auto
next
  assume "i < 7"
  then have "i = 0 \<or> i = 1 \<or> i = 2 \<or> i = 3 \<or> i = 4 \<or> i = 5 \<or> i = 6" by linarith
  then show "(127 :: u8) AND push_bit i 1 \<noteq> 0" by auto
qed

theorem balloc_atomic_witness:
  "\<exists>k. sb k = demo_fs \<and> disk k = demo_medium \<and> (case alloc_tx 1 (k, replicate 7 demo_turn) of
      Ret b w \<Rightarrow> b = 47 \<and> hdr_n (blk (disk (fst w)) 2) = 0 \<and> data_eq 2 (blk (disk (fst w))) (allocated demo_fs 47 (blk demo_medium))
    | Switch w \<Rightarrow> recovers_to 1 2 (disk (fst w)) (\<lambda>E. data_eq 2 E (blk demo_medium) \<or> data_eq 2 E (allocated demo_fs 47 (blk demo_medium)))
    | _ \<Rightarrow> False)"
proof -
  have "ld32 (nth (blk demo_medium 2)) 0 = ld32 (\<lambda>_. 0) 0" by (rule ld32_cong) (simp add: blk_nth demo_medium_def)
  then have "hdr_n (blk demo_medium 2) = 0" by (simp add: hdr_n_def lh_get_n_def ld32_def le_nat_zero)
  then obtain k s where k: "cv 3 1 s k" "idle 2 1 s" "disk k = demo_medium" "sb k = demo_fs" using idle_kernel [where S = demo_fs] by metis
  have g: "map_geom 2 (sb k) 47" by (simp add: k(4) map_geom_def data_block_def demo_fs_def)
  have "demo_medium (46080 + j div 8) AND map_bit j \<noteq> 0" if "j < 47" for j
  proof (cases "j < 40")
    case True
    then show ?thesis using demo_bits(1) [of "j mod 8"] by (simp add: demo_medium_def map_bit_def)
  next
    case False
    then have "j div 8 = 5" "j mod 8 < 7" using that by presburger+
    then show ?thesis using demo_bits(2) [of "j mod 8"] by (simp add: demo_medium_def map_bit_def)
  qed
  then have u: "\<forall>j < 47. in_use (sb k) (blk (disk k)) j" by (simp add: k(3,4) demo_in_use)
  have "demo_medium (46080 + 47 div 8) AND map_bit 47 = 0" by (simp add: demo_medium_def map_bit_def)
  then have f: "\<not> in_use (sb k) (blk (disk k)) 47" by (simp add: k(3,4) demo_in_use)
  from balloc_atomic [OF demo_serves k(1,2) g u f, of 7] show ?thesis
    by (intro exI [of _ k]) (auto simp: k(3,4) split: outcome.splits)
qed

end
