(* ===== verification/Path.thy ===== *)
theory Path
  imports Dir
begin

text \<open>
  Path resolution. The loop of \<open>namex\<close> over the bytes of a path (theory Dir) is a walk along the list of the names
  between the slashes, each cut to \<open>DIRSIZ\<close> bytes.
\<close>

section \<open>The names of a path\<close>

primrec split_path :: "u8 list \<Rightarrow> u8 list list" where
  "split_path [] = [[]]"
| "split_path (c # cs) = (if c = SLASH then [] # split_path cs else (c # hd (split_path cs)) # tl (split_path cs))"

definition path_elems :: "u8 list \<Rightarrow> u8 list list" where
  "path_elems path = filter (\<lambda>e. e \<noteq> []) (split_path path)"

definition elem_name :: "u8 list \<Rightarrow> bytes" where
  "elem_name e = array_of (take DIRSIZ e)"

text \<open>What a comparison of names can see of a buffer.\<close>

definition cname :: "bytes \<Rightarrow> bytes" where
  "cname nm = (\<lambda>i. if i < DIRSIZ \<and> (\<forall>j \<le> i. nm j \<noteq> 0) then nm i else 0)"

lemma split_path_ne: "split_path p \<noteq> []"
  by (cases p) auto

lemma path_elems_slash: "path_elems (SLASH # p) = path_elems p"
  by (simp add: path_elems_def)

lemma path_elems_drop: "path_elems (dropWhile (\<lambda>c. c = SLASH) p) = path_elems p"
  by (induction p) (auto simp: path_elems_slash)

lemma split_path_take: "split_path p = takeWhile (\<lambda>c. c \<noteq> SLASH) p # tl (split_path p)"
proof (induction p)
  case (Cons c p)
  then show ?case by (simp, metis list.sel(1))
qed simp

lemma path_elems_first:
  assumes "p \<noteq> []" and "hd p \<noteq> SLASH"
  shows "path_elems p = takeWhile (\<lambda>c. c \<noteq> SLASH) p # path_elems (dropWhile (\<lambda>c. c \<noteq> SLASH) p)"
proof -
  have "filter (\<lambda>e. e \<noteq> []) (tl (split_path p)) = path_elems (dropWhile (\<lambda>c. c \<noteq> SLASH) p)" for p
    by (induction p) (auto simp: path_elems_def)
  moreover have "takeWhile (\<lambda>c. c \<noteq> SLASH) p \<noteq> []" using assms by (cases p) auto
  ultimately show ?thesis unfolding path_elems_def by (subst split_path_take) simp
qed

lemma path_elems_Nil: "path_elems p = [] \<longleftrightarrow> dropWhile (\<lambda>c. c = SLASH) p = []"
proof
  assume "path_elems p = []"
  then have e: "path_elems (dropWhile (\<lambda>c. c = SLASH) p) = []" by (simp add: path_elems_drop)
  show "dropWhile (\<lambda>c. c = SLASH) p = []"
  proof (rule ccontr)
    assume n: "dropWhile (\<lambda>c. c = SLASH) p \<noteq> []"
    then have "hd (dropWhile (\<lambda>c. c = SLASH) p) \<noteq> SLASH" by (rule hd_dropWhile)
    from path_elems_first [OF n this] e show False by simp
  qed
next
  assume "dropWhile (\<lambda>c. c = SLASH) p = []"
  then have "path_elems (dropWhile (\<lambda>c. c = SLASH) p) = []" by (simp only: path_elems_def) simp
  then show "path_elems p = []" by (simp add: path_elems_drop)
qed

section \<open>One element\<close>

lemma cname_cong:
  assumes "\<And>i. i < DIRSIZ \<Longrightarrow> \<forall>j < i. nm j \<noteq> 0 \<Longrightarrow> nm i = nm' i"
  shows "cname nm = cname nm'"
proof -
  have a: "nm j = nm' j" if "j < DIRSIZ" "\<forall>l < j. nm l \<noteq> 0 \<or> nm' l \<noteq> 0" for j
    using that
  proof (induction j rule: less_induct)
    case (less j)
    have "nm l = nm' l" if "l < j" for l using less that by auto
    then show ?case using assms [of j] less.prems by auto
  qed
  have b: "(\<forall>j \<le> i. nm j \<noteq> 0) \<longleftrightarrow> (\<forall>j \<le> i. nm' j \<noteq> 0)" if "i < DIRSIZ" for i
  proof
    assume l: "\<forall>j \<le> i. nm j \<noteq> 0"
    then have "nm j = nm' j" if "j \<le> i" for j using a [of j] that \<open>i < DIRSIZ\<close> by simp
    then show "\<forall>j \<le> i. nm' j \<noteq> 0" using l by simp
  next
    assume l: "\<forall>j \<le> i. nm' j \<noteq> 0"
    then have "nm j = nm' j" if "j \<le> i" for j using a [of j] that \<open>i < DIRSIZ\<close> by simp
    then show "\<forall>j \<le> i. nm j \<noteq> 0" using l by simp
  qed
  have "nm i = nm' i" if "i < DIRSIZ" "\<forall>j \<le> i. nm j \<noteq> 0" for i using a [of i] that by simp
  then show ?thesis unfolding cname_def using b by (intro ext if_cong conj_cong refl) blast+
qed

lemma cname_buffer:
  assumes "take len s = e" and "len \<le> length s"
  shows "cname (if len \<ge> DIRSIZ then memmove_from name 0 (array_of s) 0 (of_nat DIRSIZ)
     else (memmove_from name 0 (array_of s) 0 (of_nat len))(len := 0)) = cname (elem_name e)"
proof (cases "len \<ge> DIRSIZ")
  case True
  then show ?thesis using assms
    by (simp del: One_nat_def, intro cname_cong) (auto simp: memmove_from_blit blit_def elem_name_def array_of_def)
next
  case False
  then have "unat (of_nat len :: u32) = len" by (simp add: unat_of_nat take_bit_nat_eq_self)
  then have b: "((memmove_from name 0 (array_of s) 0 (of_nat len))(len := 0)) i = elem_name e i" if "i \<le> len" for i
    using that assms False by (auto simp: memmove_from_blit blit_def elem_name_def array_of_def)
  have "cname ((memmove_from name 0 (array_of s) 0 (of_nat len))(len := 0)) = cname (elem_name e)"
  proof (rule cname_cong)
    fix i assume "\<forall>j < i. ((memmove_from name 0 (array_of s) 0 (of_nat len))(len := 0)) j \<noteq> 0"
    then have "i \<le> len" by (metis fun_upd_same not_le)
    then show "((memmove_from name 0 (array_of s) 0 (of_nat len))(len := 0)) i = elem_name e i" by (rule b)
  qed
  then show ?thesis using False by simp
qed

text \<open>One call removes the first name, and what is left has no leading slash.\<close>

lemma skipelem_elems:
  "case path_elems path of
     [] \<Rightarrow> skipelem path name = None
   | e # es \<Rightarrow> \<exists>rest nm. skipelem path name = Some (rest, nm) \<and> path_elems rest = es \<and> (rest = [] \<longleftrightarrow> es = []) \<and> cname nm = cname (elem_name e) \<and>
       length rest < length path"
proof -
  define p where "p = dropWhile (\<lambda>c. c = SLASH) path"
  define e where "e = takeWhile (\<lambda>c. c \<noteq> SLASH) p"
  define q where "q = dropWhile (\<lambda>c. c \<noteq> SLASH) p"
  define r where "r = dropWhile (\<lambda>c. c = SLASH) q"
  have P: "path_elems path = path_elems p" and R: "path_elems q = path_elems r" by (simp_all add: p_def r_def path_elems_drop)
  have s: "skipelem path name = (if p = [] then None else Some (r, if length p - length q \<ge> DIRSIZ then memmove_from name 0 (array_of p) 0 (of_nat DIRSIZ)
      else (memmove_from name 0 (array_of p) 0 (of_nat (length p - length q)))(length p - length q := 0)))"
    by (simp only: skipelem_def Let_def p_def q_def r_def)
  show ?thesis
  proof (cases "p = []")
    case True
    then have "path_elems path = []" unfolding p_def by (simp only: path_elems_Nil)
    then show ?thesis using True s by simp
  next
    case False
    have "hd p \<noteq> SLASH" using False unfolding p_def by (rule hd_dropWhile)
    then have E: "path_elems path = e # path_elems r" "e \<noteq> []"
    proof -
      show "path_elems path = e # path_elems r" using path_elems_first [OF False \<open>hd p \<noteq> SLASH\<close>] unfolding P R [symmetric] e_def q_def .
      show "e \<noteq> []" using False \<open>hd p \<noteq> SLASH\<close> unfolding e_def by (cases p) simp_all
    qed
    have pq: "p = e @ q" unfolding e_def q_def by (rule takeWhile_dropWhile_id [symmetric])
    then have l: "length p = length e + length q" and t: "take (length p - length q) p = e" by simp_all
    have "length p \<le> length path" "length r \<le> length q" unfolding p_def r_def by (simp_all add: length_dropWhile_le)
    then have n: "length r < length path" using l E(2) by (cases e) auto
    have "dropWhile (\<lambda>c. c = SLASH) r = r" unfolding r_def by (simp add: dropWhile_idem)
    then have "r = [] \<longleftrightarrow> path_elems r = []" using path_elems_Nil [of r] by simp
    then show ?thesis using cname_buffer [OF t diff_le_self, of name] n s unfolding E(1) list.case if_not_P [OF False] by blast
  qed
qed

section \<open>The walk\<close>

text \<open>\<open>namecmp\<close> compares what can be seen of the names.\<close>

lemma cname_prefix:
  assumes "i < DIRSIZ"
  shows "(\<forall>j < i. cname a j \<noteq> 0) \<longleftrightarrow> (\<forall>j < i. a j \<noteq> 0)" and "\<forall>j < i. a j \<noteq> 0 \<Longrightarrow> cname a i = a i"
proof
  assume l: "\<forall>j < i. cname a j \<noteq> 0"
  have "a j \<noteq> 0" if "j < i" for j using l [rule_format, OF that] by (auto simp: cname_def split: if_splits)
  then show "\<forall>j < i. a j \<noteq> 0" by blast
next
  assume l: "\<forall>j < i. a j \<noteq> 0"
  then have "cname a j = a j" if "j < i" for j using that assms by (simp add: cname_def)
  then show "\<forall>j < i. cname a j \<noteq> 0" using l by simp
next
  assume "\<forall>j < i. a j \<noteq> 0"
  then show "cname a i = a i" using assms unfolding cname_def by (auto simp: le_less)
qed

lemma namecmp_eq: "namecmp a b = 0 \<longleftrightarrow> cname a = cname b"
proof
  have d: "unat (of_nat DIRSIZ :: u32) = DIRSIZ" by simp
  assume "namecmp a b = 0"
  then show "cname a = cname b" unfolding namecmp_def strncmp_eq_0 d by (intro cname_cong) blast
next
  have d: "unat (of_nat DIRSIZ :: u32) = DIRSIZ" by simp
  assume e: "cname a = cname b"
  have "a i = b i" if "i < DIRSIZ" "\<forall>j < i. a j \<noteq> 0" for i
    using cname_prefix [OF that(1), of a] cname_prefix [OF that(1), of b] that(2) unfolding e by simp
  then show "namecmp a b = 0" unfolding namecmp_def strncmp_eq_0 d by blast
qed

lemma dirlookup_cname:
  assumes "cname a = cname b"
  shows "dirlookup dp a = dirlookup dp b"
  unfolding dirlookup_def namecmp_eq assms ..

primrec walk_path :: "nat \<Rightarrow> u8 list list \<Rightarrow> (world, nat option) kmon" where
  "walk_path ip [] = kret (Some ip)"
| "walk_path ip (e # es) =
     kbind (ilock (Some ip)) (\<lambda>_.
     kbind (atom (get_inode ip)) (\<lambda>i.
     if i_type i \<noteq> T_DIR then kbind (iunlockput ip) (\<lambda>_. kret None)
     else
     kbind (dirlookup ip (elem_name e)) (\<lambda>r.
     kbind (iunlockput ip) (\<lambda>_.
     case r of None \<Rightarrow> kret None | Some (nxt, _) \<Rightarrow> walk_path nxt es))))"

definition walk_parent :: "nat \<Rightarrow> u8 list list \<Rightarrow> (world, (nat \<times> bytes) option) kmon" where
  "walk_parent ip es =
     (if es = [] then kbind (iput ip) (\<lambda>_. kret None)
      else
      kbind (walk_path ip (butlast es)) (\<lambda>r.
      case r of
        None \<Rightarrow> kret None
      | Some d \<Rightarrow>
          kbind (ilock (Some d)) (\<lambda>_.
          kbind (atom (get_inode d)) (\<lambda>i.
          if i_type i \<noteq> T_DIR then kbind (iunlockput d) (\<lambda>_. kret None)
          else kbind (atom (iunlock (Some d))) (\<lambda>_. kret (Some (d, cname (elem_name (last es)))))))))"

definition path_start :: "u8 list \<Rightarrow> (world, nat) kmon" where
  "path_start path =
     (if path \<noteq> [] \<and> hd path = SLASH then atom (iget ROOTDEV ROOTINO)
      else
      kbind (atom cur_proc) (\<lambda>p.
      kbind (atom (get_proc p)) (\<lambda>pr.
      case p_cwd pr of
        None \<Rightarrow> kpanic ''kerneltrap''
      | Some d \<Rightarrow> atom (idup d))))"

definition namex_body :: "bool \<Rightarrow> u8 list \<times> bytes \<times> nat \<Rightarrow> (world, (u8 list \<times> bytes \<times> nat) + nat option \<times> bytes) kmon" where
  "namex_body np = (\<lambda>(path, name, ip).
       case skipelem path name of
         None \<Rightarrow>
           if np then kbind (iput ip) (\<lambda>_. kret (Inr (None, name)))
           else kret (Inr (Some ip, name))
       | Some (path, name) \<Rightarrow>
           kbind (ilock (Some ip)) (\<lambda>_.
           kbind (atom (get_inode ip)) (\<lambda>i.
           if i_type i \<noteq> T_DIR then kbind (iunlockput ip) (\<lambda>_. kret (Inr (None, name)))
           else if np \<and> path = [] then
             kbind (atom (iunlock (Some ip))) (\<lambda>_. kret (Inr (Some ip, name)))
           else
           kbind (dirlookup ip name) (\<lambda>r.
           case r of
             None \<Rightarrow> kbind (iunlockput ip) (\<lambda>_. kret (Inr (None, name)))
           | Some (nxt, _) \<Rightarrow>
               kbind (iunlockput ip) (\<lambda>_.
               kret (Inl (path, name, nxt)))))))"

lemmas namex_body_run = fun_cong [OF namex_body_def, of _ "(path, name, ip)" for path name ip, unfolded prod.case]

lemma namex_unfold: "namex path np name = kbind (path_start path) (\<lambda>ip. kiter (length path + 1) (namex_body np) (path, name, ip))"
  unfolding namex_def path_start_def namex_body_def ..

lemma namex_walk:
  "length path < f \<Longrightarrow> kbind (kiter f (namex_body False) (path, name, ip)) (\<lambda>(r, _). kret r) = walk_path ip (path_elems path)"
proof (induction f arbitrary: path name ip)
  case (Suc f)
  show ?case
  proof (cases "path_elems path")
    case Nil
    then have "skipelem path name = None" using skipelem_elems [of path name] by simp
    then show ?thesis by (simp add: Nil namex_body_run kbind_kret)
  next
    case (Cons e es)
    then obtain rest nm where s: "skipelem path name = Some (rest, nm)" "path_elems rest = es" "cname nm = cname (elem_name e)" "length rest < length path"
      using skipelem_elems [of path name] by auto
    have ih: "kbind (kiter f (namex_body False) (rest, nm, nxt)) (\<lambda>(r, _). kret r) = walk_path nxt es" for nxt
      using Suc s(2,4) by simp
    show ?thesis
      unfolding Cons walk_path.simps dirlookup_cname [OF s(3), symmetric]
      by (auto simp: namex_body_run s(1) kbind_assoc kbind_kret ih split: option.split intro!: kbind_eqI)
  qed
qed simp

lemma namex_walk_parent:
  "length path < f \<Longrightarrow> kbind (kiter f (namex_body True) (path, name, ip)) (\<lambda>(r, nm). kret (map_option (\<lambda>d. (d, cname nm)) r)) = walk_parent ip (path_elems path)"
proof (induction f arbitrary: path name ip)
  case (Suc f)
  show ?case
  proof (cases "path_elems path")
    case Nil
    then have "skipelem path name = None" using skipelem_elems [of path name] by simp
    then show ?thesis by (simp add: Nil namex_body_run walk_parent_def kbind_assoc kbind_kret)
  next
    case (Cons e es)
    then obtain rest nm where s: "skipelem path name = Some (rest, nm)" "path_elems rest = es" "rest = [] \<longleftrightarrow> es = []" "cname nm = cname (elem_name e)" "length rest < length path"
      using skipelem_elems [of path name] by auto
    have ih: "kbind (kiter f (namex_body True) (rest, nm, nxt)) (\<lambda>(r, nm). kret (map_option (\<lambda>d. (d, cname nm)) r)) = walk_parent nxt es" for nxt
      using Suc s(2,5) by simp
    show ?thesis
    proof (cases "es = []")
      case True
      then show ?thesis using s(3) unfolding Cons
        by (auto simp: namex_body_run walk_parent_def s(1,4) kbind_assoc kbind_kret split: option.split intro!: kbind_eqI)
    next
      case False
      then have l: "last (e # es) = last es" by simp
      show ?thesis using s(3) False unfolding Cons dirlookup_cname [OF s(4), symmetric]
        by (auto simp: namex_body_run walk_parent_def [of _ "e # es", unfolded l] s(1) kbind_assoc kbind_kret ih dirlookup_cname [OF s(4), symmetric]
            split: option.split intro!: kbind_eqI) (simp_all add: walk_parent_def)
    qed
  qed
qed simp

section \<open>Property\<close>

text \<open>
  C12: \<open>namei\<close> and \<open>nameiparent\<close> resolve a path name by name. The names are the non-empty pieces between slashes, so that
  repeated, leading and trailing slashes do not matter, each cut to \<open>DIRSIZ\<close> bytes. From the root or the current
  directory, each name is looked up in the directory found so far, which is locked meanwhile and then given up, and the walk
  fails where there is no directory or no entry. \<open>nameiparent\<close> walks along all names but the last, requires a directory there,
  and returns it with the last name; for a path without names it fails. The number of rounds allowed to the loop is always enough.
\<close>

theorem namei_walks:
  "namei path = kbind (path_start path) (\<lambda>ip. walk_path ip (path_elems path)) \<and>
   kbind (nameiparent path name) (\<lambda>(r, nm). kret (map_option (\<lambda>d. (d, cname nm)) r)) = kbind (path_start path) (\<lambda>ip. walk_parent ip (path_elems path))"
  by (simp add: namei_def nameiparent_def namex_unfold kbind_assoc kbind_kret namex_walk namex_walk_parent del: kiter.simps)

end
