(* ===== verification/FileRead.thy ===== *)
theory FileRead
  imports Blocks Path
begin

text \<open>
  Reading files: \<open>bmap\<close> on allocated blocks, \<open>readi\<close> into a kernel buffer, and \<open>dirlookup\<close>. The contents of a file are
  the bytes of the blocks its inode names, directly or through the indirect block, as they are seen through the buffer cache.
\<close>

section \<open>Contents of a file\<close>

definition faddr :: "(nat \<Rightarrow> u8 list) \<Rightarrow> inode \<Rightarrow> nat \<Rightarrow> u32" where
  "faddr V i q = (if q < NDIRECT then i_addrs i q else ld32 (nth (V (unat (i_addrs i NDIRECT)))) (4 * (q - NDIRECT)))"

definition fbyte :: "(nat \<Rightarrow> u8 list) \<Rightarrow> inode \<Rightarrow> nat \<Rightarrow> u8" where
  "fbyte V i off = V (unat (faddr V i (off div BSIZE))) ! (off mod BSIZE)"

definition usable :: "u32 \<Rightarrow> bool" where
  "usable a \<longleftrightarrow> a \<noteq> 0 \<and> unat a < 2 ^ 31"

text \<open>Every block up to the size of the file is there.\<close>

definition file_ok :: "(nat \<Rightarrow> u8 list) \<Rightarrow> inode \<Rightarrow> bool" where
  "file_ok V i \<longleftrightarrow> (\<forall>q. BSIZE * q < unat (i_size i) \<longrightarrow> q < MAXFILE \<and> usable (faddr V i q) \<and> (NDIRECT \<le> q \<longrightarrow> usable (i_addrs i NDIRECT)))"

lemma file_ok_size:
  assumes "file_ok V i"
  shows "unat (i_size i) \<le> BSIZE * MAXFILE"
proof (rule ccontr)
  assume "\<not> ?thesis"
  then have "BSIZE * MAXFILE < unat (i_size i)" by simp
  then have "(MAXFILE :: nat) < MAXFILE" using assms unfolding file_ok_def by blast
  then show False by simp
qed

lemma crash_inode: "crash_ok t 0 (cv p dev s) (atom (get_inode ip)) (\<lambda>x k. x = snd (cF s) ip \<and> cv p dev s k) C"
proof (rule crash_atom)
  fix k assume k: "cv p dev s k"
  have "snd (fsv k) = snd (cF s)" using cvD(13) [OF k] by simp
  then show "\<exists>x k'. get_inode ip k = Ret x k' \<and> x = snd (cF s) ip \<and> cv p dev s k'" using k by (simp add: get_inode_def kget_run fsv_def)
qed

section \<open>bmap\<close>

lemma ld32_bdata:
  assumes "bdata x = v" and "j + 4 \<le> BSIZE"
  shows "ld32 (b_data x) j = ld32 (nth v) j"
  by (rule ld32_cong) (use assms bdata_nth in auto)

lemma crash_more: "crash_ok t c P f Q C \<Longrightarrow> c \<le> c' \<Longrightarrow> crash_ok t c' P f Q C"
  by (rule crash_conseq)

lemma crash_bmap:
  assumes t: "disk_serves p t" and P: "pinned ls dev {..<logged (cG s)} s" and Z: "Z (cD s)"
    and i: "snd (cF s) ip = i" "i_dev i = dev" "file_ok (cV s) i" and q: "BSIZE * q < unat (i_size i)" "unat bn = q"
  shows "crash_ok t 1 (cv p dev s) (bmap ip bn) (\<lambda>a k. a = faddr (cV s) i q \<and> cv p dev s k) (\<lambda>k. Z (blk (disk k)))"
proof -
  let ?a = "faddr (cV s) i q" and ?C = "\<lambda>k. Z (blk (disk k))"
  let ?Q = "\<lambda>a k. a = ?a \<and> cv p dev s k"
  have f: "q < MAXFILE" "usable ?a" "NDIRECT \<le> q \<Longrightarrow> usable (i_addrs i NDIRECT)" using i(3) q(1) by (auto simp: file_ok_def)
  have a0: "?a \<noteq> 0" using f(2) by (simp add: usable_def)
  have less: "bn < NDIRECT \<longleftrightarrow> q < NDIRECT" using q(2) by (simp add: word_less_nat_alt)
  have ret: "crash_ok t 1 (cv p dev s) (kret ?a) ?Q ?C" by (rule crash_more [OF crash_ret]) simp_all
  have "crash_ok t (0 + 1) (cv p dev s) (bmap ip bn) ?Q ?C"
    unfolding bmap_def
  proof (rule crash_bind [OF crash_inode], rule crash_fact, goal_cases)
    case (1 x)
    then have x: "x = i" using i(1) by simp
    show ?case
    proof (cases "q < NDIRECT")
      case True
      then have "?a = i_addrs i (unat bn)" by (simp add: faddr_def q(2))
      then show ?thesis unfolding x using True less a0 ret by (simp add: Let_def)
    next
      case False
      let ?n = "i_addrs i NDIRECT"
      have n: "?n \<noteq> 0" "unat ?n < 2 ^ 31" using f(3) False by (simp_all add: usable_def)
      have "NDIRECT \<le> bn" using False less by simp
      then have u: "unat (bn - NDIRECT) = q - NDIRECT" using q(2) by (simp add: unat_sub)
      then have lt: "bn - NDIRECT < NINDIRECT" using f(1) False by (simp add: word_less_nat_alt)
      have a: "ld32 (b_data y) (4 * unat (bn - NDIRECT)) = ?a" if "bdata y = cV s (unat ?n)" for y
        using ld32_bdata [OF that, of "4 * (q - NDIRECT)"] f(1) False unfolding u by (simp add: faddr_def)
      have "crash_ok t (1 + (0 + (0 + 0))) (cv p dev s) (kbind (bread dev ?n) (\<lambda>bp. kbind (atom (get_buf bp)) (\<lambda>y.
         let addr = ld32 (b_data y) (4 * unat (bn - NDIRECT)) in
         kbind (if addr = 0 then
             kbind (balloc dev) (\<lambda>addr.
             kbind (atom (upd_buf bp (\<lambda>x. x\<lparr>b_data := st32 (b_data x) (4 * unat (bn - NDIRECT)) addr\<rparr>))) (\<lambda>_.
             kbind (atom (log_write bp)) (\<lambda>_. kret addr)))
           else kret addr) (\<lambda>addr. kbind (atom (brelse bp)) (\<lambda>_. kret addr))))) ?Q ?C"
      proof (rule crash_bind [OF crash_bread [where Z = Z, OF t P n(2) Z]], rule crash_bind [OF crash_get [where n = "unat ?n"]], goal_cases)
        case (2 b y)
        show ?case
        proof (rule crash_fact, goal_cases)
          case 1
          then have "bdata y = cV s (unat ?n)" by (simp add: c_defs)
          from a [OF this] a0 show ?case unfolding Let_def by (simp only: if_False kbind_kret) (intro crash_bind [OF crash_unread [OF P]] crash_ret, simp)
        qed
      qed (simp add: c_defs)
      then show ?thesis unfolding x i(2) using False less lt n(1) by (simp add: Let_def kbind_kret)
    qed
  qed
  then show ?thesis by simp
qed

section \<open>readi\<close>

text \<open>The number of blocks that \<open>n\<close> bytes from offset \<open>off\<close> touch.\<close>

definition nblocks :: "nat \<Rightarrow> nat \<Rightarrow> nat" where
  "nblocks off n = (if n = 0 then 0 else (off + n - 1) div BSIZE - off div BSIZE + 1)"

lemma nblocks_step:
  assumes "0 < n" and "m = min n (BSIZE - off mod BSIZE)"
  shows "nblocks off n = Suc (nblocks (off + m) (n - m))"
proof -
  define q r where "q = off div BSIZE" and "r = off mod BSIZE"
  have off: "off = BSIZE * q + r" and r: "r < BSIZE" by (simp_all add: q_def r_def)
  have d: "(BSIZE * q + x) div BSIZE = q + x div BSIZE" for x by simp
  have od: "off div BSIZE = q" "off mod BSIZE = r" by (simp_all add: q_def r_def)
  show ?thesis
  proof (cases "n \<le> BSIZE - r")
    case True
    then have "off + n - 1 = BSIZE * q + (r + n - 1)" "r + n - 1 < BSIZE" using assms(1) r off by linarith+
    then have "(off + n - 1) div BSIZE = q" using d [of "r + n - 1"] by simp
    then show ?thesis using assms True by (simp add: nblocks_def od)
  next
    case False
    then have m: "m = BSIZE - r" "n - m \<noteq> 0" "off + m + (n - m) = off + n" using assms(2) od by simp_all
    have 1: "off + m = BSIZE * q + BSIZE" using m(1) r off by linarith
    have 2: "off + n - 1 = BSIZE * q + (r + n - 1)" "BSIZE \<le> r + n - 1" using False assms(1) r off by linarith+
    have "(off + m) div BSIZE = q + 1" unfolding 1 d by simp
    moreover have "(off + n - 1) div BSIZE = q + (r + n - 1) div BSIZE" unfolding 2(1) d ..
    moreover have "1 \<le> (r + n - 1) div BSIZE" using div_le_mono [OF 2(2), of BSIZE] by simp
    ultimately show ?thesis using assms(1) m(2,3) by (simp add: nblocks_def od)
  qed
qed

definition readi_body :: "nat \<Rightarrow> u32 \<Rightarrow> u32 \<times> u32 \<times> kptr \<times> bytes \<Rightarrow> (world, (u32 \<times> u32 \<times> kptr \<times> bytes) + u32 \<times> bytes) kmon" where
  "readi_body ip n = (\<lambda>(tot, off, dst, lbuf).
       if tot < n then
         kbind (bmap ip (off div BSIZE)) (\<lambda>addr.
         kbind (atom (get_inode ip)) (\<lambda>i.
         kbind (bread (i_dev i) addr) (\<lambda>bp.
         let m = rw_chunk n tot off in
         kbind (atom (get_buf bp)) (\<lambda>x.
         kbind (atom (either_copyout dst lbuf (\<lambda>j. b_data x (unat (off mod BSIZE) + j)) (ucast m))) (\<lambda>(r, lbuf).
         if r = -1 then kbind (atom (brelse bp)) (\<lambda>_. kret (Inr (-1, lbuf)))
         else
         kbind (atom (brelse bp)) (\<lambda>_.
         kret (Inl (tot + m, off + m, kptr_add dst (ucast m), lbuf))))))))
       else kret (Inr (tot, lbuf)))"

lemmas readi_body_run = fun_cong [OF readi_body_def, of _ _ "(tot, off, dst, lbuf)" for tot off dst lbuf, unfolded prod.case]

lemma readi_unfold:
  "readi ip dst lbuf off n =
     kbind (atom (get_inode ip)) (\<lambda>i.
     if off > i_size i \<or> off + n < off then kret (0, lbuf)
     else
     let n = (if off + n > i_size i then i_size i - off else n) in
     kbind (kiter (unat n + 1) (readi_body ip n) (0, off, dst, lbuf)) (\<lambda>(tot, lbuf).
     kret (sint tot, lbuf)))"
  unfolding readi_def readi_body_def ..

text \<open>The local buffer after \<open>n\<close> bytes from offset \<open>off\<close> of the file have been copied to \<open>o1\<close>.\<close>

abbreviation got_bytes :: "bytes \<Rightarrow> nat \<Rightarrow> (nat \<Rightarrow> u8 list) \<Rightarrow> inode \<Rightarrow> nat \<Rightarrow> nat \<Rightarrow> bytes" where
  "got_bytes lbuf o1 V i off n \<equiv> blit lbuf o1 (fbyte V i) off n"

lemma blit_eqI:
  assumes "\<And>j. j < n \<Longrightarrow> b (s + j) = b' (s' + j)"
  shows "blit a d b s n = blit a d b' s' n"
proof (rule ext)
  fix j show "blit a d b s n j = blit a d b' s' n j"
  proof (cases "d \<le> j \<and> j < d + n")
    case True
    then have "j - d < n" by linarith
    from assms [OF this] show ?thesis unfolding blit_def if_P [OF True] .
  qed (auto simp: blit_def)
qed

lemma blit_blit:
  "blit (blit a d b s m) (d + m) (\<lambda>j. b (s + m + j)) 0 n = blit a d b s (m + n)"
  by (auto simp: blit_def fun_eq_iff add.assoc)

lemma block_offset:
  fixes a :: nat
  assumes "a mod BSIZE + j < BSIZE"
  shows "(a + j) div BSIZE = a div BSIZE" and "(a + j) mod BSIZE = a mod BSIZE + j"
proof -
  have e: "a + j = BSIZE * (a div BSIZE) + (a mod BSIZE + j)" using mult_div_mod_eq [of BSIZE a] by linarith
  have "(BSIZE * x + y) div BSIZE = x + y div BSIZE" "(BSIZE * x + y) mod BSIZE = y mod BSIZE" for x y :: nat by simp_all
  then show "(a + j) div BSIZE = a div BSIZE" "(a + j) mod BSIZE = a mod BSIZE + j"
    unfolding e using assms by (simp_all only: div_less mod_less add_0_right)
qed

lemma crash_copy_local:
  assumes "unat (w :: u32) = m" and "m \<le> BSIZE"
  shows "crash_ok t 0 (cv p dev s) (atom (either_copyout (LocalP o1) lbuf src (ucast w)))
      (\<lambda>r k. r = (0, blit lbuf o1 src 0 m) \<and> cv p dev s k) C"
proof (rule crash_atom)
  fix k assume k: "cv p dev s k"
  have u: "unat (ucast (ucast w :: u64) :: u32) = m" using assms(1) by (simp add: unsigned_ucast_eq take_bit_word_eq_self)
  have "cv p dev s (k\<lparr>mach := ppm (mach k)\<rparr>)" by (rule cv_mach [OF k]) (use cvD(1) [OF k] in simp)
  then show "\<exists>x k'. either_copyout (LocalP o1) lbuf src (ucast w) k = Ret x k' \<and> x = (0, blit lbuf o1 src 0 m) \<and> cv p dev s k'"
    by (simp add: either_copyout_def run_simps memmove_from_blit u)
qed

lemma crash_readi_chunk:
  assumes t: "disk_serves p t" and P: "pinned ls dev {..<logged (cG s)} s" and Z: "Z (cD s)"
    and i: "snd (cF s) ip = i" "i_dev i = dev" "file_ok (cV s) i"
    and tot: "tot < n" and off: "unat off + (unat n - unat tot) \<le> unat (i_size i)"
  defines "m \<equiv> min (unat n - unat tot) (BSIZE - unat off mod BSIZE)"
  shows "crash_ok t 2 (cv p dev s) (readi_body ip n (tot, off, LocalP o1, lbuf))
     (\<lambda>r k. r = Inl (tot + of_nat m, off + of_nat m, LocalP (o1 + m), got_bytes lbuf o1 (cV s) i (unat off) m) \<and> cv p dev s k) (\<lambda>k. Z (blk (disk k)))"
proof -
  let ?q = "unat off div BSIZE" and ?C = "\<lambda>k. Z (blk (disk k))"
  let ?a = "faddr (cV s) i ?q"
  have nt: "0 < unat n - unat tot" using tot by (simp add: word_less_nat_alt)
  have q: "BSIZE * ?q < unat (i_size i)" using off nt by (meson add_leD1 le_less_trans less_add_same_cancel1 less_le_trans times_div_less_eq_dividend)
  have a: "unat ?a < 2 ^ 31" using i(3) q by (auto simp: file_ok_def usable_def)
  have "unat (i_size i) \<le> BSIZE * MAXFILE" by (rule file_ok_size [OF i(3)])
  then have small: "m \<le> BSIZE" "0 < m" "unat off < 2 ^ 31" using nt off by (auto simp: m_def)
  have om: "unat (off mod BSIZE) = unat off mod BSIZE" "unat (off div BSIZE) = ?q" by (simp_all add: unat_mod unat_div)
  have u: "unat (of_nat m :: u32) = m" using small(1) by (intro u32_small) simp
  have u64: "unat (ucast (of_nat m :: u32) :: u64) = m" using u small(1) by (simp add: unsigned_ucast_eq take_bit_nat_eq_self)
  have ch: "rw_chunk n tot off = of_nat m"
  proof -
    have "unat (n - tot) = unat n - unat tot" using tot by (intro unat_sub) simp
    moreover have "unat (BSIZE - off mod BSIZE) = BSIZE - unat off mod BSIZE"
      by (subst unat_sub) (simp_all add: word_le_nat_alt unat_mod)
    ultimately have "unat (rw_chunk n tot off) = m" by (simp add: rw_chunk_def m_def min_def word_le_nat_alt)
    then show ?thesis using u by (simp only: word_unat_eq_iff)
  qed
  have "crash_ok t (1 + (0 + (1 + (0 + (0 + (0 + 0)))))) (cv p dev s) (readi_body ip n (tot, off, LocalP o1, lbuf))
     (\<lambda>r k. r = Inl (tot + of_nat m, off + of_nat m, LocalP (o1 + m), got_bytes lbuf o1 (cV s) i (unat off) m) \<and> cv p dev s k) ?C"
    unfolding readi_body_run if_P [OF tot] ch Let_def
  proof (rule crash_bind [OF crash_bmap [where Z = Z, OF t P Z i q om(2)]], rule crash_fact, rule crash_bind [OF crash_inode], rule crash_fact, goal_cases)
    case (1 addr x)
    then have x: "addr = ?a" "i_dev x = dev" using i(1,2) by simp_all
    show ?case unfolding x
    proof (rule crash_bind [OF crash_bread [where Z = Z, OF t P a Z]], rule crash_bind [OF crash_get [where n = "unat ?a"]], goal_cases)
      case (2 b y)
      show ?case
      proof (rule crash_fact, rule crash_bind [OF crash_copy_local [OF u small(1)]], rule crash_fact, goal_cases)
        case (1 r)
        then have y: "bdata y = cV s (unat ?a)" and r: "r = (0, blit lbuf o1 (\<lambda>j. b_data y (unat (off mod BSIZE) + j)) 0 m)" by (simp_all add: c_defs)
        have "b_data y (unat off mod BSIZE + j) = fbyte (cV s) i (unat off + j)" if "j < m" for j
        proof -
          have "unat off mod BSIZE + j < BSIZE" using that unfolding m_def by linarith
          note b = this block_offset [OF this]
          show ?thesis using bdata_nth [OF b(1), of y] y by (simp only: fbyte_def b(2,3))
        qed
        then have "blit lbuf o1 (\<lambda>j. b_data y (unat (off mod BSIZE) + j)) 0 m = got_bytes lbuf o1 (cV s) i (unat off) m"
          unfolding om(1) by (intro blit_eqI) simp
        then show ?case unfolding r by (simp del: of_nat_Suc) (intro crash_bind [OF crash_unread [OF P], where d = 0, simplified] crash_ret, simp add: kptr_add_def u64)
      qed
    qed (simp add: c_defs)
  qed
  then show ?thesis by (simp add: numeral_2_eq_2)
qed

lemma unat32: "unat (x :: u32) < 2 ^ 32"
  using unat_less_length [of x] by simp

lemma sint_of_small:
  assumes "unat (x :: u32) = m" and "m < 2 ^ 31"
  shows "sint x = int m"
proof -
  have "uint x = int m" using assms(1) by (simp flip: assms(1))
  then show ?thesis using assms(2) by (simp add: sint_uint signed_take_bit_int_eq_self)
qed

lemma crash_readi_loop:
  assumes t: "disk_serves p t" and P: "pinned ls dev {..<logged (cG s)} s" and Z: "Z (cD s)"
    and i: "snd (cF s) ip = i" "i_dev i = dev" "file_ok (cV s) i"
  shows "\<lbrakk>tot \<le> n; unat off + (unat n - unat tot) \<le> unat (i_size i); unat n - unat tot < f\<rbrakk> \<Longrightarrow>
     crash_ok t (2 * nblocks (unat off) (unat n - unat tot)) (cv p dev s) (kiter f (readi_body ip n) (tot, off, LocalP o1, lbuf))
       (\<lambda>r k. r = (n, got_bytes lbuf o1 (cV s) i (unat off) (unat n - unat tot)) \<and> cv p dev s k) (\<lambda>k. Z (blk (disk k)))"
proof (induction f arbitrary: tot off o1 lbuf)
  case (Suc f)
  show ?case
  proof (cases "tot < n")
    case False
    then have e: "tot = n" using Suc.prems(1) by simp
    show ?thesis unfolding e kiter.simps readi_body_run by (simp add: nblocks_def kbind_kret) (rule crash_ret, simp)
  next
    case True
    define m where "m = min (unat n - unat tot) (BSIZE - unat off mod BSIZE)"
    have nt: "0 < unat n - unat tot" using True by (simp add: word_less_nat_alt)
    have sz: "unat (i_size i) \<le> BSIZE * MAXFILE" by (rule file_ok_size [OF i(3)])
    have m: "0 < m" "m \<le> unat n - unat tot" using nt by (simp_all add: m_def)
    have u: "unat (of_nat m :: u32) = m" using m(2) unat32 [of n] by (intro u32_small) linarith
    have tm: "unat (tot + of_nat m) = unat tot + m" using m(2) nt unat32 [of n] u by (simp add: unat_word_ariths)
    have om: "unat (off + of_nat m) = unat off + m" using m(2) Suc.prems(2) sz u by (simp add: unat_word_ariths)
    have r: "unat n - unat (tot + of_nat m) = unat n - unat tot - m" unfolding tm by simp
    have ih: "crash_ok t (2 * nblocks (unat off + m) (unat n - unat tot - m)) (cv p dev s)
       (kiter f (readi_body ip n) (tot + of_nat m, off + of_nat m, LocalP (o1 + m), got_bytes lbuf o1 (cV s) i (unat off) m))
       (\<lambda>r k. r = (n, got_bytes (got_bytes lbuf o1 (cV s) i (unat off) m) (o1 + m) (cV s) i (unat off + m) (unat n - unat tot - m)) \<and> cv p dev s k) (\<lambda>k. Z (blk (disk k)))"
      using Suc.IH [of "tot + of_nat m" "off + of_nat m" "o1 + m" "got_bytes lbuf o1 (cV s) i (unat off) m"] Suc.prems m nt
      unfolding r om by (simp add: word_le_nat_alt tm)
    have c: "2 * nblocks (unat off) (unat n - unat tot) = 2 + 2 * nblocks (unat off + m) (unat n - unat tot - m)"
      using nblocks_step [OF nt m_def] by simp
    have b: "got_bytes (got_bytes lbuf o1 (cV s) i (unat off) m) (o1 + m) (cV s) i (unat off + m) (unat n - unat tot - m) =
        got_bytes lbuf o1 (cV s) i (unat off) (unat n - unat tot)"
      using m(2) by (auto simp: blit_def fun_eq_iff)
    show ?thesis unfolding c kiter.simps
      by (rule crash_bind [OF crash_readi_chunk [where Z = Z, OF t P Z i True Suc.prems(2), folded m_def]], rule crash_fact)
         (use ih [unfolded b] in simp)
  qed
qed simp

lemma crash_readi:
  assumes t: "disk_serves p t" and P: "pinned ls dev {..<logged (cG s)} s" and Z: "Z (cD s)"
    and i: "snd (cF s) ip = i" "i_dev i = dev" "file_ok (cV s) i"
    and n: "unat off \<le> unat (i_size i)" "unat off + unat n < 2 ^ 32"
  defines "m \<equiv> min (unat n) (unat (i_size i) - unat off)"
  shows "crash_ok t (2 * nblocks (unat off) m) (cv p dev s) (readi ip (LocalP o1) lbuf off n)
     (\<lambda>r k. r = (int m, got_bytes lbuf o1 (cV s) i (unat off) m) \<and> cv p dev s k) (\<lambda>k. Z (blk (disk k)))"
proof -
  let ?n = "if off + n > i_size i then i_size i - off else n"
  have sum: "unat (off + n) = unat off + unat n" using n(2) by (simp add: unat_word_ariths)
  have g: "\<not> (off > i_size i \<or> off + n < off)" using n(1) sum by (simp add: word_less_nat_alt)
  have un: "unat ?n = m"
    using n(1) sum by (auto simp: m_def word_less_nat_alt unat_sub word_le_nat_alt min_def)
  have sz: "unat (i_size i) \<le> BSIZE * MAXFILE" by (rule file_ok_size [OF i(3)])
  have s: "sint ?n = int m"
  proof -
    have "m \<le> unat (i_size i)" by (simp add: m_def)
    then have "m < 2 ^ 31" using sz by simp
    then show ?thesis using un sint_of_small by metis
  qed
  have "crash_ok t (0 + (2 * nblocks (unat off) m + 0)) (cv p dev s) (readi ip (LocalP o1) lbuf off n)
     (\<lambda>r k. r = (int m, got_bytes lbuf o1 (cV s) i (unat off) m) \<and> cv p dev s k) (\<lambda>k. Z (blk (disk k)))"
    unfolding readi_unfold
  proof (rule crash_bind [OF crash_inode], rule crash_fact, goal_cases)
    case (1 x)
    then have x: "x = i" using i(1) by simp
    have l: "crash_ok t (2 * nblocks (unat off) m) (cv p dev s) (kiter (unat ?n + 1) (readi_body ip ?n) (0, off, LocalP o1, lbuf))
       (\<lambda>r k. r = (?n, got_bytes lbuf o1 (cV s) i (unat off) m) \<and> cv p dev s k) (\<lambda>k. Z (blk (disk k)))"
      using crash_readi_loop [where Z = Z, OF t P Z i, of 0 ?n off "unat ?n + 1" o1 lbuf] n(1) unfolding un by (simp add: m_def)
    show ?case unfolding x if_not_P [OF g] Let_def
      by (rule crash_bind [OF l], rule crash_fact) (simp only: prod.case s, rule crash_ret, simp)
  qed
  then show ?thesis by simp
qed

section \<open>iget\<close>

text \<open>The table and the entry after \<open>iget\<close>, or \<open>None\<close> when the table is full.\<close>

definition iget_tab :: "(nat \<Rightarrow> inode) \<Rightarrow> u32 \<Rightarrow> u32 \<Rightarrow> (nat \<times> (nat \<Rightarrow> inode)) option" where
  "iget_tab tab dev inum = (case iget_scan tab dev inum [0..<NINODE] None of
     Inr ip \<Rightarrow> Some (ip, tab(ip := (tab ip)\<lparr>i_ref := i_ref (tab ip) + 1\<rparr>))
   | Inl None \<Rightarrow> None
   | Inl (Some ip) \<Rightarrow> Some (ip, tab(ip := (tab ip)\<lparr>i_dev := dev, i_inum := inum, i_ref := 1, i_valid := False\<rparr>)))"

text \<open>No inode has two entries in use.\<close>

definition itable_ok :: "(nat \<Rightarrow> inode) \<Rightarrow> bool" where
  "itable_ok tab \<longleftrightarrow> (\<forall>a < NINODE. \<forall>b < NINODE. 0 < i_ref (tab a) \<longrightarrow> 0 < i_ref (tab b) \<longrightarrow> i_dev (tab a) = i_dev (tab b) \<longrightarrow>
     i_inum (tab a) = i_inum (tab b) \<longrightarrow> a = b)"

lemma iget_scan_found:
  "iget_scan tab dev inum ips e = Inr ip \<Longrightarrow> ip \<in> set ips \<and> 0 < i_ref (tab ip) \<and> i_dev (tab ip) = dev \<and> i_inum (tab ip) = inum"
  by (induction ips arbitrary: e) (auto split: if_splits)

lemma iget_scan_empty:
  "iget_scan tab dev inum ips e = Inl (Some ip) \<Longrightarrow> (e = Some ip \<or> ip \<in> set ips \<and> i_ref (tab ip) = 0) \<and>
     (\<forall>a \<in> set ips. \<not> (0 < i_ref (tab a) \<and> i_dev (tab a) = dev \<and> i_inum (tab a) = inum))"
  by (induction ips arbitrary: e) (auto split: if_splits)

lemma iget_tab_ok:
  assumes "iget_tab tab dev inum = Some (ip, tab')" and "itable_ok tab"
  shows "ip < NINODE \<and> 0 < i_ref (tab' ip) \<and> i_dev (tab' ip) = dev \<and> i_inum (tab' ip) = inum \<and> (\<forall>a. a \<noteq> ip \<longrightarrow> tab' a = tab a) \<and> itable_ok tab'"
proof (cases "iget_scan tab dev inum [0..<NINODE] None")
  case (Inl e)
  then obtain a where e: "e = Some a" using assms(1) by (cases e) (auto simp: iget_tab_def)
  note s = iget_scan_empty [OF Inl [unfolded e]]
  have i: "ip = a" "tab' = tab(a := (tab a)\<lparr>i_dev := dev, i_inum := inum, i_ref := 1, i_valid := False\<rparr>)"
    using assms(1) unfolding iget_tab_def Inl e by auto
  have n: "\<not> (0 < i_ref (tab x) \<and> i_dev (tab x) = dev \<and> i_inum (tab x) = inum)" if "x < NINODE" for x using s that by (auto simp del: upt_rec_numeral)
  have "itable_ok tab'" using assms(2) n unfolding itable_ok_def i by auto
  then show ?thesis using s i by (auto simp del: upt_rec_numeral)
next
  case (Inr a)
  note s = iget_scan_found [OF Inr]
  have i: "ip = a" "tab' = tab(a := (tab a)\<lparr>i_ref := i_ref (tab a) + 1\<rparr>)" using assms(1) unfolding iget_tab_def Inr by auto
  have "itable_ok tab'" using assms(2) s unfolding itable_ok_def i by auto
  then show ?thesis using s i by (auto simp del: upt_rec_numeral)
qed

lemma cbuf_fs: "cbuf q dev (s\<lparr>cF := g\<rparr>) x = cbuf q dev s x"
  by (simp add: cbuf_def Let_def)

lemma cv_inodes:
  assumes "cv p dev s k"
  shows "cv p dev (s\<lparr>cF := (fst (cF s), T)\<rparr>) (k\<lparr>inodes := T\<rparr>)"
proof -
  have "fsv (k\<lparr>inodes := T\<rparr>) = (fst (cF s), T)" using arg_cong [OF cvD(13) [OF assms], of fst] by (simp add: fsv_def)
  then show ?thesis using assms unfolding cv_def bcache_list_def by (simp add: cbuf_fs)
qed

lemma crash_iget:
  assumes "iget_tab (snd (cF s)) d inum = Some (ip, tab')"
  shows "crash_ok t 0 (cv p dev s) (atom (iget d inum)) (\<lambda>r k. r = ip \<and> cv p dev (s\<lparr>cF := (fst (cF s), tab')\<rparr>) k) C"
proof (rule crash_atom)
  fix k assume k: "cv p dev s k"
  have tab: "inodes k = snd (cF s)" using arg_cong [OF cvD(13) [OF k], of snd] by (simp add: fsv_def)
  have f: "free_lock lk (mach k)" for lk by (rule quietD(1) [OF cvD(1) [OF k]])
  have "iget d inum k = Ret ip (k\<lparr>inodes := tab', mach := ppm (mach k)\<rparr>)"
  proof (cases "iget_scan (snd (cF s)) d inum [0..<NINODE] None")
    case (Inl e)
    then obtain a where e: "e = Some a" using assms by (cases e) (auto simp: iget_tab_def)
    show ?thesis using assms f unfolding iget_def iget_tab_def Inl e by (simp add: run_simps tab Inl e del: upt_rec_numeral) auto
  next
    case (Inr a)
    then show ?thesis using assms f unfolding iget_def iget_tab_def by (simp add: run_simps tab del: upt_rec_numeral) auto
  qed
  moreover have "cv p dev (s\<lparr>cF := (fst (cF s), tab')\<rparr>) (k\<lparr>inodes := tab', mach := ppm (mach k)\<rparr>)"
    using cv_mach [OF cv_inodes [OF k, of tab'], of "ppm (mach k)"] cvD(1) [OF k] by simp
  ultimately show "\<exists>x k'. iget d inum k = Ret x k' \<and> x = ip \<and> cv p dev (s\<lparr>cF := (fst (cF s), tab')\<rparr>) k'" by blast
qed

section \<open>dirlookup\<close>

text \<open>The entries of a directory: inode numbers, 0 in the free ones, and names.\<close>

definition entry_inum :: "(nat \<Rightarrow> u8 list) \<Rightarrow> inode \<Rightarrow> nat \<Rightarrow> u16" where
  "entry_inum V i e = ld16 (\<lambda>j. fbyte V i (16 * e + j)) 0"

definition entry_name :: "(nat \<Rightarrow> u8 list) \<Rightarrow> inode \<Rightarrow> nat \<Rightarrow> bytes" where
  "entry_name V i e = cname (\<lambda>j. fbyte V i (16 * e + (2 + j)))"

definition dir_find :: "(nat \<Rightarrow> u8 list) \<Rightarrow> inode \<Rightarrow> bytes \<Rightarrow> nat option" where
  "dir_find V i nm = find (\<lambda>e. entry_inum V i e \<noteq> 0 \<and> entry_name V i e = cname nm) [0..<unat (i_size i) div 16]"

definition dir_body :: "nat \<Rightarrow> bytes \<Rightarrow> u32 \<Rightarrow> (world, u32 + (nat \<times> u32) option) kmon" where
  "dir_body dp name off =
       kbind (atom (get_inode dp)) (\<lambda>d.
       if off < i_size d then
         kbind (readi dp (LocalP 0) (\<lambda>_. 0) off SIZEOF_DIRENT) (\<lambda>(r, de).
         if r \<noteq> SIZEOF_DIRENT then kpanic ''dirlookup read''
         else if de_inum de = 0 then kret (Inl (off + SIZEOF_DIRENT))
         else if namecmp name (de_name de) = 0 then
           kbind (atom (get_inode dp)) (\<lambda>d.
           kbind (atom (iget (i_dev d) (ucast (de_inum de)))) (\<lambda>ip.
           kret (Inr (Some (ip, off)))))
         else kret (Inl (off + SIZEOF_DIRENT)))
       else kret (Inr None))"

lemma dirlookup_unfold:
  "dirlookup dp name =
     kbind (atom (get_inode dp)) (\<lambda>d.
     if i_type d \<noteq> T_DIR then kpanic ''dirlookup not DIR''
     else kiter INT_ROUNDS (dir_body dp name) 0)"
  unfolding dirlookup_def dir_body_def ..

definition matched :: "(nat \<Rightarrow> u8 list) \<Rightarrow> inode \<Rightarrow> bytes \<Rightarrow> nat \<Rightarrow> bool" where
  "matched V i nm e \<longleftrightarrow> entry_inum V i e \<noteq> 0 \<and> entry_name V i e = cname nm"

lemma dir_find_None: "\<forall>e < unat (i_size i) div 16. \<not> matched V i nm e \<Longrightarrow> dir_find V i nm = None"
  by (auto simp: dir_find_def find_None_iff matched_def)

lemma dir_find_Some:
  assumes "e < unat (i_size i) div 16" and "matched V i nm e" and "\<forall>a < e. \<not> matched V i nm a"
  shows "dir_find V i nm = Some e"
  unfolding dir_find_def find_Some_iff by (intro exI [of _ e]) (use assms in \<open>auto simp: matched_def\<close>)

text \<open>A directory inode of device \<open>dev\<close> whose size is a number of entries.\<close>

definition dir_ok :: "u32 \<Rightarrow> (nat \<Rightarrow> u8 list) \<Rightarrow> inode \<Rightarrow> bool" where
  "dir_ok dev V i \<longleftrightarrow> i_type i = T_DIR \<and> i_dev i = dev \<and> file_ok V i \<and> 16 dvd unat (i_size i)"

text \<open>What \<open>readi\<close> delivers of an entry.\<close>

abbreviation entry_bytes :: "(nat \<Rightarrow> u8 list) \<Rightarrow> inode \<Rightarrow> nat \<Rightarrow> bytes" where
  "entry_bytes V i e \<equiv> got_bytes (\<lambda>_. 0) 0 V i (16 * e) 16"

lemma ld16_cong: "(\<And>i. i < 2 \<Longrightarrow> m (a + i) = m' (b + i)) \<Longrightarrow> ld16 m a = ld16 m' b"
  unfolding ld16_def by (subst le_nat_cong [of 2 m a m' b]) auto

lemma entry_bytes_inum: "de_inum (entry_bytes V i e) = entry_inum V i e"
  unfolding de_inum_def entry_inum_def by (rule ld16_cong) simp

lemma entry_bytes_name: "namecmp nm (de_name (entry_bytes V i e)) = 0 \<longleftrightarrow> entry_name V i e = cname nm"
proof -
  have "cname (de_name (entry_bytes V i e)) = entry_name V i e"
    unfolding entry_name_def by (rule cname_cong) (simp add: de_name_def)
  then show ?thesis by (auto simp: namecmp_eq)
qed

lemma nblocks_entry: "nblocks (16 * e) 16 = 1"
proof -
  have "16 * e mod BSIZE = 16 * (e mod 64)" using mult_mod_right [of 16 e 64] by simp
  moreover have "e mod 64 \<le> 63" using mod_less_divisor [of 64 e] by linarith
  ultimately have "16 * e mod BSIZE + 15 < BSIZE" by linarith
  from block_offset(1) [OF this] show ?thesis by (simp add: nblocks_def)
qed

lemma entry_offset:
  assumes "dir_ok dev V i" and "e \<le> unat (i_size i) div 16"
  shows "unat (of_nat (16 * e) :: u32) = 16 * e" and "16 * e \<le> unat (i_size i)"
    and "(of_nat (16 * e) :: u32) < i_size i \<longleftrightarrow> e < unat (i_size i) div 16"
proof -
  have s: "16 * (unat (i_size i) div 16) = unat (i_size i)" using assms(1) by (simp add: dir_ok_def)
  then show l: "16 * e \<le> unat (i_size i)" using assms(2) by linarith
  then show u: "unat (of_nat (16 * e) :: u32) = 16 * e" using unat32 [of "i_size i"] by (intro u32_small) linarith
  show "(of_nat (16 * e) :: u32) < i_size i \<longleftrightarrow> e < unat (i_size i) div 16"
    unfolding word_less_nat_alt u using s by linarith
qed

lemma crash_dir_entry:
  assumes t: "disk_serves p t" and P: "pinned ls dev {..<logged (cG s)} s" and Z: "Z (cD s)"
    and i: "snd (cF s) dp = i" "dir_ok dev (cV s) i" and e: "e < unat (i_size i) div 16"
    and hit: "matched (cV s) i name e \<Longrightarrow> iget_tab (snd (cF s)) dev (ucast (entry_inum (cV s) i e)) = Some (ip, tab')"
  shows "crash_ok t 2 (cv p dev s) (dir_body dp name (of_nat (16 * e)))
     (\<lambda>r k. if matched (cV s) i name e then r = Inr (Some (ip, of_nat (16 * e))) \<and> cv p dev (s\<lparr>cF := (fst (cF s), tab')\<rparr>) k
        else r = Inl (of_nat (16 * Suc e)) \<and> cv p dev s k) (\<lambda>k. Z (blk (disk k)))"
proof -
  let ?off = "of_nat (16 * e) :: u32" and ?de = "entry_bytes (cV s) i e"
  let ?Q = "\<lambda>r k. if matched (cV s) i name e then r = Inr (Some (ip, ?off)) \<and> cv p dev (s\<lparr>cF := (fst (cF s), tab')\<rparr>) k
        else r = Inl (of_nat (16 * Suc e)) \<and> cv p dev s k"
  note o = entry_offset [OF i(2) less_imp_le [OF e]]
  have d: "i_dev i = dev" "file_ok (cV s) i" using i(2) by (simp_all add: dir_ok_def)
  have "16 * Suc e \<le> unat (i_size i)" by (rule entry_offset(2) [OF i(2)]) (use e in simp)
  then have m: "min (unat (16 :: u32)) (unat (i_size i) - 16 * e) = 16" by simp
  have sz: "unat ?off + unat (16 :: u32) < 2 ^ 32" using o(1,2) file_ok_size [OF d(2)] by simp
  have next_off: "?off + 16 = of_nat (16 * Suc e)" by simp
  have r: "crash_ok t 2 (cv p dev s) (readi dp (LocalP 0) (\<lambda>_. 0) ?off 16) (\<lambda>r k. r = (16, ?de) \<and> cv p dev s k) (\<lambda>k. Z (blk (disk k)))"
    using crash_readi [where Z = Z, OF t P Z i(1) d _ sz, of 0 "\<lambda>_. 0"] o(2) unfolding o(1) m nblocks_entry by simp
  have "crash_ok t (0 + (2 + (0 + (0 + 0)))) (cv p dev s) (dir_body dp name ?off) ?Q (\<lambda>k. Z (blk (disk k)))"
    unfolding dir_body_def
  proof (rule crash_bind [OF crash_inode], rule crash_fact, goal_cases)
    case (1 x)
    then have x: "?off < i_size x" using o(3) e i(1) by simp
    show ?case unfolding if_P [OF x]
    proof (rule crash_bind [OF r], rule crash_fact, goal_cases)
      case (1 y)
      show ?case
      proof (cases "matched (cV s) i name e")
        case False
        then have "(if de_inum ?de = 0 then kret (Inl (?off + 16)) else if namecmp name (de_name ?de) = 0 then f else kret (Inl (?off + 16))) =
            kret (Inl (of_nat (16 * Suc e)))" for f :: "(world, u32 + (nat \<times> u32) option) kmon"
          unfolding next_off by (auto simp: entry_bytes_inum entry_bytes_name matched_def)
        then show ?thesis using False unfolding 1 by (simp only: prod.case simp_thms if_False add_0_right) (rule crash_ret, simp)
      next
        case True
        then have "de_inum ?de \<noteq> 0" "namecmp name (de_name ?de) = 0" by (simp_all add: entry_bytes_inum entry_bytes_name matched_def)
        then show ?thesis using True unfolding 1
        proof (simp only: prod.case simp_thms if_False if_True, intro crash_bind [OF crash_inode] crash_fact, goal_cases)
          case (1 y)
          then have y: "i_dev y = dev" using i(1) d(1) by simp
          show ?case unfolding y entry_bytes_inum
            by (rule crash_bind [OF crash_iget [OF hit [OF True]]], rule crash_fact, rule crash_ret) simp
        qed
      qed
    qed
  qed
  then show ?thesis by (simp only: add_0 add_0_right)
qed

lemma crash_dir_end:
  assumes "snd (cF s) dp = i" and "dir_ok dev (cV s) i"
  shows "crash_ok t 0 (cv p dev s) (dir_body dp name (of_nat (16 * (unat (i_size i) div 16)))) (\<lambda>r k. r = Inr None \<and> cv p dev s k) C"
proof -
  have n: "\<not> (of_nat (16 * (unat (i_size i) div 16)) :: u32) < i_size i" using entry_offset(3) [OF assms(2) le_refl] by blast
  have "crash_ok t (0 + 0) (cv p dev s) (dir_body dp name (of_nat (16 * (unat (i_size i) div 16)))) (\<lambda>r k. r = Inr None \<and> cv p dev s k) C"
    unfolding dir_body_def
    by (rule crash_bind [OF crash_inode], rule crash_fact) (simp only: assms(1) n if_False, rule crash_ret, simp)
  then show ?thesis by simp
qed

lemma crash_dirlookup:
  assumes t: "disk_serves p t" and P: "pinned ls dev {..<logged (cG s)} s" and Z: "Z (cD s)"
    and i: "snd (cF s) dp = i" "dir_ok dev (cV s) i" and room: "\<And>inum. iget_tab (snd (cF s)) dev inum \<noteq> None"
  shows "crash_ok t (2 * (unat (i_size i) div 16)) (cv p dev s) (dirlookup dp name)
     (\<lambda>r k. case dir_find (cV s) i name of
         None \<Rightarrow> r = None \<and> cv p dev s k
       | Some e \<Rightarrow> \<exists>ip tab'. iget_tab (snd (cF s)) dev (ucast (entry_inum (cV s) i e)) = Some (ip, tab') \<and> r = Some (ip, of_nat (16 * e)) \<and>
           cv p dev (s\<lparr>cF := (fst (cF s), tab')\<rparr>) k) (\<lambda>k. Z (blk (disk k)))"
  (is "crash_ok t (2 * ?L) _ _ ?Q ?C")
proof -
  have loop: "crash_ok t (2 * (?L - e)) (cv p dev s) (kiter f (dir_body dp name) (of_nat (16 * e))) ?Q ?C"
    if "e \<le> ?L" "?L - e < f" "\<forall>a < e. \<not> matched (cV s) i name a" for e f
    using that
  proof (induction "?L - e" arbitrary: e f)
    case 0
    then obtain g where f: "f = Suc g" and e: "e = ?L" by (cases f) auto
    have "dir_find (cV s) i name = None" using 0(4) unfolding e by (rule dir_find_None)
    then have Q: "?Q = (\<lambda>r k. r = None \<and> cv p dev s k)" by simp
    have "crash_ok t (0 + 0) (cv p dev s) (kiter (Suc g) (dir_body dp name) (of_nat (16 * ?L))) (\<lambda>r k. r = None \<and> cv p dev s k) ?C"
      unfolding kiter.simps by (rule crash_bind [OF crash_dir_end [OF i]], rule crash_fact) (simp, rule crash_ret, simp)
    then show ?case unfolding Q f e by simp
  next
    case (Suc n)
    then obtain g where f: "f = Suc g" by (cases f) auto
    have e: "e < ?L" using Suc.hyps(2) by simp
    obtain ip tab' where h: "iget_tab (snd (cF s)) dev (ucast (entry_inum (cV s) i e)) = Some (ip, tab')" using room by (metis not_None_eq prod.exhaust)
    note step = crash_dir_entry [where Z = Z and name = name, OF t P Z i e h]
    have c: "2 * (?L - e) = 2 + 2 * (?L - Suc e)" using e by simp
    show ?case
    proof (cases "matched (cV s) i name e")
      case True
      then have d: "dir_find (cV s) i name = Some e" using dir_find_Some e Suc.prems(3) by blast
      have "crash_ok t (2 + 0) (cv p dev s) (kiter (Suc g) (dir_body dp name) (of_nat (16 * e))) ?Q ?C"
        unfolding kiter.simps
        by (rule crash_bind [OF step [unfolded if_P [OF True]]], rule crash_fact) (simp only: sum.case d option.case, rule crash_ret, use h in blast)
      then show ?thesis unfolding f c by (rule crash_more) simp
    next
      case False
      have "\<forall>a < Suc e. \<not> matched (cV s) i name a" using Suc.prems(3) False by (auto simp: less_Suc_eq)
      then have ih: "crash_ok t (2 * (?L - Suc e)) (cv p dev s) (kiter g (dir_body dp name) (of_nat (16 * Suc e))) ?Q ?C"
        using Suc.hyps(1) [of "Suc e" g] Suc.hyps(2) Suc.prems(2) f e by auto
      show ?thesis unfolding f c kiter.simps
        by (rule crash_bind [OF step [unfolded if_not_P [OF False]]], rule crash_fact) (simp only: sum.case, rule ih)
    qed
  qed
  have "?L < INT_ROUNDS" using unat32 [of "i_size i"] by simp
  from loop [of 0 INT_ROUNDS] this have l: "crash_ok t (2 * ?L) (cv p dev s) (kiter INT_ROUNDS (dir_body dp name) 0) ?Q ?C" by (simp del: kiter.simps)
  have ty: "i_type i = T_DIR" using i(2) by (simp add: dir_ok_def)
  have "crash_ok t (0 + 2 * ?L) (cv p dev s) (dirlookup dp name) ?Q ?C"
    unfolding dirlookup_unfold
    by (rule crash_bind [OF crash_inode], rule crash_fact) (simp only: i(1) ty simp_thms if_False, rule l)
  then show ?thesis by simp
qed

section \<open>Property\<close>

lemma iget_scan_room: "iget_scan tab dev inum ips e = Inl None \<Longrightarrow> e = None \<and> (\<forall>a \<in> set ips. i_ref (tab a) \<noteq> 0)"
  by (induction ips arbitrary: e) (auto split: if_splits)

lemma iget_tab_room:
  assumes "a < NINODE" and "i_ref (tab a) = 0"
  shows "iget_tab tab dev inum \<noteq> None"
proof
  assume "iget_tab tab dev inum = None"
  then have "iget_scan tab dev inum [0..<NINODE] None = Inl None"
    by (auto simp: iget_tab_def split: sum.splits option.splits simp del: upt_rec_numeral)
  from iget_scan_room [OF this] show False using assms by (auto simp del: upt_rec_numeral)
qed

text \<open>
  C3: \<open>dirlookup\<close> finds names. In any state of a transaction, take a directory inode whose blocks are allocated and whose size is a
  number of entries, with its contents as seen through the buffer cache, direct and indirect blocks alike. Given two turns of the
  disk per entry, \<open>dirlookup\<close> returns: with the first entry in use whose name equals the name sought in its first
  \<open>DIRSIZ\<close> bytes, as the offset of the entry and a referenced slot of the inode table for its inode number; or
  with nothing when there is no such entry, and then the table is unchanged. The slot is the one the inode already had if it had
  one, so that no inode has two. It never panics, and fewer turns only suspend it.
\<close>

theorem dirlookup_finds:
  assumes "disk_serves p t" and "cv p dev s k" and "pinned ls dev {..<logged (cG s)} s" and "dir_ok dev (cV s) (inodes k dp)"
    and "itable_ok (inodes k)" and "\<exists>a < NINODE. i_ref (inodes k a) = 0"
  shows "case dirlookup dp name (k, replicate m t) of
      Ret r w \<Rightarrow>
        (case dir_find (cV s) (inodes k dp) name of
           None \<Rightarrow> r = None \<and> inodes (fst w) = inodes k
         | Some e \<Rightarrow> \<exists>ip < NINODE. r = Some (ip, of_nat (16 * e)) \<and> 0 < i_ref (inodes (fst w) ip) \<and> i_dev (inodes (fst w) ip) = dev \<and>
             i_inum (inodes (fst w) ip) = ucast (entry_inum (cV s) (inodes k dp) e) \<and> (\<forall>a. a \<noteq> ip \<longrightarrow> inodes (fst w) a = inodes k a) \<and>
             itable_ok (inodes (fst w)))
    | Switch w \<Rightarrow> m < 2 * (unat (i_size (inodes k dp)) div 16)
    | _ \<Rightarrow> False"
proof -
  have I: "snd (cF s) = inodes k" using arg_cong [OF cvD(13) [OF assms(2)], of snd] by (simp add: fsv_def)
  have room: "iget_tab (snd (cF s)) dev inum \<noteq> None" for inum using assms(6) iget_tab_room unfolding I by blast
  have fs: "inodes k' = snd (cF s')" if "cv p dev s' k'" for s' k' using arg_cong [OF cvD(13) [OF that], of snd] by (simp add: fsv_def)
  note c = crash_cases [OF crash_dirlookup [where Z = "\<lambda>_. True" and name = name, OF assms(1,3) TrueI _ _ room] assms(2), of dp "inodes k dp" m]
  note c' = c [unfolded I, OF refl assms(4)]
  show ?thesis
  proof (cases "dirlookup dp name (k, replicate m t)")
    case (Ret r w)
    show ?thesis
    proof (cases "dir_find (cV s) (inodes k dp) name")
      case None
      then show ?thesis using c' fs [of s "fst w"] I unfolding Ret by simp
    next
      case (Some e)
      obtain ip tab' where g: "iget_tab (inodes k) dev (ucast (entry_inum (cV s) (inodes k dp) e)) = Some (ip, tab')" "r = Some (ip, of_nat (16 * e))"
        "cv p dev (s\<lparr>cF := (fst (cF s), tab')\<rparr>) (fst w)" using c' unfolding Ret outcome.case Some option.case by blast
      have "inodes (fst w) = tab'" using fs [OF g(3)] by simp
      then show ?thesis using iget_tab_ok [OF g(1) assms(5)] g(2) unfolding Ret outcome.case Some option.case by blast
    qed
  qed (use c' in simp_all)
qed

text \<open>A directory with the entries \<open>.\<close> and \<open>a\<close> in block 46.\<close>

definition demo_dir_disk :: bytes where
  "demo_dir_disk j = (if j = 47104 then 1 else if j = 47106 then 46 else if j = 47120 then 2 else if j = 47122 then 97 else 0)"

definition demo_dir :: inode where
  "demo_dir = \<lparr>i_dev = 1, i_inum = 1, i_ref = 1, i_lock = \<lparr>sl_locked = True, sl_name = [], sl_pid = 0\<rparr>, i_valid = True, i_type = T_DIR, i_major = 0,
     i_minor = 0, i_nlink = 1, i_size = 32, i_addrs = (\<lambda>n. if n = 0 then 46 else 0)\<rparr>"

lemma demo_dir_bytes:
  assumes "j < 32"
  shows "fbyte (blk demo_dir_disk) demo_dir j = demo_dir_disk (47104 + j)"
  using assms by (simp add: fbyte_def faddr_def demo_dir_def blk_nth)

lemma demo_dir_find: "dir_find (blk demo_dir_disk) demo_dir (array_of [97]) = Some 1" "entry_inum (blk demo_dir_disk) demo_dir 1 = 2"
proof -
  let ?V = "blk demo_dir_disk"
  have n: "\<not> matched ?V demo_dir (array_of [97]) 0"
  proof -
    have "cname (\<lambda>j. fbyte ?V demo_dir (16 * 0 + (2 + j))) 0 \<noteq> cname (array_of [97]) 0" by (simp add: cname_def demo_dir_bytes demo_dir_disk_def array_of_def)
    then show ?thesis by (metis matched_def entry_name_def)
  qed
  have "le_nat f 0 2 = unat (f 0) + 256 * unat (f 1)" for f by (simp add: numeral_2_eq_2)
  then show inum: "entry_inum ?V demo_dir 1 = 2"
    by (simp add: entry_inum_def ld16_def demo_dir_bytes demo_dir_disk_def)
  have m: "matched ?V demo_dir (array_of [97]) 1"
    unfolding matched_def inum entry_name_def by (auto intro!: cname_cong simp: demo_dir_bytes demo_dir_disk_def array_of_def)
  show "dir_find ?V demo_dir (array_of [97]) = Some 1"
    by (rule dir_find_Some [OF _ m]) (use n in \<open>simp_all add: demo_dir_def\<close>)
qed

lemma demo_dir_ok: "dir_ok 1 V demo_dir"
proof -
  have "q = 0" if "BSIZE * q < unat (i_size demo_dir)" for q using that by (simp add: demo_dir_def)
  then have "file_ok V demo_dir" unfolding file_ok_def by (auto simp: demo_dir_def faddr_def usable_def)
  then show ?thesis by (simp add: dir_ok_def) (simp add: demo_dir_def)
qed

theorem dirlookup_finds_witness:
  "\<exists>k w ip. inodes k 0 = demo_dir \<and> disk k = demo_dir_disk \<and> dirlookup 0 (array_of [97]) (k, replicate 4 demo_turn) = Ret (Some (ip, 16)) w \<and>
     i_inum (inodes (fst w) ip) = 2"
proof -
  let ?T = "\<lambda>a. if a = 0 then demo_dir else demo_dir\<lparr>i_ref := 0\<rparr>" and ?V = "blk demo_dir_disk"
  have "ld32 (nth (blk demo_dir_disk 2)) 0 = ld32 (\<lambda>_. 0) 0" by (rule ld32_cong) (simp add: blk_nth demo_dir_disk_def)
  then have "hdr_n (blk demo_dir_disk 2) = 0" by (simp add: hdr_n_def lh_get_n_def ld32_def le_nat_zero)
  then obtain k s where k: "cv 3 1 s k" "idle 2 1 s" "cD s = ?V" "disk k = demo_dir_disk" using idle_kernel by blast
  let ?k = "k\<lparr>inodes := ?T\<rparr>" and ?s = "s\<lparr>cF := (fst (cF s), ?T)\<rparr>"
  have c: "cv 3 1 ?s ?k" by (rule cv_inodes [OF k(1)])
  have P: "pinned 2 1 {} s" "lh_n (cG s) = 0" using k(2) unfolding idle_def clean_def by blast+
  then have P': "pinned 2 1 {..<logged (cG ?s)} ?s" by (simp add: pinned_def)
  have V: "cV ?s = ?V" using P(1) k(3) by (simp add: pinned_def fun_eq_iff)
  have d: "dir_ok 1 (cV ?s) (inodes ?k 0)" unfolding V using demo_dir_ok by simp
  have "a = 0" if "0 < i_ref (?T a)" for a :: nat using that by (cases "a = 0") simp_all
  then have "itable_ok ?T" unfolding itable_ok_def by blast
  moreover have I: "inodes ?k = ?T" by simp
  ultimately have t: "itable_ok (inodes ?k)" by metis
  have r: "\<exists>a < NINODE. i_ref (inodes ?k a) = 0" by (rule exI [of _ 1]) simp
  have sz: "unat (i_size demo_dir) = 32" by (simp add: demo_dir_def)
  have "case dirlookup 0 (array_of [97]) (?k, replicate 4 demo_turn) of
      Ret r w \<Rightarrow> \<exists>ip. r = Some (ip, 16) \<and> i_inum (inodes (fst w) ip) = 2 | _ \<Rightarrow> False"
    using dirlookup_finds [OF demo_serves c P' d t r, of "array_of [97]" 4] unfolding V
    by (auto simp: demo_dir_find(1) demo_dir_find(2) [simplified] sz split: outcome.splits)
  then show ?thesis using k(4) by (intro exI [of _ ?k]) (auto split: outcome.splits)
qed

end
