(* ===== verification/Spec2Isabelle.thy ===== *)
theory Spec2Isabelle
  imports Trap Trampoline Transaction Grep ShellPrint Umalloc Ulib FileRead
begin

text \<open>
  A verification of the xv6 operating system for RISC-V as it stands in this repository: the kernel (\<open>kernel/\<close>),
  and the parts of the user-space programs that compute something (\<open>user/\<close>). The definitions translate the C code function by function; the lemmas say what the functions do, and the theorems
  marked \<open>C1\<close>, \<open>C2\<close>, ... state the properties that make the components correct, or where they are not.

  \<^bold>\<open>The program.\<close>
  The kernel runs on several harts. Spin locks protect its data; a process that waits gives its hart away in
  \<open>sleep\<close> until another calls \<open>wakeup\<close>. Physical pages come from a free list; page tables are trees of such pages, and
  system calls reach user memory through them. The file system is a stack: the virtio disk driver, the buffer cache, the write-ahead
  log that groups writes into transactions, inodes and their blocks, directories and path names, open files and pipes. Traps from
  user space come in through the trampoline page, are dispatched to the system calls, and return the same way. The console is
  fed by the UART's interrupts. User programs are linked with a small library, among it a memory allocator; the shell parses command lines
  and \<open>grep\<close> matches patterns.

  \<^bold>\<open>How code is modelled.\<close>
  Theory Prelude defines a state monad whose runs return a value, panic with a message, give the hart away, or hang
  (\<open>Ret\<close>, \<open>Panic\<close>, \<open>Switch\<close>, \<open>Hang\<close>). A C function that does not sleep is a value of
  type \<open>(kernel, 'a) kmon\<close>, or of \<open>(mach, 'a) kmon\<close> when it touches only registers and locks; \<open>on_mach\<close> lifts
  the latter. The record \<open>kernel\<close> (theory Kstate) holds every global variable of the kernel, physical memory and the disk.
  A function that may sleep is a \<open>(world, 'a) kmon\<close>, where a world is a kernel and a list of things the rest of the system does
  to it while the function is suspended in \<open>sched\<close>: each \<open>sleep\<close> takes the next, and the run ends in
  \<open>Switch\<close> when there is none. A run with few of them thus also shows the states in which a crash can find the machine.
  Machine integers are words of their width, and signed ones integers where the code stays in range. A C array is a function from
  offsets to bytes; memory is one, too. Pointers to kernel objects are indices into tables. A null or wild pointer access of the kernel is a
  panic, as the trap it causes ends in one.

  \<^bold>\<open>Loops, bounds and fuel.\<close>
  A loop is a recursive function where its recursion is structural, and \<open>kiter\<close> with a bound on its rounds otherwise. The bounds are
  those of the code: a 32-bit counter makes at most \<open>2^31\<close> rounds (\<open>INT_ROUNDS\<close>) before it overflows, \<open>namex\<close> at most one
  round per byte of the path, \<open>readi\<close> and \<open>writei\<close> at most one per byte, \<open>mappages\<close> and its kin at most \<open>MAXPAGES\<close>, the
  number of pages below \<open>MAXVA\<close>. Running out of rounds is \<open>Hang\<close>, and the theorems exclude it. In the user programs fuel is an argument: the
  parser of the shell needs \<open>4 n + 4\<close> for a line of \<open>n\<close> characters (\<open>parsecmd_total\<close>), and a call of \<open>malloc\<close> or \<open>free\<close> a few
  rounds per free block (\<open>malloc_loop_ok\<close>, \<open>free_run\<close>); that more fuel does not change a result is proved there.

  \<^bold>\<open>Foundations.\<close>
  \<^item> Prelude: machine integers, the monad and its laws, total-correctness and frame rules.
  \<^item> Machine (\<open>param.h\<close>, \<open>memlayout.h\<close>, \<open>riscv.h\<close>): parameters, addresses, page macros, loads and stores of little-endian words.
  \<^item> Hart (\<open>riscv.h\<close>, \<open>proc.h\<close>, \<open>spinlock.h\<close>): control registers of the harts, \<open>struct cpu\<close>, locks.
  \<^item> Kstate (the headers of the kernel): its structures and the record of its global state.
  \<^item> Cstring (\<open>string.c\<close>): \<open>memmove\<close> is right for all overlaps, \<open>safestrcpy\<close> always terminates its copy.
  \<^item> Ring: the interface of ring buffers with free-running counters, a locale interpreted on the pipe, the console and the UART.

  \<^bold>\<open>Locks, processes, memory.\<close>
  \<^item> Spinlock (\<open>spinlock.c\<close>): \<open>push_off\<close> and \<open>pop_off\<close> nest; no interleaving of harts puts two of them into a critical section.
  \<^item> Proc, Process (\<open>proc.c\<close>): process slots, \<open>sleep\<close> and \<open>wakeup\<close> (no wakeup is lost), \<open>kill\<close>, \<open>growproc\<close>, the scheduler, \<open>fork\<close>,
    \<open>exit\<close>, \<open>wait\<close>.
  \<^item> Sleeplock (\<open>sleeplock.c\<close>): the protocol of locks that sleep.
  \<^item> Kalloc (\<open>kalloc.c\<close>): the free list refines a set of pages; allocated pages are disjoint.
  \<^item> Vm (\<open>vm.c\<close>) holds the code; PageTable shows that \<open>mappages\<close> maps exactly its range, UserMem that \<open>copyin\<close>, \<open>copyout\<close> and
    \<open>copyinstr\<close> transfer exactly the bytes the page table allows.

  \<^bold>\<open>Disk, cache, log.\<close>
  \<^item> Virtio (\<open>virtio_disk.c\<close>) is the driver; Disk composes it with the device, whose behaviour is a parameter with its documented
    contract, and shows that a request transfers one block.
  \<^item> Bio (\<open>bio.c\<close>) is the buffer cache; Cache shows that it is a list in order of use with the last one recycled.
  \<^item> Log (\<open>log.c\<close>) is the log. Crash has triples with a crash condition and lifts the cache to blocks; Recovery and Transaction show
    that the log makes a transaction atomic, whatever the crash and however often recovery itself is interrupted.

  \<^bold>\<open>File system.\<close>
  \<^item> Inode and Dir (\<open>fs.c\<close>) hold the code from the super block to path names.
  \<^item> Blocks: allocating a block is right and atomic. FileRead: \<open>bmap\<close>, \<open>readi\<close> and \<open>iget\<close>, and with them \<open>dirlookup\<close>, which finds the first entry
    with a name. Path: \<open>namei\<close> and \<open>nameiparent\<close> walk along the names of the path.
  \<^item> File (\<open>file.c\<close>) has the table of open files; Pipe (\<open>pipe.c\<close>) refines a bounded queue of bytes.
  \<^item> Exec (\<open>exec.c\<close>), Sysfile (\<open>syscall.c\<close>, \<open>sysproc.c\<close>, \<open>sysfile.c\<close>): loading programs, and all system calls.

  \<^bold>\<open>Devices and traps.\<close>
  \<^item> Uart (\<open>uart.c\<close>), Console (\<open>console.c\<close>: \<open>consoleintr\<close> is a line editor), Printf (\<open>printf.c\<close>: \<open>printint\<close> prints every integer within its buffer).
  \<^item> Trap (\<open>trap.c\<close>, \<open>plic.c\<close>, \<open>start.c\<close>, \<open>main.c\<close>): dispatch of traps and interrupts, and the start of the machine.
  \<^item> Trampoline (\<open>trampoline.S\<close>): the two assembly routines instruction by instruction; they preserve the user's registers.

  \<^bold>\<open>User programs.\<close>
  \<^item> Grep (\<open>grep.c\<close>): the matcher decides the regular language of its pattern; the program prints the matching lines.
  \<^item> Shell, ShellPrint (\<open>sh.c\<close>): the parser ends on every line with a well-formed command or a panic, and reads back every printed command.
  \<^item> Ulib (\<open>ulib.c\<close>, \<open>printf.c\<close>): the string functions compute what they should; \<open>atoi\<close> reads what \<open>printf\<close> prints.
  \<^item> Umalloc (\<open>umalloc.c\<close>): blocks handed out never overlap, in every run of every program that frees what it holds.

  \<^bold>\<open>Assumptions.\<close>
  The virtio device answers a request by transferring the block it names and raising an interrupt (\<open>turn_ok\<close> and \<open>disk_serves\<close>, in terms of
  the device parameter). \<open>sbrk\<close> moves the break as documented (\<open>sbrk_ok\<close>). \<open>read\<close> delivers the input in pieces of any size (the
  parameter of \<open>grep\<close>). Each is met by a concrete function in the witness of the theorem that uses it.

  \<^bold>\<open>What the theorems found.\<close>
  \<open>log_overcommitted\<close>: three operations that \<open>begin_op\<close> admits together can overflow the log and panic the kernel. \<open>kill_zero_marks_free_slot\<close>:
  \<open>kill(0)\<close> succeeds and kills a process not yet born. \<open>growproc_below_zero\<close>: \<open>sbrk\<close> by less than minus the size reports
  success. \<open>piperead_loses_byte\<close>: a failed copy loses a byte of the pipe. \<open>malloc_huge_wraps\<close>: a request for four gigabytes is
  met with sixteen bytes. \<open>printf_long_truncates\<close>: \<open>%l\<close> prints only the lower half of its number.

  \<^bold>\<open>Not modelled.\<close>
  The assembly of \<open>entry.S\<close>, \<open>kernelvec.S\<close>, \<open>swtch.S\<close> and \<open>initcode.S\<close>, apart from the effect of \<open>swtch\<close> as the hand-over to the rest of the
  system: they set up stacks and move registers on stacks, which the model of C code does not have. The effects of caches, fences and the TLB, since harts interleave on
  one memory. \<open>ramdisk.c\<close> is not linked into the kernel. The user programs that only make system calls and print what they return
  (\<open>cat\<close>, \<open>echo\<close>, \<open>ls\<close>, \<open>init\<close> and so on), the test programs (\<open>usertests\<close>, \<open>grind\<close>, \<open>stressfs\<close>, \<open>forktest\<close>), whose
  only meaning is the kernel's behaviour, and in \<open>sh.c\<close> and \<open>grep.c\<close> the parts around the parser and the matcher.
  \<open>kernel.ld\<close>, \<open>usys.pl\<close> and the \<open>Makefile\<close> build the program and are not part of it.
\<close>

end
